(* ===== verification/Prelude.thy ===== *)
theory Prelude
  imports Main "HOL-Library.Word"
begin

section \<open>Prelude: shared types, automation and generic lemmas\<close>

text \<open>
  What every component of the development shares: the machine types of the C++ code, C
  strings, decimal rendering (what \<open>std::to_string\<close> and \<open>operator<<\<close> print for an integer),
  and \<open>std::map\<close> as an association list with distinct keys. The collections below carry the
  component proofs.
\<close>

named_theorems cxx_defs \<open>definitions a component unfolds to evaluate its code\<close>
named_theorems stdmap_simps \<open>rewriting of std::map operations\<close>

subsection \<open>Machine types and C strings\<close>

type_synonym u8 = "8 word"
type_synonym u16 = "16 word"
type_synonym u32 = "32 word"
type_synonym u64 = "64 word"
type_synonym time_t = int
type_synonym thread_id = nat

abbreviation NUL :: char where
  "NUL \<equiv> CHR 0x00"

text \<open>
  The characters a C function reads through \<open>s.c_str()\<close>: everything before the first NUL.
\<close>

definition c_str :: "string \<Rightarrow> string" where
  "c_str s = takeWhile (\<lambda>c. c \<noteq> NUL) s"

lemma c_str_id [simp]: "NUL \<notin> set s \<Longrightarrow> c_str s = s"
  unfolding c_str_def by (induction s) auto

lemma c_str_no_nul [simp]: "NUL \<notin> set (c_str s)"
  unfolding c_str_def by (induction s) auto

lemma c_str_idem [simp]: "c_str (c_str s) = c_str s"
  by simp

lemma set_c_str_subset: "set (c_str s) \<subseteq> set s"
  unfolding c_str_def by (metis set_takeWhileD subsetI)

subsection \<open>Decimal rendering\<close>

definition digit_char :: "nat \<Rightarrow> char" where
  "digit_char d = char_of (48 + d)"

fun dec_nat :: "nat \<Rightarrow> string" where
  "dec_nat n = (if n < 10 then [digit_char n] else dec_nat (n div 10) @ [digit_char (n mod 10)])"

declare dec_nat.simps [simp del]

definition dec_int :: "int \<Rightarrow> string" where
  "dec_int i = (if i < 0 then CHR ''-'' # dec_nat (nat (- i)) else dec_nat (nat i))"

text \<open>Reading the digits back; used to show that rendering loses nothing.\<close>

definition digit_val :: "char \<Rightarrow> nat" where
  "digit_val c = of_char c - 48"

definition dec_val :: "string \<Rightarrow> nat" where
  "dec_val s = foldl (\<lambda>a c. 10 * a + digit_val c) 0 s"

lemma digit_val_digit_char [simp]: "d < 10 \<Longrightarrow> digit_val (digit_char d) = d"
  by (simp add: digit_val_def digit_char_def)

lemma dec_val_snoc [simp]: "dec_val (s @ [c]) = 10 * dec_val s + digit_val c"
  by (simp add: dec_val_def)

lemma dec_val_dec_nat [simp]: "dec_val (dec_nat n) = n"
proof (induction n rule: dec_nat.induct)
  case (1 n)
  show ?case
  proof (cases "n < 10")
    case True
    then show ?thesis by (simp add: dec_nat.simps[of n] dec_val_def)
  next
    case False
    with 1 show ?thesis by (simp add: dec_nat.simps[of n])
  qed
qed

lemma dec_nat_inject [simp]: "dec_nat m = dec_nat n \<longleftrightarrow> m = n"
  by (metis dec_val_dec_nat)

lemma dec_nat_nonempty [simp]: "dec_nat n \<noteq> []"
  by (subst dec_nat.simps) simp

subsection \<open>std::map as an association list with distinct keys\<close>

type_synonym ('k, 'v) stdmap = "('k \<times> 'v) list"

definition stdmap_ok :: "('k, 'v) stdmap \<Rightarrow> bool" where
  "stdmap_ok m \<longleftrightarrow> distinct (map fst m)"

text \<open>\<open>insert\<close> keeps an existing entry and says whether it inserted.\<close>

definition stdmap_insert :: "'k \<Rightarrow> 'v \<Rightarrow> ('k, 'v) stdmap \<Rightarrow> ('k, 'v) stdmap \<times> bool" where
  "stdmap_insert k v m = (case map_of m k of None \<Rightarrow> (m @ [(k, v)], True) | Some _ \<Rightarrow> (m, False))"

text \<open>\<open>erase(key)\<close> returns the number of entries removed.\<close>

definition stdmap_erase :: "'k \<Rightarrow> ('k, 'v) stdmap \<Rightarrow> ('k, 'v) stdmap \<times> nat" where
  "stdmap_erase k m = (filter (\<lambda>p. fst p \<noteq> k) m, length (filter (\<lambda>p. fst p = k) m))"

lemma stdmap_ok_Nil [simp]: "stdmap_ok []"
  by (simp add: stdmap_ok_def)

lemma stdmap_ok_filter [simp]: "stdmap_ok m \<Longrightarrow> stdmap_ok (filter P m)"
  by (simp add: stdmap_ok_def distinct_map_filter)

lemma stdmap_ok_erase [simp]: "stdmap_ok m \<Longrightarrow> stdmap_ok (fst (stdmap_erase k m))"
  by (simp add: stdmap_erase_def)

lemma stdmap_ok_insert [simp]: "stdmap_ok m \<Longrightarrow> stdmap_ok (fst (stdmap_insert k v m))"
  by (auto simp: stdmap_insert_def stdmap_ok_def map_of_eq_None_iff split: option.splits)

lemma map_of_filter_key [stdmap_simps]:
  "map_of (filter (\<lambda>p. fst p \<noteq> k) m) = (map_of m)(k := None)"
  by (induction m) auto

lemma map_of_erase [stdmap_simps]: "map_of (fst (stdmap_erase k m)) = (map_of m)(k := None)"
  by (simp add: stdmap_erase_def map_of_filter_key)

lemma map_of_insert [stdmap_simps]:
  "map_of (fst (stdmap_insert k v m)) =
     (case map_of m k of None \<Rightarrow> (map_of m)(k \<mapsto> v) | Some _ \<Rightarrow> map_of m)"
  by (auto simp: stdmap_insert_def map_add_def fun_eq_iff split: option.splits)

lemma stdmap_insert_result [stdmap_simps]:
  "snd (stdmap_insert k v m) \<longleftrightarrow> map_of m k = None"
  by (simp add: stdmap_insert_def split: option.splits)

lemma map_of_filter_ok [stdmap_simps]:
  "stdmap_ok m \<Longrightarrow>
   map_of (filter (\<lambda>p. P (snd p)) m) k =
     (case map_of m k of None \<Rightarrow> None | Some v \<Rightarrow> if P v then Some v else None)"
  by (induction m) (auto simp: stdmap_ok_def map_of_eq_None_iff image_iff split: option.splits)

lemma stdmap_erase_count [stdmap_simps]:
  "stdmap_ok m \<Longrightarrow> snd (stdmap_erase k m) = (if map_of m k = None then 0 else 1)"
proof (induction m)
  case Nil
  then show ?case by (simp add: stdmap_erase_def)
next
  case (Cons p m)
  then have "stdmap_ok m" and fresh: "fst p \<notin> fst ` set m"
    by (simp_all add: stdmap_ok_def)
  then have IH: "snd (stdmap_erase k m) = (if map_of m k = None then 0 else 1)"
    using Cons.IH by simp
  show ?case
  proof (cases "fst p = k")
    case True
    with fresh have "map_of m k = None"
      by (simp add: map_of_eq_None_iff)
    with IH True show ?thesis
      by (cases p) (simp add: stdmap_erase_def)
  next
    case False
    with IH show ?thesis
      by (cases p) (simp add: stdmap_erase_def)
  qed
qed

lemma stdmap_size: "stdmap_ok m \<Longrightarrow> length m = card (dom (map_of m))"
  by (metis distinct_card dom_map_of_conv_image_fst length_map list.set_map stdmap_ok_def)

end
