(* ===== verification/Errors.thy ===== *)
theory Errors
  imports Prelude
begin

section \<open>Errors: codes, categories, the Error object and error strings\<close>

text \<open>
  Models \<open>src/include/capy/amqp_common.h\<close> and \<open>src/src/amqp_common.cc\<close>, with the address and
  broker extensions of the error enumeration (\<open>amqp_address.h/.cc\<close>, \<open>amqp_broker.h/.cc\<close>). An
  \<open>std::error_code\<close> is a value with its category; \<open>Error\<close> adds an optional exception text.
  The three enumerations share one number space: the address and the broker enumerations both
  start at \<open>CommonError::LAST\<close>.
\<close>

subsection \<open>The enumerations\<close>

datatype common_error =
    Common_OK
  | Common_NOT_SUPPORTED
  | Common_UNKNOWN
  | Common_NOT_FOUND
  | Common_OUT_OF_RANGE
  | Common_LAST

fun common_int :: "common_error \<Rightarrow> int" where
  "common_int Common_OK = 0"
| "common_int Common_NOT_SUPPORTED = 300"
| "common_int Common_UNKNOWN = 301"
| "common_int Common_NOT_FOUND = 302"
| "common_int Common_OUT_OF_RANGE = 303"
| "common_int Common_LAST = 304"

text \<open>\<open>EXTEND_ENUM(CommonError, LAST)\<close>\<close>

definition extend_enum :: int where
  "extend_enum = common_int Common_LAST"

datatype address_error = Address_PARSE | Address_EMPTY | Address_LAST

fun address_int :: "address_error \<Rightarrow> int" where
  "address_int Address_PARSE = extend_enum"
| "address_int Address_EMPTY = extend_enum + 1"
| "address_int Address_LAST = extend_enum + 2"

datatype broker_error =
    Broker_CONNECTION
  | Broker_CONNECTION_CLOSED
  | Broker_CONNECTION_LOST
  | Broker_MEMORY
  | Broker_LOGIN
  | Broker_CHANNEL_READY
  | Broker_CHANNEL_MESSAGE
  | Broker_PUBLISH
  | Broker_EXCHANGE_DECLARATION
  | Broker_QUEUE_DECLARATION
  | Broker_QUEUE_BINDING
  | Broker_QUEUE_CONSUMING
  | Broker_LISTENER_CONFLICT
  | Broker_EMPTY_REPLAY
  | Broker_DATA_RESPONSE
  | Broker_LAST

fun broker_int :: "broker_error \<Rightarrow> int" where
  "broker_int Broker_CONNECTION = extend_enum"
| "broker_int Broker_CONNECTION_CLOSED = extend_enum + 1"
| "broker_int Broker_CONNECTION_LOST = extend_enum + 2"
| "broker_int Broker_MEMORY = extend_enum + 3"
| "broker_int Broker_LOGIN = extend_enum + 4"
| "broker_int Broker_CHANNEL_READY = extend_enum + 5"
| "broker_int Broker_CHANNEL_MESSAGE = extend_enum + 6"
| "broker_int Broker_PUBLISH = extend_enum + 7"
| "broker_int Broker_EXCHANGE_DECLARATION = extend_enum + 8"
| "broker_int Broker_QUEUE_DECLARATION = extend_enum + 9"
| "broker_int Broker_QUEUE_BINDING = extend_enum + 10"
| "broker_int Broker_QUEUE_CONSUMING = extend_enum + 11"
| "broker_int Broker_LISTENER_CONFLICT = extend_enum + 12"
| "broker_int Broker_EMPTY_REPLAY = extend_enum + 13"
| "broker_int Broker_DATA_RESPONSE = extend_enum + 14"
| "broker_int Broker_LAST = extend_enum + 15"

subsection \<open>Categories, codes and conditions\<close>

datatype category = ErrorCategory | AddressErrorCategory | BrokerErrorCategory

record error_code =
  code_value :: int
  code_category :: category

text \<open>\<open>std::error_condition\<close> has the same two fields; the model keeps the types apart.\<close>

record error_condition =
  cond_value :: int
  cond_category :: category

definition ErrorCategory_message :: "int \<Rightarrow> string" where
  "ErrorCategory_message ev =
     (if ev = common_int Common_OK then ''OK''
      else if ev = common_int Common_NOT_SUPPORTED then ''Not supported format''
      else ''Unknown error'')"

definition AddressErrorCategory_message :: "int \<Rightarrow> string" where
  "AddressErrorCategory_message ev =
     (if ev = address_int Address_PARSE then ''Parse error''
      else if ev = address_int Address_EMPTY then ''Empty input''
      else ErrorCategory_message ev)"

definition BrokerErrorCategory_message :: "int \<Rightarrow> string" where
  "BrokerErrorCategory_message ev =
     (if ev = broker_int Broker_CONNECTION then ''ConnectionCache error''
      else ErrorCategory_message ev)"

text \<open>The virtual \<open>message(int)\<close>, dispatched on the category object.\<close>

fun category_message :: "category \<Rightarrow> int \<Rightarrow> string" where
  "category_message ErrorCategory ev = ErrorCategory_message ev"
| "category_message AddressErrorCategory ev = AddressErrorCategory_message ev"
| "category_message BrokerErrorCategory ev = BrokerErrorCategory_message ev"

text \<open>
  \<open>ErrorCategory::equivalent(code, condition)\<close> is inherited by all three categories. It
  compares the numbers and not the categories. The standard's comparison of a code with a
  condition asks both categories.
\<close>

definition ErrorCategory_equivalent :: "error_code \<Rightarrow> int \<Rightarrow> bool" where
  "ErrorCategory_equivalent code condition \<longleftrightarrow> code_value code = condition"

definition code_eq_condition :: "error_code \<Rightarrow> error_condition \<Rightarrow> bool" where
  "code_eq_condition code cond \<longleftrightarrow>
     (code_category code = cond_category cond \<and> code_value code = cond_value cond)
     \<or> ErrorCategory_equivalent code (cond_value cond)"

definition make_common_condition :: "common_error \<Rightarrow> error_condition" where
  "make_common_condition e = \<lparr>cond_value = common_int e, cond_category = ErrorCategory\<rparr>"

definition make_address_condition :: "address_error \<Rightarrow> error_condition" where
  "make_address_condition e = \<lparr>cond_value = address_int e, cond_category = AddressErrorCategory\<rparr>"

definition make_broker_condition :: "broker_error \<Rightarrow> error_condition" where
  "make_broker_condition e = \<lparr>cond_value = broker_int e, cond_category = BrokerErrorCategory\<rparr>"

subsection \<open>The Error object\<close>

record error =
  err_code :: error_code
  exception_message :: "string option"

definition mk_error :: "error_condition \<Rightarrow> string option \<Rightarrow> error" where
  "mk_error code message =
     \<lparr>err_code = \<lparr>code_value = cond_value code, code_category = cond_category code\<rparr>,
      exception_message = message\<rparr>"

definition error_value :: "error \<Rightarrow> int" where
  "error_value e = code_value (err_code e)"

definition error_message :: "error \<Rightarrow> string" where
  "error_message e =
     (case exception_message e of
        Some m \<Rightarrow> m
      | None \<Rightarrow> category_message (code_category (err_code e)) (code_value (err_code e)))"

text \<open>\<open>operator bool\<close>: true when the object is an error.\<close>

definition error_bool :: "error \<Rightarrow> bool" where
  "error_bool e \<longleftrightarrow> code_value (err_code e) \<noteq> common_int Common_OK"

definition error_stream :: "error \<Rightarrow> string" where
  "error_stream e = dec_int (error_value e) @ ''/'' @ error_message e"

abbreviation common_err :: "common_error \<Rightarrow> error" where
  "common_err c \<equiv> mk_error (make_common_condition c) None"

abbreviation broker_err :: "broker_error \<Rightarrow> string \<Rightarrow> error" where
  "broker_err c m \<equiv> mk_error (make_broker_condition c) (Some m)"

abbreviation address_err :: "address_error \<Rightarrow> string \<Rightarrow> error" where
  "address_err c m \<equiv> mk_error (make_address_condition c) (Some m)"

subsection \<open>Exceptions and the outcome of a call\<close>

text \<open>
  What a C++ call can end in: a value, an exception, behaviour the standard leaves undefined,
  or the end of the process (\<open>abort\<close>, a failed \<open>assert\<close>, an exception leaving a destructor).
\<close>

datatype exn =
    Bad_expected_access error
  | Std_exception string
  | Json_exception string
  | Other_exception

datatype 'a outcome = Ret 'a | Raise exn | Undefined | Abort

fun obind :: "'a outcome \<Rightarrow> ('a \<Rightarrow> 'b outcome) \<Rightarrow> 'b outcome" where
  "obind (Ret x) f = f x"
| "obind (Raise e) f = Raise e"
| "obind Undefined f = Undefined"
| "obind Abort f = Abort"

lemma obind_Ret [simp]: "obind m Ret = m"
  by (cases m) auto

lemma obind_assoc: "obind (obind m f) g = obind m (\<lambda>x. obind (f x) g)"
  by (cases m) auto

lemma obind_eq_Ret: "obind m f = Ret y \<longleftrightarrow> (\<exists>x. m = Ret x \<and> f x = Ret y)"
  by (cases m) auto

subsection \<open>Formatted error strings\<close>

text \<open>
  \<open>vsnprintf\<close> on the conversions the sources write (\<open>%s\<close> and \<open>%%\<close>) with \<open>char*\<close> arguments. A
  conversion without an argument, a dangling \<open>%\<close>, and any other conversion, applied to a string
  argument or to none, are undefined behaviour. Arguments that are left over are ignored.
\<close>

fun vformat :: "string \<Rightarrow> string list \<Rightarrow> string outcome" where
  "vformat [] args = Ret []"
| "vformat [c] args = (if c = CHR ''%'' then Undefined else Ret [c])"
| "vformat (c # d # rest) args =
     (if c \<noteq> CHR ''%'' then obind (vformat (d # rest) args) (\<lambda>s. Ret (c # s))
      else if d = CHR ''%'' then obind (vformat rest args) (\<lambda>s. Ret (CHR ''%'' # s))
      else if d = CHR ''s'' then
        (case args of
           [] \<Rightarrow> Undefined
         | a # as \<Rightarrow> obind (vformat rest as) (\<lambda>s. Ret (c_str a @ s)))
      else Undefined)"

text \<open>The buffer has 1024 bytes, of which the last holds the terminating NUL.\<close>

definition error_string :: "string \<Rightarrow> string list \<Rightarrow> string outcome" where
  "error_string format args =
     obind (vformat (c_str format) args) (\<lambda>s. Ret (''Cappy error: '' @ take 1023 s))"

subsection \<open>Facts about codes\<close>

lemmas error_defs [cxx_defs] =
  mk_error_def error_value_def error_message_def error_bool_def
  make_common_condition_def make_address_condition_def make_broker_condition_def
  extend_enum_def

lemma common_int_inject: "common_int a = common_int b \<longleftrightarrow> a = b"
  by (cases a; cases b) auto

lemma address_int_inject: "address_int a = address_int b \<longleftrightarrow> a = b"
  by (cases a; cases b) auto

lemma broker_int_offset: "extend_enum \<le> broker_int b"
  by (cases b) auto

lemma address_int_offset: "extend_enum \<le> address_int a"
  by (cases a) auto

lemma broker_int_nonzero [simp]: "broker_int b \<noteq> 0"
  using broker_int_offset[of b] by (simp add: extend_enum_def)

lemma address_int_nonzero [simp]: "address_int a \<noteq> 0"
  using address_int_offset[of a] by (simp add: extend_enum_def)

lemma error_bool_broker [simp]: "error_bool (mk_error (make_broker_condition b) m)"
  by (simp add: error_bool_def mk_error_def make_broker_condition_def)

lemma error_bool_address [simp]: "error_bool (mk_error (make_address_condition a) m)"
  by (simp add: error_bool_def mk_error_def make_address_condition_def)

lemma error_bool_common [simp]:
  "error_bool (mk_error (make_common_condition c) m) \<longleftrightarrow> c \<noteq> Common_OK"
  by (cases c) (simp_all add: error_bool_def mk_error_def make_common_condition_def)

lemma error_value_broker [simp]:
  "error_value (mk_error (make_broker_condition b) m) = broker_int b"
  by (simp add: error_value_def mk_error_def make_broker_condition_def)

lemma error_value_address [simp]:
  "error_value (mk_error (make_address_condition b) m) = address_int b"
  by (simp add: error_value_def mk_error_def make_address_condition_def)

lemma error_message_Some [simp]: "error_message (mk_error c (Some m)) = m"
  by (simp add: error_message_def mk_error_def)

lemma exception_message_mk [simp]: "exception_message (mk_error c m) = m"
  by (simp add: mk_error_def)

lemma broker_int_inj_on: "inj broker_int"
proof (rule injI)
  fix a b
  assume "broker_int a = broker_int b"
  then show "a = b"
    by (cases a; cases b) (simp_all add: extend_enum_def)
qed

lemma broker_int_inject [simp]: "broker_int a = broker_int b \<longleftrightarrow> a = b"
  using broker_int_inj_on by (auto dest: injD)

subsection \<open>Facts about formatting\<close>

definition pct_free :: "string \<Rightarrow> bool" where
  "pct_free s \<longleftrightarrow> CHR ''%'' \<notin> set s"

lemma vformat_pct_free: "pct_free s \<Longrightarrow> vformat s args = Ret s"
  by (induction s args rule: vformat.induct) (auto simp: pct_free_def)

lemma vformat_literal_append:
  "pct_free s \<Longrightarrow> vformat (s @ t) args = obind (vformat t args) (\<lambda>r. Ret (s @ r))"
proof (induction s)
  case Nil
  then show ?case by (cases "vformat t args") auto
next
  case (Cons c s)
  then have c: "c \<noteq> CHR ''%''" and IH: "vformat (s @ t) args = obind (vformat t args) (\<lambda>r. Ret (s @ r))"
    by (auto simp: pct_free_def)
  show ?case
  proof (cases "s @ t")
    case Nil
    then show ?thesis using c by simp
  next
    case (Cons d r)
    then have "vformat ((c # s) @ t) args = obind (vformat (s @ t) args) (\<lambda>s. Ret (c # s))"
      using c by simp
    then show ?thesis by (simp add: IH obind_assoc)
  qed
qed

lemma vformat_arg:
  "vformat (CHR ''%'' # CHR ''s'' # t) (a # as) = obind (vformat t as) (\<lambda>r. Ret (c_str a @ r))"
  by simp

lemma vformat_missing_arg: "vformat (CHR ''%'' # CHR ''s'' # t) [] = Undefined"
  by simp

lemma error_string_length: "error_string f args = Ret s \<Longrightarrow> length s \<le> 1036"
  by (auto simp: error_string_def obind_eq_Ret)

lemma error_string_not_Raise [simp]:
  "error_string f args \<noteq> Raise e" "error_string f args \<noteq> Abort"
proof -
  have "vformat g as \<noteq> Raise e \<and> vformat g as \<noteq> Abort" for g as
    by (induction g as rule: vformat.induct) (auto elim!: obind.elims split: list.splits)
  then show "error_string f args \<noteq> Raise e" "error_string f args \<noteq> Abort"
    by (auto simp: error_string_def elim!: obind.elims)
qed

lemma vformat_one_arg:
  assumes "pct_free a" and "pct_free b"
  shows "vformat (a @ ''%s'' @ b) [x] = Ret (a @ c_str x @ b)"
  using assms by (simp add: vformat_literal_append vformat_pct_free)

subsection \<open>Properties\<close>

text \<open>
  The one-argument error texts of the library are the prefix, the text before the conversion,
  the argument up to its first NUL and the text after it, cut to the 1023 bytes of the buffer;
  however long the argument, the result has at most 1036 characters.
\<close>

theorem error_string_one_arg:
  assumes "pct_free a" and "pct_free b" and "NUL \<notin> set a" and "NUL \<notin> set b"
  shows "error_string (a @ ''%s'' @ b) [x] = Ret (''Cappy error: '' @ take 1023 (a @ c_str x @ b)) \<and>
         length (''Cappy error: '' @ take 1023 (a @ c_str x @ b)) \<le> 1036"
proof -
  have "c_str (a @ ''%s'' @ b) = a @ ''%s'' @ b"
    using assms(3,4) by (intro c_str_id) auto
  then show ?thesis
    by (simp only: error_string_def vformat_one_arg[OF assms(1,2)]) simp
qed

theorem error_string_one_arg_witness:
  "error_string ''Address port number %s is out of range'' [''70000''] =
     Ret ''Cappy error: Address port number 70000 is out of range''"
  using error_string_one_arg[of "''Address port number ''" "'' is out of range''" "''70000''"]
  by (simp add: pct_free_def c_str_def)

text \<open>
  The three enumerations start at the same number and \<open>ErrorCategory::equivalent\<close> looks at the
  number only. Within one enumeration a code compares equal to a condition exactly when they are
  the same enumerator, but an address error compares equal to a broker condition whenever the
  numbers meet: a parse error is a connection error, an empty address a closed connection.
\<close>

theorem conditions_confused_across_categories:
  "(code_eq_condition (err_code (mk_error (make_broker_condition a) m)) (make_broker_condition b) \<longleftrightarrow>
      a = b) \<and>
   (code_eq_condition (err_code (mk_error (make_address_condition c) m)) (make_broker_condition b) \<longleftrightarrow>
      (c, b) \<in> {(Address_PARSE, Broker_CONNECTION), (Address_EMPTY, Broker_CONNECTION_CLOSED),
                (Address_LAST, Broker_CONNECTION_LOST)})"
proof
  show "code_eq_condition (err_code (mk_error (make_broker_condition a) m)) (make_broker_condition b) \<longleftrightarrow>
      a = b"
    by (simp add: code_eq_condition_def ErrorCategory_equivalent_def mk_error_def make_broker_condition_def)
  show "code_eq_condition (err_code (mk_error (make_address_condition c) m)) (make_broker_condition b) \<longleftrightarrow>
      (c, b) \<in> {(Address_PARSE, Broker_CONNECTION), (Address_EMPTY, Broker_CONNECTION_CLOSED),
                (Address_LAST, Broker_CONNECTION_LOST)}"
    by (cases c; cases b)
      (simp_all add: code_eq_condition_def ErrorCategory_equivalent_def mk_error_def
        make_address_condition_def make_broker_condition_def extend_enum_def)
qed

end
