(* ===== verification/Expected.thy ===== *)
theory Expected
  imports Errors
begin

section \<open>capy::Result: the expected type with its storage\<close>

text \<open>
  Models \<open>src/include/capy/amqp_expected.h\<close> (\<open>capy::Result<T>\<close> is \<open>expected<T, Error>\<close>): the
  discriminated union \<open>storage_t\<close> with its active member made explicit, the constructors,
  assignments, \<open>swap\<close>, observers, comparisons and \<open>std::hash\<close> of \<open>expected\<close>, and the
  \<open>expected<void, E>\<close> specialisation, as compiled with the default \<open>nsel_P0323R = 7\<close>. Reading or
  destroying a member that is not the active one is \<open>Undefined\<close>, and so is constructing a member
  over a live one, which would drop that one undestroyed; a failed \<open>assert\<close> is \<open>Abort\<close>. Copying
  and moving are not told apart: what a moved-from object holds is up to its type. The
  abstraction is the sum type: a value or an error.
\<close>

subsection \<open>storage_t\<close>

datatype ('t, 'e) storage = Raw | MValue 't | MError 'e

fun construct_value :: "'t \<Rightarrow> ('t, 'e) storage \<Rightarrow> ('t, 'e) storage outcome" where
  "construct_value v Raw = Ret (MValue v)"
| "construct_value v s = Undefined"

fun destruct_value :: "('t, 'e) storage \<Rightarrow> ('t, 'e) storage outcome" where
  "destruct_value (MValue v) = Ret Raw"
| "destruct_value s = Undefined"

fun construct_error :: "'e \<Rightarrow> ('t, 'e) storage \<Rightarrow> ('t, 'e) storage outcome" where
  "construct_error e Raw = Ret (MError e)"
| "construct_error e s = Undefined"

fun destruct_error :: "('t, 'e) storage \<Rightarrow> ('t, 'e) storage outcome" where
  "destruct_error (MError e) = Ret Raw"
| "destruct_error s = Undefined"

fun storage_value :: "('t, 'e) storage \<Rightarrow> 't outcome" where
  "storage_value (MValue v) = Ret v"
| "storage_value s = Undefined"

fun storage_error :: "('t, 'e) storage \<Rightarrow> 'e outcome" where
  "storage_error (MError e) = Ret e"
| "storage_error s = Undefined"

subsection \<open>unexpected_type\<close>

datatype 'e unexpected_type = Unexpected (unexpected_value: 'e)

definition make_unexpected :: "'e \<Rightarrow> 'e unexpected_type" where
  "make_unexpected value = Unexpected value"

text \<open>The explicit and implicit converting constructors make the error from the other one's.\<close>

definition unexpected_convert :: "('g \<Rightarrow> 'e) \<Rightarrow> 'g unexpected_type \<Rightarrow> 'e unexpected_type" where
  "unexpected_convert mkE error = Unexpected (mkE (unexpected_value error))"

definition unexpected_in_place :: "('args \<Rightarrow> 'e) \<Rightarrow> 'args \<Rightarrow> 'e unexpected_type" where
  "unexpected_in_place ctor args = Unexpected (ctor args)"

definition unexpected_swap ::
  "'e unexpected_type \<Rightarrow> 'e unexpected_type \<Rightarrow> 'e unexpected_type \<times> 'e unexpected_type" where
  "unexpected_swap x y = (Unexpected (unexpected_value y), Unexpected (unexpected_value x))"

definition unexpected_assign :: "'e unexpected_type \<Rightarrow> 'e unexpected_type \<Rightarrow> 'e unexpected_type" where
  "unexpected_assign self other = snd (unexpected_swap (Unexpected (unexpected_value other)) self)"

definition unexpected_eq :: "'e unexpected_type \<Rightarrow> 'e unexpected_type \<Rightarrow> bool" where
  "unexpected_eq x y \<longleftrightarrow> unexpected_value x = unexpected_value y"

subsection \<open>expected: construction and destruction\<close>

record ('t, 'e) expected =
  has_value :: bool
  contained :: "('t, 'e) storage"

type_synonym 't result = "('t, error) expected"

text \<open>\<open>expected()\<close> holds a default-constructed value, \<open>dflt\<close>.\<close>

definition expected_default :: "'t \<Rightarrow> ('t, 'e) expected outcome" where
  "expected_default dflt =
     obind (construct_value dflt Raw) (\<lambda>c. Ret \<lparr>has_value = True, contained = c\<rparr>)"

text \<open>Copying, moving and converting all construct the member the source holds.\<close>

definition expected_copy :: "('t, 'e) expected \<Rightarrow> ('t, 'e) expected outcome" where
  "expected_copy other =
     obind (if has_value other
            then obind (storage_value (contained other)) (\<lambda>v. construct_value v Raw)
            else obind (storage_error (contained other)) (\<lambda>e. construct_error e Raw))
       (\<lambda>c. Ret \<lparr>has_value = has_value other, contained = c\<rparr>)"

definition expected_convert ::
  "('u \<Rightarrow> 't) \<Rightarrow> ('g \<Rightarrow> 'e) \<Rightarrow> ('u, 'g) expected \<Rightarrow> ('t, 'e) expected outcome" where
  "expected_convert mkT mkE other =
     obind (if has_value other
            then obind (storage_value (contained other)) (\<lambda>v. construct_value (mkT v) Raw)
            else obind (storage_error (contained other)) (\<lambda>e. construct_error (mkE e) Raw))
       (\<lambda>c. Ret \<lparr>has_value = has_value other, contained = c\<rparr>)"

definition expected_of_value :: "'t \<Rightarrow> ('t, 'e) expected outcome" where
  "expected_of_value v =
     obind (construct_value v Raw) (\<lambda>c. Ret \<lparr>has_value = True, contained = c\<rparr>)"

definition expected_of_unexpected :: "'e unexpected_type \<Rightarrow> ('t, 'e) expected outcome" where
  "expected_of_unexpected u =
     obind (construct_error (unexpected_value u) Raw) (\<lambda>c. Ret \<lparr>has_value = False, contained = c\<rparr>)"

text \<open>In-place construction runs the constructor \<open>ctor\<close> of the member on the arguments.\<close>

definition expected_in_place :: "('args \<Rightarrow> 't) \<Rightarrow> 'args \<Rightarrow> ('t, 'e) expected outcome" where
  "expected_in_place ctor args =
     obind (construct_value (ctor args) Raw) (\<lambda>c. Ret \<lparr>has_value = True, contained = c\<rparr>)"

definition expected_unexpect :: "('args \<Rightarrow> 'e) \<Rightarrow> 'args \<Rightarrow> ('t, 'e) expected outcome" where
  "expected_unexpect ctor args =
     obind (construct_error (ctor args) Raw) (\<lambda>c. Ret \<lparr>has_value = False, contained = c\<rparr>)"

text \<open>The destructor leaves raw storage.\<close>

definition expected_destroy :: "('t, 'e) expected \<Rightarrow> ('t, 'e) storage outcome" where
  "expected_destroy x =
     (if has_value x then destruct_value (contained x) else destruct_error (contained x))"

subsection \<open>expected: swap\<close>

text \<open>
  The branch where the left side holds a value and the right side an error: the error is moved
  to a temporary, the right side's storage takes the value, the left side's takes the error.
\<close>

definition swap_value_error ::
  "('t, 'e) expected \<Rightarrow> ('t, 'e) expected \<Rightarrow> (('t, 'e) expected \<times> ('t, 'e) expected) outcome" where
  "swap_value_error x y =
     obind (storage_error (contained y)) (\<lambda>t.
     obind (destruct_error (contained y)) (\<lambda>cy1.
     obind (storage_value (contained x)) (\<lambda>v.
     obind (construct_value v cy1) (\<lambda>cy2.
     obind (destruct_value (contained x)) (\<lambda>cx1.
     obind (construct_error t cx1) (\<lambda>cx2.
     Ret (\<lparr>has_value = has_value y, contained = cx2\<rparr>,
          \<lparr>has_value = has_value x, contained = cy2\<rparr>)))))))"

definition expected_swap ::
  "('t, 'e) expected \<Rightarrow> ('t, 'e) expected \<Rightarrow> (('t, 'e) expected \<times> ('t, 'e) expected) outcome" where
  "expected_swap x y =
     (if has_value x \<and> has_value y then
        obind (storage_value (contained x)) (\<lambda>a.
        obind (storage_value (contained y)) (\<lambda>b.
        Ret (x\<lparr>contained := MValue b\<rparr>, y\<lparr>contained := MValue a\<rparr>)))
      else if \<not> has_value x \<and> \<not> has_value y then
        obind (storage_error (contained x)) (\<lambda>a.
        obind (storage_error (contained y)) (\<lambda>b.
        Ret (x\<lparr>contained := MError b\<rparr>, y\<lparr>contained := MError a\<rparr>)))
      else if has_value x \<and> \<not> has_value y then swap_value_error x y
      else obind (swap_value_error y x) (\<lambda>p. Ret (snd p, fst p)))"

subsection \<open>expected: assignment and emplace\<close>

text \<open>Every assignment builds a temporary, swaps it in, and destroys what it then holds.\<close>

definition swap_in :: "('t, 'e) expected outcome \<Rightarrow> ('t, 'e) expected \<Rightarrow> ('t, 'e) expected outcome" where
  "swap_in mk self =
     obind mk (\<lambda>tmp.
     obind (expected_swap tmp self) (\<lambda>p.
     obind (expected_destroy (fst p)) (\<lambda>_. Ret (snd p))))"

definition expected_assign ::
  "('t, 'e) expected \<Rightarrow> ('t, 'e) expected \<Rightarrow> ('t, 'e) expected outcome" where
  "expected_assign self other = swap_in (expected_copy other) self"

definition expected_assign_value :: "('t, 'e) expected \<Rightarrow> 't \<Rightarrow> ('t, 'e) expected outcome" where
  "expected_assign_value self v = swap_in (expected_of_value v) self"

definition expected_assign_unexpected ::
  "('t, 'e) expected \<Rightarrow> 'e unexpected_type \<Rightarrow> ('t, 'e) expected outcome" where
  "expected_assign_unexpected self u = swap_in (expected_unexpect id (unexpected_value u)) self"

definition expected_emplace ::
  "('t, 'e) expected \<Rightarrow> ('args \<Rightarrow> 't) \<Rightarrow> 'args \<Rightarrow> ('t, 'e) expected outcome" where
  "expected_emplace self ctor args = swap_in (expected_in_place ctor args) self"

subsection \<open>expected: observers\<close>

definition expected_deref :: "('t, 'e) expected \<Rightarrow> 't outcome" where
  "expected_deref x = (if has_value x then storage_value (contained x) else Abort)"

definition rethrow :: "error \<Rightarrow> 'a outcome" where
  "rethrow e = Raise (Bad_expected_access e)"

definition expected_value :: "'t result \<Rightarrow> 't outcome" where
  "expected_value x =
     (if has_value x then storage_value (contained x)
      else obind (storage_error (contained x)) rethrow)"

definition expected_error :: "('t, 'e) expected \<Rightarrow> 'e outcome" where
  "expected_error x = (if \<not> has_value x then storage_error (contained x) else Abort)"

definition expected_get_unexpected :: "('t, 'e) expected \<Rightarrow> 'e unexpected_type outcome" where
  "expected_get_unexpected x = obind (storage_error (contained x)) (\<lambda>e. Ret (make_unexpected e))"

definition expected_value_or :: "('t, 'e) expected \<Rightarrow> 't \<Rightarrow> 't outcome" where
  "expected_value_or x v = (if has_value x then storage_value (contained x) else Ret v)"

definition expected_eq :: "('t, 'e) expected \<Rightarrow> ('t, 'e) expected \<Rightarrow> bool outcome" where
  "expected_eq x y =
     (if has_value x \<noteq> has_value y then Ret False
      else if \<not> has_value x then
        obind (expected_error x) (\<lambda>a. obind (expected_error y) (\<lambda>b. Ret (a = b)))
      else obind (expected_deref x) (\<lambda>a. obind (expected_deref y) (\<lambda>b. Ret (a = b))))"

definition expected_eq_value :: "('t, 'e) expected \<Rightarrow> 't \<Rightarrow> bool outcome" where
  "expected_eq_value x v =
     (if has_value x then obind (expected_deref x) (\<lambda>a. Ret (a = v)) else Ret False)"

definition expected_eq_unexpected :: "('t, 'e) expected \<Rightarrow> 'e unexpected_type \<Rightarrow> bool outcome" where
  "expected_eq_unexpected x u =
     (if \<not> has_value x then obind (expected_get_unexpected x) (\<lambda>a. Ret (unexpected_eq a u))
      else Ret False)"

definition expected_ne :: "('t, 'e) expected \<Rightarrow> ('t, 'e) expected \<Rightarrow> bool outcome" where
  "expected_ne x y = obind (expected_eq x y) (\<lambda>b. Ret (\<not> b))"

definition expected_ne_value :: "('t, 'e) expected \<Rightarrow> 't \<Rightarrow> bool outcome" where
  "expected_ne_value x v =
     (if has_value x then obind (expected_deref x) (\<lambda>a. Ret (a \<noteq> v)) else Ret True)"

definition expected_ne_unexpected :: "('t, 'e) expected \<Rightarrow> 'e unexpected_type \<Rightarrow> bool outcome" where
  "expected_ne_unexpected x u = obind (expected_eq_unexpected x u) (\<lambda>b. Ret (\<not> b))"

definition expected_hash :: "('t \<Rightarrow> u64) \<Rightarrow> ('t, 'e) expected \<Rightarrow> u64 outcome" where
  "expected_hash h x =
     (if has_value x then obind (expected_deref x) (\<lambda>v. Ret (h v)) else Ret 0)"

subsection \<open>expected<void, E>\<close>

text \<open>The storage of the specialisation has no value member: \<open>MValue\<close> does not occur in it.\<close>

type_synonym 'e expected_void = "(unit, 'e) expected"

definition void_of_unexpected :: "'e unexpected_type \<Rightarrow> 'e expected_void outcome" where
  "void_of_unexpected u =
     obind (construct_error (unexpected_value u) Raw) (\<lambda>c. Ret \<lparr>has_value = False, contained = c\<rparr>)"

definition void_default :: "'e expected_void" where
  "void_default = \<lparr>has_value = True, contained = Raw\<rparr>"

definition void_destroy :: "'e expected_void \<Rightarrow> (unit, 'e) storage outcome" where
  "void_destroy x = (if \<not> has_value x then destruct_error (contained x) else Ret (contained x))"

definition void_copy :: "'e expected_void \<Rightarrow> 'e expected_void outcome" where
  "void_copy other =
     obind (if \<not> has_value other
            then obind (storage_error (contained other)) (\<lambda>e. construct_error e Raw)
            else Ret Raw)
       (\<lambda>c. Ret \<lparr>has_value = has_value other, contained = c\<rparr>)"

definition void_value :: "error expected_void \<Rightarrow> unit outcome" where
  "void_value x =
     (if \<not> has_value x then obind (storage_error (contained x)) rethrow else Ret ())"

definition void_error :: "'e expected_void \<Rightarrow> 'e outcome" where
  "void_error x = (if \<not> has_value x then storage_error (contained x) else Abort)"

definition void_eq :: "'e expected_void \<Rightarrow> 'e expected_void \<Rightarrow> bool outcome" where
  "void_eq x y =
     (if has_value x \<noteq> has_value y then Ret False
      else if \<not> has_value x then
        obind (void_error x) (\<lambda>a. obind (void_error y) (\<lambda>b. Ret (a = b)))
      else Ret True)"

definition void_swap_value_error ::
  "'e expected_void \<Rightarrow> 'e expected_void \<Rightarrow> ('e expected_void \<times> 'e expected_void) outcome" where
  "void_swap_value_error x y =
     obind (void_error y) (\<lambda>e.
     obind (construct_error e (contained x)) (\<lambda>cx.
     Ret (\<lparr>has_value = has_value y, contained = cx\<rparr>, y\<lparr>has_value := has_value x\<rparr>)))"

definition void_swap ::
  "'e expected_void \<Rightarrow> 'e expected_void \<Rightarrow> ('e expected_void \<times> 'e expected_void) outcome" where
  "void_swap x y =
     (if \<not> has_value x \<and> \<not> has_value y then
        obind (storage_error (contained x)) (\<lambda>a.
        obind (storage_error (contained y)) (\<lambda>b.
        Ret (x\<lparr>contained := MError b\<rparr>, y\<lparr>contained := MError a\<rparr>)))
      else if has_value x \<and> \<not> has_value y then void_swap_value_error x y
      else if \<not> has_value x \<and> has_value y then
        obind (void_swap_value_error y x) (\<lambda>p. Ret (snd p, fst p))
      else Ret (x, y))"

definition void_assign :: "'e expected_void \<Rightarrow> 'e expected_void \<Rightarrow> 'e expected_void outcome" where
  "void_assign self other =
     obind (void_copy other) (\<lambda>tmp.
     obind (void_swap tmp self) (\<lambda>p.
     obind (void_destroy (fst p)) (\<lambda>_. Ret (snd p))))"

definition void_emplace :: "'e expected_void \<Rightarrow> 'e expected_void outcome" where
  "void_emplace self =
     obind (void_swap void_default self) (\<lambda>p.
     obind (void_destroy (fst p)) (\<lambda>_. Ret (snd p)))"

subsection \<open>Invariant and abstraction\<close>

text \<open>The flag and the active member agree.\<close>

fun expected_ok :: "('t, 'e) expected \<Rightarrow> bool" where
  "expected_ok x =
     (case contained x of Raw \<Rightarrow> False | MValue _ \<Rightarrow> has_value x | MError _ \<Rightarrow> \<not> has_value x)"

fun void_ok :: "'e expected_void \<Rightarrow> bool" where
  "void_ok x =
     (case contained x of Raw \<Rightarrow> has_value x | MValue _ \<Rightarrow> False | MError _ \<Rightarrow> \<not> has_value x)"

definition expected_abs :: "('t, 'e) expected \<Rightarrow> 'e + 't" where
  "expected_abs x = (case contained x of MValue v \<Rightarrow> Inr v | MError e \<Rightarrow> Inl e | Raw \<Rightarrow> undefined)"

text \<open>The concrete object that stands for a value of the sum type.\<close>

fun rep :: "'e + 't \<Rightarrow> ('t, 'e) expected" where
  "rep (Inr v) = \<lparr>has_value = True, contained = MValue v\<rparr>"
| "rep (Inl e) = \<lparr>has_value = False, contained = MError e\<rparr>"

lemma expected_ok_rep: "expected_ok x \<longleftrightarrow> (\<exists>s. x = rep s)"
proof
  assume "expected_ok x"
  then show "\<exists>s. x = rep s"
    by (cases x; cases "contained x")
      (auto intro: exI[of _ "Inr _"] exI[of _ "Inl _"])
next
  assume "\<exists>s. x = rep s"
  then obtain s where "x = rep s" by blast
  then show "expected_ok x"
    by (cases s) simp_all
qed

lemma expected_abs_rep [simp]: "expected_abs (rep s) = s"
  by (cases s) (simp_all add: expected_abs_def)

lemma expected_ok_of_rep [simp]: "expected_ok (rep s)"
  by (cases s) simp_all

lemma has_value_rep [simp]: "has_value (rep s) \<longleftrightarrow> (case s of Inr _ \<Rightarrow> True | Inl _ \<Rightarrow> False)"
  by (cases s) simp_all

lemmas expected_defs =
  expected_default_def expected_copy_def expected_convert_def expected_of_value_def
  expected_of_unexpected_def expected_destroy_def swap_value_error_def expected_swap_def
  swap_in_def expected_assign_def expected_assign_value_def expected_assign_unexpected_def
  expected_emplace_def expected_deref_def expected_value_def expected_error_def
  expected_get_unexpected_def expected_value_or_def expected_eq_def expected_eq_value_def
  expected_eq_unexpected_def make_unexpected_def

lemmas void_defs =
  void_of_unexpected_def void_default_def void_destroy_def void_copy_def void_error_def
  void_swap_value_error_def void_swap_def void_assign_def void_emplace_def

subsection \<open>Each operation on the abstraction\<close>

lemma copy_rep [simp]: "expected_copy (rep s) = Ret (rep s)"
  by (cases s) (simp_all add: expected_copy_def)

lemma of_value_rep [simp]: "expected_of_value v = Ret (rep (Inr v))"
  by (simp add: expected_of_value_def)

lemma of_unexpected_rep [simp]: "expected_of_unexpected u = Ret (rep (Inl (unexpected_value u)))"
  by (simp add: expected_of_unexpected_def)

lemma default_rep [simp]: "expected_default d = Ret (rep (Inr d))"
  by (simp add: expected_default_def)

lemma destroy_rep [simp]: "expected_destroy (rep s) = Ret Raw"
  by (cases s) (simp_all add: expected_destroy_def)

lemma swap_rep [simp]: "expected_swap (rep s) (rep t) = Ret (rep t, rep s)"
  by (cases s; cases t) (simp_all add: expected_swap_def swap_value_error_def)

lemma swap_in_rep [simp]: "swap_in (Ret (rep t)) (rep s) = Ret (rep t)"
  by (simp add: swap_in_def)

lemma value_rep:
  "expected_value (rep s) = (case s of Inr v \<Rightarrow> Ret v | Inl e \<Rightarrow> Raise (Bad_expected_access e))"
  by (cases s) (simp_all add: expected_value_def rethrow_def)

lemma deref_rep: "expected_deref (rep s) = (case s of Inr v \<Rightarrow> Ret v | Inl e \<Rightarrow> Abort)"
  by (cases s) (simp_all add: expected_deref_def)

lemma error_rep: "expected_error (rep s) = (case s of Inr v \<Rightarrow> Abort | Inl e \<Rightarrow> Ret e)"
  by (cases s) (simp_all add: expected_error_def)

lemma value_or_rep: "expected_value_or (rep s) d = Ret (case s of Inr v \<Rightarrow> v | Inl e \<Rightarrow> d)"
  by (cases s) (simp_all add: expected_value_or_def)

lemma eq_rep: "expected_eq (rep s) (rep t) = Ret (s = t)"
  by (cases s; cases t) (simp_all add: expected_eq_def deref_rep error_rep del: rep.simps has_value_rep, simp_all)

lemma ne_rep: "expected_ne (rep s) (rep t) = Ret (s \<noteq> t)"
  by (simp add: expected_ne_def eq_rep)

lemma convert_rep: "expected_convert f g (rep s) = Ret (rep (map_sum g f s))"
  by (cases s) (simp_all add: expected_convert_def)

lemma in_place_rep [simp]: "expected_in_place ctor a = Ret (rep (Inr (ctor a)))"
  by (simp add: expected_in_place_def)

lemma unexpect_rep [simp]: "expected_unexpect ctor a = Ret (rep (Inl (ctor a)))"
  by (simp add: expected_unexpect_def)

lemma eq_value_rep: "expected_eq_value (rep s) v = Ret (s = Inr v)"
  by (cases s) (simp_all add: expected_eq_value_def expected_deref_def)

lemma eq_unexpected_rep: "expected_eq_unexpected (rep s) u = Ret (s = Inl (unexpected_value u))"
  by (cases s) (simp_all add: expected_eq_unexpected_def expected_get_unexpected_def
      make_unexpected_def unexpected_eq_def)

lemma hash_rep: "expected_hash h (rep s) = Ret (case s of Inr v \<Rightarrow> h v | Inl _ \<Rightarrow> 0)"
  by (cases s) (simp_all add: expected_hash_def expected_deref_def)

lemma okE:
  assumes "expected_ok x"
  obtains s where "x = rep s" "expected_abs x = s"
  using assms expected_ok_rep[of x] expected_abs_rep by metis

subsection \<open>Properties\<close>

text \<open>
  C10: \<open>swap\<close> exchanges two results whatever each of them holds: no construction lands on a live
  member, no destructor meets the wrong one, both objects keep flag and member in agreement, and
  each now stands for what the other stood for.
\<close>

theorem swap_exchanges:
  assumes "expected_ok x" and "expected_ok y"
  shows "\<exists>x' y'. expected_swap x y = Ret (x', y') \<and> expected_ok x' \<and> expected_ok y' \<and>
           expected_abs x' = expected_abs y \<and> expected_abs y' = expected_abs x"
  using assms by (elim okE) (metis swap_rep expected_ok_of_rep)

text \<open>
  Every assignment to a result (from a result, a value, an \<open>unexpected\<close>, an emplaced value)
  completes, destroys what the object held before through the temporary, and leaves it standing
  for exactly what was assigned.
\<close>

theorem assignment_stores:
  assumes "expected_ok x" and "expected_ok y"
  shows "\<exists>a b c d.
           expected_assign x y = Ret a \<and> expected_ok a \<and> expected_abs a = expected_abs y \<and>
           expected_assign_value x v = Ret b \<and> expected_ok b \<and> expected_abs b = Inr v \<and>
           expected_assign_unexpected x u = Ret c \<and> expected_ok c \<and>
             expected_abs c = Inl (unexpected_value u) \<and>
           expected_emplace x ctor args = Ret d \<and> expected_ok d \<and> expected_abs d = Inr (ctor args)"
proof -
  obtain s t where "x = rep s" "y = rep t" using assms by (elim okE) blast
  then show ?thesis
    by (simp add: expected_assign_def expected_assign_value_def expected_assign_unexpected_def
        expected_emplace_def del: expected_ok.simps rep.simps)
qed

text \<open>
  The observers of a result follow the sum it stands for: \<open>value()\<close> returns the value or throws
  \<open>bad_expected_access\<close> carrying the stored error, \<open>operator*\<close> and \<open>error()\<close> abort on the wrong side,
  \<open>value_or\<close> falls back, and \<open>==\<close> and \<open>!=\<close> compare the sums.
\<close>

theorem observers_follow_sum:
  fixes x y :: "'t result"
  assumes "expected_ok x" and "expected_ok y"
  shows "expected_value x =
           (case expected_abs x of Inr v \<Rightarrow> Ret v | Inl e \<Rightarrow> Raise (Bad_expected_access e)) \<and>
         expected_deref x = (case expected_abs x of Inr v \<Rightarrow> Ret v | Inl e \<Rightarrow> Abort) \<and>
         expected_error x = (case expected_abs x of Inr v \<Rightarrow> Abort | Inl e \<Rightarrow> Ret e) \<and>
         expected_value_or x d = Ret (case expected_abs x of Inr v \<Rightarrow> v | Inl e \<Rightarrow> d) \<and>
         expected_eq x y = Ret (expected_abs x = expected_abs y) \<and>
         expected_ne x y = Ret (expected_abs x \<noteq> expected_abs y) \<and>
         expected_hash h x = Ret (case expected_abs x of Inr v \<Rightarrow> h v | Inl _ \<Rightarrow> 0)"
proof -
  obtain s t where "x = rep s" "y = rep t" using assms by (elim okE) blast
  then show ?thesis
    by (simp only: expected_abs_rep value_rep deref_rep error_rep value_or_rep eq_rep ne_rep hash_rep)
qed

text \<open>
  \<open>expected<void, E>::swap\<close> does not destroy the error it moves from: after a swap of a value
  with an error the side that now reports a value still has the error constructed in its storage,
  its destructor leaves it there, and assigning an error to it again constructs over it.
\<close>

theorem void_swap_leaves_error:
  "void_swap void_default \<lparr>has_value = False, contained = MError e\<rparr> =
     Ret (\<lparr>has_value = False, contained = MError e\<rparr>, \<lparr>has_value = True, contained = MError e\<rparr>) \<and>
   \<not> void_ok \<lparr>has_value = True, contained = MError e\<rparr> \<and>
   void_destroy \<lparr>has_value = True, contained = MError e\<rparr> = Ret (MError e) \<and>
   void_assign \<lparr>has_value = True, contained = MError e\<rparr>
     \<lparr>has_value = False, contained = MError f\<rparr> = Undefined"
  by (simp add: void_defs)

text \<open>Instances at concrete results.\<close>

definition sample_ok :: "nat result" where
  "sample_ok = \<lparr>has_value = True, contained = MValue 7\<rparr>"

definition sample_err :: "nat result" where
  "sample_err = \<lparr>has_value = False, contained = MError (common_err Common_NOT_FOUND)\<rparr>"

theorem swap_exchanges_witness:
  "\<exists>x' y'. expected_swap sample_ok sample_err = Ret (x', y') \<and> expected_ok x' \<and> expected_ok y' \<and>
     expected_abs x' = expected_abs sample_err \<and> expected_abs y' = expected_abs sample_ok"
  by (rule swap_exchanges) (simp_all add: sample_ok_def sample_err_def)

theorem assignment_stores_witness:
  "\<exists>a b c d.
     expected_assign sample_err sample_ok = Ret a \<and> expected_ok a \<and>
       expected_abs a = expected_abs sample_ok \<and>
     expected_assign_value sample_err 3 = Ret b \<and> expected_ok b \<and> expected_abs b = Inr 3 \<and>
     expected_assign_unexpected sample_err (Unexpected (common_err Common_UNKNOWN)) = Ret c \<and>
       expected_ok c \<and> expected_abs c = Inl (unexpected_value (Unexpected (common_err Common_UNKNOWN))) \<and>
     expected_emplace sample_err Suc 4 = Ret d \<and> expected_ok d \<and> expected_abs d = Inr (Suc 4)"
  by (rule assignment_stores) (simp_all add: sample_ok_def sample_err_def)

theorem observers_follow_sum_witness:
  "expected_value sample_err = Raise (Bad_expected_access (common_err Common_NOT_FOUND)) \<and>
   expected_deref sample_err = Abort \<and>
   expected_value_or sample_err 5 = Ret 5"
  using observers_follow_sum[of sample_err sample_ok 5 undefined]
  by (simp add: sample_ok_def sample_err_def expected_abs_def)

end
