(* ===== verification/Shared_Map.thy ===== *)
theory Shared_Map
  imports Main
begin

section \<open>The interface a component sees of a shared pointer map\<close>

text \<open>
  The broker and the connection cache keep their objects behind \<open>capy::Cache\<close> and use five of
  its operations. This locale is the contract they rely on: \<open>view\<close> is the map from keys to
  non-empty pointers a client can observe, \<open>inv\<close> what the operations maintain. Its
  interpretation on the sharded cache is in theory \<open>Cache\<close>.
\<close>

locale shared_map =
  fixes get :: "'k \<Rightarrow> 'c \<Rightarrow> 'v option \<times> 'c"
    and has :: "'k \<Rightarrow> 'c \<Rightarrow> bool \<times> 'c"
    and put :: "'k \<Rightarrow> 'v option \<Rightarrow> 'c \<Rightarrow> nat \<times> 'c"
    and del :: "'k \<Rightarrow> 'c \<Rightarrow> nat \<times> 'c"
    and flush :: "'c \<Rightarrow> nat \<times> 'c"
    and view :: "'c \<Rightarrow> 'k \<Rightarrow> 'v option"
    and inv :: "'c \<Rightarrow> bool"
  assumes get_law: "inv c \<Longrightarrow> get k c = (view c k, c)"
    and has_law: "inv c \<Longrightarrow> has k c = (view c k \<noteq> None, c)"
    and put_view: "inv c \<Longrightarrow> view (snd (put k p c)) = (view c)(k := p)"
    and put_inv: "inv c \<Longrightarrow> inv (snd (put k p c))"
    and del_view: "inv c \<Longrightarrow> view (snd (del k c)) = (view c)(k := None)"
    and del_inv: "inv c \<Longrightarrow> inv (snd (del k c))"
    and flush_view: "inv c \<Longrightarrow> view (snd (flush c)) = (\<lambda>_. None)"
    and flush_inv: "inv c \<Longrightarrow> inv (snd (flush c))"
begin

lemmas map_laws = get_law has_law put_view put_inv del_view del_inv flush_view flush_inv

lemma guarded_get:
  assumes "inv c" and "fst (has k c)"
  shows "\<exists>v. get k (snd (has k c)) = (Some v, c)"
  using assms by (auto simp: map_laws)

lemma get_after_put:
  "inv c \<Longrightarrow> fst (get k (snd (put k p c))) = p"
  by (simp add: map_laws)

lemma get_after_put_other:
  "inv c \<Longrightarrow> j \<noteq> k \<Longrightarrow> fst (get j (snd (put k p c))) = fst (get j c)"
  by (simp add: map_laws)

lemma has_after_del:
  "inv c \<Longrightarrow> \<not> fst (has k (snd (del k c)))"
  by (simp add: map_laws)

lemma del_idem_view:
  "inv c \<Longrightarrow> view (snd (del k (snd (del k c)))) = view (snd (del k c))"
  by (simp add: map_laws)

end

end
