(* ===== verification/Cache.thy ===== *)
theory Cache
  imports Errors Shared_Map
begin

section \<open>capy::Cache: the sharded, expiring, lock-per-shard map\<close>

text \<open>
  Models \<open>src/include/capy/amqp_cache.h\<close>. A cache is a vector of 256 shards; a key lives in the
  shard its hash selects. Each item carries a \<open>shared_ptr\<close> (\<open>None\<close> is the empty pointer) and an
  expiration second, 0 meaning never. Every operation takes the lock of one shard, so an
  operation on a key is one atomic step; \<open>flush\<close>, \<open>metrics\<close> and the curator lock the shards one
  after the other. \<open>std::hash\<close> and the clock are parameters.
\<close>

datatype write_mode = WRITE_ALWAYS | ONLY_WRITE_IF_SET | ONLY_WRITE_IF_NOT_SET

record 'v cache_item =
  item_data :: "'v option"
  item_expiration :: time_t

type_synonym ('k, 'v) shard = "('k, 'v cache_item) stdmap"

record ('k, 'v) cache =
  shards :: "('k, 'v) shard list"

definition FASTCACHE_SHARDSIZE :: nat where
  "FASTCACHE_SHARDSIZE = 256"

subsection \<open>The operations\<close>

definition expired :: "time_t \<Rightarrow> 'v cache_item \<Rightarrow> bool" where
  "expired now item \<longleftrightarrow> (if item_expiration item = 0 then False else now > item_expiration item)"

text \<open>The loop of \<open>cull_expired_keys\<close>, which erases behind its iterator.\<close>

fun cull_expired_keys :: "time_t \<Rightarrow> ('k, 'v) shard \<Rightarrow> ('k, 'v) shard" where
  "cull_expired_keys now [] = []"
| "cull_expired_keys now ((k, item) # rest) =
     (if expired now item then cull_expired_keys now rest
      else (k, item) # cull_expired_keys now rest)"

definition new_cache :: "('k, 'v) cache" where
  "new_cache = \<lparr>shards = replicate FASTCACHE_SHARDSIZE []\<rparr>"

definition calc_index :: "('k \<Rightarrow> u64) \<Rightarrow> 'k \<Rightarrow> nat" where
  "calc_index hash key = unat (hash key) mod FASTCACHE_SHARDSIZE"

definition cache_metrics :: "('k, 'v) cache \<Rightarrow> nat" where
  "cache_metrics c = foldl (\<lambda>total shard. total + length shard) 0 (shards c)"

definition shard_set ::
  "'k \<Rightarrow> 'v cache_item \<Rightarrow> write_mode \<Rightarrow> ('k, 'v) shard \<Rightarrow> nat \<times> ('k, 'v) shard" where
  "shard_set key item mode m =
     (if mode = ONLY_WRITE_IF_SET \<and> map_of m key = None then (0, m)
      else
        let m1 = (if mode = ONLY_WRITE_IF_SET then fst (stdmap_erase key m) else m);
            (m2, inserted) = stdmap_insert key item m1
        in if \<not> inserted then
             (if mode = ONLY_WRITE_IF_NOT_SET then (0, m2)
              else (1, fst (stdmap_insert key item (fst (stdmap_erase key m2)))))
           else (1, m2))"

definition cache_set ::
  "('k \<Rightarrow> u64) \<Rightarrow> 'k \<Rightarrow> 'v option \<Rightarrow> time_t \<Rightarrow> write_mode \<Rightarrow> ('k, 'v) cache \<Rightarrow> nat \<times> ('k, 'v) cache" where
  "cache_set hash key val expiration mode c =
     (let index = calc_index hash key;
          (n, m) = shard_set key \<lparr>item_data = val, item_expiration = expiration\<rparr> mode (shards c ! index)
      in (n, c\<lparr>shards := (shards c)[index := m]\<rparr>))"

definition cache_get ::
  "('k \<Rightarrow> u64) \<Rightarrow> time_t \<Rightarrow> 'k \<Rightarrow> ('k, 'v) cache \<Rightarrow> 'v option \<times> ('k, 'v) cache" where
  "cache_get hash now key c =
     (let index = calc_index hash key; shard = shards c ! index
      in case map_of shard key of
           None \<Rightarrow> (None, c)
         | Some item \<Rightarrow>
             (if expired now item
              then (None, c\<lparr>shards := (shards c)[index := fst (stdmap_erase key shard)]\<rparr>)
              else (item_data item, c)))"

definition cache_has ::
  "('k \<Rightarrow> u64) \<Rightarrow> time_t \<Rightarrow> 'k \<Rightarrow> ('k, 'v) cache \<Rightarrow> bool \<times> ('k, 'v) cache" where
  "cache_has hash now key c =
     (let (p, c') = cache_get hash now key c in ((case p of None \<Rightarrow> False | Some _ \<Rightarrow> True), c'))"

definition cache_del ::
  "('k \<Rightarrow> u64) \<Rightarrow> 'k \<Rightarrow> ('k, 'v) cache \<Rightarrow> nat \<times> ('k, 'v) cache" where
  "cache_del hash key c =
     (let index = calc_index hash key; (m, n) = stdmap_erase key (shards c ! index)
      in (n, c\<lparr>shards := (shards c)[index := m]\<rparr>))"

fun flush_shards :: "('k, 'v) shard list \<Rightarrow> nat \<Rightarrow> nat \<times> ('k, 'v) shard list" where
  "flush_shards [] count = (count, [])"
| "flush_shards (m # ms) count =
     (let (n, ms') = flush_shards ms (count + length m) in (n, [] # ms'))"

definition cache_flush :: "('k, 'v) cache \<Rightarrow> nat \<times> ('k, 'v) cache" where
  "cache_flush c = (let (n, ms) = flush_shards (shards c) 0 in (n, c\<lparr>shards := ms\<rparr>))"

text \<open>
  One wake-up of the curator, and the curator thread as the list of its wake-up times until it is
  retired (\<open>curator_run\<close> drops to 0, or the curator is not enabled).
\<close>

definition curate_pass :: "time_t \<Rightarrow> ('k, 'v) cache \<Rightarrow> ('k, 'v) cache" where
  "curate_pass now c = c\<lparr>shards := map (cull_expired_keys now) (shards c)\<rparr>"

fun curate :: "bool \<Rightarrow> time_t list \<Rightarrow> ('k, 'v) cache \<Rightarrow> ('k, 'v) cache" where
  "curate enable_curator wakeups c =
     (if \<not> enable_curator then c else foldl (\<lambda>c now. curate_pass now c) c wakeups)"

subsection \<open>Invariant and abstraction\<close>

definition cache_ok :: "('k \<Rightarrow> u64) \<Rightarrow> ('k, 'v) cache \<Rightarrow> bool" where
  "cache_ok hash c \<longleftrightarrow>
     length (shards c) = FASTCACHE_SHARDSIZE
     \<and> (\<forall>i < length (shards c).
          stdmap_ok (shards c ! i) \<and> (\<forall>k \<in> fst ` set (shards c ! i). calc_index hash k = i))"

definition cache_abs :: "('k \<Rightarrow> u64) \<Rightarrow> ('k, 'v) cache \<Rightarrow> 'k \<Rightarrow> 'v cache_item option" where
  "cache_abs hash c k = map_of (shards c ! calc_index hash k) k"

text \<open>What a client can see of the cache at a moment: the live, non-empty pointers.\<close>

definition cache_view :: "('k \<Rightarrow> u64) \<Rightarrow> time_t \<Rightarrow> ('k, 'v) cache \<Rightarrow> 'k \<Rightarrow> 'v option" where
  "cache_view hash now c k =
     (case cache_abs hash c k of
        None \<Rightarrow> None
      | Some item \<Rightarrow> if expired now item then None else item_data item)"

lemma calc_index_bound [simp]: "calc_index hash k < FASTCACHE_SHARDSIZE"
  by (simp add: calc_index_def FASTCACHE_SHARDSIZE_def)

lemma cache_ok_index [simp]: "cache_ok hash c \<Longrightarrow> calc_index hash k < length (shards c)"
  by (simp add: cache_ok_def)

lemma cache_ok_shard: "cache_ok hash c \<Longrightarrow> stdmap_ok (shards c ! calc_index hash k)"
  by (simp add: cache_ok_def)

lemma new_cache_ok [simp]: "cache_ok hash new_cache"
  by (simp add: cache_ok_def new_cache_def FASTCACHE_SHARDSIZE_def)

lemma new_cache_abs [simp]: "cache_abs hash new_cache = (\<lambda>_. None)"
  by (simp add: cache_abs_def new_cache_def fun_eq_iff)

text \<open>
  Every writing operation replaces one shard by a well-formed one whose keys belong there: the
  shape of all refinement steps below.
\<close>

lemma cache_ok_update:
  assumes "cache_ok hash c" and "i = calc_index hash key" and "stdmap_ok m"
    and "\<And>k. k \<in> fst ` set m \<Longrightarrow> calc_index hash k = i"
  shows "cache_ok hash (c\<lparr>shards := (shards c)[i := m]\<rparr>)"
  using assms by (auto simp: cache_ok_def nth_list_update)

lemma cache_abs_update:
  assumes "cache_ok hash c" and "i = calc_index hash key"
  shows "cache_abs hash (c\<lparr>shards := (shards c)[i := m]\<rparr>) k =
    (if calc_index hash k = i then map_of m k else cache_abs hash c k)"
  using assms by (auto simp: cache_abs_def nth_list_update)

lemma cache_keys_index:
  assumes "cache_ok hash c" and "k \<in> fst ` set (shards c ! calc_index hash key)"
  shows "calc_index hash k = calc_index hash key"
  using assms calc_index_bound[of hash key] unfolding cache_ok_def by metis

lemma keys_insert: "fst ` set (fst (stdmap_insert k v m)) = insert k (fst ` set m)"
  by (force simp: stdmap_insert_def dest: map_of_SomeD split: option.splits)

lemma keys_erase: "fst ` set (fst (stdmap_erase k m)) = fst ` set m - {k}"
  by (auto simp: stdmap_erase_def)

subsection \<open>set\<close>

definition set_writes :: "write_mode \<Rightarrow> 'v cache_item option \<Rightarrow> bool" where
  "set_writes mode old \<longleftrightarrow>
     (case mode of
        WRITE_ALWAYS \<Rightarrow> True
      | ONLY_WRITE_IF_SET \<Rightarrow> old \<noteq> None
      | ONLY_WRITE_IF_NOT_SET \<Rightarrow> old = None)"

lemma shard_set_map_of:
  "map_of (snd (shard_set key item mode m)) =
     (if set_writes mode (map_of m key) then (map_of m)(key \<mapsto> item) else map_of m)"
  by (cases mode; cases "map_of m key")
    (auto simp: shard_set_def set_writes_def stdmap_insert_def stdmap_erase_def map_of_filter_key
        map_add_def fun_eq_iff split: option.splits)

lemma shard_set_count:
  "fst (shard_set key item mode m) = (if set_writes mode (map_of m key) then 1 else 0)"
  by (cases mode; cases "map_of m key")
    (simp_all add: shard_set_def set_writes_def stdmap_insert_def stdmap_erase_def
        map_of_filter_key)

lemma shard_set_ok:
  "stdmap_ok m \<Longrightarrow> stdmap_ok (snd (shard_set key item mode m))"
  by (cases mode; cases "map_of m key")
    (simp_all add: shard_set_def Let_def split_beta)

lemma shard_set_keys:
  "fst ` set (snd (shard_set key item mode m)) \<subseteq> insert key (fst ` set m)"
  by (cases mode; cases "map_of m key")
    (auto simp: shard_set_def Let_def split_beta keys_insert keys_erase)

lemma cache_set_eq:
  "cache_set hash key val e mode c =
     (fst (shard_set key \<lparr>item_data = val, item_expiration = e\<rparr> mode (shards c ! calc_index hash key)),
      c\<lparr>shards := (shards c)[calc_index hash key :=
         snd (shard_set key \<lparr>item_data = val, item_expiration = e\<rparr> mode
           (shards c ! calc_index hash key))]\<rparr>)"
  by (simp add: cache_set_def Let_def split_beta)

lemma cache_set_ok:
  assumes "cache_ok hash c"
  shows "cache_ok hash (snd (cache_set hash key val e mode c))"
  unfolding cache_set_eq snd_conv
proof (rule cache_ok_update[OF assms refl])
  show "stdmap_ok (snd (shard_set key \<lparr>item_data = val, item_expiration = e\<rparr> mode
      (shards c ! calc_index hash key)))"
    using assms by (intro shard_set_ok) (rule cache_ok_shard)
  fix k
  assume "k \<in> fst ` set (snd (shard_set key \<lparr>item_data = val, item_expiration = e\<rparr> mode
      (shards c ! calc_index hash key)))"
  then have "k \<in> insert key (fst ` set (shards c ! calc_index hash key))"
    by (rule subsetD[OF shard_set_keys])
  then show "calc_index hash k = calc_index hash key"
    by (elim insertE) (simp, rule cache_keys_index[OF assms])
qed

lemma cache_set_abs:
  assumes "cache_ok hash c"
  shows "cache_abs hash (snd (cache_set hash key val e mode c)) =
    (if set_writes mode (cache_abs hash c key)
     then (cache_abs hash c)(key \<mapsto> \<lparr>item_data = val, item_expiration = e\<rparr>)
     else cache_abs hash c)"
  unfolding cache_set_eq snd_conv fun_eq_iff cache_abs_update[OF assms refl] shard_set_map_of
  by (auto simp: cache_abs_def)

lemma cache_set_result:
  "fst (cache_set hash key val e mode c) = (if set_writes mode (cache_abs hash c key) then 1 else 0)"
  unfolding cache_set_eq fst_conv shard_set_count by (simp add: cache_abs_def)

subsection \<open>del\<close>

lemma cache_del_eq:
  "cache_del hash key c =
     (snd (stdmap_erase key (shards c ! calc_index hash key)),
      c\<lparr>shards := (shards c)[calc_index hash key :=
         fst (stdmap_erase key (shards c ! calc_index hash key))]\<rparr>)"
  by (simp add: cache_del_def Let_def split_beta)

lemma cache_erase_ok:
  assumes "cache_ok hash c"
  shows "cache_ok hash (c\<lparr>shards := (shards c)[calc_index hash key :=
         fst (stdmap_erase key (shards c ! calc_index hash key))]\<rparr>)"
proof (rule cache_ok_update[OF assms refl])
  show "stdmap_ok (fst (stdmap_erase key (shards c ! calc_index hash key)))"
    using assms by (simp add: cache_ok_shard)
  fix k
  assume "k \<in> fst ` set (fst (stdmap_erase key (shards c ! calc_index hash key)))"
  then have "k \<in> fst ` set (shards c ! calc_index hash key)"
    unfolding keys_erase by blast
  then show "calc_index hash k = calc_index hash key"
    by (rule cache_keys_index[OF assms])
qed

lemma cache_erase_abs:
  assumes "cache_ok hash c"
  shows "cache_abs hash (c\<lparr>shards := (shards c)[calc_index hash key :=
         fst (stdmap_erase key (shards c ! calc_index hash key))]\<rparr>) = (cache_abs hash c)(key := None)"
  unfolding fun_eq_iff cache_abs_update[OF assms refl] map_of_erase
  by (auto simp: cache_abs_def)

lemma cache_del_ok: "cache_ok hash c \<Longrightarrow> cache_ok hash (snd (cache_del hash key c))"
  by (simp add: cache_del_eq cache_erase_ok)

lemma cache_del_abs:
  "cache_ok hash c \<Longrightarrow> cache_abs hash (snd (cache_del hash key c)) = (cache_abs hash c)(key := None)"
  by (simp add: cache_del_eq cache_erase_abs)

lemma cache_del_result:
  "cache_ok hash c \<Longrightarrow>
   fst (cache_del hash key c) = (if cache_abs hash c key = None then 0 else 1)"
  by (simp add: cache_del_eq cache_abs_def cache_ok_shard stdmap_erase_count)

subsection \<open>get and has\<close>

lemma cache_get_result: "fst (cache_get hash now key c) = cache_view hash now c key"
  by (simp add: cache_get_def cache_view_def cache_abs_def Let_def split: option.split)

lemma cache_get_ok: "cache_ok hash c \<Longrightarrow> cache_ok hash (snd (cache_get hash now key c))"
  by (simp add: cache_get_def Let_def cache_erase_ok split: option.split)

lemma cache_get_abs:
  "cache_ok hash c \<Longrightarrow>
   cache_abs hash (snd (cache_get hash now key c)) =
     (case cache_abs hash c key of
        Some item \<Rightarrow> if expired now item then (cache_abs hash c)(key := None) else cache_abs hash c
      | None \<Rightarrow> cache_abs hash c)"
  by (auto simp: cache_get_def Let_def cache_erase_abs cache_abs_def[of hash c key]
      split: option.split)

lemma expired_mono: "expired now item \<Longrightarrow> now \<le> later \<Longrightarrow> expired later item"
  by (auto simp: expired_def split: if_splits)

text \<open>A lookup may erase, but no client can tell, then or at any later time.\<close>

lemma cache_get_view:
  assumes "cache_ok hash c" and "now \<le> later"
  shows "cache_view hash later (snd (cache_get hash now key c)) = cache_view hash later c"
  using assms
  by (auto simp: cache_view_def cache_get_abs fun_eq_iff expired_mono split: option.splits)

lemma cache_has_eq:
  "cache_has hash now key c =
     (cache_view hash now c key \<noteq> None, snd (cache_get hash now key c))"
  unfolding cache_has_def split_beta Let_def cache_get_result
  by (cases "cache_view hash now c key") simp_all

subsection \<open>flush, metrics and the curator\<close>

lemma flush_shards_eq:
  "flush_shards ms count = (count + sum_list (map length ms), map (\<lambda>_. []) ms)"
  by (induction ms arbitrary: count) auto

lemma foldl_metrics: "foldl (\<lambda>total shard. total + length shard) n ms = n + sum_list (map length ms)"
  by (induction ms arbitrary: n) auto

lemma cache_flush_eq:
  "cache_flush c = (cache_metrics c, c\<lparr>shards := map (\<lambda>_. []) (shards c)\<rparr>)"
  by (simp add: cache_flush_def flush_shards_eq cache_metrics_def foldl_metrics)

lemma cache_flush_ok: "cache_ok hash c \<Longrightarrow> cache_ok hash (snd (cache_flush c))"
  by (simp add: cache_flush_eq cache_ok_def)

lemma cache_flush_abs:
  "cache_ok hash c \<Longrightarrow> cache_abs hash (snd (cache_flush c)) = (\<lambda>_. None)"
  by (simp add: cache_flush_eq cache_abs_def fun_eq_iff)

lemma cull_filter: "cull_expired_keys now m = filter (\<lambda>p. \<not> expired now (snd p)) m"
  by (induction now m rule: cull_expired_keys.induct) auto

lemma curate_pass_ok: "cache_ok hash c \<Longrightarrow> cache_ok hash (curate_pass now c)"
  by (auto simp: curate_pass_def cache_ok_def cull_filter)

lemma curate_pass_abs:
  assumes "cache_ok hash c"
  shows "cache_abs hash (curate_pass now c) k =
    (case cache_abs hash c k of
       None \<Rightarrow> None | Some item \<Rightarrow> if expired now item then None else Some item)"
  using map_of_filter_ok[OF cache_ok_shard[OF assms, of k], of "\<lambda>i. \<not> expired now i" k]
    cache_ok_index[OF assms, of k]
  by (simp add: curate_pass_def cache_abs_def cull_filter cong: option.case_cong)
    (simp split: option.split)

lemma curate_pass_view:
  assumes "cache_ok hash c" and "now \<le> later"
  shows "cache_view hash later (curate_pass now c) = cache_view hash later c"
  using assms
  by (auto simp: cache_view_def curate_pass_abs fun_eq_iff expired_mono split: option.splits)

lemma curate_ok: "cache_ok hash c \<Longrightarrow> cache_ok hash (curate b ws c)"
proof (cases b)
  case True
  assume "cache_ok hash c"
  with True show ?thesis
    by (induction ws arbitrary: c) (simp_all add: curate_pass_ok)
qed simp

lemma curate_view:
  "cache_ok hash c \<Longrightarrow> \<forall>w \<in> set ws. w \<le> later \<Longrightarrow>
   cache_view hash later (curate b ws c) = cache_view hash later c"
proof (cases b)
  case True
  assume "cache_ok hash c" "\<forall>w \<in> set ws. w \<le> later"
  with True show ?thesis
    by (induction ws arbitrary: c) (simp_all add: curate_pass_ok curate_pass_view)
qed simp

subsection \<open>Counting\<close>

lemma cache_dom:
  assumes "cache_ok hash c"
  shows "{k. cache_abs hash c k \<noteq> None} = (\<Union>i < length (shards c). fst ` set (shards c ! i))"
proof (intro set_eqI iffI)
  fix k
  assume "k \<in> {k. cache_abs hash c k \<noteq> None}"
  then have "k \<in> fst ` set (shards c ! calc_index hash k)"
    by (auto simp: cache_abs_def dest!: map_of_SomeD intro: rev_image_eqI)
  then show "k \<in> (\<Union>i < length (shards c). fst ` set (shards c ! i))"
    using cache_ok_index[OF assms] by blast
next
  fix k
  assume "k \<in> (\<Union>i < length (shards c). fst ` set (shards c ! i))"
  then obtain i where i: "i < length (shards c)" and k: "k \<in> fst ` set (shards c ! i)"
    by blast
  with assms have "calc_index hash k = i"
    unfolding cache_ok_def by blast
  with k show "k \<in> {k. cache_abs hash c k \<noteq> None}"
    by (simp add: cache_abs_def map_of_eq_None_iff)
qed

lemma shard_length_card:
  assumes "cache_ok hash c" and "i < length (shards c)"
  shows "length (shards c ! i) = card (fst ` set (shards c ! i))"
  using assms stdmap_size[of "shards c ! i"] by (simp add: cache_ok_def dom_map_of_conv_image_fst)

lemma shard_keys_disjoint:
  assumes "cache_ok hash c" and "i < length (shards c)" and "j < length (shards c)" and "i \<noteq> j"
  shows "fst ` set (shards c ! i) \<inter> fst ` set (shards c ! j) = {}"
proof -
  have "calc_index hash k = i" if "k \<in> fst ` set (shards c ! i)" for k
    using assms(1,2) that unfolding cache_ok_def by blast
  moreover have "calc_index hash k = j" if "k \<in> fst ` set (shards c ! j)" for k
    using assms(1,3) that unfolding cache_ok_def by blast
  ultimately show ?thesis
    using assms(4) by blast
qed

lemma cache_metrics_card:
  assumes "cache_ok hash c"
  shows "cache_metrics c = card {k. cache_abs hash c k \<noteq> None}"
proof -
  have "cache_metrics c = (\<Sum>i < length (shards c). length (shards c ! i))"
    by (simp add: cache_metrics_def foldl_metrics sum_list_sum_nth atLeast0LessThan)
  also have "\<dots> = (\<Sum>i < length (shards c). card (fst ` set (shards c ! i)))"
    using shard_length_card[OF assms] by simp
  also have "\<dots> = card (\<Union>i < length (shards c). fst ` set (shards c ! i))"
    using shard_keys_disjoint[OF assms] by (intro card_UN_disjoint[symmetric]) auto
  finally show ?thesis
    by (simp only: cache_dom[OF assms])
qed

lemma cache_flush_result:
  "cache_ok hash c \<Longrightarrow> fst (cache_flush c) = card {k. cache_abs hash c k \<noteq> None}"
  by (simp add: cache_flush_eq cache_metrics_card)

subsection \<open>Caches whose items never expire\<close>

text \<open>
  The broker's caches are filled with the default expiration 0. For them the clock plays no role
  and a lookup leaves the cache as it is.
\<close>

definition eternal_ok :: "('k \<Rightarrow> u64) \<Rightarrow> ('k, 'v) cache \<Rightarrow> bool" where
  "eternal_ok hash c \<longleftrightarrow>
     cache_ok hash c \<and> (\<forall>k item. cache_abs hash c k = Some item \<longrightarrow> item_expiration item = 0)"

definition cache_live :: "('k \<Rightarrow> u64) \<Rightarrow> ('k, 'v) cache \<Rightarrow> 'k \<Rightarrow> 'v option" where
  "cache_live hash c k = Option.bind (cache_abs hash c k) item_data"

lemma eternal_view: "eternal_ok hash c \<Longrightarrow> cache_view hash now c k = cache_live hash c k"
  by (auto simp: eternal_ok_def cache_view_def cache_live_def expired_def split: option.split)

lemma eternal_get: "eternal_ok hash c \<Longrightarrow> cache_get hash now k c = (cache_live hash c k, c)"
  by (auto simp: eternal_ok_def cache_get_def cache_live_def cache_abs_def expired_def Let_def
      split: option.split)

lemma eternal_has: "eternal_ok hash c \<Longrightarrow> cache_has hash now k c = (cache_live hash c k \<noteq> None, c)"
  by (simp add: cache_has_eq eternal_view eternal_get)

lemma eternal_set_ok: "eternal_ok hash c \<Longrightarrow> eternal_ok hash (snd (cache_set hash k p 0 mode c))"
  by (auto simp: eternal_ok_def cache_set_ok cache_set_abs)

lemma eternal_set_live:
  "eternal_ok hash c \<Longrightarrow>
   cache_live hash (snd (cache_set hash k p 0 WRITE_ALWAYS c)) = (cache_live hash c)(k := p)"
  by (auto simp: eternal_ok_def cache_live_def cache_set_abs set_writes_def fun_eq_iff)

lemma eternal_del_ok: "eternal_ok hash c \<Longrightarrow> eternal_ok hash (snd (cache_del hash k c))"
  by (auto simp: eternal_ok_def cache_del_ok cache_del_abs)

lemma eternal_del_live:
  "eternal_ok hash c \<Longrightarrow> cache_live hash (snd (cache_del hash k c)) = (cache_live hash c)(k := None)"
  by (auto simp: eternal_ok_def cache_live_def cache_del_abs fun_eq_iff)

lemma eternal_flush_ok: "eternal_ok hash c \<Longrightarrow> eternal_ok hash (snd (cache_flush c))"
  by (auto simp: eternal_ok_def cache_flush_ok cache_flush_abs)

lemma eternal_flush_live:
  "eternal_ok hash c \<Longrightarrow> cache_live hash (snd (cache_flush c)) = (\<lambda>_. None)"
  by (auto simp: eternal_ok_def cache_live_def cache_flush_abs fun_eq_iff)

lemma eternal_new [simp]: "eternal_ok hash new_cache"
  by (simp add: eternal_ok_def)

lemma live_new [simp]: "cache_live hash new_cache = (\<lambda>_. None)"
  by (simp add: cache_live_def fun_eq_iff)

interpretation ptr_cache: shared_map
  "cache_get hash now" "cache_has hash now" "\<lambda>k p. cache_set hash k p 0 WRITE_ALWAYS"
  "cache_del hash" "cache_flush" "cache_live hash" "eternal_ok hash"
  for hash :: "'k \<Rightarrow> u64" and now :: time_t
  by unfold_locales
    (simp_all add: eternal_get eternal_has eternal_set_ok eternal_set_live eternal_del_ok
      eternal_del_live eternal_flush_ok eternal_flush_live)

subsection \<open>Properties\<close>

text \<open>
  C6: The sharded cache implements a plain map from keys to items. On a well-formed cache \<open>set\<close>
  (in each write mode), \<open>del\<close>, \<open>flush\<close> and a curator pass update the map they stand for
  and return the number of entries they touched; \<open>get\<close> returns the pointer the map has for the key,
  or none when there is no entry or it has expired, in which case the entry goes; \<open>has\<close> says whether
  \<open>get\<close> finds a pointer and does the same to the cache; \<open>metrics\<close> counts the entries. Every operation
  keeps the cache well-formed (256 shards, distinct keys, each key in the shard its hash selects).
\<close>

theorem cache_refines_map:
  assumes "cache_ok hash c"
  shows "cache_ok hash (snd (cache_set hash k p e mode c))
    \<and> fst (cache_set hash k p e mode c) = (if set_writes mode (cache_abs hash c k) then 1 else 0)
    \<and> cache_abs hash (snd (cache_set hash k p e mode c)) =
        (if set_writes mode (cache_abs hash c k)
         then (cache_abs hash c)(k \<mapsto> \<lparr>item_data = p, item_expiration = e\<rparr>)
         else cache_abs hash c)
    \<and> cache_ok hash (snd (cache_get hash now k c))
    \<and> fst (cache_get hash now k c) =
        (case cache_abs hash c k of None \<Rightarrow> None | Some item \<Rightarrow> if expired now item then None else item_data item)
    \<and> cache_abs hash (snd (cache_get hash now k c)) =
        (case cache_abs hash c k of
           None \<Rightarrow> cache_abs hash c
         | Some item \<Rightarrow> if expired now item then (cache_abs hash c)(k := None) else cache_abs hash c)
    \<and> cache_has hash now k c = (fst (cache_get hash now k c) \<noteq> None, snd (cache_get hash now k c))
    \<and> cache_ok hash (snd (cache_del hash k c))
    \<and> fst (cache_del hash k c) = (if cache_abs hash c k = None then 0 else 1)
    \<and> cache_abs hash (snd (cache_del hash k c)) = (cache_abs hash c)(k := None)
    \<and> cache_ok hash (snd (cache_flush c))
    \<and> fst (cache_flush c) = card {j. cache_abs hash c j \<noteq> None}
    \<and> cache_abs hash (snd (cache_flush c)) = (\<lambda>_. None)
    \<and> cache_ok hash (curate_pass now c)
    \<and> cache_abs hash (curate_pass now c) k =
        (case cache_abs hash c k of
           None \<Rightarrow> None | Some item \<Rightarrow> if expired now item then None else Some item)
    \<and> cache_metrics c = card {j. cache_abs hash c j \<noteq> None}"
  using assms
  by (simp only: cache_set_ok cache_set_result cache_set_abs cache_get_ok cache_get_result[unfolded cache_view_def]
      cache_get_abs cache_has_eq cache_get_result cache_del_ok cache_del_result
      cache_del_abs cache_flush_ok cache_flush_abs curate_pass_ok curate_pass_abs
      cache_flush_result cache_metrics_card cache_view_def simp_thms)

text \<open>A cache with one live and one expired entry, used to instantiate the properties.\<close>

definition sample_hash :: "nat \<Rightarrow> u64" where
  "sample_hash k = of_nat k"

definition sample_cache :: "(nat, string) cache" where
  "sample_cache =
     snd (cache_set sample_hash 257 (Some ''b'') 10 WRITE_ALWAYS
       (snd (cache_set sample_hash 1 (Some ''a'') 0 WRITE_ALWAYS new_cache)))"

lemma sample_cache_ok: "cache_ok sample_hash sample_cache"
  by (simp add: sample_cache_def cache_set_ok)

lemma sample_cache_abs:
  "cache_abs sample_hash sample_cache =
     [1 \<mapsto> \<lparr>item_data = Some ''a'', item_expiration = 0\<rparr>,
      257 \<mapsto> \<lparr>item_data = Some ''b'', item_expiration = 10\<rparr>]"
  by (simp add: sample_cache_def cache_set_ok cache_set_abs set_writes_def fun_eq_iff)

theorem cache_refines_map_witness:
  "fst (cache_set sample_hash 257 (Some ''c'') 0 ONLY_WRITE_IF_NOT_SET sample_cache) = 0
   \<and> fst (cache_del sample_hash 1 sample_cache) = 1
   \<and> fst (cache_get sample_hash 5 257 sample_cache) = Some ''b''
   \<and> fst (cache_has sample_hash 20 257 sample_cache) = False"
  using cache_refines_map[OF sample_cache_ok, of 257 "Some ''c''" 0 ONLY_WRITE_IF_NOT_SET 5]
    cache_refines_map[OF sample_cache_ok, of 1] cache_refines_map[OF sample_cache_ok, of 257 None 0 WRITE_ALWAYS 20]
  by (simp add: sample_cache_abs set_writes_def expired_def)

text \<open>
  Lookups are invisible: \<open>get\<close> returns the live pointer of the key, \<open>has\<close> says whether
  there is one, and although both may erase an expired entry, no lookup of any key, then or at any
  later time, can tell; the same holds of every run of the curator.
\<close>

theorem cache_lookup_invisible:
  assumes "cache_ok hash c" and "now \<le> later" and "\<forall>w \<in> set wakeups. w \<le> later"
  shows "fst (cache_get hash now k c) = cache_view hash now c k
    \<and> fst (cache_has hash now k c) = (cache_view hash now c k \<noteq> None)
    \<and> cache_view hash later (snd (cache_get hash now k c)) = cache_view hash later c
    \<and> cache_view hash later (snd (cache_has hash now k c)) = cache_view hash later c
    \<and> cache_view hash later (curate b wakeups c) = cache_view hash later c"
  using cache_get_view[OF assms(1,2)] curate_view[OF assms(1,3)]
  by (simp add: cache_get_result cache_has_eq)

theorem cache_lookup_invisible_witness:
  "fst (cache_get sample_hash 20 257 sample_cache) = None
   \<and> cache_view sample_hash 30 (curate True [20, 25] sample_cache) 1 = Some ''a''"
  using cache_lookup_invisible[OF sample_cache_ok, of 20 30 "[20, 25]" 257 True]
  by (simp add: cache_view_def sample_cache_abs expired_def)

end
