(* ===== verification/Deferred.thy ===== *)
theory Deferred
  imports Errors
begin

section \<open>Deferred: the callbacks of one pending operation\<close>

text \<open>
  Models \<open>src/include/capy/amqp_deferred.h\<close>. A deferred object holds up to four callbacks, a
  stored error and the flag \<open>failed_\<close>. Callbacks are named by a type \<open>'h\<close>; a report returns the
  object after it, the list of callback invocations it made, in order, and how it ended. Which
  invocations throw is the parameter \<open>thr\<close> (the callbacks are user code). \<open>failed_\<close> has no
  initialiser in the source: \<open>None\<close> is its indeterminate value, and reading it is \<open>Undefined\<close>.
\<close>

datatype ('h, 'p) call =
    Call_data 'h 'p
  | Call_success 'h
  | Call_error 'h error
  | Call_finalize 'h

record 'h deferred =
  data_handler :: "'h option"
  success_handler :: "'h option"
  error_handler :: "'h option"
  finalize_handler :: "'h option"
  deferred_error :: error
  failed :: "bool option"

type_synonym ('h, 'p) throws = "('h, 'p) call \<Rightarrow> exn option"

text \<open>The environment in which no callback throws.\<close>

definition quiet_throws :: "('h, 'p) throws" where
  "quiet_throws c = None"

subsection \<open>Operations\<close>

definition mk_deferred :: "error \<Rightarrow> 'h deferred" where
  "mk_deferred e =
     \<lparr>data_handler = None, success_handler = None, error_handler = None, finalize_handler = None,
      deferred_error = e, failed = None\<rparr>"

definition deferred_bool :: "'h deferred \<Rightarrow> bool outcome" where
  "deferred_bool d = (case failed d of None \<Rightarrow> Undefined | Some f \<Rightarrow> Ret (\<not> f))"

definition on_data :: "'h \<Rightarrow> 'h deferred \<Rightarrow> 'h deferred" where
  "on_data callback d = d\<lparr>data_handler := Some callback\<rparr>"

definition on_success :: "'h \<Rightarrow> 'h deferred \<Rightarrow> 'h deferred" where
  "on_success callback d = d\<lparr>success_handler := Some callback\<rparr>"

definition on_error :: "'h \<Rightarrow> 'h deferred \<Rightarrow> 'h deferred" where
  "on_error callback d = d\<lparr>error_handler := Some callback\<rparr>"

definition on_finalize :: "'h \<Rightarrow> 'h deferred \<Rightarrow> 'h deferred" where
  "on_finalize callback d = d\<lparr>finalize_handler := Some callback\<rparr>"

text \<open>Calling a \<open>std::function\<close>.\<close>

definition invoke :: "('h, 'p) throws \<Rightarrow> ('h, 'p) call \<Rightarrow> unit outcome" where
  "invoke thr c = (case thr c of None \<Rightarrow> Ret () | Some e \<Rightarrow> Raise e)"

definition report_data ::
  "('h, 'p) throws \<Rightarrow> 'p \<Rightarrow> 'h deferred \<Rightarrow> 'h deferred \<times> ('h, 'p) call list \<times> unit outcome" where
  "report_data thr p d =
     (case deferred_bool d of
        Ret True \<Rightarrow>
          (case data_handler d of
             Some h \<Rightarrow> (d, [Call_data h p], invoke thr (Call_data h p))
           | None \<Rightarrow> (d, [], Ret ()))
      | Ret False \<Rightarrow> (d, [], Ret ())
      | _ \<Rightarrow> (d, [], Undefined))"

definition report_success ::
  "('h, 'p) throws \<Rightarrow> 'h deferred \<Rightarrow> 'h deferred \<times> ('h, 'p) call list \<times> unit outcome" where
  "report_success thr d =
     (let d1 = d\<lparr>failed := Some False\<rparr>
      in case success_handler d1 of
           Some h \<Rightarrow> (d1, [Call_success h], invoke thr (Call_success h))
         | None \<Rightarrow> (d1, [], Ret ()))"

text \<open>An exception of the error callback leaves the stored error in place.\<close>

definition report_error ::
  "('h, 'p) throws \<Rightarrow> error \<Rightarrow> 'h deferred \<Rightarrow> 'h deferred \<times> ('h, 'p) call list \<times> unit outcome" where
  "report_error thr e d =
     (let d1 = d\<lparr>deferred_error := e\<rparr>
      in if error_bool (deferred_error d1) then
           (let d2 = d1\<lparr>failed := Some True\<rparr>;
                d3 = d2\<lparr>deferred_error := common_err Common_OK\<rparr>
            in case error_handler d2 of
                 Some h \<Rightarrow>
                   (case invoke thr (Call_error h e) of
                      Ret _ \<Rightarrow> (d3, [Call_error h e], Ret ())
                    | r \<Rightarrow> (d2, [Call_error h e], r))
               | None \<Rightarrow> (d3, [], Ret ()))
         else (d1, [], Ret ()))"

text \<open>The destructor; it is \<open>noexcept\<close>, so an exception of a callback ends the process.\<close>

definition destroy_error_call :: "'h deferred \<Rightarrow> ('h, 'p) call list" where
  "destroy_error_call d =
     (case error_handler d of
        Some h \<Rightarrow> if error_bool (deferred_error d) then [Call_error h (deferred_error d)] else []
      | None \<Rightarrow> [])"

definition destroy_finalize_call :: "'h deferred \<Rightarrow> ('h, 'p) call list" where
  "destroy_finalize_call d =
     (case finalize_handler d of Some h \<Rightarrow> [Call_finalize h] | None \<Rightarrow> [])"

fun run_noexcept :: "('h, 'p) throws \<Rightarrow> ('h, 'p) call list \<Rightarrow> ('h, 'p) call list \<times> unit outcome" where
  "run_noexcept thr [] = ([], Ret ())"
| "run_noexcept thr (c # cs) =
     (case thr c of
        Some _ \<Rightarrow> ([c], Abort)
      | None \<Rightarrow> (let (made, r) = run_noexcept thr cs in (c # made, r)))"

definition destroy_deferred ::
  "('h, 'p) throws \<Rightarrow> 'h deferred \<Rightarrow> ('h, 'p) call list \<times> unit outcome" where
  "destroy_deferred thr d = run_noexcept thr (destroy_error_call d @ destroy_finalize_call d)"

subsection \<open>A lifetime as a sequence of operations\<close>

datatype ('h, 'p) deferred_op =
    On_data 'h
  | On_success 'h
  | On_error 'h
  | On_finalize 'h
  | Report_data 'p
  | Report_success
  | Report_error error

fun deferred_step ::
  "('h, 'p) throws \<Rightarrow> ('h, 'p) deferred_op \<Rightarrow> 'h deferred \<Rightarrow>
   'h deferred \<times> ('h, 'p) call list \<times> unit outcome" where
  "deferred_step thr (On_data h) d = (on_data h d, [], Ret ())"
| "deferred_step thr (On_success h) d = (on_success h d, [], Ret ())"
| "deferred_step thr (On_error h) d = (on_error h d, [], Ret ())"
| "deferred_step thr (On_finalize h) d = (on_finalize h d, [], Ret ())"
| "deferred_step thr (Report_data p) d = report_data thr p d"
| "deferred_step thr Report_success d = report_success thr d"
| "deferred_step thr (Report_error e) d = report_error thr e d"

text \<open>A run stops at the first operation that does not return normally.\<close>

fun deferred_run ::
  "('h, 'p) throws \<Rightarrow> ('h, 'p) deferred_op list \<Rightarrow> 'h deferred \<Rightarrow>
   'h deferred \<times> ('h, 'p) call list \<times> unit outcome" where
  "deferred_run thr [] d = (d, [], Ret ())"
| "deferred_run thr (x # xs) d =
     (let (d1, cs, r) = deferred_step thr x d
      in case r of
           Ret _ \<Rightarrow> (let (d2, cs', r') = deferred_run thr xs d1 in (d2, cs @ cs', r'))
         | _ \<Rightarrow> (d1, cs, r))"

fun is_call_data :: "('h, 'p) call \<Rightarrow> bool" where
  "is_call_data (Call_data _ _) = True"
| "is_call_data _ = False"

fun call_errors :: "('h, 'p) call list \<Rightarrow> error list" where
  "call_errors [] = []"
| "call_errors (Call_error _ e # cs) = e # call_errors cs"
| "call_errors (_ # cs) = call_errors cs"

fun count_finalize :: "('h, 'p) call list \<Rightarrow> nat" where
  "count_finalize [] = 0"
| "count_finalize (Call_finalize _ # cs) = Suc (count_finalize cs)"
| "count_finalize (_ # cs) = count_finalize cs"

fun reported_errors :: "('h, 'p) deferred_op list \<Rightarrow> error list" where
  "reported_errors [] = []"
| "reported_errors (Report_error e # xs) = (if error_bool e then e # reported_errors xs else reported_errors xs)"
| "reported_errors (_ # xs) = reported_errors xs"

fun sets_error_handler :: "('h, 'p) deferred_op \<Rightarrow> bool" where
  "sets_error_handler (On_error _) = True"
| "sets_error_handler _ = False"

lemmas deferred_setter_defs = on_data_def on_success_def on_error_def on_finalize_def

lemma call_errors_append [simp]: "call_errors (xs @ ys) = call_errors xs @ call_errors ys"
  by (induction xs rule: call_errors.induct) auto

lemma count_finalize_append [simp]: "count_finalize (xs @ ys) = count_finalize xs + count_finalize ys"
  by (induction xs rule: count_finalize.induct) auto

lemma invoke_cases: "invoke thr c = Ret () \<or> (\<exists>e. invoke thr c = Raise e)"
  by (auto simp: invoke_def split: option.split)

lemma run_noexcept_quiet: "\<forall>c \<in> set cs. thr c = None \<Longrightarrow> run_noexcept thr cs = (cs, Ret ())"
  by (induction cs) auto

subsection \<open>What a report does\<close>

lemma report_data_uninitialised:
  "failed d = None \<Longrightarrow> report_data thr p d = (d, [], Undefined)"
  by (simp add: report_data_def deferred_bool_def)

lemma report_data_failed:
  "failed d = Some True \<Longrightarrow> report_data thr p d = (d, [], Ret ())"
  by (simp add: report_data_def deferred_bool_def)

lemma report_data_open:
  "failed d = Some False \<Longrightarrow> data_handler d = Some h \<Longrightarrow>
   report_data thr p d = (d, [Call_data h p], invoke thr (Call_data h p))"
  by (simp add: report_data_def deferred_bool_def)

lemma report_data_state [simp]: "fst (report_data thr p d) = d"
  by (simp add: report_data_def split: outcome.split option.split bool.split)

lemma report_error_failed:
  "error_bool e \<Longrightarrow> failed (fst (report_error thr e d)) = Some True"
  by (simp add: report_error_def Let_def split: option.split outcome.split)

lemma report_success_open: "failed (fst (report_success thr d)) = Some False"
  by (simp add: report_success_def Let_def split: option.split)

lemma report_error_quiet:
  "report_error quiet_throws e d =
    (if error_bool e
     then (d\<lparr>failed := Some True, deferred_error := common_err Common_OK\<rparr>,
           (case error_handler d of Some h \<Rightarrow> [Call_error h e] | None \<Rightarrow> []), Ret ())
     else (d\<lparr>deferred_error := e\<rparr>, [], Ret ()))"
  by (simp add: report_error_def Let_def invoke_def quiet_throws_def split: option.split)

text \<open>Without a success report a failed object stays failed.\<close>

lemma step_failed:
  assumes "failed d = Some True" and "x \<noteq> Report_success"
  shows "failed (fst (deferred_step thr x d)) = Some True"
    and "\<forall>c \<in> set (fst (snd (deferred_step thr x d))). \<not> is_call_data c"
  using assms
  by (cases x; auto simp: deferred_setter_defs report_data_failed report_error_def Let_def
      split: option.splits outcome.splits)+

lemma run_failed_no_data:
  assumes "failed d = Some True" and "Report_success \<notin> set xs"
  shows "\<forall>c \<in> set (fst (snd (deferred_run thr xs d))). \<not> is_call_data c"
  using assms
proof (induction xs arbitrary: d)
  case Nil
  then show ?case by simp
next
  case (Cons x xs)
  obtain d1 cs r where step: "deferred_step thr x d = (d1, cs, r)"
    by (cases "deferred_step thr x d")
  have x: "x \<noteq> Report_success" and xs: "Report_success \<notin> set xs"
    using Cons.prems(2) by auto
  have d1: "failed d1 = Some True" and cs: "\<forall>c \<in> set cs. \<not> is_call_data c"
    using step_failed[OF Cons.prems(1) x, of thr] step by simp_all
  show ?case
    using Cons.IH[OF d1 xs] cs
    by (auto simp: step split: outcome.splits prod.splits)
qed

text \<open>
  A lifetime whose caller catches exceptions and goes on: the callbacks that ran, and the object
  afterwards.
\<close>

fun deferred_life ::
  "('h, 'p) throws \<Rightarrow> ('h, 'p) deferred_op list \<Rightarrow> 'h deferred \<Rightarrow> 'h deferred \<times> ('h, 'p) call list" where
  "deferred_life thr [] d = (d, [])"
| "deferred_life thr (x # xs) d =
     (case deferred_step thr x d of
        (d1, cs, r) \<Rightarrow> (case deferred_life thr xs d1 of (d2, cs1) \<Rightarrow> (d2, cs @ cs1)))"

lemma life_failed_no_data:
  assumes "failed d = Some True" and "Report_success \<notin> set xs"
  shows "failed (fst (deferred_life thr xs d)) = Some True
    \<and> (\<forall>c \<in> set (snd (deferred_life thr xs d)). \<not> is_call_data c)"
  using assms
proof (induction xs arbitrary: d)
  case (Cons x xs)
  have x: "x \<noteq> Report_success" and xs: "Report_success \<notin> set xs" using Cons.prems(2) by auto
  show ?case
    using step_failed[OF Cons.prems(1) x, of thr] Cons.IH[OF step_failed(1)[OF Cons.prems(1) x, of thr] xs]
    by (auto split: prod.splits)
qed simp

text \<open>A quiet lifetime: no callback throws, \<open>failed_\<close> is initialised.\<close>

lemma step_quiet:
  assumes "failed d \<noteq> None" and "\<not> sets_error_handler x"
    and "error_handler d = Some h" and "\<not> error_bool (deferred_error d)"
  shows "\<exists>d1 cs. deferred_step quiet_throws x d = (d1, cs, Ret ())
    \<and> failed d1 \<noteq> None \<and> error_handler d1 = Some h \<and> \<not> error_bool (deferred_error d1)
    \<and> call_errors cs = reported_errors [x] \<and> count_finalize cs = 0"
  using assms
  by (cases x)
    (auto simp: deferred_setter_defs report_error_quiet report_success_def report_data_def
      deferred_bool_def Let_def invoke_def quiet_throws_def split: option.splits bool.splits)

lemma run_quiet:
  assumes "failed d \<noteq> None" and "\<forall>x \<in> set xs. \<not> sets_error_handler x"
    and "error_handler d = Some h" and "\<not> error_bool (deferred_error d)"
  shows "\<exists>d1 cs. deferred_run quiet_throws xs d = (d1, cs, Ret ())
    \<and> error_handler d1 = Some h \<and> \<not> error_bool (deferred_error d1)
    \<and> call_errors cs = reported_errors xs \<and> count_finalize cs = 0"
  using assms
proof (induction xs arbitrary: d)
  case Nil
  then show ?case by simp
next
  case (Cons x xs)
  from Cons.prems(2) have "\<not> sets_error_handler x" by simp
  from step_quiet[OF Cons.prems(1) this Cons.prems(3,4)]
  obtain d1 cs where step: "deferred_step quiet_throws x d = (d1, cs, Ret ())"
    and d1: "failed d1 \<noteq> None" "error_handler d1 = Some h" "\<not> error_bool (deferred_error d1)"
    and cs: "call_errors cs = reported_errors [x]" "count_finalize cs = 0"
    by blast
  from Cons.IH[OF d1(1) _ d1(2,3)] Cons.prems(2)
  obtain d2 cs' where run: "deferred_run quiet_throws xs d1 = (d2, cs', Ret ())"
    and d2: "error_handler d2 = Some h" "\<not> error_bool (deferred_error d2)"
    and cs': "call_errors cs' = reported_errors xs" "count_finalize cs' = 0"
    by auto
  have "reported_errors (x # xs) = reported_errors [x] @ reported_errors xs"
    by (cases x) auto
  with step run d2 cs cs' show ?case by simp
qed

lemma destroy_quiet:
  assumes "\<not> error_bool (deferred_error d)"
  shows "destroy_deferred quiet_throws d =
    ((case finalize_handler d of Some h \<Rightarrow> [Call_finalize h] | None \<Rightarrow> []), Ret ())"
  using assms
  by (simp add: destroy_deferred_def destroy_error_call_def destroy_finalize_call_def
      run_noexcept_quiet quiet_throws_def split: option.split)

subsection \<open>Properties\<close>

text \<open>
  C7: Once an error has been reported, no data is delivered until a success is reported: from
  \<open>report_error\<close> on, whatever state the object was in, whatever callbacks are installed and whatever
  data and errors are reported meanwhile, and whether or not callbacks throw and the caller goes on
  after that, no data callback runs. The success report that comes next opens the object again:
  data then reaches the callback that is installed.
\<close>

theorem failed_blocks_data:
  assumes "error_bool e" and "Report_success \<notin> set xs"
    and "deferred_life thr (Report_error e # xs) d = (d1, cs)"
  shows "(\<forall>c \<in> set cs. \<not> is_call_data c)
    \<and> report_data thr p d1 = (d1, [], Ret ())
    \<and> (\<forall>h. data_handler d1 = Some h \<longrightarrow>
         fst (snd (report_data thr p (fst (report_success thr d1)))) = [Call_data h p])"
proof -
  let ?d0 = "fst (report_error thr e d)"
  have f: "failed ?d0 = Some True" by (rule report_error_failed[OF assms(1)])
  have none: "\<forall>c \<in> set (fst (snd (report_error thr e d))). \<not> is_call_data c"
    by (simp add: report_error_def Let_def split: option.split outcome.split)
  have d1: "d1 = fst (deferred_life thr xs ?d0)"
    "cs = fst (snd (report_error thr e d)) @ snd (deferred_life thr xs ?d0)"
    using assms(3) by (auto split: prod.splits)
  have "failed d1 = Some True" "\<forall>c \<in> set cs. \<not> is_call_data c"
    using life_failed_no_data[OF f assms(2), of thr] none unfolding d1 by auto
  moreover have "data_handler (fst (report_success thr d1)) = data_handler d1"
    by (simp add: report_success_def Let_def split: option.split)
  moreover have "data_handler (fst (report_success thr d1)) = Some h \<Longrightarrow>
      fst (snd (report_data thr p (fst (report_success thr d1)))) = [Call_data h p]" for h
    by (simp add: report_data_open[OF report_success_open])
  ultimately show ?thesis by (auto simp: report_data_failed)
qed

definition sample_deferred :: "nat deferred" where
  "sample_deferred = on_finalize 4 (on_error 3 (on_data 1 (mk_deferred (common_err Common_OK))))"

definition sample_failed :: "nat deferred" where
  "sample_failed =
     fst (report_error (quiet_throws :: (nat, string) throws)
       (broker_err Broker_PUBLISH ''refused'') sample_deferred)"

theorem failed_blocks_data_witness:
  "filter is_call_data (snd (deferred_life (quiet_throws :: (nat, string) throws)
     [Report_error (broker_err Broker_PUBLISH ''refused''), Report_data ''x'', On_data 5, Report_data ''y''] sample_deferred)) = []"
proof -
  obtain d1 cs where l: "deferred_life (quiet_throws :: (nat, string) throws)
     [Report_error (broker_err Broker_PUBLISH ''refused''), Report_data ''x'', On_data 5, Report_data ''y''] sample_deferred = (d1, cs)"
    by (metis prod.exhaust)
  from failed_blocks_data[OF _ _ l, of "''z''"] show ?thesis unfolding l filter_empty_conv by simp
qed

text \<open>
  C9: Over a whole lifetime with an error callback installed from the start, the callbacks that
  run are told every reported error exactly once and in order, the destructor repeats none of
  them, and the finalize callback runs exactly once, at the end, if there is one: provided no
  callback throws and \<open>failed_\<close> has been initialised by a report.
\<close>

theorem lifetime_reports_once:
  assumes "failed d \<noteq> None" and "\<forall>x \<in> set xs. \<not> sets_error_handler x"
    and "error_handler d = Some h" and "\<not> error_bool (deferred_error d)"
  shows "\<exists>d1 cs fin. deferred_run quiet_throws xs d = (d1, cs, Ret ())
    \<and> destroy_deferred quiet_throws d1 = (fin, Ret ())
    \<and> call_errors (cs @ fin) = reported_errors xs
    \<and> count_finalize cs = 0
    \<and> fin = (case finalize_handler d1 of Some f \<Rightarrow> [Call_finalize f] | None \<Rightarrow> [])"
proof -
  from run_quiet[OF assms] obtain d1 cs where run: "deferred_run quiet_throws xs d = (d1, cs, Ret ())"
    and "\<not> error_bool (deferred_error d1)" and cs: "call_errors cs = reported_errors xs"
      "count_finalize cs = 0"
    by blast
  then have "destroy_deferred quiet_throws d1 =
      ((case finalize_handler d1 of Some h \<Rightarrow> [Call_finalize h] | None \<Rightarrow> []), Ret ())"
    by (intro destroy_quiet)
  with run cs show ?thesis
    by (auto split: option.split)
qed

theorem lifetime_reports_once_witness:
  "\<exists>d1 cs fin. deferred_run quiet_throws
       [Report_error (broker_err Broker_PUBLISH ''a''), Report_success, Report_data ''x'',
        Report_error (broker_err Broker_DATA_RESPONSE ''b'')]
       (sample_failed) = (d1, cs, Ret ())
    \<and> destroy_deferred (quiet_throws :: (nat, string) throws) d1 = (fin, Ret ())
    \<and> call_errors (cs @ fin) =
        [broker_err Broker_PUBLISH ''a'', broker_err Broker_DATA_RESPONSE ''b'']"
proof -
  have e: "error_handler sample_failed = Some 3" "\<not> error_bool (deferred_error sample_failed)"
    "failed sample_failed \<noteq> None"
    by (simp_all add: sample_failed_def report_error_quiet sample_deferred_def
        deferred_setter_defs mk_deferred_def)
  from lifetime_reports_once[OF e(3) _ e(1,2),
      of "[Report_error (broker_err Broker_PUBLISH ''a''), Report_success, Report_data ''x'',
        Report_error (broker_err Broker_DATA_RESPONSE ''b'')]"]
  show ?thesis by (simp del: deferred_run.simps) blast
qed

text \<open>
  A freshly constructed deferred object has no defined answer to data: reporting data before
  any success or error reads the uninitialised \<open>failed_\<close>. One success or error report, and
  nothing less, initialises it.
\<close>

theorem fresh_deferred_data_undefined:
  "report_data thr p (on_data h (mk_deferred e)) = (on_data h (mk_deferred e), [], Undefined)
   \<and> failed (fst (report_success thr (mk_deferred e))) = Some False
   \<and> failed (fst (report_error thr (broker_err b m) (mk_deferred e))) = Some True
   \<and> failed (fst (report_error thr (common_err Common_OK) (mk_deferred e))) = None"
proof -
  have "report_data thr p (on_data h (mk_deferred e)) = (on_data h (mk_deferred e), [], Undefined)"
    by (rule report_data_uninitialised) (simp add: on_data_def mk_deferred_def)
  then show ?thesis
    by (simp add: report_success_open report_error_failed)
      (simp add: report_error_def mk_deferred_def)
qed

end
