(* ===== verification/Regex.thy ===== *)
theory Regex
  imports Prelude
begin

section \<open>Backtracking regular expressions with capture groups\<close>

text \<open>
  What \<open>std::regex_match\<close> does for the ECMAScript constructs that occur in the repository:
  characters, character classes, greedy \<open>*\<close> and \<open>+\<close> of a class, greedy \<open>?\<close> and \<open>{0,1}\<close>,
  sequence, ordered alternatives and capture groups. \<open>rx_match\<close> lists the ways to match a prefix,
  in the order the backtracking matcher tries them; \<open>regex_match\<close> takes the first that consumes
  the whole input. An unmatched group captures the empty string.
\<close>

datatype rx =
    Chr char
  | Star "char \<Rightarrow> bool"
  | Plus "char \<Rightarrow> bool"
  | Seq rx rx
  | Alt rx rx
  | Opt rx
  | Group nat rx

type_synonym captures = "(nat \<times> string) list"

text \<open>What a greedy \<open>[...]*\<close> may leave, longest match first.\<close>

fun star_rests :: "(char \<Rightarrow> bool) \<Rightarrow> string \<Rightarrow> string list" where
  "star_rests p [] = [[]]"
| "star_rests p (c # s) = (if p c then star_rests p s @ [c # s] else [c # s])"

fun rx_match :: "rx \<Rightarrow> string \<Rightarrow> captures \<Rightarrow> (string \<times> captures) list" where
  "rx_match (Chr c) s caps = (case s of d # t \<Rightarrow> if d = c then [(t, caps)] else [] | [] \<Rightarrow> [])"
| "rx_match (Star p) s caps = map (\<lambda>t. (t, caps)) (star_rests p s)"
| "rx_match (Plus p) s caps =
     (case s of d # t \<Rightarrow> if p d then map (\<lambda>r. (r, caps)) (star_rests p t) else [] | [] \<Rightarrow> [])"
| "rx_match (Seq a b) s caps = concat (map (\<lambda>(t, c). rx_match b t c) (rx_match a s caps))"
| "rx_match (Alt a b) s caps = rx_match a s caps @ rx_match b s caps"
| "rx_match (Opt a) s caps = rx_match a s caps @ [(s, caps)]"
| "rx_match (Group n a) s caps =
     map (\<lambda>(t, c). (t, (n, take (length s - length t) s) # c)) (rx_match a s caps)"

definition regex_match :: "rx \<Rightarrow> string \<Rightarrow> captures option" where
  "regex_match r s =
     (case filter (\<lambda>(t, c). t = []) (rx_match r s []) of [] \<Rightarrow> None | (t, c) # _ \<Rightarrow> Some c)"

definition capture :: "captures \<Rightarrow> nat \<Rightarrow> string" where
  "capture caps n = (case map_of caps n of None \<Rightarrow> [] | Some s \<Rightarrow> s)"

fun rx_seq :: "rx list \<Rightarrow> rx" where
  "rx_seq [r] = r"
| "rx_seq (r # rs) = Seq r (rx_seq rs)"
| "rx_seq [] = Star (\<lambda>_. False)"

subsection \<open>What a match consumes\<close>

lemma star_rests_suffix: "t \<in> set (star_rests p s) \<Longrightarrow> \<exists>u. s = u @ t \<and> (\<forall>c \<in> set u. p c)"
proof (induction s)
  case Nil
  then show ?case by simp
next
  case (Cons c s)
  show ?case
  proof (cases "p c \<and> t \<in> set (star_rests p s)")
    case True
    with Cons.IH obtain u where "s = u @ t" "\<forall>c \<in> set u. p c" by blast
    with True have "c # s = (c # u) @ t \<and> (\<forall>c \<in> set (c # u). p c)" by simp
    then show ?thesis by blast
  next
    case False
    with Cons.prems have "t = c # s" by (auto split: if_splits)
    then show ?thesis by simp
  qed
qed

lemma rx_mem:
  "(t, c) \<in> set (rx_match (Chr d) s caps) \<longleftrightarrow> s = d # t \<and> c = caps"
  "(t, c) \<in> set (rx_match (Star p) s caps) \<longleftrightarrow> c = caps \<and> t \<in> set (star_rests p s)"
  "(t, c) \<in> set (rx_match (Plus p) s caps) \<longleftrightarrow>
     (\<exists>d s'. s = d # s' \<and> p d \<and> c = caps \<and> t \<in> set (star_rests p s'))"
  "(t, c) \<in> set (rx_match (Seq a b) s caps) \<longleftrightarrow>
     (\<exists>t1 c1. (t1, c1) \<in> set (rx_match a s caps) \<and> (t, c) \<in> set (rx_match b t1 c1))"
  "(t, c) \<in> set (rx_match (Alt a b) s caps) \<longleftrightarrow>
     (t, c) \<in> set (rx_match a s caps) \<or> (t, c) \<in> set (rx_match b s caps)"
  "(t, c) \<in> set (rx_match (Opt a) s caps) \<longleftrightarrow>
     (t, c) \<in> set (rx_match a s caps) \<or> (t = s \<and> c = caps)"
  "(t, c) \<in> set (rx_match (Group n a) s caps) \<longleftrightarrow>
     (\<exists>c1. (t, c1) \<in> set (rx_match a s caps) \<and> c = (n, take (length s - length t) s) # c1)"
  by (auto split: list.splits if_splits)

text \<open>A character no part of the expression accepts.\<close>

fun rx_avoids :: "rx \<Rightarrow> char \<Rightarrow> bool" where
  "rx_avoids (Chr d) c \<longleftrightarrow> d \<noteq> c"
| "rx_avoids (Star p) c \<longleftrightarrow> \<not> p c"
| "rx_avoids (Plus p) c \<longleftrightarrow> \<not> p c"
| "rx_avoids (Seq a b) c \<longleftrightarrow> rx_avoids a c \<and> rx_avoids b c"
| "rx_avoids (Alt a b) c \<longleftrightarrow> rx_avoids a c \<and> rx_avoids b c"
| "rx_avoids (Opt a) c \<longleftrightarrow> rx_avoids a c"
| "rx_avoids (Group n a) c \<longleftrightarrow> rx_avoids a c"

lemma rx_match_consumes:
  "(t, caps') \<in> set (rx_match r s caps) \<Longrightarrow> rx_avoids r c \<Longrightarrow> \<exists>u. s = u @ t \<and> c \<notin> set u"
proof (induction r arbitrary: s t caps caps')
  case (Chr d)
  then show ?case
    by (auto split: list.splits if_splits intro: exI[of _ "[d]"])
next
  case (Star p)
  then show ?case
    using star_rests_suffix[of t p s] by auto
next
  case (Plus p)
  then obtain d s' where s: "s = d # s'" "p d" "t \<in> set (star_rests p s')"
    by (auto split: list.splits if_splits)
  then obtain u where "s' = u @ t" "\<forall>c \<in> set u. p c"
    using star_rests_suffix by blast
  with s Plus.prems(2) have "s = (d # u) @ t \<and> c \<notin> set (d # u)" by auto
  then show ?case by blast
next
  case (Seq a b)
  then obtain t1 c1 where 1: "(t1, c1) \<in> set (rx_match a s caps)" and 2: "(t, caps') \<in> set (rx_match b t1 c1)"
    by auto
  from Seq.IH(1)[OF 1] Seq.prems(2) obtain u where u: "s = u @ t1" "c \<notin> set u" by auto
  from Seq.IH(2)[OF 2] Seq.prems(2) obtain v where v: "t1 = v @ t" "c \<notin> set v" by auto
  from u v have "s = (u @ v) @ t \<and> c \<notin> set (u @ v)" by simp
  then show ?case by blast
next
  case (Alt a b)
  then show ?case by auto
next
  case (Opt a)
  then show ?case by auto
next
  case (Group n a)
  then show ?case by auto
qed

lemma regex_match_avoids:
  assumes "regex_match r s = Some caps" and "rx_avoids r c"
  shows "c \<notin> set s"
proof -
  from assms(1) obtain t rest where "filter (\<lambda>(t, c). t = []) (rx_match r s []) = (t, caps) # rest"
    by (auto simp: regex_match_def split: list.splits)
  then have "(t, caps) \<in> set (filter (\<lambda>(t, c). t = []) (rx_match r s []))"
    by simp
  then have "([], caps) \<in> set (rx_match r s [])" by auto
  from rx_match_consumes[OF this assms(2)] show ?thesis by auto
qed

subsection \<open>Solutions in continuation style\<close>

text \<open>
  \<open>sols r k s caps\<close> are the results of the continuation \<open>k\<close> after every way to match \<open>r\<close>, in
  the matcher's order. The equations follow the expression; \<open>lead\<close> says what comes first.
\<close>

definition sols :: "rx \<Rightarrow> (string \<Rightarrow> captures \<Rightarrow> 'a list) \<Rightarrow> string \<Rightarrow> captures \<Rightarrow> 'a list" where
  "sols r k s caps = concat (map (\<lambda>(t, c). k t c) (rx_match r s caps))"

definition full :: "string \<Rightarrow> captures \<Rightarrow> captures list" where
  "full t c = (if t = [] then [c] else [])"

definition lead :: "'a list \<Rightarrow> 'a \<Rightarrow> bool" where
  "lead xs x \<longleftrightarrow> (\<exists>ys. xs = x # ys)"

lemma lead_Cons [simp]: "lead (y # ys) x \<longleftrightarrow> y = x"
  by (auto simp: lead_def)

lemma lead_Nil [simp]: "\<not> lead [] x"
  by (simp add: lead_def)

lemma lead_append: "lead xs x \<Longrightarrow> lead (xs @ ys) x"
  by (auto simp: lead_def)

lemma full_Nil [simp]: "full [] c = [c]"
  by (simp add: full_def)

lemma regex_match_sols:
  "regex_match r s = (case sols r full s [] of [] \<Rightarrow> None | c # _ \<Rightarrow> Some c)"
proof -
  have "concat (map (\<lambda>(t, c). full t c) xs) = map snd (filter (\<lambda>(t, c). t = []) xs)" for xs
    by (induction xs) (auto simp: full_def)
  then show ?thesis
    unfolding sols_def regex_match_def by (simp split: list.split)
qed

lemma regex_match_lead: "lead (sols r full s []) c \<Longrightarrow> regex_match r s = Some c"
  by (auto simp: regex_match_sols lead_def)

lemma sols_Chr [simp]:
  "sols (Chr c) k s caps = (case s of d # t \<Rightarrow> if d = c then k t caps else [] | [] \<Rightarrow> [])"
  by (simp add: sols_def split: list.split)

lemma sols_Star:
  "sols (Star p) k s caps = concat (map (\<lambda>t. k t caps) (star_rests p s))"
  by (simp add: sols_def comp_def)

lemma sols_Plus:
  "sols (Plus p) k s caps =
     (case s of d # t \<Rightarrow> if p d then sols (Star p) k t caps else [] | [] \<Rightarrow> [])"
  by (simp add: sols_def comp_def split: list.split)

lemma sols_Seq [simp]: "sols (Seq a b) k s caps = sols a (sols b k) s caps"
proof -
  have "concat (map (\<lambda>(t, c). k t c) (concat (map (\<lambda>(t, c). rx_match b t c) xs))) =
      concat (map (\<lambda>(t, c). concat (map (\<lambda>(t, c). k t c) (rx_match b t c))) xs)" for xs
    by (induction xs) auto
  then show ?thesis
    by (simp add: sols_def)
qed

lemma sols_Alt [simp]: "sols (Alt a b) k s caps = sols a k s caps @ sols b k s caps"
  by (simp add: sols_def)

lemma sols_Opt [simp]: "sols (Opt a) k s caps = sols a k s caps @ k s caps"
  by (simp add: sols_def)

lemma sols_Group [simp]:
  "sols (Group n a) k s caps =
     sols a (\<lambda>t c. k t ((n, take (length s - length t) s) # c)) s caps"
  by (simp add: sols_def comp_def case_prod_unfold)

lemma star_rests_lead: "lead (star_rests p s) (dropWhile p s)"
  by (induction s) (auto intro: lead_append)

lemma lead_Star:
  assumes "lead (k (dropWhile p s) caps) x"
  shows "lead (sols (Star p) k s caps) x"
  using star_rests_lead[of p s] assms by (auto simp: sols_Star lead_def)

lemma lead_Plus:
  assumes "s \<noteq> []" and "p (hd s)" and "lead (k (dropWhile p s) caps) x"
  shows "lead (sols (Plus p) k s caps) x"
  using assms by (cases s) (auto simp: sols_Plus intro: lead_Star)

lemma lead_Opt_Chr:
  assumes "lead (k (case s of d # t \<Rightarrow> if d = c then t else s | [] \<Rightarrow> s) caps) x"
  shows "lead (sols (Opt (Chr c)) k s caps) x"
  using assms by (auto split: list.splits if_splits intro: lead_append)

lemma sols_Star_empty: "(\<And>t. k t caps = []) \<Longrightarrow> sols (Star p) k s caps = []"
  by (simp add: sols_Star)

lemma take_length_dropWhile [simp]: "take (length s - length (dropWhile p s)) s = takeWhile p s"
  by (metis append_eq_conv_conj length_append add_diff_cancel_right' takeWhile_dropWhile_id)

end
