(* ===== verification/Json.thy ===== *)
theory Json
  imports Errors "HOL-Library.List_Lexorder" "HOL-Library.Char_ord"
begin

section \<open>The JSON value of the messages\<close>

text \<open>
  Models the part of \<open>src/external/nlohmann/json.h\<close> (version 3.6.1) that holds a message: the value
  and its kinds, the initializer list constructor and \<open>empty()\<close>. \<open>int64_t\<close> and \<open>uint64_t\<close> are 64 bit
  words, a \<open>double\<close> is its bit pattern, an object is the \<open>std::map\<close> the library uses by default: a
  list of pairs in ascending order of the keys. \<open>value_t::discarded\<close> only arises with
  exceptions switched off, which the sources never do, and is left out.
\<close>

datatype json =
    JNull
  | JObject "(string \<times> json) list"
  | JArray "json list"
  | JString string
  | JBoolean bool
  | JInteger u64
  | JUnsigned u64
  | JFloat u64

subsection \<open>std::map with ordered keys\<close>

definition omap_ok :: "(string \<times> 'v) list \<Rightarrow> bool" where
  "omap_ok m \<longleftrightarrow> sorted_wrt (<) (map fst m)"

text \<open>\<open>m[k] = v\<close>: the entry is created at its place in the order, or overwritten.\<close>

fun omap_assign :: "string \<Rightarrow> 'v \<Rightarrow> (string \<times> 'v) list \<Rightarrow> (string \<times> 'v) list" where
  "omap_assign k v [] = [(k, v)]"
| "omap_assign k v ((j, w) # m) =
     (if k < j then (k, v) # (j, w) # m
      else if k = j then (k, v) # m
      else (j, w) # omap_assign k v m)"

text \<open>\<open>m.emplace(k, v)\<close>: an entry that is there stays.\<close>

fun omap_emplace :: "string \<Rightarrow> 'v \<Rightarrow> (string \<times> 'v) list \<Rightarrow> (string \<times> 'v) list" where
  "omap_emplace k v [] = [(k, v)]"
| "omap_emplace k v ((j, w) # m) =
     (if k < j then (k, v) # (j, w) # m
      else if k = j then (j, w) # m
      else (j, w) # omap_emplace k v m)"

lemma map_of_omap_assign: "omap_ok m \<Longrightarrow> map_of (omap_assign k v m) = (map_of m)(k \<mapsto> v)"
proof (induction m)
  case (Cons p m)
  obtain j w where p: "p = (j, w)" by (cases p)
  with Cons.prems have "omap_ok m" by (simp add: omap_ok_def)
  with Cons.IH show ?case by (auto simp: p fun_eq_iff)
qed (simp add: fun_eq_iff)

lemma set_omap_assign: "fst ` set (omap_assign k v m) = insert k (fst ` set m)"
proof (induction m)
  case (Cons p m)
  obtain j w where p: "p = (j, w)" by (cases p)
  from Cons.IH show ?case by (simp add: p insert_commute)
qed simp

lemma omap_ok_assign: "omap_ok m \<Longrightarrow> omap_ok (omap_assign k v m)"
proof (induction m)
  case (Cons p m)
  obtain j w where p: "p = (j, w)" by (cases p)
  from Cons.prems have m: "omap_ok m" and j: "\<forall>x \<in> fst ` set m. j < x"
    by (auto simp: omap_ok_def p)
  from Cons.IH[OF m] have IH: "sorted_wrt (<) (map fst (omap_assign k v m))"
    by (simp add: omap_ok_def)
  have jj: "\<forall>x \<in> fst ` set (omap_assign k v m). j < x" if "j < k"
    using that j by (simp add: set_omap_assign)
  consider "k < j" | "k = j" | "j < k" by force
  then show ?case
  proof cases
    case 1
    then show ?thesis using m j by (auto simp: omap_ok_def p dest: order.strict_trans)
  next
    case 2
    then show ?thesis using m j by (auto simp: omap_ok_def p)
  next
    case 3
    then show ?thesis using IH jj by (auto simp: omap_ok_def p)
  qed
qed (simp add: omap_ok_def)

lemma omap_assign_greatest:
  "\<forall>j \<in> fst ` set m. j < k \<Longrightarrow> omap_assign k v m = m @ [(k, v)]"
  by (induction m) auto

lemma omap_ok_append:
  "omap_ok (m @ n) \<longleftrightarrow> omap_ok m \<and> omap_ok n \<and> (\<forall>x \<in> fst ` set m. \<forall>y \<in> fst ` set n. x < y)"
  by (auto simp: omap_ok_def sorted_wrt_append)

subsection \<open>The initializer list constructor\<close>

fun is_pair :: "json \<Rightarrow> (string \<times> json) option" where
  "is_pair (JArray [JString k, v]) = Some (k, v)"
| "is_pair j = None"

definition json_init :: "json list \<Rightarrow> json" where
  "json_init init =
     (if list_all (\<lambda>e. is_pair e \<noteq> None) init
      then JObject (fold (\<lambda>e m. case is_pair e of Some (k, v) \<Rightarrow> omap_emplace k v m | None \<Rightarrow> m) init [])
      else JArray init)"

definition json_empty :: "json \<Rightarrow> bool" where
  "json_empty j =
     (case j of JNull \<Rightarrow> True | JArray xs \<Rightarrow> xs = [] | JObject m \<Rightarrow> m = [] | _ \<Rightarrow> False)"

text \<open>The converting constructors the sources use: from \<open>int\<close> and from strings.\<close>

definition json_of_int :: "int \<Rightarrow> json" where
  "json_of_int i = JInteger (word_of_int i)"

end
