(* ===== verification/MsgPack.thy ===== *)
theory MsgPack
  imports Json "HOL-Library.Word"
begin

unbundle bit_operations_syntax

section \<open>MessagePack: the wire format of the messages\<close>

text \<open>
  Models \<open>json::to_msgpack\<close> (\<open>binary_writer::write_msgpack\<close>) and \<open>json::from_msgpack\<close>
  (\<open>binary_reader::sax_parse\<close> driving \<open>json_sax_dom_parser\<close>) of
  \<open>src/external/nlohmann/json.h\<close>, on a little endian machine with 64 bit \<open>size_t\<close>. The writer
  yields the bytes; the reader runs over an input with a count of the calls of \<open>get()\<close>, and a
  syntax error is the value of the exception it throws, with its id, byte and text.
\<close>

subsection \<open>Numbers as bytes\<close>

text \<open>
  \<open>write_number\<close> of a number of \<open>k\<close> bytes: its low \<open>8 * k\<close> bits, highest byte first. A
  \<open>static_cast\<close> to a narrower type, signed or not, is the choice of \<open>k\<close>.
\<close>

fun write_number :: "nat \<Rightarrow> nat \<Rightarrow> u8 list" where
  "write_number 0 n = []"
| "write_number (Suc k) n = write_number k (n div 256) @ [word_of_nat n]"

definition number_of_bytes :: "u8 list \<Rightarrow> nat" where
  "number_of_bytes bs = foldl (\<lambda>n b. n * 256 + unat b) 0 bs"

text \<open>Reading the \<open>k\<close> bytes back into a signed type and widening that to 64 bits.\<close>

definition signed_number :: "nat \<Rightarrow> nat \<Rightarrow> u64" where
  "signed_number k n = word_of_int (if n < 2 ^ (8 * k - 1) then int n else int n - 2 ^ (8 * k))"

definition byte_of_char :: "char \<Rightarrow> u8" where
  "byte_of_char c = word_of_nat (of_char c)"

definition char_of_byte :: "u8 \<Rightarrow> char" where
  "char_of_byte b = char_of (unat b)"

text \<open>
  The conversion of a \<open>float\<close> to a \<open>double\<close> on bit patterns (IEEE 754; a signalling NaN becomes
  quiet, as the conversion instruction does).
\<close>

fun highest_bit :: "nat \<Rightarrow> nat" where
  "highest_bit n = (if n \<le> 1 then 0 else Suc (highest_bit (n div 2)))"

declare highest_bit.simps [simp del]

definition float_to_double :: "nat \<Rightarrow> u64" where
  "float_to_double n =
     (let s = n div 2 ^ 31 mod 2; e = n div 2 ^ 23 mod 2 ^ 8; m = n mod 2 ^ 23;
          sign = s * 2 ^ 63
      in word_of_nat
           (if e = 255 then
              sign + 2047 * 2 ^ 52 + (if m = 0 then 0 else (m mod 2 ^ 22 + 2 ^ 22) * 2 ^ 29)
            else if e = 0 then
              (if m = 0 then sign
               else sign + (highest_bit m + 874) * 2 ^ 52
                      + (m - 2 ^ highest_bit m) * 2 ^ (52 - highest_bit m))
            else sign + (e + 896) * 2 ^ 52 + m * 2 ^ 29))"

subsection \<open>binary_writer::write_msgpack\<close>

text \<open>The unsigned branch; the branch of a non-negative signed integer is the same code.\<close>

definition write_unsigned :: "u64 \<Rightarrow> u8 list" where
  "write_unsigned w =
     (let n = unat w
      in if n < 128 then write_number 1 n
         else if n \<le> 0xFF then 0xCC # write_number 1 n
         else if n \<le> 0xFFFF then 0xCD # write_number 2 n
         else if n \<le> 0xFFFFFFFF then 0xCE # write_number 4 n
         else 0xCF # write_number 8 n)"

definition write_integer :: "u64 \<Rightarrow> u8 list" where
  "write_integer w =
     (let i = sint w; n = unat w
      in if i \<ge> 0 then
           (if n < 128 then write_number 1 n
            else if n \<le> 0xFF then 0xCC # write_number 1 n
            else if n \<le> 0xFFFF then 0xCD # write_number 2 n
            else if n \<le> 0xFFFFFFFF then 0xCE # write_number 4 n
            else 0xCF # write_number 8 n)
         else if i \<ge> -32 then write_number 1 n
         else if i \<ge> -128 then 0xD0 # write_number 1 n
         else if i \<ge> -32768 then 0xD1 # write_number 2 n
         else if i \<ge> -2147483648 then 0xD2 # write_number 4 n
         else 0xD3 # write_number 8 n)"

definition write_float :: "u64 \<Rightarrow> u8 list" where
  "write_float d = 0xCB # write_number 8 (unat d)"

text \<open>The control bytes in front of a string, an array and an object of \<open>N\<close> elements.\<close>

definition write_string_header :: "nat \<Rightarrow> u8 list" where
  "write_string_header N =
     (if N \<le> 31 then [0xA0 OR word_of_nat N]
      else if N \<le> 0xFF then 0xD9 # write_number 1 N
      else if N \<le> 0xFFFF then 0xDA # write_number 2 N
      else if N \<le> 0xFFFFFFFF then 0xDB # write_number 4 N
      else [])"

definition write_array_header :: "nat \<Rightarrow> u8 list" where
  "write_array_header N =
     (if N \<le> 15 then [0x90 OR word_of_nat N]
      else if N \<le> 0xFFFF then 0xDC # write_number 2 N
      else if N \<le> 0xFFFFFFFF then 0xDD # write_number 4 N
      else [])"

definition write_object_header :: "nat \<Rightarrow> u8 list" where
  "write_object_header N =
     (if N \<le> 15 then [0x80 OR word_of_nat N]
      else if N \<le> 0xFFFF then 0xDE # write_number 2 N
      else if N \<le> 0xFFFFFFFF then 0xDF # write_number 4 N
      else [])"

definition write_string :: "string \<Rightarrow> u8 list" where
  "write_string s = write_string_header (length s) @ map byte_of_char s"

fun write_msgpack :: "json \<Rightarrow> u8 list" where
  "write_msgpack JNull = [0xC0]"
| "write_msgpack (JBoolean b) = [if b then 0xC3 else 0xC2]"
| "write_msgpack (JInteger w) = write_integer w"
| "write_msgpack (JUnsigned w) = write_unsigned w"
| "write_msgpack (JFloat d) = write_float d"
| "write_msgpack (JString s) = write_string s"
| "write_msgpack (JArray xs) = write_array_header (length xs) @ concat (map write_msgpack xs)"
| "write_msgpack (JObject m) =
     write_object_header (length m) @ concat (map (\<lambda>(k, v). write_string k @ write_msgpack v) m)"

definition to_msgpack :: "json \<Rightarrow> u8 list" where
  "to_msgpack j = write_msgpack j"

subsection \<open>binary_reader: the input and its errors\<close>

record reader =
  input :: "u8 list"
  chars_read :: nat

text \<open>\<open>get()\<close>; \<open>None\<close> is \<open>eof()\<close>, which can be read again and again.\<close>

definition get_char :: "reader \<Rightarrow> u8 option \<times> reader" where
  "get_char rd =
     (case input rd of
        [] \<Rightarrow> (None, rd\<lparr>chars_read := chars_read rd + 1\<rparr>)
      | b # bs \<Rightarrow> (Some b, \<lparr>input = bs, chars_read = chars_read rd + 1\<rparr>))"

record parse_error =
  error_id :: nat
  error_byte :: nat
  error_text :: string

type_synonym 'a parsed = "parse_error + 'a \<times> reader"

definition mp_message :: "string \<Rightarrow> string \<Rightarrow> string" where
  "mp_message detail context =
     ''syntax error while parsing MessagePack '' @ context @ '': '' @ detail"

definition hex_digit :: "nat \<Rightarrow> char" where
  "hex_digit d = (if d < 10 then char_of (48 + d) else char_of (55 + d))"

definition token_string :: "u8 \<Rightarrow> string" where
  "token_string b = [hex_digit (unat b div 16), hex_digit (unat b mod 16)]"

definition make_parse_error :: "nat \<Rightarrow> nat \<Rightarrow> string \<Rightarrow> parse_error" where
  "make_parse_error i byte what =
     \<lparr>error_id = i, error_byte = byte,
      error_text = ''[json.exception.parse_error.'' @ dec_nat i @ ''] parse error''
        @ (if byte \<noteq> 0 then '' at byte '' @ dec_nat byte else []) @ '': '' @ what\<rparr>"

definition unexpected_eof :: "string \<Rightarrow> reader \<Rightarrow> parse_error" where
  "unexpected_eof context rd =
     make_parse_error 110 (chars_read rd) (mp_message ''unexpected end of input'' context)"

definition invalid_byte :: "u8 \<Rightarrow> reader \<Rightarrow> parse_error" where
  "invalid_byte b rd =
     make_parse_error 112 (chars_read rd) (mp_message (''invalid byte: 0x'' @ token_string b) ''value'')"

definition invalid_length :: "u8 \<Rightarrow> reader \<Rightarrow> parse_error" where
  "invalid_length b rd =
     make_parse_error 113 (chars_read rd)
       (mp_message (''expected length specification (0xA0-0xBF, 0xD9-0xDB); last byte: 0x'' @ token_string b)
         ''string'')"

definition trailing_byte :: "u8 \<Rightarrow> reader \<Rightarrow> parse_error" where
  "trailing_byte b rd =
     make_parse_error 110 (chars_read rd)
       (mp_message (''expected end of input; last byte: 0x'' @ token_string b) ''value'')"

subsection \<open>Numbers and strings\<close>

text \<open>The loop of \<open>get_number\<close> and of \<open>get_string\<close>: \<open>k\<close> bytes, or the end of the input.\<close>

fun get_bytes :: "string \<Rightarrow> nat \<Rightarrow> reader \<Rightarrow> u8 list parsed" where
  "get_bytes context 0 rd = Inr ([], rd)"
| "get_bytes context (Suc k) rd =
     (case get_char rd of
        (None, rd1) \<Rightarrow> Inl (unexpected_eof context rd1)
      | (Some b, rd1) \<Rightarrow>
          (case get_bytes context k rd1 of
             Inl e \<Rightarrow> Inl e
           | Inr (bs, rd2) \<Rightarrow> Inr (b # bs, rd2)))"

definition get_number :: "nat \<Rightarrow> reader \<Rightarrow> nat parsed" where
  "get_number k rd =
     (case get_bytes ''number'' k rd of
        Inl e \<Rightarrow> Inl e
      | Inr (bs, rd1) \<Rightarrow> Inr (number_of_bytes bs, rd1))"

definition get_string :: "nat \<Rightarrow> reader \<Rightarrow> string parsed" where
  "get_string len rd =
     (case get_bytes ''string'' len rd of
        Inl e \<Rightarrow> Inl e
      | Inr (bs, rd1) \<Rightarrow> Inr (map char_of_byte bs, rd1))"

definition with_number :: "nat \<Rightarrow> reader \<Rightarrow> (nat \<Rightarrow> reader \<Rightarrow> 'a parsed) \<Rightarrow> 'a parsed" where
  "with_number k rd f = (case get_number k rd of Inl e \<Rightarrow> Inl e | Inr (n, rd1) \<Rightarrow> f n rd1)"

definition is_fixstr :: "u8 \<Rightarrow> bool" where "is_fixstr b \<longleftrightarrow> 0xA0 \<le> b \<and> b \<le> 0xBF"

definition is_str :: "u8 \<Rightarrow> bool" where "is_str b \<longleftrightarrow> b = 0xD9 \<or> b = 0xDA \<or> b = 0xDB"

text \<open>\<open>get_msgpack_string\<close> looks at the byte read last.\<close>

definition get_msgpack_string :: "u8 option \<Rightarrow> reader \<Rightarrow> string parsed" where
  "get_msgpack_string current rd =
     (case current of
        None \<Rightarrow> Inl (unexpected_eof ''string'' rd)
      | Some b \<Rightarrow>
          if is_fixstr b then get_string (unat (b AND 0x1F)) rd
          else if b = 0xD9 then with_number 1 rd get_string
          else if b = 0xDA then with_number 2 rd get_string
          else if b = 0xDB then with_number 4 rd get_string
          else Inl (invalid_length b rd))"

subsection \<open>parse_msgpack_internal\<close>

text \<open>The groups of bytes the \<open>switch\<close> lists.\<close>

definition is_positive_fixint :: "u8 \<Rightarrow> bool" where "is_positive_fixint b \<longleftrightarrow> b \<le> 0x7F"

definition is_fixmap :: "u8 \<Rightarrow> bool" where "is_fixmap b \<longleftrightarrow> 0x80 \<le> b \<and> b \<le> 0x8F"

definition is_fixarray :: "u8 \<Rightarrow> bool" where "is_fixarray b \<longleftrightarrow> 0x90 \<le> b \<and> b \<le> 0x9F"

definition is_negative_fixint :: "u8 \<Rightarrow> bool" where "is_negative_fixint b \<longleftrightarrow> 0xE0 \<le> b"

text \<open>The cases that build a value with no elements; \<open>None\<close> when the byte starts none of them.\<close>

definition parse_scalar :: "u8 \<Rightarrow> reader \<Rightarrow> json parsed option" where
  "parse_scalar b rd =
     (if is_positive_fixint b then Some (Inr (JUnsigned (ucast b), rd))
      else if is_fixstr b \<or> is_str b then
        Some (case get_msgpack_string (Some b) rd of Inl e \<Rightarrow> Inl e | Inr (s, rd1) \<Rightarrow> Inr (JString s, rd1))
      else if b = 0xC0 then Some (Inr (JNull, rd))
      else if b = 0xC2 then Some (Inr (JBoolean False, rd))
      else if b = 0xC3 then Some (Inr (JBoolean True, rd))
      else if b = 0xCA then Some (with_number 4 rd (\<lambda>n rd1. Inr (JFloat (float_to_double n), rd1)))
      else if b = 0xCB then Some (with_number 8 rd (\<lambda>n rd1. Inr (JFloat (word_of_nat n), rd1)))
      else if b = 0xCC then Some (with_number 1 rd (\<lambda>n rd1. Inr (JUnsigned (word_of_nat n), rd1)))
      else if b = 0xCD then Some (with_number 2 rd (\<lambda>n rd1. Inr (JUnsigned (word_of_nat n), rd1)))
      else if b = 0xCE then Some (with_number 4 rd (\<lambda>n rd1. Inr (JUnsigned (word_of_nat n), rd1)))
      else if b = 0xCF then Some (with_number 8 rd (\<lambda>n rd1. Inr (JUnsigned (word_of_nat n), rd1)))
      else if b = 0xD0 then Some (with_number 1 rd (\<lambda>n rd1. Inr (JInteger (signed_number 1 n), rd1)))
      else if b = 0xD1 then Some (with_number 2 rd (\<lambda>n rd1. Inr (JInteger (signed_number 2 n), rd1)))
      else if b = 0xD2 then Some (with_number 4 rd (\<lambda>n rd1. Inr (JInteger (signed_number 4 n), rd1)))
      else if b = 0xD3 then Some (with_number 8 rd (\<lambda>n rd1. Inr (JInteger (signed_number 8 n), rd1)))
      else if is_negative_fixint b then Some (Inr (JInteger (signed_number 1 (unat b)), rd))
      else None)"

text \<open>
  The number of elements a container byte announces, and whether it is an object; the length
  bytes are read from the input.
\<close>

definition container_header :: "u8 \<Rightarrow> reader \<Rightarrow> (bool \<times> nat) parsed" where
  "container_header b rd =
     (if is_fixmap b then Inr ((True, unat (b AND 0x0F)), rd)
      else if is_fixarray b then Inr ((False, unat (b AND 0x0F)), rd)
      else if b = 0xDC then with_number 2 rd (\<lambda>n rd1. Inr ((False, n), rd1))
      else if b = 0xDD then with_number 4 rd (\<lambda>n rd1. Inr ((False, n), rd1))
      else if b = 0xDE then with_number 2 rd (\<lambda>n rd1. Inr ((True, n), rd1))
      else if b = 0xDF then with_number 4 rd (\<lambda>n rd1. Inr ((True, n), rd1))
      else Inl (invalid_byte b rd))"

function (sequential) parse_msgpack :: "reader \<Rightarrow> json parsed"
  and get_msgpack_array :: "nat \<Rightarrow> json list \<Rightarrow> reader \<Rightarrow> json parsed"
  and get_msgpack_object :: "nat \<Rightarrow> (string \<times> json) list \<Rightarrow> reader \<Rightarrow> json parsed" where
  "parse_msgpack rd =
     (case get_char rd of
        (None, rd1) \<Rightarrow> Inl (unexpected_eof ''value'' rd1)
      | (Some b, rd1) \<Rightarrow>
          (case parse_scalar b rd1 of
             Some r \<Rightarrow> r
           | None \<Rightarrow>
               (case container_header b rd1 of
                  Inl e \<Rightarrow> Inl e
                | Inr ((True, n), rd2) \<Rightarrow> get_msgpack_object n [] rd2
                | Inr ((False, n), rd2) \<Rightarrow> get_msgpack_array n [] rd2)))"
| "get_msgpack_array 0 xs rd = Inr (JArray xs, rd)"
| "get_msgpack_array (Suc n) xs rd =
     (case parse_msgpack rd of
        Inl e \<Rightarrow> Inl e
      | Inr (x, rd1) \<Rightarrow> get_msgpack_array n (xs @ [x]) rd1)"
| "get_msgpack_object 0 m rd = Inr (JObject m, rd)"
| "get_msgpack_object (Suc n) m rd =
     (case get_char rd of
        (c, rd1) \<Rightarrow>
          (case get_msgpack_string c rd1 of
             Inl e \<Rightarrow> Inl e
           | Inr (k, rd2) \<Rightarrow>
               (case parse_msgpack rd2 of
                  Inl e \<Rightarrow> Inl e
                | Inr (x, rd3) \<Rightarrow> get_msgpack_object n (omap_assign k x m) rd3)))"
  by pat_completeness auto

text \<open>No reader gives bytes back, and the reader of a value consumes at least one.\<close>

lemma get_char_Some: "get_char rd = (Some b, rd1) \<Longrightarrow> length (input rd1) < length (input rd)"
  by (auto simp: get_char_def split: list.splits)

lemma get_char_le: "get_char rd = (c, rd1) \<Longrightarrow> length (input rd1) \<le> length (input rd)"
  by (auto simp: get_char_def split: list.splits)

lemma get_char_length:
  "get_char rd = (c, rd1) \<Longrightarrow>
     length (input rd1) \<le> length (input rd) \<and> (c \<noteq> None \<longrightarrow> length (input rd1) < length (input rd))"
  by (auto simp: get_char_def split: list.splits)

lemma get_bytes_le: "get_bytes w k rd = Inr (bs, rd1) \<Longrightarrow> length (input rd1) \<le> length (input rd)"
proof (induction k arbitrary: rd bs)
  case (Suc k)
  from Suc.prems obtain b rd' bs' where 1: "get_char rd = (Some b, rd')"
    and 2: "get_bytes w k rd' = Inr (bs', rd1)"
    by (auto split: prod.splits option.splits sum.splits)
  from Suc.IH[OF 2] get_char_Some[OF 1] show ?case by simp
qed simp

lemma get_number_le: "get_number k rd = Inr (n, rd1) \<Longrightarrow> length (input rd1) \<le> length (input rd)"
  by (auto simp: get_number_def split: sum.splits dest: get_bytes_le)

lemma get_string_le: "get_string k rd = Inr (s, rd1) \<Longrightarrow> length (input rd1) \<le> length (input rd)"
  by (auto simp: get_string_def split: sum.splits dest: get_bytes_le)

lemma with_number_le:
  assumes "with_number k rd f = Inr (x, rd1)"
    and "\<And>n rd2. f n rd2 = Inr (x, rd1) \<Longrightarrow> length (input rd1) \<le> length (input rd2)"
  shows "length (input rd1) \<le> length (input rd)"
  using assms by (fastforce simp: with_number_def split: sum.splits dest: get_number_le)

lemma get_msgpack_string_le:
  "get_msgpack_string c rd = Inr (s, rd1) \<Longrightarrow> length (input rd1) \<le> length (input rd)"
  by (auto simp: get_msgpack_string_def split: option.splits if_splits
      dest: get_string_le elim!: with_number_le)

lemma parse_scalar_le:
  "parse_scalar b rd = Some (Inr (x, rd1)) \<Longrightarrow> length (input rd1) \<le> length (input rd)"
  unfolding parse_scalar_def
  by (auto split: if_splits sum.splits dest: get_msgpack_string_le elim!: with_number_le)

lemma container_header_le:
  "container_header b rd = Inr (x, rd1) \<Longrightarrow> length (input rd1) \<le> length (input rd)"
  unfolding container_header_def by (auto split: if_splits elim!: with_number_le)

lemma parse_msgpack_consumes_partial:
  "parse_msgpack_get_msgpack_array_get_msgpack_object_dom (Inl rd) \<Longrightarrow>
     parse_msgpack rd = Inr (x, rd1) \<Longrightarrow> length (input rd1) < length (input rd)"
  "parse_msgpack_get_msgpack_array_get_msgpack_object_dom (Inr (Inl (n, xs, rd))) \<Longrightarrow>
     get_msgpack_array n xs rd = Inr (x, rd1) \<Longrightarrow> length (input rd1) \<le> length (input rd)"
  "parse_msgpack_get_msgpack_array_get_msgpack_object_dom (Inr (Inr (n, m, rd))) \<Longrightarrow>
     get_msgpack_object n m rd = Inr (x, rd1) \<Longrightarrow> length (input rd1) \<le> length (input rd)"
proof (induction rd and n xs rd and n m rd arbitrary: x rd1 and x rd1 and x rd1
    rule: parse_msgpack_get_msgpack_array_get_msgpack_object.pinduct)
  case (1 rd)
  from "1.prems" "1.hyps" obtain b rd' where c: "get_char rd = (Some b, rd')"
    by (auto simp: parse_msgpack.psimps split: prod.splits option.splits)
  note lt = get_char_Some[OF c]
  show ?case
  proof (cases "parse_scalar b rd'")
    case (Some r)
    with "1.prems" "1.hyps" c have "parse_scalar b rd' = Some (Inr (x, rd1))"
      by (simp add: parse_msgpack.psimps)
    from parse_scalar_le[OF this] lt show ?thesis by simp
  next
    case None
    with "1.prems" "1.hyps" c obtain ob n rd2 where h: "container_header b rd' = Inr ((ob, n), rd2)"
      by (auto simp: parse_msgpack.psimps split: sum.splits)
    note le = container_header_le[OF h]
    show ?thesis
    proof (cases ob)
      case True
      with "1.prems" "1.hyps" c None h have "get_msgpack_object n [] rd2 = Inr (x, rd1)"
        by (simp add: parse_msgpack.psimps)
      from "1.IH"(1)[OF c[symmetric] refl None h refl refl _ this] True lt le show ?thesis by simp
    next
      case False
      with "1.prems" "1.hyps" c None h have "get_msgpack_array n [] rd2 = Inr (x, rd1)"
        by (simp add: parse_msgpack.psimps)
      from "1.IH"(2)[OF c[symmetric] refl None h refl refl _ this] False lt le show ?thesis by simp
    qed
  qed
next
  case (3 n xs rd)
  from "3.prems" "3.hyps" obtain y rd2 where p: "parse_msgpack rd = Inr (y, rd2)"
    and a: "get_msgpack_array n (xs @ [y]) rd2 = Inr (x, rd1)"
    by (auto simp: get_msgpack_array.psimps split: sum.splits)
  from "3.IH"(1)[OF p] "3.IH"(2)[OF p refl a] show ?case by simp
next
  case (5 n m rd)
  obtain c rd' where c: "get_char rd = (c, rd')" by (cases "get_char rd")
  from "5.prems" "5.hyps" c obtain k rd2 y rd3 where k: "get_msgpack_string c rd' = Inr (k, rd2)"
    and p: "parse_msgpack rd2 = Inr (y, rd3)"
    and a: "get_msgpack_object n (omap_assign k y m) rd3 = Inr (x, rd1)"
    by (auto simp: get_msgpack_object.psimps split: sum.splits)
  from "5.IH"(1)[OF c[symmetric] k refl p] "5.IH"(2)[OF c[symmetric] k refl p refl a]
    get_char_le[OF c] get_msgpack_string_le[OF k]
  show ?case by simp
qed (simp_all add: get_msgpack_array.psimps get_msgpack_object.psimps)

termination parse_msgpack
proof (relation "inv_image (less_than <*lex*> less_than)
    (\<lambda>a. case a of Inl rd \<Rightarrow> (length (input rd), 0)
               | Inr (Inl (n, xs, rd)) \<Rightarrow> (length (input rd), Suc n)
               | Inr (Inr (n, m, rd)) \<Rightarrow> (length (input rd), Suc n))")
qed (auto dest!: parse_msgpack_consumes_partial(1) get_char_length[OF sym]
    container_header_le get_msgpack_string_le)

subsection \<open>from_msgpack\<close>

text \<open>Strict mode: after the value the input has to end.\<close>

definition sax_parse :: "reader \<Rightarrow> json parsed" where
  "sax_parse rd =
     (case parse_msgpack rd of
        Inl e \<Rightarrow> Inl e
      | Inr (j, rd1) \<Rightarrow>
          (case get_char rd1 of
             (None, rd2) \<Rightarrow> Inr (j, rd2)
           | (Some b, rd2) \<Rightarrow> Inl (trailing_byte b rd2)))"

definition from_msgpack :: "u8 list \<Rightarrow> parse_error + json" where
  "from_msgpack bs =
     (case sax_parse \<lparr>input = bs, chars_read = 0\<rparr> of Inl e \<Rightarrow> Inl e | Inr (j, _) \<Rightarrow> Inr j)"

subsection \<open>Bytes read back\<close>

abbreviation rdr :: "u8 list \<Rightarrow> nat \<Rightarrow> reader" where
  "rdr bs c \<equiv> \<lparr>input = bs, chars_read = c\<rparr>"

lemma length_write_number [simp]: "length (write_number k n) = k"
  by (induction k arbitrary: n) auto

lemma number_of_bytes_append:
  "number_of_bytes (bs @ [b]) = number_of_bytes bs * 256 + unat b"
  by (simp add: number_of_bytes_def)

lemma number_of_write_number: "number_of_bytes (write_number k n) = n mod 256 ^ k"
proof (induction k arbitrary: n)
  case 0
  then show ?case by (simp add: number_of_bytes_def)
next
  case (Suc k)
  have "unat (word_of_nat n :: u8) = n mod 256"
    by (simp add: unat_of_nat)
  with Suc show ?case
    by (simp add: number_of_bytes_append) (metis mod_mult2_eq mult.commute add.commute)
qed

lemma get_char_Cons [simp]: "get_char (rdr (b # bs) c) = (Some b, rdr bs (c + 1))"
  by (simp add: get_char_def)

lemma get_bytes_append:
  "get_bytes w (length bs) (rdr (bs @ r) c) = Inr (bs, rdr r (c + length bs))"
  by (induction bs arbitrary: c) auto

lemma get_number_write:
  "get_number k (rdr (write_number k n @ r) c) = Inr (n mod 256 ^ k, rdr r (c + k))"
  using get_bytes_append[of "''number''" "write_number k n" r c]
  by (simp add: get_number_def number_of_write_number)

lemma with_number_write:
  "with_number k (rdr (write_number k n @ r) c) f = f (n mod 256 ^ k) (rdr r (c + k))"
  by (simp add: with_number_def get_number_write)

lemma char_of_byte_of_char [simp]: "char_of_byte (byte_of_char ch) = ch"
proof -
  have "unat (word_of_nat (of_char ch) :: u8) = (of_char ch :: nat)"
    by (simp add: unat_of_nat of_char_mod_256)
  then show ?thesis by (simp add: char_of_byte_def byte_of_char_def)
qed

lemma get_string_write:
  "get_string (length s) (rdr (map byte_of_char s @ r) c) = Inr (s, rdr r (c + length s))"
  using get_bytes_append[of "''string''" "map byte_of_char s" r c]
  by (simp add: get_string_def comp_def)

subsection \<open>Headers read back\<close>

lemma fix_bytes:
  "N \<le> 31 \<Longrightarrow> is_fixstr (0xA0 OR word_of_nat N) \<and> unat ((0xA0 OR word_of_nat N :: u8) AND 0x1F) = N"
  "N \<le> 15 \<Longrightarrow> is_fixarray (0x90 OR word_of_nat N) \<and> unat ((0x90 OR word_of_nat N :: u8) AND 0x0F) = N"
  "N \<le> 15 \<Longrightarrow> is_fixmap (0x80 OR word_of_nat N) \<and> unat ((0x80 OR word_of_nat N :: u8) AND 0x0F) = N"
proof -
  have "list_all (\<lambda>N. is_fixstr (0xA0 OR word_of_nat N) \<and> unat ((0xA0 OR word_of_nat N :: u8) AND 0x1F) = N) [0..<32]"
    by code_simp
  then show "N \<le> 31 \<Longrightarrow> is_fixstr (0xA0 OR word_of_nat N) \<and> unat ((0xA0 OR word_of_nat N :: u8) AND 0x1F) = N"
    by (simp only: list_all_iff set_upt) simp
  have "list_all (\<lambda>N. is_fixarray (0x90 OR word_of_nat N) \<and> unat ((0x90 OR word_of_nat N :: u8) AND 0x0F) = N) [0..<16]"
    by code_simp
  then show "N \<le> 15 \<Longrightarrow> is_fixarray (0x90 OR word_of_nat N) \<and> unat ((0x90 OR word_of_nat N :: u8) AND 0x0F) = N"
    by (simp only: list_all_iff set_upt) simp
  have "list_all (\<lambda>N. is_fixmap (0x80 OR word_of_nat N) \<and> unat ((0x80 OR word_of_nat N :: u8) AND 0x0F) = N) [0..<16]"
    by code_simp
  then show "N \<le> 15 \<Longrightarrow> is_fixmap (0x80 OR word_of_nat N) \<and> unat ((0x80 OR word_of_nat N :: u8) AND 0x0F) = N"
    by (simp only: list_all_iff set_upt) simp
qed

text \<open>The groups are disjoint, so a byte of one of them takes the branch of that group.\<close>

lemma group_disjoint:
  "is_fixstr b \<Longrightarrow> \<not> is_positive_fixint b"
  "is_fixmap b \<Longrightarrow> parse_scalar b rd = None"
  "is_fixarray b \<Longrightarrow> parse_scalar b rd = None \<and> \<not> is_fixmap b"
  by (auto simp: is_fixstr_def is_positive_fixint_def is_fixmap_def is_fixarray_def parse_scalar_def
      is_str_def is_negative_fixint_def word_le_nat_alt)

lemma is_str_not_positive: "is_str b \<Longrightarrow> \<not> is_positive_fixint b"
  by (auto simp: is_str_def is_positive_fixint_def)

lemma get_msgpack_string_write:
  assumes "length s \<le> 0xFFFFFFFF"
  shows "\<exists>b t. write_string s = b # t \<and> (is_fixstr b \<or> is_str b) \<and>
    get_msgpack_string (Some b) (rdr (t @ r) c) = Inr (s, rdr r (c + length t))"
proof -
  let ?N = "length s"
  consider "?N \<le> 31" | "31 < ?N" "?N \<le> 0xFF" | "0xFF < ?N" "?N \<le> 0xFFFF" | "0xFFFF < ?N"
    by linarith
  then show ?thesis
  proof cases
    case 1
    then show ?thesis
      using fix_bytes(1)[OF 1]
      by (simp add: write_string_def write_string_header_def get_msgpack_string_def get_string_write)
  next
    case 2
    then have "?N mod 256 ^ 1 = ?N" by simp
    with 2 show ?thesis
      by (simp add: write_string_def write_string_header_def get_msgpack_string_def is_str_def
          with_number_write get_string_write is_fixstr_def del: write_number.simps power_one_right)
  next
    case 3
    then have "?N mod 256 ^ 2 = ?N" by simp
    with 3 show ?thesis
      by (simp add: write_string_def write_string_header_def get_msgpack_string_def is_str_def
          with_number_write get_string_write is_fixstr_def del: write_number.simps)
  next
    case 4
    with assms have "?N mod 256 ^ 4 = ?N" by simp
    with 4 assms show ?thesis
      by (simp add: write_string_def write_string_header_def get_msgpack_string_def is_str_def
          with_number_write get_string_write is_fixstr_def del: write_number.simps)
  qed
qed

lemma array_header_write:
  assumes "N \<le> 0xFFFFFFFF"
  shows "\<exists>b t. write_array_header N = b # t \<and> (\<forall>rd. parse_scalar b rd = None) \<and>
    container_header b (rdr (t @ r) c) = Inr ((False, N), rdr r (c + length t))"
proof -
  consider "N \<le> 15" | "15 < N" "N \<le> 0xFFFF" | "0xFFFF < N" by linarith
  then show ?thesis
  proof cases
    case 1
    then show ?thesis
      using fix_bytes(2)[OF 1] group_disjoint(3)
      by (simp add: write_array_header_def container_header_def)
  next
    case 2
    then have "N mod 256 ^ 2 = N" by simp
    with 2 show ?thesis
      by (simp add: write_array_header_def container_header_def is_fixmap_def is_fixarray_def
          with_number_write parse_scalar_def is_positive_fixint_def is_fixstr_def is_str_def
          is_negative_fixint_def del: write_number.simps)
  next
    case 3
    with assms have "N mod 256 ^ 4 = N" by simp
    with 3 assms show ?thesis
      by (simp add: write_array_header_def container_header_def is_fixmap_def is_fixarray_def
          with_number_write parse_scalar_def is_positive_fixint_def is_fixstr_def is_str_def
          is_negative_fixint_def del: write_number.simps)
  qed
qed

lemma object_header_write:
  assumes "N \<le> 0xFFFFFFFF"
  shows "\<exists>b t. write_object_header N = b # t \<and> (\<forall>rd. parse_scalar b rd = None) \<and>
    container_header b (rdr (t @ r) c) = Inr ((True, N), rdr r (c + length t))"
proof -
  consider "N \<le> 15" | "15 < N" "N \<le> 0xFFFF" | "0xFFFF < N" by linarith
  then show ?thesis
  proof cases
    case 1
    then show ?thesis
      using fix_bytes(3)[OF 1] group_disjoint(2)
      by (simp add: write_object_header_def container_header_def)
  next
    case 2
    then have "N mod 256 ^ 2 = N" by simp
    with 2 show ?thesis
      by (simp add: write_object_header_def container_header_def is_fixmap_def is_fixarray_def
          with_number_write parse_scalar_def is_positive_fixint_def is_fixstr_def is_str_def
          is_negative_fixint_def del: write_number.simps)
  next
    case 3
    with assms have "N mod 256 ^ 4 = N" by simp
    with 3 assms show ?thesis
      by (simp add: write_object_header_def container_header_def is_fixmap_def is_fixarray_def
          with_number_write parse_scalar_def is_positive_fixint_def is_fixstr_def is_str_def
          is_negative_fixint_def del: write_number.simps)
  qed
qed

subsection \<open>Numbers read back\<close>

lemmas scalar_simps =
  parse_scalar_def is_positive_fixint_def is_fixstr_def is_str_def is_negative_fixint_def

lemma fixint_byte:
  assumes "n < 128"
  shows "parse_scalar (word_of_nat n) rd = Some (Inr (JUnsigned (word_of_nat n), rd))"
proof -
  have "unat (word_of_nat n :: u8) = n" using assms by (simp add: unat_of_nat)
  then have "is_positive_fixint (word_of_nat n)" "ucast (word_of_nat n :: u8) = (word_of_nat n :: u64)"
    using assms by (simp_all add: is_positive_fixint_def word_le_nat_alt unsigned_of_nat take_bit_nat_eq_self)
  then show ?thesis by (simp add: parse_scalar_def)
qed

lemma write_unsigned_read:
  "\<exists>b t. write_unsigned w = b # t \<and>
     parse_scalar b (rdr (t @ r) c) = Some (Inr (JUnsigned w, rdr r (c + length t)))"
proof -
  let ?n = "unat w"
  have lt: "?n < 2 ^ 64" using unsigned_less[of w, where 'a = nat] by simp
  have id: "word_of_nat ?n = w" by simp
  consider "?n < 128" | "128 \<le> ?n" "?n \<le> 0xFF" | "0xFF < ?n" "?n \<le> 0xFFFF"
    | "0xFFFF < ?n" "?n \<le> 0xFFFFFFFF" | "0xFFFFFFFF < ?n" by linarith
  then show ?thesis
  proof cases
    case 1
    then show ?thesis using fixint_byte[OF 1] by (simp add: write_unsigned_def)
  next
    case 2
    then have "?n mod 256 ^ 1 = ?n" by simp
    with 2 show ?thesis
      by (simp add: write_unsigned_def scalar_simps with_number_write del: write_number.simps power_one_right)
  next
    case 3
    then have "?n mod 256 ^ 2 = ?n" by simp
    with 3 show ?thesis
      by (simp add: write_unsigned_def scalar_simps with_number_write del: write_number.simps)
  next
    case 4
    then have "?n mod 256 ^ 4 = ?n" by simp
    with 4 show ?thesis
      by (simp add: write_unsigned_def scalar_simps with_number_write del: write_number.simps)
  next
    case 5
    from lt have "?n mod 256 ^ 8 = ?n" by simp
    with 5 show ?thesis
      by (simp add: write_unsigned_def scalar_simps with_number_write del: write_number.simps)
  qed
qed

lemma shift_mod:
  assumes "n < 2 ^ 64"
  shows "(int n + 2 ^ 63) mod 2 ^ 64 - 2 ^ 63 = (if n < 2 ^ 63 then int n else int n - 2 ^ 64)"
proof (cases "n < 2 ^ 63")
  case True
  then have "(int n + 2 ^ 63) mod 2 ^ 64 = int n + 2 ^ 63"
    by (intro mod_pos_pos_trivial) auto
  with True show ?thesis by simp
next
  case False
  then have ge: "int n \<ge> 2 ^ 63" by simp
  have "(int n + 2 ^ 63) mod 2 ^ 64 = (int n - 2 ^ 63 + 2 ^ 64) mod 2 ^ 64" by (simp add: add.commute)
  also have "\<dots> = (int n - 2 ^ 63) mod 2 ^ 64" by (rule mod_add_self2)
  also have "\<dots> = int n - 2 ^ 63"
    using ge assms by (intro mod_pos_pos_trivial) auto
  finally show ?thesis using False by simp
qed

lemma sint_unat: "sint (w :: u64) = (if unat w < 2 ^ 63 then int (unat w) else int (unat w) - 2 ^ 64)"
proof -
  have "unat w < 2 ^ 64"
    using unsigned_less[of w, where 'a = nat] by simp
  moreover have "sint w = (int (unat w) + 2 ^ 63) mod 2 ^ 64 - 2 ^ 63"
    by (simp add: sint_uint signed_take_bit_eq_take_bit_shift take_bit_eq_mod)
  ultimately show ?thesis using shift_mod by metis
qed

lemma signed_number_mod:
  assumes "k \<in> {1, 2, 4, 8}" and "sint w < 0" and "- (2 ^ (8 * k - 1)) \<le> sint w"
  shows "signed_number k (unat w mod 256 ^ k) = w"
proof -
  have n: "int (unat w) = sint w + 2 ^ 64"
    using assms(2) by (simp add: sint_unat split: if_splits)
  have dvd: "(256 :: int) ^ k dvd 2 ^ 64"
    using assms(1) by auto
  have "int (unat w mod 256 ^ k) = (sint w + 2 ^ 64) mod 256 ^ k"
    by (simp only: zmod_int n) simp
  also have "\<dots> = sint w mod 256 ^ k"
    using dvd by (metis add_0_right dvd_imp_mod_0 mod_add_right_eq)
  also have "\<dots> = (sint w + 256 ^ k) mod 256 ^ k" by simp
  also have "\<dots> = sint w + 256 ^ k"
    using assms by (intro mod_pos_pos_trivial) auto
  finally have m: "int (unat w mod 256 ^ k) = sint w + 256 ^ k" .
  have ge: "\<not> unat w mod 256 ^ k < 2 ^ (8 * k - 1)"
  proof
    assume "unat w mod 256 ^ k < 2 ^ (8 * k - 1)"
    then have "int (unat w mod 256 ^ k) < 2 ^ (8 * k - 1)"
      by (metis of_nat_less_numeral_power_cancel_iff)
    with m assms show False by auto
  qed
  have "int (unat w mod 256 ^ k) - 2 ^ (8 * k) = sint w"
    using m assms(1) by auto
  then have "signed_number k (unat w mod 256 ^ k) = word_of_int (sint w)"
    unfolding signed_number_def using ge by simp
  then show ?thesis by simp
qed

lemma negative_fixint_byte:
  "is_negative_fixint b \<Longrightarrow> parse_scalar b rd = Some (Inr (JInteger (signed_number 1 (unat b)), rd))"
  by (auto simp: scalar_simps word_le_nat_alt)

lemma write_integer_nonneg: "sint w \<ge> 0 \<Longrightarrow> write_integer w = write_unsigned w"
  by (simp add: write_integer_def write_unsigned_def Let_def)

lemma write_integer_read:
  assumes "sint w < 0"
  shows "\<exists>b t. write_integer w = b # t \<and>
     parse_scalar b (rdr (t @ r) c) = Some (Inr (JInteger w, rdr r (c + length t)))"
proof -
  let ?n = "unat w"
  have lo: "- (2 ^ 63) \<le> sint w" using sint_greater_eq[of w] by simp
  consider "-32 \<le> sint w" | "sint w < -32" "-128 \<le> sint w" | "sint w < -128" "-32768 \<le> sint w"
    | "sint w < -32768" "-2147483648 \<le> sint w" | "sint w < -2147483648" by linarith
  then show ?thesis
  proof cases
    case 1
    have n: "int ?n = sint w + 2 ^ 64"
      using assms by (simp add: sint_unat split: if_splits)
    have u: "unat (word_of_nat ?n :: u8) = ?n mod 256 ^ 1" by (subst unat_of_nat) simp
    have "int (?n mod 256) = (sint w + 256) mod 256"
      by (simp only: zmod_int n) (simp add: mod_add_eq[symmetric])
    also have "\<dots> = sint w + 256"
      using assms 1 by (intro mod_pos_pos_trivial) auto
    finally have "int (?n mod 256) \<ge> 224" using 1 by simp
    then have "is_negative_fixint (word_of_nat ?n)"
      using u by (simp add: is_negative_fixint_def word_le_nat_alt)
    then have "parse_scalar (word_of_nat ?n) (rdr r (c + length ([] :: u8 list))) =
        Some (Inr (JInteger (signed_number 1 (?n mod 256 ^ 1)), rdr r c))"
      using u by (simp add: negative_fixint_byte)
    moreover have "signed_number 1 (?n mod 256 ^ 1) = w"
      using assms 1 by (intro signed_number_mod) auto
    ultimately show ?thesis
      using 1 assms by (simp add: write_integer_def)
  next
    case 2
    have "signed_number 1 (?n mod 256 ^ 1) = w"
      using assms 2 by (intro signed_number_mod) auto
    with 2 assms show ?thesis
      by (simp add: write_integer_def scalar_simps with_number_write del: write_number.simps power_one_right)
  next
    case 3
    have "signed_number 2 (?n mod 256 ^ 2) = w"
      using assms 3 by (intro signed_number_mod) auto
    with 3 assms show ?thesis
      by (simp add: write_integer_def scalar_simps with_number_write del: write_number.simps)
  next
    case 4
    have "signed_number 4 (?n mod 256 ^ 4) = w"
      using assms 4 by (intro signed_number_mod) auto
    with 4 assms show ?thesis
      by (simp add: write_integer_def scalar_simps with_number_write del: write_number.simps)
  next
    case 5
    have "signed_number 8 (?n mod 256 ^ 8) = w"
      using assms lo by (intro signed_number_mod) auto
    with 5 assms show ?thesis
      by (simp add: write_integer_def scalar_simps with_number_write del: write_number.simps)
  qed
qed

lemma write_float_read:
  "\<exists>b t. write_float d = b # t \<and>
     parse_scalar b (rdr (t @ r) c) = Some (Inr (JFloat d, rdr r (c + length t)))"
proof -
  have "unat d < 256 ^ 8" using unsigned_less[of d, where 'a = nat] by simp
  then have "unat d mod 256 ^ 8 = unat d" by simp
  then show ?thesis
    by (simp add: write_float_def scalar_simps with_number_write del: write_number.simps)
qed

subsection \<open>Values read back\<close>

text \<open>
  What a value is after a trip over the wire: a non-negative signed integer comes back unsigned,
  everything else as it was. The values that can make the trip have fewer than \<open>2 ^ 32\<close> bytes or
  elements in each string, array and object, and objects with their keys in order.
\<close>

fun canon :: "json \<Rightarrow> json" where
  "canon (JInteger w) = (if sint w \<ge> 0 then JUnsigned w else JInteger w)"
| "canon (JArray xs) = JArray (map canon xs)"
| "canon (JObject m) = JObject (map (\<lambda>(k, v). (k, canon v)) m)"
| "canon j = j"

fun storable :: "json \<Rightarrow> bool" where
  "storable (JString s) \<longleftrightarrow> length s \<le> 0xFFFFFFFF"
| "storable (JArray xs) \<longleftrightarrow> length xs \<le> 0xFFFFFFFF \<and> list_all storable xs"
| "storable (JObject m) \<longleftrightarrow> length m \<le> 0xFFFFFFFF \<and> omap_ok m
     \<and> list_all (\<lambda>(k, v). length k \<le> 0xFFFFFFFF \<and> storable v) m"
| "storable j \<longleftrightarrow> True"

lemma parse_of_scalar:
  assumes "\<exists>b t. bs = b # t \<and> parse_scalar b (rdr (t @ r) (c + 1)) = Some (Inr (x, rdr r (c + 1 + length t)))"
  shows "parse_msgpack (rdr (bs @ r) c) = Inr (x, rdr r (c + length bs))"
  using assms by auto

text \<open>Elements one after the other, given that each of them reads back.\<close>

lemma get_array_write:
  assumes "\<And>x r c. x \<in> set xs \<Longrightarrow>
      parse_msgpack (rdr (write_msgpack x @ r) c) = Inr (canon x, rdr r (c + length (write_msgpack x)))"
  shows "get_msgpack_array (length xs) ys (rdr (concat (map write_msgpack xs) @ r) c) =
    Inr (JArray (ys @ map canon xs), rdr r (c + length (concat (map write_msgpack xs))))"
  using assms
proof (induction xs arbitrary: ys c)
  case (Cons x xs)
  have "parse_msgpack (rdr (write_msgpack x @ concat (map write_msgpack xs) @ r) c) =
      Inr (canon x, rdr (concat (map write_msgpack xs) @ r) (c + length (write_msgpack x)))"
    by (rule Cons.prems) simp
  with Cons show ?case by (simp add: add.assoc del: parse_msgpack.simps)
qed simp

abbreviation write_pair :: "string \<times> json \<Rightarrow> u8 list" where
  "write_pair \<equiv> \<lambda>(k, v). write_string k @ write_msgpack v"

lemma get_object_write:
  assumes "\<And>k x r c. (k, x) \<in> set m \<Longrightarrow> length k \<le> 0xFFFFFFFF \<and>
      parse_msgpack (rdr (write_msgpack x @ r) c) = Inr (canon x, rdr r (c + length (write_msgpack x)))"
    and "omap_ok (m0 @ map (\<lambda>(k, v). (k, canon v)) m)"
  shows "get_msgpack_object (length m) m0 (rdr (concat (map write_pair m) @ r) c) =
    Inr (JObject (m0 @ map (\<lambda>(k, v). (k, canon v)) m), rdr r (c + length (concat (map write_pair m))))"
  using assms
proof (induction m arbitrary: m0 c)
  case (Cons p m)
  obtain k x where p: "p = (k, x)" by (cases p)
  let ?tail = "concat (map write_pair m) @ r"
  have k: "length k \<le> 0xFFFFFFFF" using Cons.prems(1)[of k x] by (simp add: p)
  obtain b t where w: "write_string k = b # t"
    and s: "get_msgpack_string (Some b) (rdr (t @ write_msgpack x @ ?tail) (c + 1)) =
      Inr (k, rdr (write_msgpack x @ ?tail) (c + 1 + length t))"
    using get_msgpack_string_write[OF k, of "write_msgpack x @ ?tail" "c + 1"] by blast
  have v: "parse_msgpack (rdr (write_msgpack x @ ?tail) (c + 1 + length t)) =
      Inr (canon x, rdr ?tail (c + 1 + length t + length (write_msgpack x)))"
    using Cons.prems(1)[of k x] by (simp add: p del: parse_msgpack.simps)
  have g: "omap_assign k (canon x) m0 = m0 @ [(k, canon x)]"
    using Cons.prems(2) by (intro omap_assign_greatest) (auto simp: p omap_ok_append)
  have "get_msgpack_object (length m) (m0 @ [(k, canon x)]) (rdr ?tail (c + 1 + length t + length (write_msgpack x))) =
      Inr (JObject ((m0 @ [(k, canon x)]) @ map (\<lambda>(k, v). (k, canon v)) m),
        rdr r (c + 1 + length t + length (write_msgpack x) + length (concat (map write_pair m))))"
    using Cons.prems by (intro Cons.IH) (auto simp: p)
  with s v g show ?case by (simp add: p w add.assoc add.commute add.left_commute del: parse_msgpack.simps)
qed simp

lemma parse_container:
  assumes "\<exists>b t. bs = b # t \<and> (\<forall>rd. parse_scalar b rd = None) \<and>
      container_header b (rdr (t @ r) (c + 1)) = Inr ((ob, n), rdr r (c + 1 + length t))"
  shows "parse_msgpack (rdr (bs @ r) c) =
    (if ob then get_msgpack_object n [] (rdr r (c + length bs)) else get_msgpack_array n [] (rdr r (c + length bs)))"
  using assms by (cases ob) auto

lemma parse_write:
  "storable j \<Longrightarrow>
     parse_msgpack (rdr (write_msgpack j @ r) c) = Inr (canon j, rdr r (c + length (write_msgpack j)))"
proof (induction j arbitrary: r c rule: write_msgpack.induct)
  case 1
  then show ?case by (intro parse_of_scalar) (simp_all add: scalar_simps)
next
  case (2 b)
  then show ?case by (cases b; simp add: scalar_simps)
next
  case (3 w)
  show ?case
  proof (cases "sint w \<ge> 0")
    case True
    then show ?thesis
      using parse_of_scalar[OF write_unsigned_read] by (simp add: write_integer_nonneg del: parse_msgpack.simps)
  next
    case False
    then show ?thesis
      using parse_of_scalar[OF write_integer_read] by (simp del: parse_msgpack.simps)
  qed
next
  case (4 w)
  show ?case using parse_of_scalar[OF write_unsigned_read] by (simp del: parse_msgpack.simps)
next
  case (5 d)
  show ?case using parse_of_scalar[OF write_float_read] by (simp del: parse_msgpack.simps)
next
  case (6 s)
  then obtain b t where "write_string s = b # t" "is_fixstr b \<or> is_str b"
    "get_msgpack_string (Some b) (rdr (t @ r) (c + 1)) = Inr (s, rdr r (c + 1 + length t))"
    using get_msgpack_string_write[of s r "c + 1"] by auto
  moreover from this(2) have "\<not> is_positive_fixint b"
    by (elim disjE) (simp_all only: group_disjoint(1) is_str_not_positive not_False_eq_True)
  ultimately show ?case
    using parse_of_scalar[of "write_string s" r c "JString s"]
    by (simp add: parse_scalar_def del: parse_msgpack.simps)
next
  case (7 xs)
  have "get_msgpack_array (length xs) [] (rdr (concat (map write_msgpack xs) @ r) (c + length (write_array_header (length xs)))) =
    Inr (JArray ([] @ map canon xs), rdr r (c + length (write_array_header (length xs)) + length (concat (map write_msgpack xs))))"
    using "7.prems" by (intro get_array_write "7.IH") (auto simp: list_all_iff)
  moreover have "parse_msgpack (rdr (write_array_header (length xs) @ concat (map write_msgpack xs) @ r) c) =
    get_msgpack_array (length xs) [] (rdr (concat (map write_msgpack xs) @ r) (c + length (write_array_header (length xs))))"
    using "7.prems" array_header_write[of "length xs" "concat (map write_msgpack xs) @ r" "c + 1"]
    by (subst parse_container[where ob = False]) auto
  ultimately show ?case by (simp add: add.assoc del: parse_msgpack.simps)
next
  case (8 m)
  let ?h = "write_object_header (length m)"
  have ok: "omap_ok ([] @ map (\<lambda>(k, v). (k, canon v)) m)"
    using "8.prems" by (simp add: omap_ok_def comp_def case_prod_beta)
  have "get_msgpack_object (length m) [] (rdr (concat (map write_pair m) @ r) (c + length ?h)) =
    Inr (JObject ([] @ map (\<lambda>(k, v). (k, canon v)) m), rdr r (c + length ?h + length (concat (map write_pair m))))"
    using "8.prems" "8.IH" ok by (intro get_object_write) (fastforce simp: list_all_iff)+
  moreover have "parse_msgpack (rdr (?h @ concat (map write_pair m) @ r) c) =
    get_msgpack_object (length m) [] (rdr (concat (map write_pair m) @ r) (c + length ?h))"
    using "8.prems" object_header_write[of "length m" "concat (map write_pair m) @ r" "c + 1"]
    by (subst parse_container[where ob = True]) auto
  ultimately show ?case by (simp add: add.assoc del: parse_msgpack.simps)
qed

subsection \<open>More input changes only what failed at the end of the input\<close>

definition ext :: "u8 list \<Rightarrow> reader \<Rightarrow> reader" where
  "ext x rd = rd\<lparr>input := input rd @ x\<rparr>"

definition more_input :: "u8 list \<Rightarrow> 'a parsed \<Rightarrow> 'a parsed" where
  "more_input x p = (case p of Inl e \<Rightarrow> Inl e | Inr (v, rd) \<Rightarrow> Inr (v, ext x rd))"

definition ended :: "'a parsed \<Rightarrow> bool" where
  "ended p \<longleftrightarrow> (case p of Inl e \<Rightarrow> error_id e = 110 | Inr _ \<Rightarrow> False)"

lemma more_input_simps [simp]:
  "more_input x (Inl e) = Inl e" "more_input x (Inr (v, rd)) = Inr (v, ext x rd)"
  "ended (Inr p) = False" "ended (Inl e) \<longleftrightarrow> error_id e = 110"
  by (simp_all add: more_input_def ended_def)

lemma error_ids [simp]:
  "error_id (unexpected_eof w rd) = 110" "error_id (trailing_byte b rd) = 110"
  by (simp_all add: unexpected_eof_def trailing_byte_def make_parse_error_def)

lemma get_char_ext: "get_char rd = (Some b, rd1) \<Longrightarrow> get_char (ext x rd) = (Some b, ext x rd1)"
  by (auto simp: get_char_def ext_def split: list.splits)

lemma error_of_ext [simp]:
  "invalid_byte b (ext x rd) = invalid_byte b rd" "invalid_length b (ext x rd) = invalid_length b rd"
  by (simp_all add: invalid_byte_def invalid_length_def ext_def)

lemma get_bytes_ext:
  "ended (get_bytes w k rd) \<or> get_bytes w k (ext x rd) = more_input x (get_bytes w k rd)"
proof (induction k arbitrary: rd)
  case (Suc k)
  show ?case
  proof (cases "get_char rd")
    case (Pair c rd1)
    show ?thesis
    proof (cases c)
      case None
      then show ?thesis using Pair by simp
    next
      case (Some b)
      then have "get_char (ext x rd) = (Some b, ext x rd1)" using Pair by (simp add: get_char_ext)
      then show ?thesis using Suc[of rd1] Pair Some by (auto simp: ended_def split: sum.splits)
    qed
  qed
qed simp

lemma with_number_ext:
  assumes "\<And>n rd1. ended (f n rd1) \<or> f n (ext x rd1) = more_input x (f n rd1)"
  shows "ended (with_number k rd f) \<or> with_number k (ext x rd) f = more_input x (with_number k rd f)"
proof (cases "get_bytes ''number'' k rd")
  case (Inl e)
  then show ?thesis
    using get_bytes_ext[of "''number''" k rd x] by (auto simp: with_number_def get_number_def)
next
  case (Inr p)
  obtain bs rd1 where "p = (bs, rd1)" by (cases p)
  with Inr show ?thesis
    using get_bytes_ext[of "''number''" k rd x] assms[of "number_of_bytes bs" rd1]
    by (simp add: with_number_def get_number_def)
qed

lemma get_string_ext: "ended (get_string n rd) \<or> get_string n (ext x rd) = more_input x (get_string n rd)"
  using get_bytes_ext[of "''string''" n rd x] by (auto simp: get_string_def ended_def split: sum.splits)

lemma get_msgpack_string_ext:
  "ended (get_msgpack_string (Some b) rd) \<or>
     get_msgpack_string (Some b) (ext x rd) = more_input x (get_msgpack_string (Some b) rd)"
  using get_string_ext[of "unat (b AND 0x1F)" rd x] with_number_ext[of get_string x 1 rd]
    with_number_ext[of get_string x 2 rd] with_number_ext[of get_string x 4 rd] get_string_ext
  by (auto simp: get_msgpack_string_def)

lemma with_number_Inr_ext:
  "ended (with_number k rd (\<lambda>n rd1. Inr (g n, rd1))) \<or>
     with_number k (ext x rd) (\<lambda>n rd1. Inr (g n, rd1)) = more_input x (with_number k rd (\<lambda>n rd1. Inr (g n, rd1)))"
  by (rule with_number_ext) simp

text \<open>\<open>ext_ok\<close> names the relation, so that it can be carried through the cases of a \<open>switch\<close>.\<close>

definition ext_ok :: "u8 list \<Rightarrow> 'a parsed \<Rightarrow> 'a parsed \<Rightarrow> bool" where
  "ext_ok x p q \<longleftrightarrow> ended p \<or> q = more_input x p"

lemma ext_okI:
  "ext_ok x (Inl e) (Inl e)" "ext_ok x (Inr (v, rd)) (Inr (v, ext x rd))"
  "ext_ok x (with_number k rd (\<lambda>n rd1. Inr (g n, rd1))) (with_number k (ext x rd) (\<lambda>n rd1. Inr (g n, rd1)))"
  using with_number_Inr_ext by (simp_all add: ext_ok_def)

lemma ext_ok_if: "(P \<Longrightarrow> ext_ok x a b) \<Longrightarrow> (\<not> P \<Longrightarrow> ext_ok x c d) \<Longrightarrow>
    ext_ok x (if P then a else c) (if P then b else d)"
  by simp

lemma container_header_ext: "ext_ok x (container_header b rd) (container_header b (ext x rd))"
  unfolding container_header_def error_of_ext by (intro ext_ok_if ext_okI)

lemma parse_string_ext:
  "ext_ok x (case get_msgpack_string (Some b) rd of Inl e \<Rightarrow> Inl e | Inr (s, rd1) \<Rightarrow> Inr (JString s, rd1))
     (case get_msgpack_string (Some b) (ext x rd) of Inl e \<Rightarrow> Inl e | Inr (s, rd1) \<Rightarrow> Inr (JString s, rd1))"
  using get_msgpack_string_ext[of b rd x] by (auto simp: ext_ok_def ended_def split: sum.splits)

definition ext_ok_option :: "u8 list \<Rightarrow> 'a parsed option \<Rightarrow> 'a parsed option \<Rightarrow> bool" where
  "ext_ok_option x p q \<longleftrightarrow>
     (case p of None \<Rightarrow> q = None | Some r \<Rightarrow> (case q of None \<Rightarrow> False | Some r' \<Rightarrow> ext_ok x r r'))"

lemma ext_ok_option_if: "(P \<Longrightarrow> ext_ok_option x a b) \<Longrightarrow> (\<not> P \<Longrightarrow> ext_ok_option x c d) \<Longrightarrow>
    ext_ok_option x (if P then a else c) (if P then b else d)"
  by simp

lemma ext_ok_optionI: "ext_ok x r r' \<Longrightarrow> ext_ok_option x (Some r) (Some r')" "ext_ok_option x None None"
  by (simp_all add: ext_ok_option_def)

lemma parse_scalar_ext: "ext_ok_option x (parse_scalar b rd) (parse_scalar b (ext x rd))"
  unfolding parse_scalar_def by (intro ext_ok_option_if ext_ok_optionI ext_okI parse_string_ext)

lemma parse_ext:
  "ended (parse_msgpack rd) \<or> parse_msgpack (ext x rd) = more_input x (parse_msgpack rd)"
  "ended (get_msgpack_array n xs rd) \<or> get_msgpack_array n xs (ext x rd) = more_input x (get_msgpack_array n xs rd)"
  "ended (get_msgpack_object n m rd) \<or> get_msgpack_object n m (ext x rd) = more_input x (get_msgpack_object n m rd)"
proof (induction rd and n xs rd and n m rd
    rule: parse_msgpack_get_msgpack_array_get_msgpack_object.induct)
  case (1 rd)
  obtain c rd1 where g: "get_char rd = (c, rd1)" by (cases "get_char rd")
  show ?case
  proof (cases c)
    case None
    with g show ?thesis by simp
  next
    case (Some b)
    note g' = g[unfolded Some]
    note gx = get_char_ext[OF g', of x]
    show ?thesis
    proof (cases "parse_scalar b rd1")
      case (Some r)
      with g' gx parse_scalar_ext[of x b rd1] show ?thesis
        by (auto simp: ext_ok_option_def ext_ok_def split: option.splits)
    next
      case None
      then have nx: "parse_scalar b (ext x rd1) = None"
        using parse_scalar_ext[of x b rd1] by (simp add: ext_ok_option_def)
      show ?thesis
      proof (cases "container_header b rd1")
        case (Inl e)
        with g' gx None nx container_header_ext[of x b rd1] show ?thesis by (auto simp: ext_ok_def)
      next
        case (Inr p)
        obtain ob k rd2 where p: "p = ((ob, k), rd2)" by (metis prod.exhaust)
        have hx: "container_header b (ext x rd1) = Inr ((ob, k), ext x rd2)"
          using container_header_ext[of x b rd1] Inr p by (simp add: ext_ok_def)
        have "ob \<Longrightarrow> ended (get_msgpack_object k [] rd2) \<or>
            get_msgpack_object k [] (ext x rd2) = more_input x (get_msgpack_object k [] rd2)"
          using "1.IH"(1)[OF g'[symmetric] refl None Inr[unfolded p] refl refl] by simp
        moreover have "\<not> ob \<Longrightarrow> ended (get_msgpack_array k [] rd2) \<or>
            get_msgpack_array k [] (ext x rd2) = more_input x (get_msgpack_array k [] rd2)"
          using "1.IH"(2)[OF g'[symmetric] refl None Inr[unfolded p] refl refl] by simp
        ultimately show ?thesis
          using g' gx None nx Inr p hx by (cases ob) auto
      qed
    qed
  qed
next
  case (3 n xs rd)
  show ?case
  proof (cases "parse_msgpack rd")
    case (Inl e)
    with "3.IH"(1) show ?thesis by (auto simp del: parse_msgpack.simps)
  next
    case (Inr p)
    obtain v rd1 where p: "p = (v, rd1)" by (cases p)
    with "3.IH"(1) "3.IH"(2)[OF Inr p[symmetric]] Inr show ?thesis by (auto simp del: parse_msgpack.simps)
  qed
next
  case (5 n m rd)
  obtain c rd1 where g: "get_char rd = (c, rd1)" by (cases "get_char rd")
  show ?case
  proof (cases c)
    case None
    with g show ?thesis by (simp add: get_msgpack_string_def)
  next
    case (Some b)
    note g' = g[unfolded Some]
    note gx = get_char_ext[OF g', of x]
    note sx = get_msgpack_string_ext[of b rd1 x]
    show ?thesis
    proof (cases "get_msgpack_string (Some b) rd1")
      case (Inl e)
      with g' gx sx show ?thesis by auto
    next
      case (Inr p)
      obtain k rd2 where p: "p = (k, rd2)" by (cases p)
      note s = Inr[unfolded p]
      from sx s have kx: "get_msgpack_string (Some b) (ext x rd1) = Inr (k, ext x rd2)" by simp
      note IH = "5.IH"(1)[OF g'[symmetric] s refl]
      show ?thesis
      proof (cases "parse_msgpack rd2")
        case (Inl e)
        with g' gx kx s IH show ?thesis by (auto simp del: parse_msgpack.simps)
      next
        case (Inr q)
        obtain v rd3 where q: "q = (v, rd3)" by (cases q)
        from "5.IH"(2)[OF g'[symmetric] s refl Inr q[symmetric]] g' gx kx s IH Inr q
        show ?thesis by (auto simp del: parse_msgpack.simps)
      qed
    qed
  qed
qed simp_all

subsection \<open>The byte an error names\<close>

definition span :: "reader \<Rightarrow> nat" where
  "span rd = chars_read rd + length (input rd)"

text \<open>A success keeps the total of bytes read and to read; an error names a byte of it, or the one after.\<close>

definition bounded :: "reader \<Rightarrow> 'a parsed \<Rightarrow> bool" where
  "bounded rd p \<longleftrightarrow>
     (case p of Inl e \<Rightarrow> error_byte e \<le> span rd + 1 | Inr (v, rd1) \<Rightarrow> span rd1 = span rd)"

lemma bounded_simps [simp]:
  "bounded rd (Inl e) \<longleftrightarrow> error_byte e \<le> span rd + 1"
  "bounded rd (Inr (v, rd1)) \<longleftrightarrow> span rd1 = span rd"
  by (simp_all add: bounded_def)

lemma error_bytes [simp]:
  "error_byte (unexpected_eof w rd) = chars_read rd" "error_byte (trailing_byte b rd) = chars_read rd"
  "error_byte (invalid_byte b rd) = chars_read rd" "error_byte (invalid_length b rd) = chars_read rd"
  by (simp_all add: unexpected_eof_def trailing_byte_def invalid_byte_def invalid_length_def make_parse_error_def)

lemma get_char_span:
  "get_char rd = (c, rd1) \<Longrightarrow> chars_read rd1 \<le> span rd + 1 \<and> (c \<noteq> None \<longrightarrow> span rd1 = span rd)"
  by (auto simp: get_char_def span_def split: list.splits)

lemma chars_le_span: "chars_read rd \<le> Suc (span rd)"
  by (simp add: span_def)

lemma bounded_span: "bounded rd1 p \<Longrightarrow> span rd1 = span rd \<Longrightarrow> bounded rd p"
  by (auto simp: bounded_def split: sum.splits)

lemma get_bytes_bounded: "bounded rd (get_bytes w k rd)"
proof (induction k arbitrary: rd)
  case (Suc k)
  obtain c rd1 where g: "get_char rd = (c, rd1)" by (cases "get_char rd")
  show ?case
  proof (cases c)
    case None
    with g get_char_span[OF g] show ?thesis by simp
  next
    case (Some b)
    with g get_char_span[OF g] Suc[of rd1] show ?thesis by (auto simp: bounded_def split: sum.splits)
  qed
qed simp

lemma get_number_bounded: "bounded rd (get_number k rd)"
  using get_bytes_bounded[of rd "''number''" k] by (auto simp: get_number_def bounded_def split: sum.splits)

lemma get_string_bounded: "bounded rd (get_string k rd)"
  using get_bytes_bounded[of rd "''string''" k] by (auto simp: get_string_def bounded_def split: sum.splits)

lemma with_number_bounded: "(\<And>n rd1. bounded rd1 (f n rd1)) \<Longrightarrow> bounded rd (with_number k rd f)"
  using get_number_bounded[of rd k]
  by (auto simp: with_number_def split: sum.splits) (metis bounded_span)

lemma get_msgpack_string_bounded:
  "chars_read rd \<le> span rd0 + 1 \<Longrightarrow> (c \<noteq> None \<longrightarrow> span rd = span rd0) \<Longrightarrow>
     bounded rd0 (get_msgpack_string c rd)"
  by (auto simp: get_msgpack_string_def intro: bounded_span[OF get_string_bounded]
      bounded_span[OF with_number_bounded] get_string_bounded split: option.splits)

lemma bounded_if: "(P \<Longrightarrow> bounded rd a) \<Longrightarrow> (\<not> P \<Longrightarrow> bounded rd b) \<Longrightarrow> bounded rd (if P then a else b)"
  by simp

lemma bounded_Inr: "bounded rd (Inr (v, rd))"
  by simp

lemma with_number_Inr_bounded: "bounded rd (with_number k rd (\<lambda>n rd1. Inr (g n, rd1)))"
  by (rule with_number_bounded) simp

lemma container_header_bounded: "bounded rd (container_header b rd)"
  unfolding container_header_def
  by (intro bounded_if bounded_Inr with_number_Inr_bounded) (simp add: chars_le_span)

lemma parse_scalar_bounded: "parse_scalar b rd = Some r \<Longrightarrow> bounded rd r"
proof -
  have "bounded rd (get_msgpack_string (Some b) rd)"
    by (rule get_msgpack_string_bounded) (simp_all add: chars_le_span)
  then have "bounded rd (case get_msgpack_string (Some b) rd of Inl e \<Rightarrow> Inl e | Inr (s, rd1) \<Rightarrow> Inr (JString s, rd1))"
    by (auto split: sum.splits)
  then show "parse_scalar b rd = Some r \<Longrightarrow> bounded rd r"
    unfolding parse_scalar_def by (auto split: if_splits intro: with_number_Inr_bounded)
qed

lemma parse_bounded:
  "bounded rd (parse_msgpack rd)"
  "bounded rd (get_msgpack_array n xs rd)"
  "bounded rd (get_msgpack_object n m rd)"
proof (induction rd and n xs rd and n m rd
    rule: parse_msgpack_get_msgpack_array_get_msgpack_object.induct)
  case (1 rd)
  obtain c rd1 where g: "get_char rd = (c, rd1)" by (cases "get_char rd")
  note t = get_char_span[OF g]
  show ?case
  proof (cases c)
    case None
    with g t show ?thesis by simp
  next
    case (Some b)
    note g' = g[unfolded Some]
    show ?thesis
    proof (cases "parse_scalar b rd1")
      case (Some r)
      with g' t \<open>c = Some b\<close> parse_scalar_bounded[OF Some] show ?thesis
        by (auto intro: bounded_span)
    next
      case None
      note h = container_header_bounded[of rd1 b]
      show ?thesis
      proof (cases "container_header b rd1")
        case (Inl e)
        with g' None h t \<open>c = Some b\<close> show ?thesis by simp
      next
        case (Inr p)
        obtain ob k rd2 where p: "p = ((ob, k), rd2)" by (metis prod.exhaust)
        have tt: "span rd2 = span rd" using h Inr p t \<open>c = Some b\<close> by simp
        have "ob \<Longrightarrow> bounded rd2 (get_msgpack_object k [] rd2)"
          using "1.IH"(1)[OF g'[symmetric] refl None Inr[unfolded p] refl refl] by simp
        moreover have "\<not> ob \<Longrightarrow> bounded rd2 (get_msgpack_array k [] rd2)"
          using "1.IH"(2)[OF g'[symmetric] refl None Inr[unfolded p] refl refl] by simp
        ultimately show ?thesis
          using g' None Inr p tt by (cases ob) (auto intro: bounded_span)
      qed
    qed
  qed
next
  case (3 n xs rd)
  show ?case
  proof (cases "parse_msgpack rd")
    case (Inl e)
    with "3.IH"(1) show ?thesis by (simp del: parse_msgpack.simps)
  next
    case (Inr p)
    obtain v rd1 where p: "p = (v, rd1)" by (cases p)
    with "3.IH"(1) "3.IH"(2)[OF Inr p[symmetric]] Inr show ?thesis
      by (auto intro: bounded_span simp del: parse_msgpack.simps)
  qed
next
  case (5 n m rd)
  obtain c rd1 where g: "get_char rd = (c, rd1)" by (cases "get_char rd")
  have s0: "bounded rd (get_msgpack_string c rd1)"
    using get_char_span[OF g] by (intro get_msgpack_string_bounded) auto
  show ?case
  proof (cases "get_msgpack_string c rd1")
    case (Inl e)
    with g s0 show ?thesis by simp
  next
    case (Inr p)
    obtain k rd2 where p: "p = (k, rd2)" by (cases p)
    note s = Inr[unfolded p]
    have t2: "span rd2 = span rd" using s0 s by simp
    note IH = "5.IH"(1)[OF g[symmetric] s refl]
    show ?thesis
    proof (cases "parse_msgpack rd2")
      case (Inl e)
      with g s IH t2 show ?thesis by (simp del: parse_msgpack.simps)
    next
      case (Inr q)
      obtain v rd3 where q: "q = (v, rd3)" by (cases q)
      from "5.IH"(2)[OF g[symmetric] s refl Inr q[symmetric]] g s IH Inr q t2
      show ?thesis by (auto intro: bounded_span simp del: parse_msgpack.simps)
    qed
  qed
qed simp_all

lemma sax_parse_bounded:
  assumes "sax_parse rd = Inl e"
  shows "error_byte e \<le> span rd + 1"
proof (cases "parse_msgpack rd")
  case (Inl e')
  with assms parse_bounded(1)[of rd] show ?thesis by (simp add: sax_parse_def del: parse_msgpack.simps)
next
  case (Inr p)
  obtain j rd1 where p: "p = (j, rd1)" by (cases p)
  obtain c rd2 where g: "get_char rd1 = (c, rd2)" by (cases "get_char rd1")
  from assms Inr p g have "e = trailing_byte (the c) rd2"
    by (cases c) (simp_all add: sax_parse_def del: parse_msgpack.simps)
  with get_char_span[OF g] parse_bounded(1)[of rd] Inr p show ?thesis
    by (simp del: parse_msgpack.simps)
qed

lemma from_write: "storable j \<Longrightarrow> from_msgpack (to_msgpack j) = Inr (canon j)"
  using parse_write[of j "[]" 0]
  by (simp add: from_msgpack_def to_msgpack_def sax_parse_def get_char_def del: parse_msgpack.simps)

lemma from_truncated:
  assumes "storable j" and "k < length (to_msgpack j)"
  shows "\<exists>e. from_msgpack (take k (to_msgpack j)) = Inl e \<and> error_id e = 110"
proof -
  let ?bs = "to_msgpack j" and ?rd = "rdr (take k (to_msgpack j)) 0"
  have x: "ext (drop k ?bs) ?rd = rdr (write_msgpack j @ []) 0"
    by (simp add: ext_def to_msgpack_def)
  have full: "parse_msgpack (ext (drop k ?bs) ?rd) = Inr (canon j, rdr [] (length ?bs))"
    unfolding x using parse_write[OF assms(1), of "[]" 0] by (simp add: to_msgpack_def del: parse_msgpack.simps)
  have "ended (parse_msgpack ?rd)"
  proof (rule ccontr)
    assume "\<not> ended (parse_msgpack ?rd)"
    with parse_ext(1)[of ?rd "drop k ?bs"] full
    have "more_input (drop k ?bs) (parse_msgpack ?rd) = Inr (canon j, rdr [] (length ?bs))" by simp
    then obtain rd1 where "ext (drop k ?bs) rd1 = rdr [] (length ?bs)"
      by (auto simp: more_input_def split: sum.splits)
    then have "drop k ?bs = []"
      by (metis ext_def append_is_Nil_conv reader.select_convs(1) reader.surjective reader.update_convs(1))
    with assms(2) show False by simp
  qed
  then show ?thesis
    by (auto simp: from_msgpack_def sax_parse_def ended_def simp del: parse_msgpack.simps split: sum.splits)
qed

subsection \<open>Properties\<close>

text \<open>
  C4: Round trip: every value whose strings, arrays and objects have fewer than \<open>2 ^ 32\<close> entries is
  read back from its MessagePack bytes, non-negative signed integers as unsigned ones and all
  else unchanged, nested to any depth.
\<close>

theorem msgpack_round_trip:
  assumes "storable j"
  shows "from_msgpack (to_msgpack j) = Inr (canon j)"
  by (rule from_write[OF assms])

text \<open>
  C26: No message is a prefix of another: cut anywhere before its end, the bytes of a value are
  refused with \<open>parse_error.110\<close> (unexpected end of input).
\<close>

theorem truncated_message_rejected:
  assumes "storable j" and "k < length (to_msgpack j)"
  shows "\<exists>e. from_msgpack (take k (to_msgpack j)) = Inl e \<and> error_id e = 110"
  by (rule from_truncated[OF assms])

text \<open>
  On every input the reader ends, and the byte its error names is a byte of the input or the
  one after the last.
\<close>

theorem parse_error_byte_in_input:
  "case from_msgpack bs of Inl e \<Rightarrow> error_byte e \<le> length bs + 1 | Inr _ \<Rightarrow> True"
  using sax_parse_bounded[of "rdr bs 0"]
  by (auto simp: from_msgpack_def span_def split: sum.splits)

definition sample_json :: json where
  "sample_json =
     JObject [(''action'', JString ''echo''), (''n'', JArray [JInteger 5, JInteger (- 3), JNull, JBoolean True])]"

lemma storable_sample: "storable sample_json"
  by (simp add: sample_json_def omap_ok_def)

theorem msgpack_round_trip_witness:
  "from_msgpack (to_msgpack sample_json) =
     Inr (JObject [(''action'', JString ''echo''),
                   (''n'', JArray [JUnsigned 5, JInteger (- 3), JNull, JBoolean True])])"
  using msgpack_round_trip[OF storable_sample] by (simp add: sample_json_def)

theorem truncated_message_rejected_witness:
  "\<exists>e. from_msgpack (take 3 (to_msgpack sample_json)) = Inl e \<and> error_id e = 110"
proof -
  have "3 < length (to_msgpack sample_json)"
    by (simp add: sample_json_def to_msgpack_def write_object_header_def write_string_def write_string_header_def)
  from truncated_message_rejected[OF storable_sample this] show ?thesis .
qed

end
