(* ===== verification/Amqp.thy ===== *)
theory Amqp
  imports Address MsgPack Deferred Cache
begin

section \<open>What the broker asks of the AMQP library, and steps with a trace\<close>

text \<open>
  AMQP-CPP and libuv are not part of the repository. The broker's side of them is the sequence of
  calls it makes, recorded as \<open>command\<close>s, and the callbacks it registers, which are the
  operations of the later theories: the library may run them in any order and any number of
  times unless a property says otherwise. A callback handed in by the application is an opaque
  handler: running it is recorded, and whether it throws is a parameter of the environment;
  \<open>Complete h p\<close> is the completion handler \<open>h\<close> of the reply at \<open>p\<close>.
\<close>

type_synonym conn = nat
type_synonym chan = nat

datatype amqp_flag = durable | autodelete | mandatory | exclusive | noack

datatype exchange_type = topic

text \<open>\<open>AMQP::Envelope\<close>, with the properties the broker sets.\<close>

record envelope =
  body :: "u8 list"
  delivery_mode :: "nat option"
  correlation_id :: "string option"
  reply_to :: "string option"

definition mk_envelope :: "u8 list \<Rightarrow> envelope" where
  "mk_envelope data = \<lparr>body = data, delivery_mode = None, correlation_id = None, reply_to = None\<rparr>"

datatype command =
    Connect conn string u16 string string string
  | Open_channel chan conn
  | Close_channel chan
  | Declare_exchange chan string exchange_type "amqp_flag set"
  | Declare_queue chan string "amqp_flag set"
  | Bind_queue chan string string string
  | Start_transaction chan
  | Publish chan string string envelope "amqp_flag set"
  | Commit_transaction chan
  | Consume chan string "amqp_flag set"
  | Ack chan u64
  | Heartbeat conn

datatype ('h, 'p) action =
    Command command
  | Callback "('h, 'p) call"
  | Complete 'h nat

subsection \<open>Steps\<close>

text \<open>A step changes the state, performs actions and ends in an outcome.\<close>

type_synonym ('s, 'a) step = "'s \<Rightarrow> 's \<times> 'a list \<times> unit outcome"

definition skip_step :: "('s, 'a) step" where
  "skip_step s = (s, [], Ret ())"

definition act :: "'a list \<Rightarrow> ('s, 'a) step" where
  "act as s = (s, as, Ret ())"

text \<open>The second step runs when the first one returned.\<close>

definition andthen :: "('s, 'a) step \<Rightarrow> ('s, 'a) step \<Rightarrow> ('s, 'a) step" where
  "andthen f g s =
     (case f s of (s1, as, r) \<Rightarrow>
        (case r of
           Ret _ \<Rightarrow> (case g s1 of (s2, bs, r2) \<Rightarrow> (s2, as @ bs, r2))
         | _ \<Rightarrow> (s1, as, r)))"

text \<open>\<open>try { f } catch (...) { h }\<close> with a handler for every exception.\<close>

definition try_catch :: "('s, 'a) step \<Rightarrow> (exn \<Rightarrow> ('s, 'a) step) \<Rightarrow> ('s, 'a) step" where
  "try_catch f h s =
     (case f s of (s1, as, r) \<Rightarrow>
        (case r of
           Raise e \<Rightarrow> (case h e s1 of (s2, bs, r2) \<Rightarrow> (s2, as @ bs, r2))
         | _ \<Rightarrow> (s1, as, r)))"

definition abort_step :: "('s, 'a) step" where
  "abort_step s = (s, [], Abort)"

fun run_steps :: "('s, 'a) step list \<Rightarrow> ('s, 'a) step" where
  "run_steps [] = skip_step"
| "run_steps (f # fs) = andthen f (run_steps fs)"

lemma andthen_Ret:
  "f s = (s1, as, Ret u) \<Longrightarrow> g s1 = (s2, bs, r) \<Longrightarrow> andthen f g s = (s2, as @ bs, r)"
  by (simp add: andthen_def)

lemma andthen_stop:
  "f s = (s1, as, r) \<Longrightarrow> r \<noteq> Ret () \<Longrightarrow> andthen f g s = (s1, as, r)"
  by (cases r) (simp_all add: andthen_def)

lemma andthen_skip [simp]: "andthen skip_step f = f"
  by (simp add: fun_eq_iff andthen_def skip_step_def split: prod.split outcome.split)

lemma andthen_assoc: "andthen (andthen f g) h = andthen f (andthen g h)"
  by (auto simp: fun_eq_iff andthen_def split: prod.split outcome.split)

lemma run_steps_append: "run_steps (fs @ gs) = andthen (run_steps fs) (run_steps gs)"
  by (induction fs) (simp_all add: andthen_assoc)

text \<open>What each step of a run keeps, the run keeps.\<close>

lemma andthen_invariant:
  assumes "\<And>s. P s \<Longrightarrow> P (fst (f s))" and "\<And>s. P s \<Longrightarrow> P (fst (g s))" and "P s"
  shows "P (fst (andthen f g s))"
  using assms by (auto simp: andthen_def split: prod.split outcome.split) (metis fst_conv)+

lemma try_catch_invariant:
  assumes "\<And>s. P s \<Longrightarrow> P (fst (f s))" and "\<And>e s. P s \<Longrightarrow> P (fst (h e s))" and "P s"
  shows "P (fst (try_catch f h s))"
  using assms by (auto simp: try_catch_def split: prod.split outcome.split) (metis fst_conv)+

lemma run_steps_invariant:
  assumes "\<And>f s. f \<in> set fs \<Longrightarrow> P s \<Longrightarrow> P (fst (f s))" and "P s"
  shows "P (fst (run_steps fs s))"
  using assms
proof (induction fs arbitrary: s)
  case (Cons f fs)
  show ?case
    unfolding run_steps.simps
    by (rule andthen_invariant) (use Cons in auto)
qed (simp add: skip_step_def)

text \<open>Counting actions of a run.\<close>

definition count_acts :: "('a \<Rightarrow> bool) \<Rightarrow> 'a list \<Rightarrow> nat" where
  "count_acts P as = length (filter P as)"

lemma count_acts_simps [simp]:
  "count_acts P [] = 0" "count_acts P (a # as) = (if P a then Suc (count_acts P as) else count_acts P as)"
  "count_acts P (as @ bs) = count_acts P as + count_acts P bs"
  by (simp_all add: count_acts_def)

fun is_data :: "('h, 'p) action \<Rightarrow> bool" where
  "is_data (Callback (Call_data _ _)) = True"
| "is_data _ = False"

fun is_finalize :: "('h, 'p) action \<Rightarrow> bool" where
  "is_finalize (Callback (Call_finalize _)) = True"
| "is_finalize _ = False"

fun is_publish :: "('h, 'p) action \<Rightarrow> bool" where
  "is_publish (Command (Publish _ _ _ _ _)) = True"
| "is_publish _ = False"

end
