(* ===== verification/Registry.thy ===== *)
theory Registry
  imports Amqp
begin

section \<open>Registries of deferred objects\<close>

text \<open>
  \<open>BrokerImpl::fetchers_\<close> and \<open>listeners_\<close> (\<open>src/src/broker_impl/broker.h\<close>) are caches of
  \<open>shared_ptr\<close>s to deferred objects under their correlation ids. The model has the cache with
  pointers and the heap of the objects with their use counts; the object whose last owner goes is
  destroyed. The phrases the broker is written in, \<open>get(id)->m()\<close>, \<open>if (has(id)) ...\<close> and
  \<open>del(id)\<close>, are steps over it. Abstractly a registry is a map from ids to objects.
\<close>

record 'o registry =
  entries :: "(string, nat) cache"
  objs :: "nat \<Rightarrow> ('o \<times> nat) option"
  next_ptr :: nat

definition new_registry :: "'o registry" where
  "new_registry = \<lparr>entries = new_cache, objs = (\<lambda>_. None), next_ptr = 0\<rparr>"

subsection \<open>Shared pointers\<close>

text \<open>\<open>make_shared\<close>: a new object with one owner.\<close>

definition reg_make :: "'o \<Rightarrow> 'o registry \<Rightarrow> nat \<times> 'o registry" where
  "reg_make x r =
     (next_ptr r, r\<lparr>objs := (objs r)(next_ptr r := Some (x, 1)), next_ptr := next_ptr r + 1\<rparr>)"

definition reg_acquire :: "nat \<Rightarrow> 'o registry \<Rightarrow> 'o registry" where
  "reg_acquire p r =
     r\<lparr>objs := (objs r)(p := (case objs r p of None \<Rightarrow> None | Some (x, n) \<Rightarrow> Some (x, n + 1)))\<rparr>"

text \<open>Giving up one ownership; the object is returned when it has to be destroyed.\<close>

definition reg_release :: "nat \<Rightarrow> 'o registry \<Rightarrow> 'o option \<times> 'o registry" where
  "reg_release p r =
     (case objs r p of
        None \<Rightarrow> (None, r)
      | Some (x, n) \<Rightarrow>
          if n \<le> 1 then (Some x, r\<lparr>objs := (objs r)(p := None)\<rparr>)
          else (None, r\<lparr>objs := (objs r)(p := Some (x, n - 1))\<rparr>))"

definition release_old :: "nat option \<Rightarrow> 'o registry \<Rightarrow> 'o option \<times> 'o registry" where
  "release_old old r = (case old of None \<Rightarrow> (None, r) | Some p \<Rightarrow> reg_release p r)"

text \<open>The pointer the entry of a key holds.\<close>

abbreviation entry_ptr :: "(string \<Rightarrow> u64) \<Rightarrow> string \<Rightarrow> 'o registry \<Rightarrow> nat option" where
  "entry_ptr hash k r \<equiv> cache_live hash (entries r) k"

subsection \<open>The phrases of the broker\<close>

text \<open>\<open>set(k, make_shared<...>(...))\<close>; an entry that was there loses its pointer.\<close>

definition reg_set :: "(string \<Rightarrow> u64) \<Rightarrow> string \<Rightarrow> 'o \<Rightarrow> 'o registry \<Rightarrow> 'o option \<times> 'o registry" where
  "reg_set hash k x r =
     (case reg_make x r of (p, r1) \<Rightarrow>
        release_old (entry_ptr hash k r)
          (r1\<lparr>entries := snd (cache_set hash k (Some p) 0 WRITE_ALWAYS (entries r1))\<rparr>))"

definition reg_del :: "(string \<Rightarrow> u64) \<Rightarrow> string \<Rightarrow> 'o registry \<Rightarrow> 'o option \<times> 'o registry" where
  "reg_del hash k r =
     release_old (entry_ptr hash k r) (r\<lparr>entries := snd (cache_del hash k (entries r))\<rparr>)"

definition reg_get :: "(string \<Rightarrow> u64) \<Rightarrow> time_t \<Rightarrow> string \<Rightarrow> 'o registry \<Rightarrow> nat option \<times> 'o registry" where
  "reg_get hash now k r =
     (case cache_get hash now k (entries r) of (p, c) \<Rightarrow> (p, r\<lparr>entries := c\<rparr>))"

text \<open>\<open>p->m()\<close> on a pointer: \<open>Undefined\<close> when it is null or dangling.\<close>

definition call_ptr ::
  "nat option \<Rightarrow> ('o \<Rightarrow> 'o \<times> 'a list \<times> unit outcome) \<Rightarrow> ('o registry, 'a) step" where
  "call_ptr p m r =
     (case p of
        None \<Rightarrow> (r, [], Undefined)
      | Some a \<Rightarrow>
          (case objs r a of
             None \<Rightarrow> (r, [], Undefined)
           | Some (x, n) \<Rightarrow>
               (case m x of (x1, as, res) \<Rightarrow> (r\<lparr>objs := (objs r)(a := Some (x1, n))\<rparr>, as, res))))"

text \<open>\<open>get(k)->m()\<close>\<close>

definition reg_call ::
  "(string \<Rightarrow> u64) \<Rightarrow> time_t \<Rightarrow> string \<Rightarrow> ('o \<Rightarrow> 'o \<times> 'a list \<times> unit outcome) \<Rightarrow> ('o registry, 'a) step" where
  "reg_call hash now k m r = (case reg_get hash now k r of (p, r1) \<Rightarrow> call_ptr p m r1)"

text \<open>\<open>if (has(k)) ...\<close>\<close>

definition if_has ::
  "(string \<Rightarrow> u64) \<Rightarrow> time_t \<Rightarrow> string \<Rightarrow> ('o registry, 'a) step \<Rightarrow> ('o registry, 'a) step" where
  "if_has hash now k f r =
     (case cache_has hash now k (entries r) of (b, c) \<Rightarrow>
        if b then f (r\<lparr>entries := c\<rparr>) else (r\<lparr>entries := c\<rparr>, [], Ret ()))"

text \<open>Running the destructor of an object nobody owns any more.\<close>

definition destroy_opt :: "('o \<Rightarrow> 'a list \<times> unit outcome) \<Rightarrow> 'o option \<times> 'o registry \<Rightarrow>
    'o registry \<times> 'a list \<times> unit outcome" where
  "destroy_opt destroy q =
     (case q of
        (None, r) \<Rightarrow> (r, [], Ret ())
      | (Some x, r) \<Rightarrow> (case destroy x of (as, res) \<Rightarrow> (r, as, res)))"

definition reg_del_step ::
  "(string \<Rightarrow> u64) \<Rightarrow> string \<Rightarrow> ('o \<Rightarrow> 'a list \<times> unit outcome) \<Rightarrow> ('o registry, 'a) step" where
  "reg_del_step hash k destroy r = destroy_opt destroy (reg_del hash k r)"

subsection \<open>Invariant and view\<close>

text \<open>
  Entries never expire, every entry points to a live object with an owner, no two entries share
  one, and addresses are allocated in order.
\<close>

definition reg_ok :: "(string \<Rightarrow> u64) \<Rightarrow> 'o registry \<Rightarrow> bool" where
  "reg_ok hash r \<longleftrightarrow>
     eternal_ok hash (entries r)
     \<and> (\<forall>k p. entry_ptr hash k r = Some p \<longrightarrow> (\<exists>x n. objs r p = Some (x, n) \<and> 1 \<le> n))
     \<and> (\<forall>j k p. entry_ptr hash j r = Some p \<longrightarrow> entry_ptr hash k r = Some p \<longrightarrow> j = k)
     \<and> (\<forall>p. objs r p \<noteq> None \<longrightarrow> p < next_ptr r)"

definition reg_view :: "(string \<Rightarrow> u64) \<Rightarrow> 'o registry \<Rightarrow> string \<Rightarrow> 'o option" where
  "reg_view hash r k =
     (case entry_ptr hash k r of None \<Rightarrow> None | Some p \<Rightarrow> map_option fst (objs r p))"

text \<open>Nobody but the entries owns an object, and every object has its entry: no leak.\<close>

definition reg_solo :: "(string \<Rightarrow> u64) \<Rightarrow> 'o registry \<Rightarrow> bool" where
  "reg_solo hash r \<longleftrightarrow>
     (\<forall>p x n. objs r p = Some (x, n) \<longrightarrow> n = 1 \<and> (\<exists>k. entry_ptr hash k r = Some p))"

lemma reg_ok_new [simp]: "reg_ok hash new_registry" "reg_solo hash new_registry"
  "reg_view hash new_registry = (\<lambda>_. None)"
  by (simp_all add: reg_ok_def reg_solo_def new_registry_def reg_view_def fun_eq_iff)

lemma reg_okI:
  assumes "eternal_ok hash (entries r)"
    and "\<And>k p. entry_ptr hash k r = Some p \<Longrightarrow> \<exists>x n. objs r p = Some (x, n) \<and> 1 \<le> n"
    and "\<And>j k p. entry_ptr hash j r = Some p \<Longrightarrow> entry_ptr hash k r = Some p \<Longrightarrow> j = k"
    and "\<And>p. objs r p \<noteq> None \<Longrightarrow> p < next_ptr r"
  shows "reg_ok hash r"
  using assms unfolding reg_ok_def by blast

lemma reg_soloI:
  "(\<And>p x n. objs r p = Some (x, n) \<Longrightarrow> n = 1 \<and> (\<exists>k. entry_ptr hash k r = Some p)) \<Longrightarrow> reg_solo hash r"
  unfolding reg_solo_def by blast

lemma reg_soloD:
  "reg_solo hash r \<Longrightarrow> objs r p = Some (x, n) \<Longrightarrow> n = 1 \<and> (\<exists>k. entry_ptr hash k r = Some p)"
  unfolding reg_solo_def by blast

lemma reg_okD:
  assumes "reg_ok hash r"
  shows "eternal_ok hash (entries r)"
    and "entry_ptr hash k r = Some p \<Longrightarrow> \<exists>x n. objs r p = Some (x, n) \<and> 1 \<le> n"
    and "entry_ptr hash j r = Some p \<Longrightarrow> entry_ptr hash k r = Some p \<Longrightarrow> j = k"
    and "objs r p \<noteq> None \<Longrightarrow> p < next_ptr r"
  using assms unfolding reg_ok_def by blast+

lemma view_ptr:
  assumes "reg_ok hash r"
  shows "reg_view hash r k = None \<longleftrightarrow> entry_ptr hash k r = None"
  using reg_okD(2)[OF assms, of k] by (auto simp: reg_view_def split: option.split)

lemma if_has_eq:
  "reg_ok hash r \<Longrightarrow>
     if_has hash now k f r = (if reg_view hash r k = None then (r, [], Ret ()) else f r)"
  using view_ptr[of hash r k]
  by (simp add: if_has_def ptr_cache.has_law[OF reg_okD(1)])

lemma reg_call_eq:
  assumes "reg_ok hash r"
  shows "reg_call hash now k m r = call_ptr (entry_ptr hash k r) m r"
  using ptr_cache.get_law[OF reg_okD(1)[OF assms], where k = k and now = now]
  by (simp add: reg_call_def reg_get_def)

text \<open>A call on the object of an entry: the view changes at that entry and nowhere else.\<close>

lemma reg_call_view:
  assumes "reg_ok hash r" and "reg_view hash r k = Some x" and "m x = (x1, as, res)"
  shows "\<exists>r1. reg_call hash now k m r = (r1, as, res) \<and> reg_ok hash r1
    \<and> reg_view hash r1 = (reg_view hash r)(k := Some x1) \<and> (reg_solo hash r \<longrightarrow> reg_solo hash r1)
    \<and> entries r1 = entries r \<and> next_ptr r1 = next_ptr r"
proof -
  from assms(2) obtain p n where p: "entry_ptr hash k r = Some p" and x: "objs r p = Some (x, n)"
    by (auto simp: reg_view_def split: option.splits)
  have n: "1 \<le> n" using reg_okD(2)[OF assms(1) p] x by auto
  define r1 where "r1 = r\<lparr>objs := (objs r)(p := Some (x1, n))\<rparr>"
  have f: "entries r1 = entries r" "next_ptr r1 = next_ptr r" "objs r1 = (objs r)(p := Some (x1, n))"
    by (simp_all add: r1_def)
  have "reg_call hash now k m r = (r1, as, res)"
    using p x assms(3) by (simp add: reg_call_eq[OF assms(1)] call_ptr_def r1_def)
  moreover have "reg_ok hash r1"
  proof (rule reg_okI)
    show "\<exists>x n. objs r1 q = Some (x, n) \<and> 1 \<le> n" if "entry_ptr hash j r1 = Some q" for j q
      using reg_okD(2)[OF assms(1), of j q] that n by (simp add: f)
    show "i = j" if "entry_ptr hash i r1 = Some q" "entry_ptr hash j r1 = Some q" for i j q
      using reg_okD(3)[OF assms(1)] that by (simp only: f)
    show "q < next_ptr r1" if "objs r1 q \<noteq> None" for q
      using reg_okD(4)[OF assms(1), of q] that x by (simp add: f split: if_splits)
  qed (simp add: f reg_okD(1)[OF assms(1)])
  moreover have "reg_view hash r1 = (reg_view hash r)(k := Some x1)"
  proof
    fix j
    have "entry_ptr hash j r = Some p \<longleftrightarrow> j = k"
      using p reg_okD(3)[OF assms(1) p, of j] by blast
    then show "reg_view hash r1 j = ((reg_view hash r)(k := Some x1)) j"
      by (auto simp: reg_view_def f p split: option.split)
  qed
  moreover have "reg_solo hash r \<longrightarrow> reg_solo hash r1"
  proof (rule impI, rule reg_soloI)
    fix q y m
    assume "reg_solo hash r" "objs r1 q = Some (y, m)"
    then show "m = 1 \<and> (\<exists>k. entry_ptr hash k r1 = Some q)"
      using reg_soloD[of hash r q] x by (simp add: f split: if_splits)
  qed
  ultimately show ?thesis by (auto simp: f)
qed

lemma reg_del_view:
  assumes "reg_ok hash r" and "reg_solo hash r" and "reg_view hash r k = Some x"
  shows "\<exists>r1. reg_del_step hash k destroy r = (r1, fst (destroy x), snd (destroy x)) \<and> reg_ok hash r1
    \<and> reg_solo hash r1 \<and> reg_view hash r1 = (reg_view hash r)(k := None)
    \<and> next_ptr r1 = next_ptr r"
proof -
  from assms(3) obtain p n where p: "entry_ptr hash k r = Some p" and x: "objs r p = Some (x, n)"
    by (auto simp: reg_view_def split: option.splits)
  have n: "n = 1" using reg_soloD[OF assms(2) x] by blast
  define c where "c = snd (cache_del hash k (entries r))"
  define r1 where "r1 = r\<lparr>entries := c, objs := (objs r)(p := None)\<rparr>"
  note ok = reg_okD(1)[OF assms(1)]
  have f: "entries r1 = c" "next_ptr r1 = next_ptr r" "objs r1 = (objs r)(p := None)"
    by (simp_all add: r1_def)
  have live: "cache_live hash c = (cache_live hash (entries r))(k := None)"
    unfolding c_def by (rule ptr_cache.del_view[OF ok])
  have inj: "entry_ptr hash j r = Some p \<longleftrightarrow> j = k" for j
    using reg_okD(3)[OF assms(1) p, of j] p by blast
  have "reg_del_step hash k destroy r = (r1, fst (destroy x), snd (destroy x))"
    using p x n by (simp add: reg_del_step_def reg_del_def release_old_def reg_release_def destroy_opt_def
        r1_def c_def split: prod.split)
  moreover have "reg_ok hash r1"
  proof (rule reg_okI)
    show "eternal_ok hash (entries r1)"
      unfolding f c_def by (rule ptr_cache.del_inv[OF ok])
    show "\<exists>x n. objs r1 q = Some (x, n) \<and> 1 \<le> n" if "entry_ptr hash j r1 = Some q" for j q
      using reg_okD(2)[OF assms(1), of j q] that inj[of j] by (auto simp: f live split: if_splits)
    show "i = j" if "entry_ptr hash i r1 = Some q" "entry_ptr hash j r1 = Some q" for i j q
      using reg_okD(3)[OF assms(1), of i q j] that by (simp add: f live split: if_splits)
    show "q < next_ptr r1" if "objs r1 q \<noteq> None" for q
      using reg_okD(4)[OF assms(1), of q] that by (simp add: f split: if_splits)
  qed
  moreover have "reg_solo hash r1"
  proof (rule reg_soloI)
    fix q y m
    assume a: "objs r1 q = Some (y, m)"
    then have q: "q \<noteq> p" "objs r q = Some (y, m)" by (simp_all add: f split: if_splits)
    from reg_soloD[OF assms(2) q(2)] obtain j where "m = 1" "entry_ptr hash j r = Some q" by blast
    with q(1) p show "m = 1 \<and> (\<exists>k. entry_ptr hash k r1 = Some q)"
      by (intro conjI exI[of _ j]) (auto simp: f live)
  qed
  moreover have "reg_view hash r1 = (reg_view hash r)(k := None)"
  proof
    fix j
    show "reg_view hash r1 j = ((reg_view hash r)(k := None)) j"
      using inj[of j] by (auto simp: reg_view_def f live split: option.split)
  qed
  ultimately show ?thesis by (auto simp: f)
qed

lemma reg_set_view:
  assumes "reg_ok hash r" and "reg_view hash r k = None"
  shows "\<exists>r1. reg_set hash k x r = (None, r1) \<and> reg_ok hash r1
    \<and> (reg_solo hash r \<longrightarrow> reg_solo hash r1) \<and> reg_view hash r1 = (reg_view hash r)(k := Some x)
    \<and> entry_ptr hash k r1 = Some (next_ptr r) \<and> objs r1 (next_ptr r) = Some (x, 1)"
proof -
  define p where "p = next_ptr r"
  define c where "c = snd (cache_set hash k (Some p) 0 WRITE_ALWAYS (entries r))"
  define r1 where "r1 = r\<lparr>entries := c, objs := (objs r)(p := Some (x, 1)), next_ptr := p + 1\<rparr>"
  note ok = reg_okD(1)[OF assms(1)]
  have f: "entries r1 = c" "next_ptr r1 = p + 1" "objs r1 = (objs r)(p := Some (x, 1))"
    by (simp_all add: r1_def)
  have k: "entry_ptr hash k r = None" using assms view_ptr by blast
  have live: "cache_live hash c = (cache_live hash (entries r))(k := Some p)"
    unfolding c_def by (rule ptr_cache.put_view[OF ok])
  have free: "objs r p = None" using reg_okD(4)[OF assms(1), of p] by (cases "objs r p") (auto simp: p_def)
  have fresh: "entry_ptr hash j r \<noteq> Some p" for j
    using reg_okD(2)[OF assms(1), of j p] free by auto
  have "reg_set hash k x r = (None, r1)"
    by (simp add: reg_set_def reg_make_def release_old_def k r1_def c_def p_def)
  moreover have "reg_ok hash r1"
  proof (rule reg_okI)
    show "eternal_ok hash (entries r1)"
      unfolding f c_def by (rule ptr_cache.put_inv[OF ok])
    show "\<exists>x n. objs r1 q = Some (x, n) \<and> 1 \<le> n" if "entry_ptr hash j r1 = Some q" for j q
      using reg_okD(2)[OF assms(1), of j q] that by (auto simp: f live split: if_splits)
    show "i = j" if "entry_ptr hash i r1 = Some q" "entry_ptr hash j r1 = Some q" for i j q
      using reg_okD(3)[OF assms(1), of i q j] fresh that by (auto simp: f live split: if_splits)
    show "q < next_ptr r1" if "objs r1 q \<noteq> None" for q
      using reg_okD(4)[OF assms(1), of q] that by (auto simp: f p_def split: if_splits)
  qed
  moreover have "reg_solo hash r \<longrightarrow> reg_solo hash r1"
  proof (rule impI, rule reg_soloI)
    fix q y m
    assume s: "reg_solo hash r" and a: "objs r1 q = Some (y, m)"
    show "m = 1 \<and> (\<exists>k. entry_ptr hash k r1 = Some q)"
    proof (cases "q = p")
      case True
      with a show ?thesis by (auto simp: f live)
    next
      case False
      with a have "objs r q = Some (y, m)" by (simp add: f)
      from reg_soloD[OF s this] obtain j where "m = 1" "entry_ptr hash j r = Some q" by blast
      with k show ?thesis by (intro conjI exI[of _ j]) (auto simp: f live)
    qed
  qed
  moreover have "reg_view hash r1 = (reg_view hash r)(k := Some x)"
  proof
    fix j
    show "reg_view hash r1 j = ((reg_view hash r)(k := Some x)) j"
      using fresh[of j] by (auto simp: reg_view_def f live split: option.split)
  qed
  ultimately show ?thesis by (auto simp: f live p_def)
qed

subsection \<open>Steps over a registry and steps over the map it stands for\<close>

text \<open>
  \<open>at_key k f\<close> runs \<open>f\<close> on the object of \<open>k\<close>, if there is one, and drops or replaces it. A step
  over registries simulates a step over maps when from every well-formed registry without outside
  owners it performs the same actions, ends in the same outcome, and leaves a well-formed registry that
  stands for the resulting map.
\<close>

definition at_key :: "string \<Rightarrow> ('o \<Rightarrow> 'o option \<times> 'a list \<times> unit outcome) \<Rightarrow> (string \<Rightarrow> 'o option, 'a) step" where
  "at_key k f m =
     (case m k of
        None \<Rightarrow> (m, [], Ret ())
      | Some x \<Rightarrow> (case f x of (y, as, r) \<Rightarrow> (m(k := y), as, r)))"

definition keeping :: "('o \<Rightarrow> 'o \<times> 'a list \<times> unit outcome) \<Rightarrow> 'o \<Rightarrow> 'o option \<times> 'a list \<times> unit outcome" where
  "keeping m x = (case m x of (x1, as, r) \<Rightarrow> (Some x1, as, r))"

definition dropping :: "('o \<Rightarrow> 'a list \<times> unit outcome) \<Rightarrow> 'o \<Rightarrow> 'o option \<times> 'a list \<times> unit outcome" where
  "dropping destroy x = (None, fst (destroy x), snd (destroy x))"

text \<open>One after the other on the same object; the second is skipped when the object is gone.\<close>

definition obj_andthen ::
  "('o \<Rightarrow> 'o option \<times> 'a list \<times> unit outcome) \<Rightarrow> ('o \<Rightarrow> 'o option \<times> 'a list \<times> unit outcome) \<Rightarrow>
   'o \<Rightarrow> 'o option \<times> 'a list \<times> unit outcome" where
  "obj_andthen f g x =
     (case f x of
        (Some y, as, Ret _) \<Rightarrow> (case g y of (z, bs, r) \<Rightarrow> (z, as @ bs, r))
      | (y, as, r) \<Rightarrow> (y, as, r))"

definition simulates ::
  "(string \<Rightarrow> u64) \<Rightarrow> ('o registry, 'a) step \<Rightarrow> (string \<Rightarrow> 'o option, 'a) step \<Rightarrow> bool" where
  "simulates hash f g \<longleftrightarrow>
     (\<forall>r. reg_ok hash r \<longrightarrow> reg_solo hash r \<longrightarrow>
        (case f r of (r1, as, res) \<Rightarrow>
           g (reg_view hash r) = (reg_view hash r1, as, res) \<and> reg_ok hash r1 \<and> reg_solo hash r1))"

lemma simulatesI:
  assumes "\<And>r. reg_ok hash r \<Longrightarrow> reg_solo hash r \<Longrightarrow>
     \<exists>r1 as res. f r = (r1, as, res) \<and> g (reg_view hash r) = (reg_view hash r1, as, res)
       \<and> reg_ok hash r1 \<and> reg_solo hash r1"
  shows "simulates hash f g"
  using assms unfolding simulates_def by fastforce

lemma simulatesE:
  assumes "simulates hash f g" and "reg_ok hash r" and "reg_solo hash r"
  obtains r1 as res where "f r = (r1, as, res)" "g (reg_view hash r) = (reg_view hash r1, as, res)"
    "reg_ok hash r1" "reg_solo hash r1"
  using assms unfolding simulates_def by (cases "f r") fastforce

lemma simulates_skip: "simulates hash skip_step skip_step"
  by (rule simulatesI) (simp add: skip_step_def)

lemma simulates_abort: "simulates hash abort_step abort_step"
  by (rule simulatesI) (simp add: abort_step_def)

lemma simulates_andthen:
  assumes "simulates hash f f'" and "simulates hash g g'"
  shows "simulates hash (andthen f g) (andthen f' g')"
proof (rule simulatesI)
  fix r :: "'a registry"
  assume "reg_ok hash r" "reg_solo hash r"
  from simulatesE[OF assms(1) this] obtain r1 as res where 1: "f r = (r1, as, res)"
    "f' (reg_view hash r) = (reg_view hash r1, as, res)" "reg_ok hash r1" "reg_solo hash r1" .
  from simulatesE[OF assms(2) 1(3,4)] obtain r2 bs res2 where 2: "g r1 = (r2, bs, res2)"
    "g' (reg_view hash r1) = (reg_view hash r2, bs, res2)" "reg_ok hash r2" "reg_solo hash r2" .
  show "\<exists>r1 as res. andthen f g r = (r1, as, res) \<and> andthen f' g' (reg_view hash r) = (reg_view hash r1, as, res)
       \<and> reg_ok hash r1 \<and> reg_solo hash r1"
    using 1 2 by (cases res) (simp_all add: andthen_def)
qed

lemma simulates_try_catch:
  assumes "simulates hash f f'" and "\<And>e. simulates hash (h e) (h' e)"
  shows "simulates hash (try_catch f h) (try_catch f' h')"
proof (rule simulatesI)
  fix r :: "'a registry"
  assume "reg_ok hash r" "reg_solo hash r"
  from simulatesE[OF assms(1) this] obtain r1 as res where 1: "f r = (r1, as, res)"
    "f' (reg_view hash r) = (reg_view hash r1, as, res)" "reg_ok hash r1" "reg_solo hash r1" .
  show "\<exists>r1 as res. try_catch f h r = (r1, as, res) \<and> try_catch f' h' (reg_view hash r) = (reg_view hash r1, as, res)
       \<and> reg_ok hash r1 \<and> reg_solo hash r1"
  proof (cases res)
    case (Raise e)
    from simulatesE[OF assms(2)[of e] 1(3,4)] obtain r2 bs res2 where "h e r1 = (r2, bs, res2)"
      "h' e (reg_view hash r1) = (reg_view hash r2, bs, res2)" "reg_ok hash r2" "reg_solo hash r2" .
    with 1 Raise show ?thesis by (simp add: try_catch_def)
  qed (use 1 in \<open>simp_all add: try_catch_def\<close>)
qed

lemma simulates_call:
  "simulates hash (if_has hash now k (reg_call hash now k m)) (at_key k (keeping m))"
proof (rule simulatesI)
  fix r :: "'a registry"
  assume r: "reg_ok hash r" "reg_solo hash r"
  show "\<exists>r1 as res. if_has hash now k (reg_call hash now k m) r = (r1, as, res)
    \<and> at_key k (keeping m) (reg_view hash r) = (reg_view hash r1, as, res) \<and> reg_ok hash r1 \<and> reg_solo hash r1"
  proof (cases "reg_view hash r k")
    case None
    with r show ?thesis by (simp add: if_has_eq at_key_def)
  next
    case (Some x)
    obtain x1 as res where m: "m x = (x1, as, res)" by (metis prod.exhaust)
    from reg_call_view[where m = m, OF r(1) Some m, of now] r Some m show ?thesis
      by (auto simp: if_has_eq at_key_def keeping_def)
  qed
qed

lemma simulates_del:
  "simulates hash (if_has hash now k (reg_del_step hash k destroy)) (at_key k (dropping destroy))"
proof (rule simulatesI)
  fix r :: "'a registry"
  assume r: "reg_ok hash r" "reg_solo hash r"
  show "\<exists>r1 as res. if_has hash now k (reg_del_step hash k destroy) r = (r1, as, res)
    \<and> at_key k (dropping destroy) (reg_view hash r) = (reg_view hash r1, as, res) \<and> reg_ok hash r1 \<and> reg_solo hash r1"
  proof (cases "reg_view hash r k")
    case None
    with r show ?thesis by (simp add: if_has_eq at_key_def)
  next
    case (Some x)
    from reg_del_view[OF r Some, of destroy] r Some show ?thesis
      by (auto simp: if_has_eq at_key_def dropping_def)
  qed
qed

lemma simulates_call_del:
  "simulates hash (if_has hash now k (andthen (reg_call hash now k m) (reg_del_step hash k destroy)))
     (at_key k (obj_andthen (keeping m) (dropping destroy)))"
proof (rule simulatesI)
  fix r :: "'a registry"
  assume r: "reg_ok hash r" "reg_solo hash r"
  let ?f = "andthen (reg_call hash now k m) (reg_del_step hash k destroy)"
  show "\<exists>r1 as res. if_has hash now k ?f r = (r1, as, res)
    \<and> at_key k (obj_andthen (keeping m) (dropping destroy)) (reg_view hash r) = (reg_view hash r1, as, res)
    \<and> reg_ok hash r1 \<and> reg_solo hash r1"
  proof (cases "reg_view hash r k")
    case None
    with r show ?thesis by (simp add: if_has_eq at_key_def)
  next
    case (Some x)
    obtain x1 as res where m: "m x = (x1, as, res)" by (metis prod.exhaust)
    from reg_call_view[where m = m, OF r(1) Some m, of now] r(2) obtain r1 where r1: "reg_call hash now k m r = (r1, as, res)"
      "reg_ok hash r1" "reg_view hash r1 = (reg_view hash r)(k := Some x1)" "reg_solo hash r1" by blast
    then have "reg_view hash r1 k = Some x1" by simp
    from reg_del_view[OF r1(2,4) this, of destroy] r r1 Some m show ?thesis
      by (cases res; cases "destroy x1")
        (auto simp: if_has_eq at_key_def keeping_def dropping_def obj_andthen_def andthen_def)
  qed
qed

lemma at_key_andthen: "andthen (at_key k f) (at_key k g) = at_key k (obj_andthen f g)"
proof
  fix m
  show "andthen (at_key k f) (at_key k g) m = at_key k (obj_andthen f g) m"
  proof (cases "m k")
    case None
    then show ?thesis by (simp add: andthen_def at_key_def)
  next
    case (Some x)
    obtain y as r where f: "f x = (y, as, r)" by (metis prod.exhaust)
    show ?thesis
      by (cases r; cases y) (auto simp: andthen_def at_key_def obj_andthen_def Some f split: prod.split)
  qed
qed

lemma simulates_steps:
  assumes "list_all2 (simulates hash) fs gs"
  shows "simulates hash (run_steps fs) (run_steps gs)"
  using assms by (induction rule: list_all2_induct) (simp_all add: simulates_skip simulates_andthen)

end
