(* ===== verification/Connection.thy ===== *)
theory Connection
  imports Registry
begin

section \<open>Connections: one per thread\<close>

text \<open>
  Models \<open>Connection\<close> and \<open>ConnectionCache\<close> of \<open>src/src/broker_impl/broker.h\<close> and the state of
  \<open>ConnectionHandler\<close> (\<open>src/src/broker_impl/handler.h\<close>): a cache from thread ids to connections,
  each with the handler that holds the heartbeat timeout and a pointer to the listener to be told
  of connection errors. \<open>new_channel\<close> opens a channel on the connection of the calling thread and
  makes that connection first if there is none. The constructor of a channel may throw: its
  outcome is a parameter of the environment, as are the hash functions and the clock.
\<close>

record env =
  str_hash :: "string \<Rightarrow> u64"
  thread_hash :: "thread_id \<Rightarrow> u64"
  clock :: time_t
  channel_throws :: "chan \<Rightarrow> conn \<Rightarrow> exn option"

text \<open>The handler of a connection; \<open>handler_deferred\<close> is its \<open>shared_ptr\<close> to a listener.\<close>

record connection =
  handler_deferred :: "nat option"
  heartbeat_timeout :: u16

record connections =
  conn_address :: address
  conn_heartbeat :: u16
  conn_cache :: "(thread_id, conn) cache"
  conn_objs :: "conn \<Rightarrow> connection option"
  next_conn :: conn
  next_chan :: chan

definition mk_connections :: "address \<Rightarrow> u16 \<Rightarrow> connections" where
  "mk_connections a heartbeat =
     \<lparr>conn_address = a, conn_heartbeat = heartbeat, conn_cache = new_cache,
      conn_objs = (\<lambda>_. None), next_conn = 0, next_chan = 0\<rparr>"

text \<open>\<open>to_login\<close> and \<open>to_address\<close>: the fields of the address the AMQP library is given.\<close>

definition to_login :: "login \<Rightarrow> string \<times> string" where
  "to_login l = (get_username l, get_password l)"

definition to_address :: "conn \<Rightarrow> address \<Rightarrow> command" where
  "to_address c a =
     (case to_login (get_login a) of
        (user, pass) \<Rightarrow> Connect c (get_hostname a) (get_port a) user pass (get_vhost a))"

text \<open>\<open>make_shared<Connection>(address, loop, heartbeat)\<close>\<close>

definition make_connection :: "connections \<Rightarrow> conn \<times> connections \<times> command list" where
  "make_connection cs =
     (let c = next_conn cs
      in (c, cs\<lparr>conn_objs := (conn_objs cs)(c := Some \<lparr>handler_deferred = None,
                                                      heartbeat_timeout = conn_heartbeat cs\<rparr>),
                next_conn := c + 1\<rparr>,
          [to_address c (conn_address cs)]))"

text \<open>\<open>new Channel(connection)\<close>\<close>

definition open_channel :: "env \<Rightarrow> conn \<Rightarrow> connections \<Rightarrow> connections \<times> command list \<times> chan outcome" where
  "open_channel env c cs =
     (let ch = next_chan cs
      in case channel_throws env ch c of
           Some e \<Rightarrow> (cs\<lparr>next_chan := ch + 1\<rparr>, [], Raise e)
         | None \<Rightarrow> (cs\<lparr>next_chan := ch + 1\<rparr>, [Open_channel ch c], Ret ch))"

definition new_channel :: "env \<Rightarrow> thread_id \<Rightarrow> connections \<Rightarrow> connections \<times> command list \<times> chan outcome" where
  "new_channel env tid cs =
     (case cache_has (thread_hash env) (clock env) tid (conn_cache cs) of
        (False, cc) \<Rightarrow>
          (case make_connection (cs\<lparr>conn_cache := cc\<rparr>) of (c, cs1, as) \<Rightarrow>
             (case open_channel env c
                     (cs1\<lparr>conn_cache := snd (cache_set (thread_hash env) tid (Some c) 0 WRITE_ALWAYS (conn_cache cs1))\<rparr>) of
                (cs2, bs, r) \<Rightarrow> (cs2, as @ bs, r)))
      | (True, cc) \<Rightarrow>
          (case cache_get (thread_hash env) (clock env) tid cc of
             (None, cc1) \<Rightarrow> (cs\<lparr>conn_cache := cc1\<rparr>, [], Undefined)
           | (Some c, cc1) \<Rightarrow> open_channel env c (cs\<lparr>conn_cache := cc1\<rparr>)))"

text \<open>The private \<open>get_conection\<close>\<close>

definition get_conection :: "env \<Rightarrow> thread_id \<Rightarrow> connections \<Rightarrow> connections \<times> command list \<times> conn option" where
  "get_conection env tid cs =
     (case cache_has (thread_hash env) (clock env) tid (conn_cache cs) of
        (b, cc) \<Rightarrow>
          (case (if b then (0, cs\<lparr>conn_cache := cc\<rparr>, [])
                 else (case make_connection (cs\<lparr>conn_cache := cc\<rparr>) of (c, cs1, as) \<Rightarrow>
                         (c, cs1\<lparr>conn_cache := snd (cache_set (thread_hash env) tid (Some c) 0 WRITE_ALWAYS (conn_cache cs1))\<rparr>, as))) of
             (_, cs1, as) \<Rightarrow>
               (case cache_get (thread_hash env) (clock env) tid (conn_cache cs1) of
                  (p, cc1) \<Rightarrow> (cs1\<lparr>conn_cache := cc1\<rparr>, as, p))))"

text \<open>
  \<open>handler_->deferred = p\<close> on the connection of the thread. The pointer that was there is
  returned: its ownership ends.
\<close>

definition assign_deferred ::
  "env \<Rightarrow> thread_id \<Rightarrow> nat option \<Rightarrow> connections \<Rightarrow> connections \<times> command list \<times> nat option \<times> unit outcome" where
  "assign_deferred env tid p cs =
     (case get_conection env tid cs of
        (cs1, as, None) \<Rightarrow> (cs1, as, None, Undefined)
      | (cs1, as, Some c) \<Rightarrow>
          (case conn_objs cs1 c of
             None \<Rightarrow> (cs1, as, None, Undefined)
           | Some cn \<Rightarrow>
               (cs1\<lparr>conn_objs := (conn_objs cs1)(c := Some (cn\<lparr>handler_deferred := p\<rparr>))\<rparr>, as,
                handler_deferred cn, Ret ())))"

text \<open>\<open>onHeartbeat\<close> and \<open>onNegotiate\<close> of the handler\<close>

definition onHeartbeat :: "conn \<Rightarrow> command" where
  "onHeartbeat c = Heartbeat c"

definition onNegotiate :: "conn \<Rightarrow> u16 \<Rightarrow> connections \<Rightarrow> u16 outcome" where
  "onNegotiate c interval cs =
     (case conn_objs cs c of None \<Rightarrow> Undefined | Some cn \<Rightarrow> Ret (heartbeat_timeout cn))"

text \<open>\<open>flush\<close>: the connections of every thread lose their entry.\<close>

definition connections_flush :: "connections \<Rightarrow> connections" where
  "connections_flush cs = cs\<lparr>conn_cache := snd (cache_flush (conn_cache cs))\<rparr>"

subsection \<open>Invariant\<close>

text \<open>
  Every entry points to a connection that exists, no two threads share one, and every connection
  has the heartbeat timeout of the broker.
\<close>

definition connections_ok :: "env \<Rightarrow> connections \<Rightarrow> bool" where
  "connections_ok env cs \<longleftrightarrow>
     eternal_ok (thread_hash env) (conn_cache cs)
     \<and> (\<forall>t c. cache_live (thread_hash env) (conn_cache cs) t = Some c \<longrightarrow> conn_objs cs c \<noteq> None)
     \<and> (\<forall>t u c. cache_live (thread_hash env) (conn_cache cs) t = Some c \<longrightarrow>
          cache_live (thread_hash env) (conn_cache cs) u = Some c \<longrightarrow> t = u)
     \<and> (\<forall>c cn. conn_objs cs c = Some cn \<longrightarrow> c < next_conn cs \<and> heartbeat_timeout cn = conn_heartbeat cs)"

abbreviation thread_conn :: "env \<Rightarrow> connections \<Rightarrow> thread_id \<Rightarrow> conn option" where
  "thread_conn env cs \<equiv> cache_live (thread_hash env) (conn_cache cs)"

lemma connections_okI:
  assumes "eternal_ok (thread_hash env) (conn_cache cs)"
    and "\<And>t c. thread_conn env cs t = Some c \<Longrightarrow> conn_objs cs c \<noteq> None"
    and "\<And>t u c. thread_conn env cs t = Some c \<Longrightarrow> thread_conn env cs u = Some c \<Longrightarrow> t = u"
    and "\<And>c cn. conn_objs cs c = Some cn \<Longrightarrow> c < next_conn cs \<and> heartbeat_timeout cn = conn_heartbeat cs"
  shows "connections_ok env cs"
  using assms unfolding connections_ok_def by blast

lemma connections_okD:
  assumes "connections_ok env cs"
  shows "eternal_ok (thread_hash env) (conn_cache cs)"
    and "thread_conn env cs t = Some c \<Longrightarrow> conn_objs cs c \<noteq> None"
    and "thread_conn env cs t = Some c \<Longrightarrow> thread_conn env cs u = Some c \<Longrightarrow> t = u"
    and "conn_objs cs c = Some cn \<Longrightarrow> c < next_conn cs \<and> heartbeat_timeout cn = conn_heartbeat cs"
  using assms unfolding connections_ok_def by blast+

lemma connections_ok_new [simp]: "connections_ok env (mk_connections a h)"
  by (rule connections_okI) (simp_all add: mk_connections_def)

text \<open>What a new channel does, on both branches.\<close>

lemma new_channel_known:
  assumes "connections_ok env cs" and "thread_conn env cs tid = Some c"
  shows "new_channel env tid cs = open_channel env c cs"
  by (simp add: new_channel_def ptr_cache.has_law[OF connections_okD(1)[OF assms(1)]] assms(2)
      ptr_cache.get_law[OF connections_okD(1)[OF assms(1)]])

definition with_connection :: "env \<Rightarrow> thread_id \<Rightarrow> connections \<Rightarrow> connections" where
  "with_connection env tid cs =
     cs\<lparr>conn_objs := (conn_objs cs)(next_conn cs := Some \<lparr>handler_deferred = None, heartbeat_timeout = conn_heartbeat cs\<rparr>),
        next_conn := next_conn cs + 1,
        conn_cache := snd (cache_set (thread_hash env) tid (Some (next_conn cs)) 0 WRITE_ALWAYS (conn_cache cs))\<rparr>"

lemma new_channel_first:
  assumes "connections_ok env cs" and "thread_conn env cs tid = None"
  shows "new_channel env tid cs =
    (case open_channel env (next_conn cs) (with_connection env tid cs) of
       (cs2, bs, r) \<Rightarrow> (cs2, to_address (next_conn cs) (conn_address cs) # bs, r))"
  by (simp add: new_channel_def ptr_cache.has_law[OF connections_okD(1)[OF assms(1)]] assms(2)
      make_connection_def with_connection_def Let_def)

lemma with_connection_ok:
  assumes "connections_ok env cs" and "thread_conn env cs tid = None"
  shows "connections_ok env (with_connection env tid cs)
    \<and> thread_conn env (with_connection env tid cs) = (thread_conn env cs)(tid \<mapsto> next_conn cs)"
proof
  note ok = connections_okD(1)[OF assms(1)]
  have f: "conn_objs (with_connection env tid cs) =
      (conn_objs cs)(next_conn cs \<mapsto> \<lparr>handler_deferred = None, heartbeat_timeout = conn_heartbeat cs\<rparr>)"
    "next_conn (with_connection env tid cs) = next_conn cs + 1"
    "conn_heartbeat (with_connection env tid cs) = conn_heartbeat cs"
    "conn_cache (with_connection env tid cs) =
       snd (cache_set (thread_hash env) tid (Some (next_conn cs)) 0 WRITE_ALWAYS (conn_cache cs))"
    by (simp_all add: with_connection_def)
  show live: "thread_conn env (with_connection env tid cs) = (thread_conn env cs)(tid \<mapsto> next_conn cs)"
    unfolding f by (rule ptr_cache.put_view[OF ok])
  have fresh: "thread_conn env cs t \<noteq> Some (next_conn cs)" for t
    using connections_okD(2)[OF assms(1), of t "next_conn cs"]
      connections_okD(4)[OF assms(1), of "next_conn cs"] by fastforce
  show "connections_ok env (with_connection env tid cs)"
  proof (rule connections_okI)
    show "eternal_ok (thread_hash env) (conn_cache (with_connection env tid cs))"
      unfolding f by (rule ptr_cache.put_inv[OF ok])
    show "conn_objs (with_connection env tid cs) c \<noteq> None"
      if "thread_conn env (with_connection env tid cs) t = Some c" for t c
      using that connections_okD(2)[OF assms(1), of t c] unfolding live
      by (auto simp: f split: if_splits)
    show "t = u" if "thread_conn env (with_connection env tid cs) t = Some c"
      "thread_conn env (with_connection env tid cs) u = Some c" for t u c
      using that connections_okD(3)[OF assms(1), of t c u] fresh unfolding live by (auto split: if_splits)
    show "c < next_conn (with_connection env tid cs) \<and>
        heartbeat_timeout cn = conn_heartbeat (with_connection env tid cs)"
      if "conn_objs (with_connection env tid cs) c = Some cn" for c cn
      using that connections_okD(4)[OF assms(1), of c cn] by (auto simp: f split: if_splits)
  qed
qed

lemma open_channel_ok:
  "connections_ok env cs \<Longrightarrow> connections_ok env (fst (open_channel env c cs))
     \<and> thread_conn env (fst (open_channel env c cs)) = thread_conn env cs
     \<and> conn_objs (fst (open_channel env c cs)) = conn_objs cs"
  by (auto simp: open_channel_def Let_def connections_ok_def split: option.split)

lemma new_channel_ok:
  assumes "connections_ok env cs"
  shows "connections_ok env (fst (new_channel env tid cs))
    \<and> thread_conn env (fst (new_channel env tid cs)) =
        (if thread_conn env cs tid = None then (thread_conn env cs)(tid \<mapsto> next_conn cs) else thread_conn env cs)
    \<and> snd (snd (new_channel env tid cs)) \<noteq> Undefined"
proof (cases "thread_conn env cs tid")
  case None
  note w = with_connection_ok[OF assms None]
  show ?thesis
    using open_channel_ok[OF conjunct1[OF w], of "next_conn cs"] conjunct2[OF w] None
    by (simp add: new_channel_first[OF assms None] split: prod.split)
      (simp add: open_channel_def Let_def split: option.splits)
next
  case (Some c)
  show ?thesis
    using open_channel_ok[OF assms, of c] Some
    by (simp add: new_channel_known[OF assms Some]) (simp add: open_channel_def Let_def split: option.splits)
qed

subsection \<open>The connection of a thread\<close>

text \<open>The connection a thread uses next, the commands that make it, and the listener it reports to.\<close>

definition the_conn :: "env \<Rightarrow> thread_id \<Rightarrow> connections \<Rightarrow> conn" where
  "the_conn env tid cs = (case thread_conn env cs tid of Some c \<Rightarrow> c | None \<Rightarrow> next_conn cs)"

definition connects :: "env \<Rightarrow> thread_id \<Rightarrow> connections \<Rightarrow> command list" where
  "connects env tid cs =
     (case thread_conn env cs tid of Some c \<Rightarrow> [] | None \<Rightarrow> [to_address (next_conn cs) (conn_address cs)])"

definition handler_ptr :: "connections \<Rightarrow> conn \<Rightarrow> nat option" where
  "handler_ptr cs c = (case conn_objs cs c of None \<Rightarrow> None | Some cn \<Rightarrow> handler_deferred cn)"

lemma handler_ptr_fresh: "connections_ok env cs \<Longrightarrow> conn_objs cs (next_conn cs) = None"
  using connections_okD(4)[of env cs "next_conn cs"] by (cases "conn_objs cs (next_conn cs)") auto

lemma handler_ptr_new [simp]: "handler_ptr (mk_connections a h) = (\<lambda>_. None)"
  by (simp add: fun_eq_iff handler_ptr_def mk_connections_def)

lemma handler_ptr_with_connection:
  "connections_ok env cs \<Longrightarrow> handler_ptr (with_connection env tid cs) = handler_ptr cs"
  using handler_ptr_fresh[of env cs] by (auto simp: fun_eq_iff handler_ptr_def with_connection_def)

lemma new_channel_spec:
  assumes "connections_ok env cs"
  obtains cs1 where
    "new_channel env tid cs =
       (case channel_throws env (next_chan cs) (the_conn env tid cs) of
          None \<Rightarrow> (cs1, connects env tid cs @ [Open_channel (next_chan cs) (the_conn env tid cs)], Ret (next_chan cs))
        | Some e \<Rightarrow> (cs1, connects env tid cs, Raise e))"
    "connections_ok env cs1" "handler_ptr cs1 = handler_ptr cs" "next_chan cs1 = next_chan cs + 1"
    "thread_conn env cs1 = (thread_conn env cs)(tid \<mapsto> the_conn env tid cs)"
    "conn_address cs1 = conn_address cs"
proof (cases "thread_conn env cs tid")
  case None
  let ?w = "with_connection env tid cs"
  note w = with_connection_ok[OF assms None]
  note o = open_channel_ok[OF conjunct1[OF w], of "next_conn cs"]
  have "handler_ptr (fst (open_channel env (next_conn cs) ?w)) = handler_ptr cs"
    using o handler_ptr_with_connection[OF assms] by (simp add: fun_eq_iff handler_ptr_def)
  moreover have "next_chan ?w = next_chan cs" "conn_address ?w = conn_address cs" by (simp_all add: with_connection_def)
  ultimately show thesis
    using o w None
    by (intro that[of "fst (open_channel env (next_conn cs) ?w)"])
      (auto simp: new_channel_first[OF assms None] the_conn_def connects_def open_channel_def Let_def split: option.split)
next
  case (Some c)
  note o = open_channel_ok[OF assms, of c]
  have "handler_ptr (fst (open_channel env c cs)) = handler_ptr cs"
    using o by (simp add: fun_eq_iff handler_ptr_def)
  with o Some show thesis
    by (intro that[of "fst (open_channel env c cs)"])
      (auto simp: new_channel_known[OF assms Some] the_conn_def connects_def open_channel_def Let_def
        fun_upd_idem split: option.split)
qed

lemma get_conection_spec:
  assumes "connections_ok env cs"
  obtains cs1 where
    "get_conection env tid cs = (cs1, connects env tid cs, Some (the_conn env tid cs))"
    "connections_ok env cs1" "handler_ptr cs1 = handler_ptr cs" "next_chan cs1 = next_chan cs"
    "thread_conn env cs1 = (thread_conn env cs)(tid \<mapsto> the_conn env tid cs)"
    "conn_address cs1 = conn_address cs"
proof (cases "thread_conn env cs tid")
  case None
  let ?w = "with_connection env tid cs"
  note w = with_connection_ok[OF assms None]
  note ok = connections_okD(1)[OF assms]
  let ?cache = "snd (cache_set (thread_hash env) tid (Some (next_conn cs)) 0 WRITE_ALWAYS (conn_cache cs))"
  have "cache_get (thread_hash env) (clock env) tid ?cache = (Some (next_conn cs), ?cache)"
    by (simp add: ptr_cache.get_law[OF ptr_cache.put_inv[OF ok]] ptr_cache.put_view[OF ok])
  then have "get_conection env tid cs = (?w, [to_address (next_conn cs) (conn_address cs)], thread_conn env ?w tid)"
    using None conjunct2[OF w]
    by (simp add: get_conection_def ptr_cache.has_law[OF ok] make_connection_def Let_def)
      (simp add: with_connection_def)
  with w None handler_ptr_with_connection[OF assms] show thesis
    by (intro that[of ?w]) (simp_all add: the_conn_def connects_def, simp_all add: with_connection_def)
next
  case (Some c)
  have "get_conection env tid cs = (cs, [], Some c)"
    using Some by (simp add: get_conection_def ptr_cache.has_law[OF connections_okD(1)[OF assms]]
        ptr_cache.get_law[OF connections_okD(1)[OF assms]])
  with Some assms show thesis
    by (intro that[of cs]) (simp_all add: the_conn_def connects_def fun_upd_idem)
qed

lemma assign_deferred_spec:
  assumes "connections_ok env cs"
  obtains cs1 where
    "assign_deferred env tid p cs = (cs1, connects env tid cs, handler_ptr cs (the_conn env tid cs), Ret ())"
    "connections_ok env cs1" "handler_ptr cs1 = (handler_ptr cs)(the_conn env tid cs := p)"
    "next_chan cs1 = next_chan cs"
    "thread_conn env cs1 = (thread_conn env cs)(tid \<mapsto> the_conn env tid cs)"
    "conn_address cs1 = conn_address cs"
proof -
  let ?c = "the_conn env tid cs"
  from get_conection_spec[OF assms] obtain cs1 where g: "get_conection env tid cs = (cs1, connects env tid cs, Some ?c)"
    "connections_ok env cs1" "handler_ptr cs1 = handler_ptr cs" "next_chan cs1 = next_chan cs"
    "thread_conn env cs1 = (thread_conn env cs)(tid \<mapsto> ?c)" "conn_address cs1 = conn_address cs" .
  have "thread_conn env cs1 tid = Some ?c" using g(5) by simp
  from connections_okD(2)[OF g(2) this] obtain cn where cn: "conn_objs cs1 ?c = Some cn" by auto
  define cs2 where "cs2 = cs1\<lparr>conn_objs := (conn_objs cs1)(?c := Some (cn\<lparr>handler_deferred := p\<rparr>))\<rparr>"
  have f: "conn_cache cs2 = conn_cache cs1" "next_conn cs2 = next_conn cs1" "conn_heartbeat cs2 = conn_heartbeat cs1"
    "conn_objs cs2 = (conn_objs cs1)(?c := Some (cn\<lparr>handler_deferred := p\<rparr>))"
    by (simp_all add: cs2_def)
  have "connections_ok env cs2"
  proof (rule connections_okI)
    show "t = u" if "thread_conn env cs2 t = Some c" "thread_conn env cs2 u = Some c" for t u c
      using connections_okD(3)[OF g(2), of t c u] that by (simp add: f)
    show "c < next_conn cs2 \<and> heartbeat_timeout dn = conn_heartbeat cs2" if "conn_objs cs2 c = Some dn" for c dn
      using that cn connections_okD(4)[OF g(2), of c] by (auto simp: f split: if_splits)
    show "conn_objs cs2 c \<noteq> None" if "thread_conn env cs2 t = Some c" for t c
      using that connections_okD(2)[OF g(2), of t c] by (simp add: f)
  qed (simp add: f connections_okD(1)[OF g(2)])
  moreover have "assign_deferred env tid p cs = (cs2, connects env tid cs, handler_ptr cs ?c, Ret ())"
    using g(1,3) cn by (simp add: assign_deferred_def cs2_def) (metis handler_ptr_def option.simps(5))
  moreover have "handler_ptr cs2 = (handler_ptr cs)(?c := p)"
    unfolding g(3)[symmetric] by (simp add: fun_eq_iff handler_ptr_def f)
  ultimately show thesis using g by (intro that[of cs2]) (simp_all add: cs2_def)
qed

end
