(* ===== verification/Fetch.thy ===== *)
theory Fetch
  imports Connection
begin

section \<open>fetch: a request and its reply\<close>

text \<open>
  Models \<open>create_unique_id\<close> and \<open>BrokerImpl::fetch_message\<close> of
  \<open>src/src/broker_impl/broker.cc\<close> with the callbacks it registers, and \<open>DeferredFetching\<close> of
  \<open>src/src/deferred_mpl/deferred.h\<close>. Each callback is a step over the registry \<open>fetchers_\<close>; an
  event is the AMQP library running one of them. The reference is a map from ids to pending
  requests, each of which is a small state machine of its own.
\<close>

subsection \<open>Ids\<close>

text \<open>\<open>static int n\<close>, shared by all brokers of the process; \<open>n++\<close> past \<open>INT_MAX\<close> is undefined.\<close>

definition create_unique_id :: "int \<Rightarrow> (string \<times> int) outcome" where
  "create_unique_id n = (if n < INT_MAX then Ret (dec_int n, n + 1) else Undefined)"

subsection \<open>DeferredFetching\<close>

type_synonym 'h fetch_throws = "('h, json result) throws"
type_synonym 'h fetch_action = "('h, json result) action"

record 'h fetching =
  fetch_deferred :: "'h deferred"
  fetch_channel :: chan

type_synonym 'h fetchers = "'h fetching registry"

definition mk_fetching :: "chan \<Rightarrow> 'h fetching" where
  "mk_fetching ch = \<lparr>fetch_deferred = mk_deferred (common_err Common_OK), fetch_channel = ch\<rparr>"

text \<open>An operation of the \<open>Deferred\<close> base on the object.\<close>

definition on_fetching ::
  "('h deferred \<Rightarrow> 'h deferred \<times> ('h, json result) call list \<times> unit outcome) \<Rightarrow>
   'h fetching \<Rightarrow> 'h fetching \<times> 'h fetch_action list \<times> unit outcome" where
  "on_fetching m x =
     (case m (fetch_deferred x) of (d, cs, r) \<Rightarrow> (x\<lparr>fetch_deferred := d\<rparr>, map Callback cs, r))"

text \<open>The destructor: the base \<open>DeferredConections\<close> with its channel goes first.\<close>

definition destroy_fetching :: "'h fetch_throws \<Rightarrow> 'h fetching \<Rightarrow> 'h fetch_action list \<times> unit outcome" where
  "destroy_fetching thr x =
     (case destroy_deferred thr (fetch_deferred x) of
        (cs, r) \<Rightarrow> (Command (Close_channel (fetch_channel x)) # map Callback cs, r))"

subsection \<open>fetch_message and its callbacks\<close>

text \<open>What the callbacks of one request capture.\<close>

record request =
  req_id :: string
  req_message :: json
  req_key :: string

definition request_envelope :: "request \<Rightarrow> string \<Rightarrow> envelope" where
  "request_envelope req name =
     (mk_envelope (to_msgpack (req_message req)))
       \<lparr>delivery_mode := Some 2, correlation_id := Some (req_id req), reply_to := Some name\<rparr>"

text \<open>\<open>declareQueue(...).onSuccess\<close>\<close>

definition fetch_declared ::
  "env \<Rightarrow> string \<Rightarrow> request \<Rightarrow> string \<Rightarrow> ('h fetchers, 'h fetch_action) step" where
  "fetch_declared env exchange req name =
     if_has (str_hash env) (clock env) (req_id req)
       (reg_call (str_hash env) (clock env) (req_id req)
          (\<lambda>x. let ch = fetch_channel x
               in (x, map Command
                        [Start_transaction ch,
                         Publish ch exchange (req_key req) (request_envelope req name) {autodelete, mandatory},
                         Commit_transaction ch,
                         Consume ch name {noack}], Ret ())))"

text \<open>\<open>if (has(id)) get(id)->report_error(e)\<close>\<close>

definition fetch_report_error ::
  "env \<Rightarrow> 'h fetch_throws \<Rightarrow> string \<Rightarrow> error \<Rightarrow> ('h fetchers, 'h fetch_action) step" where
  "fetch_report_error env thr cid e =
     if_has (str_hash env) (clock env) cid
       (reg_call (str_hash env) (clock env) cid (on_fetching (report_error thr e)))"

text \<open>\<open>commitTransaction().onError\<close>\<close>

definition fetch_commit_failed ::
  "env \<Rightarrow> 'h fetch_throws \<Rightarrow> request \<Rightarrow> string \<Rightarrow> ('h fetchers, 'h fetch_action) step" where
  "fetch_commit_failed env thr req message =
     fetch_report_error env thr (req_id req) (broker_err Broker_PUBLISH message)"

text \<open>
  \<open>consume(...).onReceived\<close>. After a body that does not parse, \<open>received\<close> is still the null value
  and is reported all the same. An exception of the data callback ends in \<open>throw_abort\<close>.
\<close>

definition fetch_received ::
  "env \<Rightarrow> 'h fetch_throws \<Rightarrow> request \<Rightarrow> u8 list \<Rightarrow> ('h fetchers, 'h fetch_action) step" where
  "fetch_received env thr req buffer =
     (let cid = req_id req;
          received = (case from_msgpack buffer of Inr j \<Rightarrow> j | Inl _ \<Rightarrow> JNull)
      in andthen
           (case from_msgpack buffer of
              Inl e \<Rightarrow> fetch_report_error env thr cid (broker_err Broker_DATA_RESPONSE (error_text e))
            | Inr _ \<Rightarrow> skip_step)
           (andthen
              (try_catch
                 (if_has (str_hash env) (clock env) cid
                    (reg_call (str_hash env) (clock env) cid
                       (\<lambda>x. case expected_of_value received of
                              Ret payload \<Rightarrow> on_fetching (report_data thr payload) x
                            | _ \<Rightarrow> (x, [], Undefined))))
                 (\<lambda>_. abort_step))
              (if_has (str_hash env) (clock env) cid
                 (reg_del_step (str_hash env) cid (destroy_fetching thr)))))"

text \<open>\<open>consume(...).onSuccess\<close>\<close>

definition fetch_consume_ok ::
  "env \<Rightarrow> 'h fetch_throws \<Rightarrow> request \<Rightarrow> ('h fetchers, 'h fetch_action) step" where
  "fetch_consume_ok env thr req =
     if_has (str_hash env) (clock env) (req_id req)
       (reg_call (str_hash env) (clock env) (req_id req) (on_fetching (report_success thr)))"

text \<open>\<open>consume(...).onError\<close> and \<open>declareQueue(...).onError\<close>: report, then drop the request.\<close>

definition fetch_fail ::
  "env \<Rightarrow> 'h fetch_throws \<Rightarrow> request \<Rightarrow> error \<Rightarrow> ('h fetchers, 'h fetch_action) step" where
  "fetch_fail env thr req e =
     if_has (str_hash env) (clock env) (req_id req)
       (andthen
          (reg_call (str_hash env) (clock env) (req_id req) (on_fetching (report_error thr e)))
          (reg_del_step (str_hash env) (req_id req) (destroy_fetching thr)))"

definition fetch_consume_failed ::
  "env \<Rightarrow> 'h fetch_throws \<Rightarrow> request \<Rightarrow> string \<Rightarrow> ('h fetchers, 'h fetch_action) step" where
  "fetch_consume_failed env thr req message =
     fetch_fail env thr req (broker_err Broker_DATA_RESPONSE message)"

definition fetch_declare_failed ::
  "env \<Rightarrow> 'h fetch_throws \<Rightarrow> request \<Rightarrow> string \<Rightarrow> ('h fetchers, 'h fetch_action) step" where
  "fetch_declare_failed env thr req message =
     fetch_fail env thr req (broker_err Broker_QUEUE_DECLARATION message)"

datatype fetch_event =
    Queue_declared string
  | Queue_failed string
  | Commit_failed string
  | Consume_ok
  | Received "u8 list"
  | Consume_failed string

fun fetch_step ::
  "env \<Rightarrow> 'h fetch_throws \<Rightarrow> string \<Rightarrow> request \<Rightarrow> fetch_event \<Rightarrow> ('h fetchers, 'h fetch_action) step" where
  "fetch_step env thr exchange req (Queue_declared name) = fetch_declared env exchange req name"
| "fetch_step env thr exchange req (Queue_failed message) = fetch_declare_failed env thr req message"
| "fetch_step env thr exchange req (Commit_failed message) = fetch_commit_failed env thr req message"
| "fetch_step env thr exchange req Consume_ok = fetch_consume_ok env thr req"
| "fetch_step env thr exchange req (Received buffer) = fetch_received env thr req buffer"
| "fetch_step env thr exchange req (Consume_failed message) = fetch_consume_failed env thr req message"

definition fetch_run ::
  "env \<Rightarrow> 'h fetch_throws \<Rightarrow> string \<Rightarrow> (request \<times> fetch_event) list \<Rightarrow> ('h fetchers, 'h fetch_action) step" where
  "fetch_run env thr exchange evs = run_steps (map (\<lambda>(req, ev). fetch_step env thr exchange req ev) evs)"

text \<open>
  \<open>fetch_message\<close> itself: the id, the deferred object with its channel in the registry, the
  declaration of the reply queue. It returns the reference to the object.
\<close>

definition fetch_message ::
  "env \<Rightarrow> 'h fetch_throws \<Rightarrow> thread_id \<Rightarrow> int \<times> connections \<times> 'h fetchers \<Rightarrow>
   (int \<times> connections \<times> 'h fetchers) \<times> 'h fetch_action list \<times> nat outcome" where
  "fetch_message env thr tid s =
     (case s of (n, cs, r) \<Rightarrow>
        (case create_unique_id n of
           Ret (cid, n1) \<Rightarrow>
             (case new_channel env tid cs of
                (cs1, as, Ret ch) \<Rightarrow>
                  (case destroy_opt (destroy_fetching thr) (reg_set (str_hash env) cid (mk_fetching ch) r) of
                     (r1, bs, Ret _) \<Rightarrow>
                       (case reg_get (str_hash env) (clock env) cid r1 of
                          (Some p, r2) \<Rightarrow>
                            ((n1, cs1, r2),
                             map Command as @ bs @ [Command (Declare_queue ch [] {exclusive, autodelete})], Ret p)
                        | (None, r2) \<Rightarrow> ((n1, cs1, r2), map Command as @ bs, Undefined))
                   | (r1, bs, _) \<Rightarrow> ((n1, cs1, r1), map Command as @ bs, Abort))
              | (cs1, as, Raise e) \<Rightarrow> ((n1, cs1, r), map Command as, Raise e)
              | (cs1, as, _) \<Rightarrow> ((n1, cs1, r), map Command as, Undefined))
         | _ \<Rightarrow> (s, [], Undefined)))"

text \<open>
  The application installs its callbacks through the reference \<open>fetch\<close> returned, at any later
  time; the object may be gone by then.
\<close>

definition user_installs :: "nat \<Rightarrow> ('h deferred \<Rightarrow> 'h deferred) \<Rightarrow> ('h fetchers, 'h fetch_action) step" where
  "user_installs p f = call_ptr (Some p) (\<lambda>x. (x\<lparr>fetch_deferred := f (fetch_deferred x)\<rparr>, [], Ret ()))"

subsection \<open>The reference: a pending request on its own\<close>

text \<open>What an event does to the pending request; \<open>None\<close> when it is dropped.\<close>

definition drop_pending ::
  "'h fetch_throws \<Rightarrow> 'h fetching \<times> 'h fetch_action list \<times> unit outcome \<Rightarrow>
   'h fetching option \<times> 'h fetch_action list \<times> unit outcome" where
  "drop_pending thr q =
     (case q of (x, as, r) \<Rightarrow>
        (case r of
           Ret _ \<Rightarrow> (None, as @ fst (destroy_fetching thr x), snd (destroy_fetching thr x))
         | _ \<Rightarrow> (Some x, as, r)))"

definition deliver ::
  "'h fetch_throws \<Rightarrow> json \<Rightarrow> 'h fetching \<Rightarrow> 'h fetching \<times> 'h fetch_action list \<times> unit outcome" where
  "deliver thr j x =
     (case on_fetching (report_data thr (rep (Inr j))) x of
        (x1, as, Raise _) \<Rightarrow> (x1, as, Abort)
      | q \<Rightarrow> q)"

definition pending_received ::
  "'h fetch_throws \<Rightarrow> u8 list \<Rightarrow> 'h fetching \<Rightarrow> 'h fetching option \<times> 'h fetch_action list \<times> unit outcome" where
  "pending_received thr buffer x =
     (case from_msgpack buffer of
        Inr j \<Rightarrow> drop_pending thr (deliver thr j x)
      | Inl e \<Rightarrow>
          (case on_fetching (report_error thr (broker_err Broker_DATA_RESPONSE (error_text e))) x of
             (x1, as, Ret _) \<Rightarrow>
               (case drop_pending thr (deliver thr JNull x1) of (y, bs, r) \<Rightarrow> (y, as @ bs, r))
           | (x1, as, r) \<Rightarrow> (Some x1, as, r)))"

fun pending_step ::
  "'h fetch_throws \<Rightarrow> string \<Rightarrow> request \<Rightarrow> fetch_event \<Rightarrow> 'h fetching \<Rightarrow>
   'h fetching option \<times> 'h fetch_action list \<times> unit outcome" where
  "pending_step thr exchange req (Queue_declared name) x =
     (Some x, map Command
        [Start_transaction (fetch_channel x),
         Publish (fetch_channel x) exchange (req_key req) (request_envelope req name) {autodelete, mandatory},
         Commit_transaction (fetch_channel x),
         Consume (fetch_channel x) name {noack}], Ret ())"
| "pending_step thr exchange req (Queue_failed message) x =
     drop_pending thr (on_fetching (report_error thr (broker_err Broker_QUEUE_DECLARATION message)) x)"
| "pending_step thr exchange req (Commit_failed message) x =
     (case on_fetching (report_error thr (broker_err Broker_PUBLISH message)) x of (x1, as, r) \<Rightarrow> (Some x1, as, r))"
| "pending_step thr exchange req Consume_ok x =
     (case on_fetching (report_success thr) x of (x1, as, r) \<Rightarrow> (Some x1, as, r))"
| "pending_step thr exchange req (Received buffer) x = pending_received thr buffer x"
| "pending_step thr exchange req (Consume_failed message) x =
     drop_pending thr (on_fetching (report_error thr (broker_err Broker_DATA_RESPONSE message)) x)"

definition pending_map_step ::
  "'h fetch_throws \<Rightarrow> string \<Rightarrow> request \<Rightarrow> fetch_event \<Rightarrow> (string \<Rightarrow> 'h fetching option, 'h fetch_action) step" where
  "pending_map_step thr exchange req ev m =
     (case m (req_id req) of
        None \<Rightarrow> (m, [], Ret ())
      | Some x \<Rightarrow> (case pending_step thr exchange req ev x of (y, as, r) \<Rightarrow> (m(req_id req := y), as, r)))"

subsection \<open>The registry of fetchers simulates the map of pending requests\<close>

lemma drop_pending_eq:
  "drop_pending thr (m x) = obj_andthen (keeping m) (dropping (destroy_fetching thr)) x"
  by (cases "snd (snd (m x))")
    (auto simp: drop_pending_def obj_andthen_def keeping_def dropping_def split: prod.split)

lemma deliver_eq:
  "try_catch (at_key k (keeping (on_fetching (report_data thr (rep (Inr j)))))) (\<lambda>_. abort_step) =
     at_key k (keeping (deliver thr j))"
proof
  fix m
  show "try_catch (at_key k (keeping (on_fetching (report_data thr (rep (Inr j)))))) (\<lambda>_. abort_step) m =
    at_key k (keeping (deliver thr j)) m"
  proof (cases "m k")
    case None
    then show ?thesis by (simp add: try_catch_def at_key_def)
  next
    case (Some x)
    obtain y as r where f: "on_fetching (report_data thr (rep (Inr j))) x = (y, as, r)"
      by (metis prod.exhaust)
    show ?thesis
      by (cases r) (simp_all add: try_catch_def at_key_def Some f keeping_def deliver_def abort_step_def del: rep.simps)
  qed
qed

lemma fetch_received_map:
  assumes "simulates (str_hash env) f g"
    and "g = at_key (req_id req) h"
  shows "simulates (str_hash env) (andthen f
      (andthen
         (try_catch
            (if_has (str_hash env) (clock env) (req_id req)
               (reg_call (str_hash env) (clock env) (req_id req)
                  (on_fetching (report_data thr (rep (Inr j))))))
            (\<lambda>_. abort_step))
         (if_has (str_hash env) (clock env) (req_id req)
            (reg_del_step (str_hash env) (req_id req) (destroy_fetching thr)))))
    (at_key (req_id req) (obj_andthen h (\<lambda>x. drop_pending thr (deliver thr j x))))"
proof -
  have "simulates (str_hash env) (andthen f
      (andthen
         (try_catch
            (if_has (str_hash env) (clock env) (req_id req)
               (reg_call (str_hash env) (clock env) (req_id req)
                  (on_fetching (report_data thr (rep (Inr j))))))
            (\<lambda>_. abort_step))
         (if_has (str_hash env) (clock env) (req_id req)
            (reg_del_step (str_hash env) (req_id req) (destroy_fetching thr)))))
    (andthen g (andthen (try_catch (at_key (req_id req) (keeping (on_fetching (report_data thr (rep (Inr j)))))) (\<lambda>_. abort_step))
      (at_key (req_id req) (dropping (destroy_fetching thr)))))"
    by (intro simulates_andthen simulates_try_catch simulates_call simulates_del simulates_abort assms(1))
  then show ?thesis
    by (simp only: deliver_eq at_key_andthen assms(2) drop_pending_eq)
qed

lemma obj_andthen_skip: "at_key k (obj_andthen (\<lambda>x. (Some x, [], Ret ())) h) = at_key k h"
  by (simp add: fun_eq_iff at_key_def obj_andthen_def split: option.split prod.split)

lemma pending_map_step_at:
  "pending_map_step thr exchange req ev = at_key (req_id req) (pending_step thr exchange req ev)"
  by (simp add: fun_eq_iff pending_map_step_def at_key_def)

lemma fetch_step_simulates:
  "simulates (str_hash env) (fetch_step env thr exchange req ev) (pending_map_step thr exchange req ev)"
proof -
  note m = pending_map_step_at
  show ?thesis
  proof (cases ev)
    case (Queue_declared name)
    have "pending_step thr exchange req ev = keeping
        (\<lambda>x. let ch = fetch_channel x
               in (x, map Command
                        [Start_transaction ch,
                         Publish ch exchange (req_key req) (request_envelope req name) {autodelete, mandatory},
                         Commit_transaction ch,
                         Consume ch name {noack}], Ret ()))"
      by (simp add: fun_eq_iff Queue_declared keeping_def Let_def)
    then show ?thesis
      unfolding m Queue_declared by (simp only: fetch_step.simps fetch_declared_def simulates_call)
  next
    case (Queue_failed message)
    have "pending_step thr exchange req ev = obj_andthen
        (keeping (on_fetching (report_error thr (broker_err Broker_QUEUE_DECLARATION message))))
        (dropping (destroy_fetching thr))"
      by (simp add: fun_eq_iff Queue_failed drop_pending_eq)
    then show ?thesis
      unfolding m Queue_failed
      by (simp only: fetch_step.simps fetch_declare_failed_def fetch_fail_def simulates_call_del)
  next
    case (Commit_failed message)
    have "pending_step thr exchange req ev = keeping (on_fetching (report_error thr (broker_err Broker_PUBLISH message)))"
      by (simp add: fun_eq_iff Commit_failed keeping_def)
    then show ?thesis
      unfolding m Commit_failed
      by (simp only: fetch_step.simps fetch_commit_failed_def fetch_report_error_def simulates_call)
  next
    case Consume_ok
    have "pending_step thr exchange req ev = keeping (on_fetching (report_success thr))"
      by (simp add: fun_eq_iff Consume_ok keeping_def)
    then show ?thesis
      unfolding m Consume_ok by (simp only: fetch_step.simps fetch_consume_ok_def simulates_call)
  next
    case (Received buffer)
    show ?thesis
    proof (cases "from_msgpack buffer")
      case (Inr j)
      have "simulates (str_hash env) skip_step (at_key (req_id req) (\<lambda>x. (Some x, [], Ret ())))"
        by (rule simulatesI) (simp add: skip_step_def at_key_def fun_upd_idem split: option.split)
      moreover have "pending_step thr exchange req ev = (\<lambda>x. drop_pending thr (deliver thr j x))"
        by (simp add: fun_eq_iff Received pending_received_def Inr)
      ultimately show ?thesis
        using fetch_received_map[of env skip_step "at_key (req_id req) (\<lambda>x. (Some x, [], Ret ()))"
            req "\<lambda>x. (Some x, [], Ret ())" thr j] Inr
        unfolding m Received
        by (simp add: fetch_received_def obj_andthen_skip Let_def del: rep.simps)
    next
      case (Inl e)
      let ?m = "on_fetching (report_error thr (broker_err Broker_DATA_RESPONSE (error_text e)))"
      have p: "pending_received thr buffer = obj_andthen (keeping ?m) (\<lambda>x. drop_pending thr (deliver thr JNull x))"
      proof
        fix x
        show "pending_received thr buffer x = obj_andthen (keeping ?m) (\<lambda>x. drop_pending thr (deliver thr JNull x)) x"
          by (cases "snd (snd (?m x))")
            (auto simp: pending_received_def Inl obj_andthen_def keeping_def split: prod.split)
      qed
      have "simulates (str_hash env)
          (fetch_report_error env thr (req_id req) (broker_err Broker_DATA_RESPONSE (error_text e)))
          (at_key (req_id req) (keeping ?m))"
        unfolding fetch_report_error_def by (rule simulates_call)
      from fetch_received_map[OF this refl, of thr JNull] show ?thesis
        unfolding m Received fetch_step.simps fetch_received_def ext[of "pending_step thr exchange req (Received buffer)", OF pending_step.simps(5)] p
        by (simp add: Inl Let_def del: rep.simps)
    qed
  next
    case (Consume_failed message)
    have "pending_step thr exchange req ev = obj_andthen
        (keeping (on_fetching (report_error thr (broker_err Broker_DATA_RESPONSE message))))
        (dropping (destroy_fetching thr))"
      by (simp add: fun_eq_iff Consume_failed drop_pending_eq)
    then show ?thesis
      unfolding m Consume_failed
      by (simp only: fetch_step.simps fetch_consume_failed_def fetch_fail_def simulates_call_del)
  qed
qed

lemma fetch_run_simulates:
  "simulates (str_hash env) (fetch_run env thr exchange evs)
     (run_steps (map (\<lambda>(req, ev). pending_map_step thr exchange req ev) evs))"
  unfolding fetch_run_def
  by (rule simulates_steps) (auto simp: list_all2_map1 list_all2_map2 intro!: list_all2_refl fetch_step_simulates)

lemma fetch_run_Cons:
  "fetch_run env thr exchange ((req, ev) # evs) =
     andthen (fetch_step env thr exchange req ev) (fetch_run env thr exchange evs)"
  by (simp add: fetch_run_def)

lemma fetch_run_Nil [simp]: "fetch_run env thr exchange [] = skip_step"
  by (simp add: fetch_run_def)

subsection \<open>Data callbacks of one request\<close>

lemma is_data_Callback [simp]: "is_data (Callback c) = is_call_data c"
  by (cases c) simp_all

lemma data_of_calls [simp]:
  "count_acts is_data (map Callback cs) = count_acts is_call_data cs"
  by (induction cs) simp_all

lemma no_data_error: "count_acts is_call_data (fst (snd (report_error thr e d))) = 0"
  by (simp add: report_error_def Let_def split: option.split outcome.split)

lemma no_data_success: "count_acts is_call_data (fst (snd (report_success thr d))) = 0"
  by (simp add: report_success_def Let_def split: option.split)

lemma data_at_most_one: "count_acts is_call_data (fst (snd (report_data thr p d))) \<le> 1"
  by (simp add: report_data_def split: outcome.split option.split bool.split)

lemma no_data_noexcept:
  "count_acts is_call_data cs = 0 \<Longrightarrow> count_acts is_call_data (fst (run_noexcept thr cs)) = 0"
  by (induction cs) (auto split: option.split prod.split if_splits)

lemma no_data_destroy: "count_acts is_data (fst (destroy_fetching thr x)) = 0"
proof -
  have "count_acts is_call_data (destroy_error_call d @ destroy_finalize_call d) = 0" for d :: "'a deferred"
    by (simp add: destroy_error_call_def destroy_finalize_call_def split: option.split)
  from no_data_noexcept[OF this, of thr "fetch_deferred x"] show ?thesis
    by (cases "run_noexcept thr (destroy_error_call (fetch_deferred x) @ destroy_finalize_call (fetch_deferred x))")
      (simp add: destroy_fetching_def destroy_deferred_def)
qed

lemma on_fetching_data:
  "count_acts is_data (fst (snd (on_fetching m x))) = count_acts is_call_data (fst (snd (m (fetch_deferred x))))"
  by (simp add: on_fetching_def split: prod.split)

lemma drop_pending_data:
  "count_acts is_data (fst (snd (drop_pending thr q))) = count_acts is_data (fst (snd q))"
  by (cases "snd (snd q)")
    (auto simp: drop_pending_def no_data_destroy split: prod.split)

lemma drop_pending_stops:
  "drop_pending thr q = (Some y, as, r) \<Longrightarrow> r \<noteq> Ret ()"
  by (auto simp: drop_pending_def split: prod.splits outcome.splits)

lemma deliver_data: "count_acts is_data (fst (snd (deliver thr j x))) \<le> 1"
proof -
  have "count_acts is_data (fst (snd (on_fetching (report_data thr (rep (Inr j))) x))) \<le> 1"
    unfolding on_fetching_data by (rule data_at_most_one)
  moreover have "fst (snd (deliver thr j x)) = fst (snd (on_fetching (report_data thr (rep (Inr j))) x))"
    by (simp add: deliver_def split: prod.split outcome.split)
  ultimately show ?thesis by simp
qed

text \<open>A step that runs the data callback drops the request or ends the run.\<close>

lemma pending_received_data:
  assumes "pending_received thr buffer x = (y, as, r)"
  shows "count_acts is_data as \<le> 1" and "y \<noteq> None \<Longrightarrow> r \<noteq> Ret ()"
proof -
  show "count_acts is_data as \<le> 1"
  proof (cases "from_msgpack buffer")
    case (Inr j)
    with assms have "drop_pending thr (deliver thr j x) = (y, as, r)" by (simp add: pending_received_def)
    then have "count_acts is_data as = count_acts is_data (fst (snd (deliver thr j x)))"
      using drop_pending_data[of thr "deliver thr j x"] by simp
    then show ?thesis using deliver_data[of thr j x] by simp
  next
    case (Inl e)
    obtain x1 bs r1 where m: "on_fetching (report_error thr (broker_err Broker_DATA_RESPONSE (error_text e))) x = (x1, bs, r1)"
      by (metis prod.exhaust)
    have b: "count_acts is_data bs = 0"
      using on_fetching_data[of "report_error thr (broker_err Broker_DATA_RESPONSE (error_text e))" x] no_data_error
      by (simp add: m)
    obtain z cs r2 where d: "drop_pending thr (deliver thr JNull x1) = (z, cs, r2)" by (metis prod.exhaust)
    have "count_acts is_data cs \<le> 1"
      using drop_pending_data[of thr "deliver thr JNull x1"] deliver_data[of thr JNull x1] by (simp add: d)
    with assms Inl m d b show ?thesis
      by (auto simp: pending_received_def split: outcome.splits)
  qed
  show "y \<noteq> None \<Longrightarrow> r \<noteq> Ret ()"
    using assms
    by (auto simp: pending_received_def dest: drop_pending_stops split: sum.splits prod.splits outcome.splits)
qed

lemma pending_step_data:
  assumes "pending_step thr exchange req ev x = (y, as, r)"
  shows "count_acts is_data as \<le> 1" and "count_acts is_data as \<noteq> 0 \<Longrightarrow> y = None \<or> r \<noteq> Ret ()"
proof -
  have "count_acts is_data as \<le> 1 \<and> (count_acts is_data as \<noteq> 0 \<longrightarrow> y = None \<or> r \<noteq> Ret ())"
  proof (cases ev)
    case (Received buffer)
    with assms pending_received_data[of thr buffer x y as r] show ?thesis by auto
  next
    case (Queue_failed message)
    then have "count_acts is_data as = 0"
      using assms drop_pending_data[of thr "on_fetching (report_error thr (broker_err Broker_QUEUE_DECLARATION message)) x"]
      by (simp add: on_fetching_data no_data_error)
    then show ?thesis by simp
  next
    case (Consume_failed message)
    then have "count_acts is_data as = 0"
      using assms drop_pending_data[of thr "on_fetching (report_error thr (broker_err Broker_DATA_RESPONSE message)) x"]
      by (simp add: on_fetching_data no_data_error)
    then show ?thesis by simp
  next
    case (Commit_failed message)
    then have "count_acts is_data as = 0"
      using assms on_fetching_data[of "report_error thr (broker_err Broker_PUBLISH message)" x]
      by (auto simp: no_data_error split: prod.splits)
    then show ?thesis by simp
  next
    case Consume_ok
    then have "count_acts is_data as = 0"
      using assms on_fetching_data[of "report_success thr" x] by (auto simp: no_data_success split: prod.splits)
    then show ?thesis by simp
  next
    case (Queue_declared name)
    with assms show ?thesis by auto
  qed
  then show "count_acts is_data as \<le> 1" "count_acts is_data as \<noteq> 0 \<Longrightarrow> y = None \<or> r \<noteq> Ret ()" by auto
qed

lemma absent_run:
  assumes "m cid = None" and "\<forall>(req, ev) \<in> set evs. req_id req = cid"
  shows "run_steps (map (\<lambda>(req, ev). pending_map_step thr exchange req ev) evs) m = (m, [], Ret ())"
  using assms
proof (induction evs)
  case (Cons e evs)
  obtain req ev where "e = (req, ev)" by (cases e)
  with Cons show ?case by (simp add: andthen_def pending_map_step_def)
qed (simp add: skip_step_def)

lemma one_request_data:
  assumes "\<forall>(req, ev) \<in> set evs. req_id req = cid"
  shows "count_acts is_data
    (fst (snd (run_steps (map (\<lambda>(req, ev). pending_map_step thr exchange req ev) evs) m))) \<le> 1"
  using assms
proof (induction evs arbitrary: m)
  case (Cons e evs)
  obtain req ev where e: "e = (req, ev)" by (cases e)
  with Cons.prems have cid: "req_id req = cid" and evs: "\<forall>(req, ev) \<in> set evs. req_id req = cid" by auto
  show ?case
  proof (cases "m cid")
    case None
    with absent_run[where m = m and cid = cid, OF None Cons.prems] show ?thesis by simp
  next
    case (Some x)
    obtain y as r where s: "pending_step thr exchange req ev x = (y, as, r)" by (metis prod.exhaust)
    note d = pending_step_data[OF s]
    let ?rest = "run_steps (map (\<lambda>(req, ev). pending_map_step thr exchange req ev) evs) (m(cid := y))"
    have run: "run_steps (map (\<lambda>(req, ev). pending_map_step thr exchange req ev) (e # evs)) m =
        (case r of Ret _ \<Rightarrow> (case ?rest of (m2, bs, r2) \<Rightarrow> (m2, as @ bs, r2)) | _ \<Rightarrow> (m(cid := y), as, r))"
      by (simp add: e andthen_def pending_map_step_def cid Some s)
    show ?thesis
    proof (cases "count_acts is_data as = 0 \<or> r \<noteq> Ret ()")
      case True
      obtain m2 bs r2 where q: "?rest = (m2, bs, r2)" by (metis prod.exhaust)
      with Cons.IH[OF evs, of "m(cid := y)"] have "count_acts is_data bs \<le> 1" by (simp only: fst_conv snd_conv)
      with True d(1) show ?thesis unfolding run q by (cases r) simp_all
    next
      case False
      with d(2) have "y = None" by auto
      then have "?rest = (m(cid := None), [], Ret ())" using absent_run[where m = "m(cid := None)" and cid = cid, OF _ evs] by simp
      with False d(1) \<open>y = None\<close> show ?thesis unfolding run by simp
    qed
  qed
qed (simp add: skip_step_def)

subsection \<open>One event\<close>

lemma fetch_step_view:
  assumes "reg_ok (str_hash env) r" and "reg_solo (str_hash env) r"
    and "reg_view (str_hash env) r (req_id req) = Some x"
    and "pending_step thr exchange req ev x = (y, as, res)"
  shows "\<exists>r1. fetch_step env thr exchange req ev r = (r1, as, res) \<and> reg_ok (str_hash env) r1
    \<and> reg_solo (str_hash env) r1 \<and> reg_view (str_hash env) r1 = (reg_view (str_hash env) r)(req_id req := y)"
proof -
  from simulatesE[OF fetch_step_simulates assms(1,2), of thr exchange req ev]
  obtain r1 as' res' where "fetch_step env thr exchange req ev r = (r1, as', res')"
    "pending_map_step thr exchange req ev (reg_view (str_hash env) r) = (reg_view (str_hash env) r1, as', res')"
    "reg_ok (str_hash env) r1" "reg_solo (str_hash env) r1" .
  then show ?thesis using assms(3,4) by (auto simp: pending_map_step_def)
qed

lemma fetch_step_absent:
  assumes "reg_ok (str_hash env) r" and "reg_view (str_hash env) r (req_id req) = None"
  shows "fetch_step env thr exchange req ev r = (r, [], Ret ())"
  using assms
  by (cases ev)
    (auto simp: fetch_declared_def fetch_declare_failed_def fetch_consume_failed_def fetch_fail_def
      fetch_commit_failed_def fetch_report_error_def fetch_consume_ok_def fetch_received_def if_has_eq
      andthen_def try_catch_def skip_step_def Let_def split: sum.split)

lemma fetch_run_ok:
  assumes "reg_ok (str_hash env) r" and "reg_solo (str_hash env) r"
  shows "reg_ok (str_hash env) (fst (fetch_run env thr exchange evs r)) \<and>
    reg_solo (str_hash env) (fst (fetch_run env thr exchange evs r))"
  using simulatesE[OF fetch_run_simulates assms, of thr exchange evs] by (metis fst_conv)

text \<open>What a quiet environment makes of the destructor and of the reports.\<close>

lemma destroy_fetching_quiet:
  assumes "\<not> error_bool (deferred_error (fetch_deferred x))"
  shows "destroy_fetching quiet_throws x =
    (Command (Close_channel (fetch_channel x)) #
       map Callback (case finalize_handler (fetch_deferred x) of Some f \<Rightarrow> [Call_finalize f] | None \<Rightarrow> []), Ret ())"
  by (simp add: destroy_fetching_def destroy_quiet[OF assms])

lemma deliver_quiet:
  assumes "failed (fetch_deferred x) = Some False" and "data_handler (fetch_deferred x) = Some h"
  shows "deliver quiet_throws j x = (x, [Callback (Call_data h (rep (Inr j)))], Ret ())"
  using assms
  by (simp add: deliver_def on_fetching_def report_data_open invoke_def quiet_throws_def del: rep.simps)

lemma deliver_failed:
  assumes "failed (fetch_deferred x) = Some True"
  shows "deliver thr j x = (x, [], Ret ())"
  using assms by (simp add: deliver_def on_fetching_def report_data_failed del: rep.simps)

subsection \<open>Undefined behaviour\<close>

lemma report_error_defined:
  "snd (snd (report_error thr e d)) \<noteq> Undefined" "snd (snd (report_success thr d)) \<noteq> Undefined"
  using invoke_cases[of thr]
  by (auto simp: report_error_def report_success_def Let_def invoke_def split: option.split outcome.split)

lemma run_noexcept_defined: "snd (run_noexcept thr cs) \<noteq> Undefined"
  by (induction cs) (auto split: option.split prod.split)

lemma run_noexcept_not_Undefined: "run_noexcept thr cs = (x, Undefined) \<Longrightarrow> False"
  using run_noexcept_defined[of thr cs] by simp

lemma drop_pending_defined: "snd (snd q) \<noteq> Undefined \<Longrightarrow> snd (snd (drop_pending thr q)) \<noteq> Undefined"
  by (auto simp: drop_pending_def destroy_fetching_def destroy_deferred_def
      dest: run_noexcept_not_Undefined split: prod.split outcome.split)

lemma on_fetching_outcome: "snd (snd (on_fetching m x)) = snd (snd (m (fetch_deferred x)))"
  by (simp add: on_fetching_def split: prod.split)

lemma report_error_sets_failed:
  "error_bool e \<Longrightarrow> on_fetching (report_error thr e) x = (x1, as, r) \<Longrightarrow> failed (fetch_deferred x1) = Some True"
  using report_error_failed[of e thr "fetch_deferred x"] by (auto simp: on_fetching_def split: prod.splits)

lemma deliver_undefined:
  assumes "snd (snd (deliver thr j x)) = Undefined"
  shows "failed (fetch_deferred x) = None"
proof (rule ccontr)
  assume "failed (fetch_deferred x) \<noteq> None"
  then have "snd (snd (report_data thr (rep (Inr j)) (fetch_deferred x))) \<noteq> Undefined"
    by (auto simp: report_data_def deferred_bool_def invoke_def split: option.split bool.split)
  with assms on_fetching_outcome[of "report_data thr (rep (Inr j))" x] show False
    by (auto simp: deliver_def split: prod.splits outcome.splits)
qed

lemma pending_step_undefined:
  assumes "pending_step thr exchange req ev x = (y, as, Undefined)"
  shows "failed (fetch_deferred x) = None \<and> (\<exists>buffer j. ev = Received buffer \<and> from_msgpack buffer = Inr j)"
proof (cases ev)
  case (Received buffer)
  show ?thesis
  proof (cases "from_msgpack buffer")
    case (Inr j)
    with assms Received have "drop_pending thr (deliver thr j x) = (y, as, Undefined)"
      by (simp add: pending_received_def)
    then have "snd (snd (deliver thr j x)) = Undefined"
      using drop_pending_defined[of "deliver thr j x" thr] by (metis snd_conv)
    from deliver_undefined[OF this] Inr Received show ?thesis by blast
  next
    case (Inl e)
    obtain x1 bs r1 where m: "on_fetching (report_error thr (broker_err Broker_DATA_RESPONSE (error_text e))) x = (x1, bs, r1)"
      by (metis prod.exhaust)
    then have f: "failed (fetch_deferred x1) = Some True" by (rule report_error_sets_failed[rotated]) simp
    have "r1 \<noteq> Undefined"
      using on_fetching_outcome[of "report_error thr (broker_err Broker_DATA_RESPONSE (error_text e))" x]
        report_error_defined(1) by (metis m snd_conv)
    moreover have "snd (snd (drop_pending thr (deliver thr JNull x1))) \<noteq> Undefined"
      by (rule drop_pending_defined) (simp add: deliver_failed[OF f])
    ultimately have False
      using assms Received Inl m by (auto simp: pending_received_def split: outcome.splits prod.splits)
    then show ?thesis ..
  qed
next
  case (Queue_failed message)
  then show ?thesis
    using assms drop_pending_defined[of "on_fetching (report_error thr (broker_err Broker_QUEUE_DECLARATION message)) x" thr]
      on_fetching_outcome[of "report_error thr (broker_err Broker_QUEUE_DECLARATION message)" x] report_error_defined(1)
    by (metis pending_step.simps(2) snd_conv)
next
  case (Consume_failed message)
  then show ?thesis
    using assms drop_pending_defined[of "on_fetching (report_error thr (broker_err Broker_DATA_RESPONSE message)) x" thr]
      on_fetching_outcome[of "report_error thr (broker_err Broker_DATA_RESPONSE message)" x] report_error_defined(1)
    by (metis pending_step.simps(6) snd_conv)
next
  case (Commit_failed message)
  then show ?thesis
    using assms on_fetching_outcome[of "report_error thr (broker_err Broker_PUBLISH message)" x]
      report_error_defined(1)[of thr "broker_err Broker_PUBLISH message" "fetch_deferred x"]
    by (auto split: prod.splits)
next
  case Consume_ok
  then show ?thesis
    using assms on_fetching_outcome[of "report_success thr" x] report_error_defined(2)[of thr "fetch_deferred x"]
    by (auto split: prod.splits)
qed (use assms in auto)

subsection \<open>fetch_message\<close>

text \<open>The ids in use are among those handed out.\<close>

definition fetch_ok :: "env \<Rightarrow> int \<times> connections \<times> 'h fetchers \<Rightarrow> bool" where
  "fetch_ok env s \<longleftrightarrow>
     (case s of (n, cs, r) \<Rightarrow>
        1 \<le> n \<and> connections_ok env cs \<and> reg_ok (str_hash env) r \<and> reg_solo (str_hash env) r
        \<and> (\<forall>k. reg_view (str_hash env) r k \<noteq> None \<longrightarrow> (\<exists>i. 1 \<le> i \<and> i < n \<and> k = dec_int i)))"

lemma dec_int_inject: "0 \<le> i \<Longrightarrow> 0 \<le> j \<Longrightarrow> dec_int i = dec_int j \<longleftrightarrow> i = j"
  by (simp add: dec_int_def dec_nat_inject eq_nat_nat_iff)

lemma fetch_ok_fresh:
  assumes "fetch_ok env (n, cs, r)"
  shows "reg_view (str_hash env) r (dec_int n) = None"
proof (rule ccontr)
  assume "reg_view (str_hash env) r (dec_int n) \<noteq> None"
  with assms obtain i where i: "1 \<le> i" "i < n" "dec_int n = dec_int i" by (auto simp: fetch_ok_def)
  with dec_int_inject[of n i] show False by simp
qed

lemma new_channel_cases:
  "connections_ok env cs \<Longrightarrow>
     (\<exists>cs1 as ch. new_channel env tid cs = (cs1, as, Ret ch) \<and> connections_ok env cs1) \<or>
     (\<exists>cs1 as e. new_channel env tid cs = (cs1, as, Raise e) \<and> connections_ok env cs1)"
proof -
  assume ok: "connections_ok env cs"
  obtain cs1 as res where n: "new_channel env tid cs = (cs1, as, res)" by (metis prod.exhaust)
  have "res \<noteq> Abort"
  proof (cases "thread_conn env cs tid")
    case None
    with n show ?thesis
      by (auto simp: new_channel_first[OF ok None] open_channel_def Let_def split: option.splits)
  next
    case (Some c)
    with n show ?thesis
      by (auto simp: new_channel_known[OF ok Some] open_channel_def Let_def split: option.splits)
  qed
  with new_channel_ok[OF ok, of tid] n show ?thesis by (cases res) auto
qed

lemma fetch_message_spec:
  assumes "fetch_ok env (n, cs, r)" and "n < INT_MAX"
    and "new_channel env tid cs = (cs1, as, Ret ch)"
  shows "\<exists>r1. fetch_message env thr tid (n, cs, r) =
      ((n + 1, cs1, r1), map Command (as @ [Declare_queue ch [] {exclusive, autodelete}]), Ret (next_ptr r))
    \<and> fetch_ok env (n + 1, cs1, r1)
    \<and> reg_view (str_hash env) r1 = (reg_view (str_hash env) r)(dec_int n := Some (mk_fetching ch))
    \<and> entry_ptr (str_hash env) (dec_int n) r1 = Some (next_ptr r)
    \<and> objs r1 (next_ptr r) = Some (mk_fetching ch, 1)"
proof -
  have n: "1 \<le> n" and r: "reg_ok (str_hash env) r" "reg_solo (str_hash env) r"
    and cs: "connections_ok env cs"
    and ids: "\<And>k. reg_view (str_hash env) r k \<noteq> None \<Longrightarrow> \<exists>i. 1 \<le> i \<and> i < n \<and> k = dec_int i"
    using assms(1) by (auto simp: fetch_ok_def)
  have "reg_view (str_hash env) r (dec_int n) = None"
    by (rule fetch_ok_fresh[OF assms(1)])
  from reg_set_view[OF r(1) this, of "mk_fetching ch"] r(2) obtain r1 where
    s: "reg_set (str_hash env) (dec_int n) (mk_fetching ch) r = (None, r1)"
    and r1: "reg_ok (str_hash env) r1" "reg_solo (str_hash env) r1"
      "reg_view (str_hash env) r1 = (reg_view (str_hash env) r)(dec_int n := Some (mk_fetching ch))"
      "entry_ptr (str_hash env) (dec_int n) r1 = Some (next_ptr r)"
      "objs r1 (next_ptr r) = Some (mk_fetching ch, 1)" by blast
  have g: "reg_get (str_hash env) (clock env) (dec_int n) r1 = (Some (next_ptr r), r1)"
    by (simp add: reg_get_def ptr_cache.get_law[OF reg_okD(1)[OF r1(1)]] r1(4))
  have "connections_ok env cs1" using new_channel_ok[OF cs, of tid] assms(3) by simp
  moreover have "\<exists>i. 1 \<le> i \<and> i < n + 1 \<and> k = dec_int i" if "reg_view (str_hash env) r1 k \<noteq> None" for k
    using that ids[of k] n unfolding r1(3) by (cases "k = dec_int n") (auto intro: exI[of _ n])
  ultimately have "fetch_ok env (n + 1, cs1, r1)"
    using n r1(1,2) by (auto simp: fetch_ok_def)
  with r1 show ?thesis
    by (simp add: fetch_message_def create_unique_id_def assms(2,3) s g destroy_opt_def)
qed

subsection \<open>Properties\<close>

text \<open>The whole life of an answered request.\<close>

lemma answered_request:
  assumes "reg_ok (str_hash env) r" and "reg_solo (str_hash env) r"
    and "reg_view (str_hash env) r (req_id req) = Some x"
    and "data_handler (fetch_deferred x) = Some h" and "\<not> error_bool (deferred_error (fetch_deferred x))"
    and "storable (req_message req)" and "storable j"
  shows "\<exists>r1. fetch_run env quiet_throws exchange
        [(req, Queue_declared q), (req, Consume_ok), (req, Received (to_msgpack j))] r =
      (r1,
       map Command
         [Start_transaction (fetch_channel x),
          Publish (fetch_channel x) exchange (req_key req) (request_envelope req q) {autodelete, mandatory},
          Commit_transaction (fetch_channel x), Consume (fetch_channel x) q {noack}]
       @ map Callback (case success_handler (fetch_deferred x) of Some s \<Rightarrow> [Call_success s] | None \<Rightarrow> [])
       @ [Callback (Call_data h (rep (Inr (canon j)))), Command (Close_channel (fetch_channel x))]
       @ map Callback (case finalize_handler (fetch_deferred x) of Some f \<Rightarrow> [Call_finalize f] | None \<Rightarrow> []),
       Ret ())
    \<and> reg_ok (str_hash env) r1 \<and> reg_solo (str_hash env) r1
    \<and> reg_view (str_hash env) r1 = (reg_view (str_hash env) r)(req_id req := None)
    \<and> from_msgpack (body (request_envelope req q)) = Inr (canon (req_message req))
    \<and> correlation_id (request_envelope req q) = Some (req_id req)
    \<and> reply_to (request_envelope req q) = Some q"
proof -
  let ?d = "fetch_deferred x"
  define x1 where "x1 = x\<lparr>fetch_deferred := ?d\<lparr>failed := Some False\<rparr>\<rparr>"
  have x1: "failed (fetch_deferred x1) = Some False" "data_handler (fetch_deferred x1) = Some h"
    "fetch_channel x1 = fetch_channel x" "finalize_handler (fetch_deferred x1) = finalize_handler ?d"
    "\<not> error_bool (deferred_error (fetch_deferred x1))"
    using assms(4,5) by (simp_all add: x1_def)
  have s2: "pending_step quiet_throws exchange req Consume_ok x =
      (Some x1, map Callback (case success_handler ?d of Some s \<Rightarrow> [Call_success s] | None \<Rightarrow> []), Ret ())"
    by (simp add: on_fetching_def report_success_def x1_def invoke_def quiet_throws_def split: option.split)
  have s3: "pending_step quiet_throws exchange req (Received (to_msgpack j)) x1 =
      (None, Callback (Call_data h (rep (Inr (canon j)))) # fst (destroy_fetching quiet_throws x1),
       snd (destroy_fetching quiet_throws x1))"
    by (simp add: pending_received_def from_write[OF assms(7)] deliver_quiet[OF x1(1,2)] drop_pending_def
        del: rep.simps)
  from fetch_step_view[OF assms(1-3) pending_step.simps(1)[of quiet_throws exchange req q]]
  obtain ra where a: "fetch_step env quiet_throws exchange req (Queue_declared q) r = (ra, map Command
         [Start_transaction (fetch_channel x),
          Publish (fetch_channel x) exchange (req_key req) (request_envelope req q) {autodelete, mandatory},
          Commit_transaction (fetch_channel x), Consume (fetch_channel x) q {noack}], Ret ())"
    "reg_ok (str_hash env) ra" "reg_solo (str_hash env) ra"
    "reg_view (str_hash env) ra = (reg_view (str_hash env) r)(req_id req := Some x)" by blast
  from fetch_step_view[OF a(2,3) _ s2] a(4) obtain rb where
    b: "fetch_step env quiet_throws exchange req Consume_ok ra =
      (rb, map Callback (case success_handler ?d of Some s \<Rightarrow> [Call_success s] | None \<Rightarrow> []), Ret ())"
    "reg_ok (str_hash env) rb" "reg_solo (str_hash env) rb"
    "reg_view (str_hash env) rb = (reg_view (str_hash env) r)(req_id req := Some x1)" by auto
  from fetch_step_view[OF b(2,3) _ s3] b(4) obtain rc where
    c: "fetch_step env quiet_throws exchange req (Received (to_msgpack j)) rb =
      (rc, Callback (Call_data h (rep (Inr (canon j)))) # fst (destroy_fetching quiet_throws x1),
       snd (destroy_fetching quiet_throws x1))"
    "reg_ok (str_hash env) rc" "reg_solo (str_hash env) rc"
    "reg_view (str_hash env) rc = (reg_view (str_hash env) r)(req_id req := None)" by auto
  have "from_msgpack (body (request_envelope req q)) = Inr (canon (req_message req))"
    by (simp add: request_envelope_def mk_envelope_def from_write[OF assms(6)])
  then show ?thesis
    using a b c destroy_fetching_quiet[OF x1(5)] x1(3,4)
    by (simp add: fetch_run_Cons andthen_def skip_step_def request_envelope_def del: fetch_step.simps rep.simps)
qed

text \<open>
  C2: A request is answered: from any registry in which it is pending with a data callback, the
  declaration of its reply queue, the confirmation of its consumer and the arrival of a reply make
  exactly these actions, in this order: the request is published once, in a transaction, with its
  id and its reply queue, and its body reads back as the message; the consumer is started; the
  success callback runs; the data callback runs once, with the value that was sent; the channel is
  closed and the finalize callback runs. The request is then gone and no other one is touched.
\<close>

theorem reply_delivered:
  assumes "reg_ok (str_hash env) r" and "reg_solo (str_hash env) r"
    and "reg_view (str_hash env) r (req_id req) = Some x"
    and "data_handler (fetch_deferred x) = Some h" and "\<not> error_bool (deferred_error (fetch_deferred x))"
    and "storable (req_message req)" and "storable j"
  shows "\<exists>r1. fetch_run env quiet_throws exchange
        [(req, Queue_declared q), (req, Consume_ok), (req, Received (to_msgpack j))] r =
      (r1,
       map Command
         [Start_transaction (fetch_channel x),
          Publish (fetch_channel x) exchange (req_key req) (request_envelope req q) {autodelete, mandatory},
          Commit_transaction (fetch_channel x), Consume (fetch_channel x) q {noack}]
       @ map Callback (case success_handler (fetch_deferred x) of Some s \<Rightarrow> [Call_success s] | None \<Rightarrow> [])
       @ [Callback (Call_data h (rep (Inr (canon j)))), Command (Close_channel (fetch_channel x))]
       @ map Callback (case finalize_handler (fetch_deferred x) of Some f \<Rightarrow> [Call_finalize f] | None \<Rightarrow> []),
       Ret ())
    \<and> reg_ok (str_hash env) r1 \<and> reg_solo (str_hash env) r1
    \<and> reg_view (str_hash env) r1 = (reg_view (str_hash env) r)(req_id req := None)
    \<and> from_msgpack (body (request_envelope req q)) = Inr (canon (req_message req))
    \<and> correlation_id (request_envelope req q) = Some (req_id req)
    \<and> reply_to (request_envelope req q) = Some q"
  by (rule answered_request[OF assms])

text \<open>
  C24: A request is answered at most once: whatever events of a request arrive, in whatever order and
  number, and whatever the callbacks do, its data callback runs at most once.
\<close>

theorem reply_at_most_once:
  assumes "reg_ok (str_hash env) r" and "reg_solo (str_hash env) r"
    and "\<forall>(req, ev) \<in> set evs. req_id req = cid"
  shows "count_acts is_data (fst (snd (fetch_run env thr exchange evs r))) \<le> 1"
proof -
  from simulatesE[OF fetch_run_simulates assms(1,2), of thr exchange evs]
  obtain r1 as res where "fetch_run env thr exchange evs r = (r1, as, res)"
    "run_steps (map (\<lambda>(req, ev). pending_map_step thr exchange req ev) evs) (reg_view (str_hash env) r) =
       (reg_view (str_hash env) r1, as, res)" .
  with one_request_data[OF assms(3), of thr exchange "reg_view (str_hash env) r"] show ?thesis by simp
qed

text \<open>
  A reply that is not MessagePack is reported: the error callback is told once, with
  \<open>DATA_RESPONSE\<close> and the text of the parser, the null value that is passed on as data reaches no
  data callback, and the request is dropped, its channel closed, its finalize callback run.
\<close>

theorem malformed_reply_reported:
  assumes "reg_ok (str_hash env) r" and "reg_solo (str_hash env) r"
    and "reg_view (str_hash env) r (req_id req) = Some x" and "error_handler (fetch_deferred x) = Some h"
    and "from_msgpack buffer = Inl e"
  shows "\<exists>r1. fetch_step env quiet_throws exchange req (Received buffer) r =
      (r1, [Callback (Call_error h (broker_err Broker_DATA_RESPONSE (error_text e))),
            Command (Close_channel (fetch_channel x))]
        @ map Callback (case finalize_handler (fetch_deferred x) of Some f \<Rightarrow> [Call_finalize f] | None \<Rightarrow> []),
       Ret ())
    \<and> reg_view (str_hash env) r1 = (reg_view (str_hash env) r)(req_id req := None)"
proof -
  define x1 where "x1 = x\<lparr>fetch_deferred :=
     (fetch_deferred x)\<lparr>failed := Some True, deferred_error := common_err Common_OK\<rparr>\<rparr>"
  have x1: "failed (fetch_deferred x1) = Some True" "\<not> error_bool (deferred_error (fetch_deferred x1))"
    "fetch_channel x1 = fetch_channel x" "finalize_handler (fetch_deferred x1) = finalize_handler (fetch_deferred x)"
    by (simp_all add: x1_def)
  have "on_fetching (report_error quiet_throws (broker_err Broker_DATA_RESPONSE (error_text e))) x =
      (x1, [Callback (Call_error h (broker_err Broker_DATA_RESPONSE (error_text e)))], Ret ())"
    using assms(4) by (simp add: on_fetching_def report_error_quiet x1_def)
  then have "pending_step quiet_throws exchange req (Received buffer) x =
      (None, [Callback (Call_error h (broker_err Broker_DATA_RESPONSE (error_text e))),
            Command (Close_channel (fetch_channel x))]
        @ map Callback (case finalize_handler (fetch_deferred x) of Some f \<Rightarrow> [Call_finalize f] | None \<Rightarrow> []), Ret ())"
    using assms(5) x1(3,4)
    by (simp add: pending_received_def deliver_failed[OF x1(1)] drop_pending_def destroy_fetching_quiet[OF x1(2)])
  from fetch_step_view[OF assms(1-3) this] show ?thesis by blast
qed

text \<open>What an event of a request can meet that is undefined.\<close>

lemma fetch_step_undefined:
  assumes "reg_ok (str_hash env) r" and "reg_solo (str_hash env) r"
    and "snd (snd (fetch_step env thr exchange req ev r)) = Undefined"
  shows "\<exists>x buffer j. reg_view (str_hash env) r (req_id req) = Some x \<and> failed (fetch_deferred x) = None
    \<and> ev = Received buffer \<and> from_msgpack buffer = Inr j"
proof (cases "reg_view (str_hash env) r (req_id req)")
  case None
  with assms show ?thesis by (simp add: fetch_step_absent)
next
  case (Some x)
  obtain y as res where p: "pending_step thr exchange req ev x = (y, as, res)" by (metis prod.exhaust)
  from fetch_step_view[OF assms(1,2) Some p] assms(3) p
  have "pending_step thr exchange req ev x = (y, as, Undefined)" by auto
  from pending_step_undefined[OF this] Some show ?thesis by blast
qed

text \<open>
  C29: The callbacks of a request never dereference a missing object: on a well-formed registry the
  only undefined behaviour any event can meet is the read of the uninitialised \<open>failed_\<close> by a reply
  that parses and comes before any success or error was reported.
\<close>

theorem fetch_undefined_only_uninitialised:
  assumes "reg_ok (str_hash env) r" and "reg_solo (str_hash env) r"
    and "snd (snd (fetch_step env thr exchange req ev r)) = Undefined"
  shows "\<exists>x buffer j. reg_view (str_hash env) r (req_id req) = Some x \<and> failed (fetch_deferred x) = None
    \<and> ev = Received buffer \<and> from_msgpack buffer = Inr j"
  by (rule fetch_step_undefined[OF assms])

text \<open>
  C25: Requests do not interfere: an event of one request leaves every other pending request as it
  was, what it does depends on its own request only, an event of a request that is gone does
  nothing, and no event leaks an object or leaves an entry without one.
\<close>

theorem requests_independent:
  assumes "reg_ok (str_hash env) r" and "reg_solo (str_hash env) r"
    and "reg_ok (str_hash env) r'" and "reg_solo (str_hash env) r'"
    and "reg_view (str_hash env) r (req_id req) = reg_view (str_hash env) r' (req_id req)"
    and "fetch_step env thr exchange req ev r = (r1, as, res)"
  shows "(\<forall>k. k \<noteq> req_id req \<longrightarrow> reg_view (str_hash env) r1 k = reg_view (str_hash env) r k)
    \<and> (\<exists>r1'. fetch_step env thr exchange req ev r' = (r1', as, res))
    \<and> (reg_view (str_hash env) r (req_id req) = None \<longrightarrow> r1 = r \<and> as = [] \<and> res = Ret ())
    \<and> reg_ok (str_hash env) r1 \<and> reg_solo (str_hash env) r1"
proof (cases "reg_view (str_hash env) r (req_id req)")
  case None
  then show ?thesis
    using assms fetch_step_absent[OF assms(1), of req thr exchange ev] fetch_step_absent[OF assms(3), of req thr exchange ev]
    by auto
next
  case (Some x)
  obtain y bs res' where p: "pending_step thr exchange req ev x = (y, bs, res')" by (metis prod.exhaust)
  from fetch_step_view[OF assms(1,2) Some p] fetch_step_view[OF assms(3,4) _ p] Some assms(5,6)
  show ?thesis by auto
qed

text \<open>
  \<open>fetch_message\<close> gives every request an id that no pending request has, opens one channel for
  it on the connection of the calling thread, registers a fresh deferred object and asks for an
  exclusive reply queue; requests and connections stay well formed.
\<close>

theorem fetch_message_registers:
  assumes "fetch_ok env (n, cs, r)" and "n < INT_MAX"
    and "new_channel env tid cs = (cs1, as, Ret ch)"
  shows "\<exists>r1. fetch_message env thr tid (n, cs, r) =
      ((n + 1, cs1, r1), map Command (as @ [Declare_queue ch [] {exclusive, autodelete}]), Ret (next_ptr r))
    \<and> fetch_ok env (n + 1, cs1, r1)
    \<and> reg_view (str_hash env) r (dec_int n) = None
    \<and> reg_view (str_hash env) r1 = (reg_view (str_hash env) r)(dec_int n := Some (mk_fetching ch))"
  using fetch_message_spec[OF assms, of thr] fetch_ok_fresh[OF assms(1)] by blast

text \<open>
  The reference \<open>fetch\<close> returns is only good while the request is pending: when the declaration
  of the reply queue or its consumption has failed, installing a callback through it is a use of a
  destroyed object.
\<close>

theorem callback_after_failure_undefined:
  assumes "reg_ok (str_hash env) r" and "reg_solo (str_hash env) r"
    and "entry_ptr (str_hash env) (req_id req) r = Some p"
    and "ev = Queue_failed m \<or> ev = Consume_failed m"
  shows "snd (snd (user_installs p (on_data h) (fst (fetch_step env quiet_throws exchange req ev r)))) = Undefined"
proof -
  obtain x where x: "reg_view (str_hash env) r (req_id req) = Some x" and o: "objs r p = Some (x, 1)"
    using reg_okD(2)[OF assms(1,3)] reg_soloD[OF assms(2)] assms(3)
    by (fastforce simp: reg_view_def split: option.split)
  have hd: "if_has (str_hash env) (clock env) (req_id req) f r = f r" for f :: "('a fetchers, 'a fetch_action) step"
    by (simp add: if_has_eq[OF assms(1)] x)
  have fail: "objs (fst (fetch_fail env quiet_throws req e r)) p = None" for e
  proof -
    let ?x1 = "fst (on_fetching (report_error quiet_throws e) x)"
    let ?r1 = "r\<lparr>objs := (objs r)(p := Some (?x1, 1))\<rparr>"
    have rc: "reg_call (str_hash env) (clock env) (req_id req) (on_fetching (report_error quiet_throws e)) r =
        (?r1, fst (snd (on_fetching (report_error quiet_throws e) x)), Ret ())"
      using assms(3) o
      by (simp add: reg_call_eq[OF assms(1)] call_ptr_def on_fetching_def report_error_quiet split: prod.split)
    have "objs (fst (reg_del_step (str_hash env) (req_id req) (destroy_fetching quiet_throws) ?r1)) p = None"
      using assms(3)
      by (simp add: reg_del_step_def reg_del_def release_old_def reg_release_def destroy_opt_def split: prod.split)
    then show ?thesis
      by (simp add: fetch_fail_def hd andthen_def rc split: prod.split) (metis fst_conv)
  qed
  show ?thesis
    using assms(4) fail by (auto simp: fetch_declare_failed_def fetch_consume_failed_def user_installs_def call_ptr_def)
qed

subsection \<open>Instances\<close>

definition sample_env :: env where
  "sample_env = \<lparr>str_hash = (\<lambda>s. of_nat (length s)), thread_hash = of_nat, clock = 100, channel_throws = (\<lambda>_ _. None)\<rparr>"

definition sample_request :: request where
  "sample_request = \<lparr>req_id = ''7'', req_message = sample_json, req_key = ''echo''\<rparr>"

definition sample_pending :: "nat fetching" where
  "sample_pending = \<lparr>fetch_deferred = on_finalize 4 (on_error 3 (on_data 1 (mk_deferred (common_err Common_OK)))),
     fetch_channel = 5\<rparr>"

definition sample_fetchers :: "nat fetchers" where
  "sample_fetchers = snd (reg_set (str_hash sample_env) ''7'' sample_pending new_registry)"

lemma sample_fetchers_facts:
  "reg_ok (str_hash sample_env) sample_fetchers" "reg_solo (str_hash sample_env) sample_fetchers"
  "reg_view (str_hash sample_env) sample_fetchers = [''7'' \<mapsto> sample_pending]"
  "entry_ptr (str_hash sample_env) ''7'' sample_fetchers = Some 0"
proof -
  let ?h = "str_hash sample_env"
  have "reg_view ?h (new_registry :: nat fetchers) ''7'' = None" by simp
  from reg_set_view[OF reg_ok_new(1) this, of sample_pending] obtain r1
    where "reg_set ?h ''7'' sample_pending new_registry = (None, r1)" "reg_ok ?h r1" "reg_solo ?h r1"
      "reg_view ?h r1 = [''7'' \<mapsto> sample_pending]" "entry_ptr ?h ''7'' r1 = Some (next_ptr (new_registry :: nat fetchers))"
    by auto
  then show "reg_ok ?h sample_fetchers" "reg_solo ?h sample_fetchers"
    "reg_view ?h sample_fetchers = [''7'' \<mapsto> sample_pending]" "entry_ptr ?h ''7'' sample_fetchers = Some 0"
    by (simp_all add: sample_fetchers_def new_registry_def)
qed

lemma sample_pending_facts:
  "reg_view (str_hash sample_env) sample_fetchers (req_id sample_request) = Some sample_pending"
  "data_handler (fetch_deferred sample_pending) = Some 1" "error_handler (fetch_deferred sample_pending) = Some 3"
  "\<not> error_bool (deferred_error (fetch_deferred sample_pending))" "failed (fetch_deferred sample_pending) = None"
  "success_handler (fetch_deferred sample_pending) = None" "finalize_handler (fetch_deferred sample_pending) = Some 4"
  "fetch_channel sample_pending = 5" "storable (req_message sample_request)"
  by (simp_all add: sample_fetchers_facts sample_request_def sample_pending_def deferred_setter_defs
      mk_deferred_def storable_sample)

theorem reply_delivered_witness:
  "fst (snd (fetch_run sample_env quiet_throws ''amq.topic''
     [(sample_request, Queue_declared ''q''), (sample_request, Consume_ok),
      (sample_request, Received (to_msgpack (JInteger 8)))] sample_fetchers)) =
   [Command (Start_transaction 5),
    Command (Publish 5 ''amq.topic'' ''echo'' (request_envelope sample_request ''q'') {autodelete, mandatory}),
    Command (Commit_transaction 5), Command (Consume 5 ''q'' {noack}),
    Callback (Call_data 1 (rep (Inr (JUnsigned 8)))), Command (Close_channel 5), Callback (Call_finalize 4)]"
proof -
  have "storable (JInteger 8)" by simp
  from reply_delivered[OF sample_fetchers_facts(1,2) sample_pending_facts(1,2,4,9) this, of "''amq.topic''" "''q''"]
  show ?thesis
    using sample_pending_facts by (auto simp: sample_request_def simp del: rep.simps)
qed

theorem reply_at_most_once_witness:
  "count_acts is_data (fst (snd (fetch_run sample_env quiet_throws ''x''
     [(sample_request, Consume_ok), (sample_request, Received (to_msgpack JNull)),
      (sample_request, Received (to_msgpack JNull))] sample_fetchers))) \<le> 1"
  by (rule reply_at_most_once[OF sample_fetchers_facts(1,2), where cid = "''7''"]) (simp add: sample_request_def)

theorem malformed_reply_reported_witness:
  "fst (snd (fetch_step sample_env quiet_throws ''x'' sample_request (Received []) sample_fetchers)) =
   [Callback (Call_error 3 (broker_err Broker_DATA_RESPONSE
      ''[json.exception.parse_error.110] parse error at byte 1: syntax error while parsing MessagePack value: unexpected end of input'')),
    Command (Close_channel 5), Callback (Call_finalize 4)]"
proof -
  define e where "e = unexpected_eof ''value'' \<lparr>input = [], chars_read = 1\<rparr>"
  have p: "from_msgpack [] = Inl e"
    by (simp add: from_msgpack_def sax_parse_def get_char_def e_def)
  have "dec_nat 110 = ''110'' \<and> dec_nat 1 = ''1''"
    by (simp add: dec_nat.simps digit_char_def) code_simp
  then have "error_text e =
      ''[json.exception.parse_error.110] parse error at byte 1: syntax error while parsing MessagePack value: unexpected end of input''"
    by (simp add: e_def unexpected_eof_def make_parse_error_def mp_message_def)
  with malformed_reply_reported[OF sample_fetchers_facts(1,2) sample_pending_facts(1,3) p, of "''x''"]
  show ?thesis using sample_pending_facts by auto
qed

theorem fetch_undefined_only_uninitialised_witness:
  "\<exists>x buffer j. reg_view (str_hash sample_env) sample_fetchers ''7'' = Some x
     \<and> failed (fetch_deferred x) = None \<and> Received (to_msgpack JNull) = Received buffer \<and> from_msgpack buffer = Inr j"
proof -
  have "pending_step quiet_throws ''x'' sample_request (Received (to_msgpack JNull)) sample_pending =
      (Some sample_pending, [], Undefined)"
    using from_write[of JNull] sample_pending_facts(5)
    by (simp add: pending_received_def drop_pending_def deliver_def on_fetching_def
        report_data_uninitialised del: rep.simps)
  from fetch_step_view[OF sample_fetchers_facts(1,2) sample_pending_facts(1) this]
  have "snd (snd (fetch_step sample_env quiet_throws ''x'' sample_request (Received (to_msgpack JNull)) sample_fetchers)) = Undefined"
    by auto
  from fetch_undefined_only_uninitialised[OF sample_fetchers_facts(1,2) this] show ?thesis
    by (simp add: sample_request_def)
qed

theorem requests_independent_witness:
  "fetch_step sample_env quiet_throws ''x'' (sample_request\<lparr>req_id := ''8''\<rparr>) Consume_ok sample_fetchers =
     (sample_fetchers, [], Ret ())"
proof -
  have v: "reg_view (str_hash sample_env) sample_fetchers (req_id (sample_request\<lparr>req_id := ''8''\<rparr>)) =
      reg_view (str_hash sample_env) sample_fetchers (req_id (sample_request\<lparr>req_id := ''8''\<rparr>))" ..
  obtain r1 as res where s: "fetch_step sample_env quiet_throws ''x'' (sample_request\<lparr>req_id := ''8''\<rparr>) Consume_ok sample_fetchers = (r1, as, res)"
    by (metis prod.exhaust)
  have none: "reg_view (str_hash sample_env) sample_fetchers (req_id (sample_request\<lparr>req_id := ''8''\<rparr>)) = None"
    by (simp add: sample_fetchers_facts(3))
  from requests_independent[OF sample_fetchers_facts(1,2) sample_fetchers_facts(1,2) v s]
  have "r1 = sample_fetchers \<and> as = [] \<and> res = Ret ()" using none by blast
  then show ?thesis by (simp only: s)
qed

theorem fetch_message_registers_witness:
  "fst (snd (fetch_message sample_env (quiet_throws :: nat fetch_throws) 9
     (1, mk_connections sample_address 60, new_registry))) =
   map Command [Connect 0 ''somewhereelse.org'' 1111 ''admin'' ''password'' ''/vhost'',
                Open_channel 0 0, Declare_queue 0 [] {exclusive, autodelete}]"
proof -
  let ?cs = "mk_connections sample_address 60"
  have t: "thread_conn sample_env ?cs 9 = None" by (simp add: mk_connections_def)
  have o: "open_channel sample_env c w = (w\<lparr>next_chan := 1\<rparr>, [Open_channel 0 c], Ret 0)"
    if "next_chan w = 0" for c w
    using that by (simp add: open_channel_def sample_env_def)
  have w: "next_chan (with_connection sample_env 9 ?cs) = 0" "next_conn ?cs = 0"
    by (simp_all add: with_connection_def mk_connections_def)
  have a: "to_address 0 (conn_address ?cs) = Connect 0 ''somewhereelse.org'' 1111 ''admin'' ''password'' ''/vhost''"
    by (simp add: mk_connections_def to_address_def to_login_def sample_address_def get_login_def
        get_username_def get_password_def get_hostname_def get_port_def get_vhost_def)
  obtain cs1 where n: "new_channel sample_env 9 ?cs =
      (cs1, [Connect 0 ''somewhereelse.org'' 1111 ''admin'' ''password'' ''/vhost'', Open_channel 0 0], Ret 0)"
    using new_channel_first[OF connections_ok_new t] o[OF w(1), of 0] a w(2) by simp
  have ok: "fetch_ok sample_env (1, ?cs, new_registry :: nat fetchers)" by (simp add: fetch_ok_def)
  have "1 < INT_MAX" by (simp add: INT_MAX_def)
  from fetch_message_registers[OF ok this n, of quiet_throws] show ?thesis by auto
qed

theorem callback_after_failure_undefined_witness:
  "snd (snd (user_installs 0 (on_data 1)
     (fst (fetch_step sample_env quiet_throws ''x'' sample_request (Queue_failed ''refused'') sample_fetchers)))) = Undefined"
  by (rule callback_after_failure_undefined[OF sample_fetchers_facts(1,2)])
    (simp_all add: sample_request_def sample_fetchers_facts(4))

end
