(* ===== verification/Replay.thy ===== *)
theory Replay
  imports Connection
begin

section \<open>Replies of a worker\<close>

text \<open>
  Models \<open>PayloadContainer\<close>, \<open>Rpc\<close> and \<open>Replay\<close> of \<open>src/include/capy/amqp_common.h\<close>,
  \<open>ReplayImpl\<close> of \<open>src/src/broker_impl/broker.h\<close> and \<open>broker.cc\<close>, and the part of the commit
  handler of \<open>listen_messages\<close> that builds the reply: the JSON value it sends and its envelope.
  The completion handler is an opaque handler of the application; the commit handler is always
  the closure of \<open>listen_messages\<close>, kept as what it captures.
\<close>

record rpc =
  rpc_message :: json
  routing_key :: string

definition mk_rpc :: "string \<Rightarrow> json \<Rightarrow> rpc" where
  "mk_rpc key message = \<lparr>rpc_message = message, routing_key = key\<rparr>"

text \<open>What the commit handler captures.\<close>

record commit_closure =
  commit_cid :: string
  commit_reply_to :: string
  commit_listener :: string

record 'h replay =
  replay_message :: "json result"
  commit_handler :: "commit_closure option"
  complete_handler :: "'h option"

text \<open>\<open>ReplayImpl()\<close>: the message is a default constructed \<open>Payload\<close>, the null value.\<close>

definition mk_replay :: "'h replay outcome" where
  "mk_replay =
     obind (expected_default JNull)
       (\<lambda>m. Ret \<lparr>replay_message = m, commit_handler = None, complete_handler = None\<rparr>)"

definition on_complete :: "'h \<Rightarrow> 'h replay \<Rightarrow> 'h replay" where
  "on_complete h x = x\<lparr>complete_handler := Some h\<rparr>"

definition set_commit :: "commit_closure \<Rightarrow> 'h replay \<Rightarrow> 'h replay" where
  "set_commit h x = x\<lparr>commit_handler := Some h\<rparr>"

text \<open>
  The destructor. It is \<open>noexcept\<close>: a completion handler that throws ends the process.
\<close>

definition destroy_replay :: "('h \<Rightarrow> exn option) \<Rightarrow> nat \<Rightarrow> 'h replay \<Rightarrow> ('h, 'p) action list \<times> unit outcome" where
  "destroy_replay cthr p x =
     (case complete_handler x of
        None \<Rightarrow> ([], Ret ())
      | Some h \<Rightarrow> ([Complete h p], case cthr h of None \<Rightarrow> Ret () | Some _ \<Rightarrow> Abort))"

subsection \<open>The value that is sent\<close>

text \<open>\<open>{"error", {{"code", code}, {"message", message}}}\<close>\<close>

definition error_reply :: "int \<Rightarrow> string \<Rightarrow> json" where
  "error_reply code message =
     json_init
       [JString ''error'',
        json_init
          [json_init [JString ''code'', json_of_int code],
           json_init [JString ''message'', JString message]]]"

text \<open>\<open>error_json\<close> of the commit handler; the null value when there is no error.\<close>

definition error_json :: "json result \<Rightarrow> json outcome" where
  "error_json m =
     (if \<not> has_value m then
        obind (expected_error m) (\<lambda>e. Ret (error_reply (error_value e) (error_message e)))
      else
        obind (expected_value m) (\<lambda>v.
          Ret (if json_empty v then error_reply (broker_int Broker_EMPTY_REPLAY) ''worker replay is empty''
               else JNull)))"

definition reply_json :: "json result \<Rightarrow> json outcome" where
  "reply_json m =
     obind (error_json m) (\<lambda>e. if json_empty e then expected_value m else Ret e)"

definition reply_envelope :: "commit_closure \<Rightarrow> json \<Rightarrow> envelope" where
  "reply_envelope c j = (mk_envelope (to_msgpack j))\<lparr>correlation_id := Some (commit_cid c)\<rparr>"

subsection \<open>The reference: what a worker's result stands for\<close>

fun reply_value :: "error + json \<Rightarrow> json" where
  "reply_value (Inl e) =
     JArray [JString ''error'',
       JObject [(''code'', JInteger (word_of_int (error_value e))), (''message'', JString (error_message e))]]"
| "reply_value (Inr v) =
     (if json_empty v then
        JArray [JString ''error'',
          JObject [(''code'', JInteger 317), (''message'', JString ''worker replay is empty'')]]
      else v)"

lemma error_reply_eq:
  "error_reply code message =
     JArray [JString ''error'', JObject [(''code'', JInteger (word_of_int code)), (''message'', JString message)]]"
  by (simp add: error_reply_def json_init_def json_of_int_def)

lemma not_empty_error_reply [simp]: "\<not> json_empty (error_reply code message)"
  by (simp add: error_reply_eq json_empty_def)

lemma reply_json_rep: "reply_json (rep s) = Ret (reply_value s)"
proof (cases s)
  case (Inl e)
  then show ?thesis
    by (simp add: reply_json_def error_json_def expected_error_def error_reply_eq json_empty_def)
next
  case (Inr v)
  then show ?thesis
    by (cases "json_empty v")
      (simp_all add: reply_json_def error_json_def expected_value_def error_reply_eq,
       simp_all add: json_empty_def extend_enum_def)
qed

lemma mk_replay_eq: "mk_replay = Ret \<lparr>replay_message = rep (Inr JNull), commit_handler = None, complete_handler = None\<rparr>"
  by (simp add: mk_replay_def del: rep.simps)

lemma storable_reply_value:
  assumes "case s of Inl e \<Rightarrow> length (error_message e) < 2 ^ 32 | Inr v \<Rightarrow> storable v"
  shows "storable (reply_value s)"
  using assms by (cases s) (auto simp: omap_ok_def)

end
