(* ===== verification/Owned.thy ===== *)
theory Owned
  imports Registry
begin

section \<open>Registries whose objects have owners outside\<close>

text \<open>
  A listener is owned by its registry entry and by the connection handlers that report errors to
  it (\<open>ConnectionHandler::deferred\<close>, \<open>src/src/broker_impl/handler.h\<close>). \<open>counted hash hp e r\<close> says
  that every use count of \<open>r\<close> is the number of owners: the entry, the holders \<open>c\<close> with
  \<open>hp c = Some p\<close>, and the pointer \<open>e\<close> somebody is about to give up.
\<close>

definition uses :: "'o registry \<Rightarrow> nat \<Rightarrow> nat" where
  "uses r p = (case objs r p of None \<Rightarrow> 0 | Some (x, n) \<Rightarrow> n)"

definition owners ::
  "(string \<Rightarrow> u64) \<Rightarrow> (nat \<Rightarrow> nat option) \<Rightarrow> nat option \<Rightarrow> 'o registry \<Rightarrow> nat \<Rightarrow> nat" where
  "owners hash hp e r p =
     (if \<exists>k. entry_ptr hash k r = Some p then 1 else 0) + card {c. hp c = Some p}
       + (if e = Some p then 1 else 0)"

definition counted ::
  "(string \<Rightarrow> u64) \<Rightarrow> (nat \<Rightarrow> nat option) \<Rightarrow> nat option \<Rightarrow> 'o registry \<Rightarrow> bool" where
  "counted hash hp e r \<longleftrightarrow>
     eternal_ok hash (entries r) \<and> finite {c. hp c \<noteq> None}
     \<and> (\<forall>j k p. entry_ptr hash j r = Some p \<longrightarrow> entry_ptr hash k r = Some p \<longrightarrow> j = k)
     \<and> (\<forall>p. objs r p \<noteq> None \<longrightarrow> p < next_ptr r)
     \<and> (\<forall>p x n. objs r p = Some (x, n) \<longrightarrow> 1 \<le> n)
     \<and> (\<forall>p. uses r p = owners hash hp e r p)"

lemma countedI:
  assumes "eternal_ok hash (entries r)" and "finite {c. hp c \<noteq> None}"
    and "\<And>j k p. entry_ptr hash j r = Some p \<Longrightarrow> entry_ptr hash k r = Some p \<Longrightarrow> j = k"
    and "\<And>p. objs r p \<noteq> None \<Longrightarrow> p < next_ptr r"
    and "\<And>p x n. objs r p = Some (x, n) \<Longrightarrow> 1 \<le> n"
    and "\<And>p. uses r p = owners hash hp e r p"
  shows "counted hash hp e r"
  using assms unfolding counted_def by blast

lemma countedD:
  assumes "counted hash hp e r"
  shows "eternal_ok hash (entries r)" and "finite {c. hp c \<noteq> None}"
    and "entry_ptr hash j r = Some p \<Longrightarrow> entry_ptr hash k r = Some p \<Longrightarrow> j = k"
    and "objs r p \<noteq> None \<Longrightarrow> p < next_ptr r"
    and "objs r p = Some (x, n) \<Longrightarrow> 1 \<le> n"
    and "uses r p = owners hash hp e r p"
  using assms unfolding counted_def by blast+

lemma counted_finite:
  assumes "counted hash hp e r" shows "finite {c. hp c = Some p}"
  by (rule finite_subset[OF _ countedD(2)[OF assms]]) auto

text \<open>Whatever somebody points to is alive.\<close>

lemma counted_live:
  assumes "counted hash hp e r"
  shows "entry_ptr hash k r = Some p \<Longrightarrow> \<exists>x n. objs r p = Some (x, n)"
    and "hp c = Some p \<Longrightarrow> \<exists>x n. objs r p = Some (x, n)"
    and "e = Some p \<Longrightarrow> \<exists>x n. objs r p = Some (x, n)"
proof -
  have alive: "\<exists>x n. objs r p = Some (x, n)" if "0 < owners hash hp e r p"
    using that countedD(6)[OF assms, of p] by (auto simp: uses_def split: option.splits)
  show "\<exists>x n. objs r p = Some (x, n)" if "entry_ptr hash k r = Some p"
    using that by (intro alive) (auto simp: owners_def)
  show "\<exists>x n. objs r p = Some (x, n)" if "hp c = Some p"
    using that counted_finite[OF assms, of p]
    by (intro alive) (auto simp: owners_def card_gt_0_iff)
  show "\<exists>x n. objs r p = Some (x, n)" if "e = Some p"
    using that by (intro alive) (auto simp: owners_def)
qed

lemma counted_reg_ok: "counted hash hp e r \<Longrightarrow> reg_ok hash r"
  by (rule reg_okI) (use counted_live(1) in \<open>force dest: countedD\<close>)+

lemma counted_new [simp]: "counted hash (\<lambda>_. None) None new_registry"
  by (rule countedI) (simp_all add: new_registry_def uses_def owners_def)

text \<open>A call on a live object.\<close>

lemma counted_update:
  assumes "counted hash hp e r" and "objs r p = Some (x, n)"
  shows "counted hash hp e (r\<lparr>objs := (objs r)(p := Some (x1, n))\<rparr>)"
proof -
  define r1 where "r1 = r\<lparr>objs := (objs r)(p := Some (x1, n))\<rparr>"
  have f: "entries r1 = entries r" "next_ptr r1 = next_ptr r" "objs r1 = (objs r)(p := Some (x1, n))"
    by (simp_all add: r1_def)
  have "counted hash hp e r1"
  proof (rule countedI)
    show "q < next_ptr r1" if "objs r1 q \<noteq> None" for q
      using that assms(2) countedD(4)[OF assms(1), of q] by (simp add: f split: if_splits)
    show "1 \<le> m" if "objs r1 q = Some (y, m)" for q y m
      using that assms(2) countedD(5)[OF assms(1)] by (auto simp: f split: if_splits)
    show "uses r1 q = owners hash hp e r1 q" for q
      using countedD(6)[OF assms(1), of q] assms(2) by (cases "q = p") (simp_all add: uses_def owners_def f)
    show "j = k" if "entry_ptr hash j r1 = Some q" "entry_ptr hash k r1 = Some q" for j k q
      using countedD(3)[OF assms(1), of j q k] that by (simp add: f)
  qed (simp_all add: f countedD(1,2)[OF assms(1)] del: not_None_eq)
  then show ?thesis by (simp add: r1_def)
qed

lemma reg_call_ptr:
  assumes "counted hash hp e r" and "entry_ptr hash k r = Some p" and "objs r p = Some (x, n)"
    and "m x = (x1, as, res)"
  shows "reg_call hash now k m r = (r\<lparr>objs := (objs r)(p := Some (x1, n))\<rparr>, as, res)"
  using assms(2-4) by (simp add: reg_call_eq[OF counted_reg_ok[OF assms(1)]] call_ptr_def)

lemma reg_call_null:
  assumes "reg_ok hash r" and "entry_ptr hash k r = None"
  shows "reg_call hash now k m r = (r, [], Undefined)"
  using assms(2) by (simp add: reg_call_eq[OF assms(1)] call_ptr_def)

text \<open>Removing an entry, and giving up a pointer.\<close>

lemma counted_unlink:
  assumes "counted hash hp None r" and "entry_ptr hash k r = Some p"
  shows "counted hash hp (Some p) (r\<lparr>entries := snd (cache_del hash k (entries r))\<rparr>)"
    and "cache_live hash (snd (cache_del hash k (entries r))) = (cache_live hash (entries r))(k := None)"
proof -
  note ok = countedD(1)[OF assms(1)]
  show live: "cache_live hash (snd (cache_del hash k (entries r))) = (cache_live hash (entries r))(k := None)"
    by (rule ptr_cache.del_view[OF ok])
  have k: "entry_ptr hash j r = Some p \<longleftrightarrow> j = k" for j
    using countedD(3)[OF assms(1) assms(2), of j] assms(2) by blast
  let ?r = "r\<lparr>entries := snd (cache_del hash k (entries r))\<rparr>"
  have ex: "(\<exists>j. entry_ptr hash j ?r = Some q) \<longleftrightarrow> (\<exists>j. entry_ptr hash j r = Some q) \<and> q \<noteq> p" for q
  proof (cases "q = p")
    case True
    then show ?thesis using k by (auto simp: live)
  next
    case False
    have "j \<noteq> k" if "entry_ptr hash j r = Some q" for j using that assms(2) False by auto
    with False show ?thesis by (auto simp: live)
  qed
  show "counted hash hp (Some p) ?r"
  proof (rule countedI)
    show "eternal_ok hash (entries ?r)"
      by simp (rule ptr_cache.del_inv[OF ok])
    show "i = j" if "entry_ptr hash i ?r = Some q" "entry_ptr hash j ?r = Some q" for i j q
      using countedD(3)[OF assms(1), of i q j] that by (simp add: live split: if_splits)
    show "uses ?r q = owners hash hp (Some p) ?r q" for q
      using countedD(6)[OF assms(1), of q] assms(2) unfolding owners_def ex
      by (auto simp: uses_def)
  qed (use assms(1) in \<open>auto dest: countedD\<close>)
qed

lemma counted_release:
  assumes "counted hash hp (Some p) r"
  obtains x n where "objs r p = Some (x, n)" "n = Suc (owners hash hp None r p)"
    "reg_release p r =
      (if owners hash hp None r p = 0 then (Some x, r\<lparr>objs := (objs r)(p := None)\<rparr>)
       else (None, r\<lparr>objs := (objs r)(p := Some (x, n - 1))\<rparr>))"
    "counted hash hp None (snd (reg_release p r))"
proof -
  from counted_live(3)[OF assms refl] obtain x n where x: "objs r p = Some (x, n)" by blast
  have n: "n = Suc (owners hash hp None r p)"
    using countedD(6)[OF assms, of p] x by (simp add: uses_def owners_def)
  have r: "reg_release p r =
      (if owners hash hp None r p = 0 then (Some x, r\<lparr>objs := (objs r)(p := None)\<rparr>)
       else (None, r\<lparr>objs := (objs r)(p := Some (x, n - 1))\<rparr>))"
    using x n by (simp add: reg_release_def)
  define r1 where "r1 = snd (reg_release p r)"
  have f: "entries r1 = entries r" "next_ptr r1 = next_ptr r"
    "objs r1 = (objs r)(p := (if owners hash hp None r p = 0 then None else Some (x, n - 1)))"
    by (simp_all add: r1_def r)
  have "counted hash hp None r1"
  proof (rule countedI)
    show "j = k" if "entry_ptr hash j r1 = Some q" "entry_ptr hash k r1 = Some q" for j k q
      using countedD(3)[OF assms, of j q k] that by (simp add: f)
    show "q < next_ptr r1" if "objs r1 q \<noteq> None" for q
      using that x countedD(4)[OF assms, of q] by (simp add: f split: if_splits)
    show "1 \<le> m" if "objs r1 q = Some (y, m)" for q y m
      using that x n countedD(5)[OF assms] by (auto simp: f split: if_splits)
    show "uses r1 q = owners hash hp None r1 q" for q
      using countedD(6)[OF assms, of q] x n by (simp add: uses_def owners_def f)
  qed (simp_all add: f countedD(1,2)[OF assms] del: not_None_eq)
  with x n r show thesis by (intro that) (auto simp: r1_def)
qed

text \<open>A holder takes another pointer: the count of the new object goes up, its old pointer is given up.\<close>

lemma card_holders:
  assumes "finite {c. hp c = Some q}"
  shows "card {c. (hp(a := v)) c = Some q} + (if hp a = Some q then 1 else 0) =
    card {c. hp c = Some q} + (if v = Some q then 1 else (0::nat))"
proof -
  define S where "S = {c. hp c = Some q} - {a}"
  have fin: "finite S" "a \<notin> S" using assms by (simp_all add: S_def)
  have 1: "{c. (hp(a := v)) c = Some q} = (if v = Some q then insert a S else S)" by (auto simp: S_def)
  have 2: "{c. hp c = Some q} = (if hp a = Some q then insert a S else S)" by (auto simp: S_def)
  show ?thesis unfolding 1 2 using fin by simp
qed

definition acquire_opt :: "nat option \<Rightarrow> 'o registry \<Rightarrow> 'o registry" where
  "acquire_opt v r = (case v of None \<Rightarrow> r | Some p \<Rightarrow> reg_acquire p r)"

lemma acquire_opt_fields [simp]:
  "entries (acquire_opt v r) = entries r" "next_ptr (acquire_opt v r) = next_ptr r"
  by (simp_all add: acquire_opt_def reg_acquire_def split: option.split)

lemma uses_acquire:
  assumes "\<And>p. v = Some p \<Longrightarrow> objs r p \<noteq> None"
  shows "uses (acquire_opt v r) q = uses r q + (if v = Some q then 1 else 0)"
  using assms by (cases v) (auto simp: acquire_opt_def reg_acquire_def uses_def split: option.splits)

lemma counted_hold:
  assumes "counted hash hp None r" and "\<And>p. v = Some p \<Longrightarrow> objs r p \<noteq> None"
  shows "counted hash (hp(a := v)) (hp a) (acquire_opt v r)"
proof (rule countedI)
  have "{c. (hp(a := v)) c \<noteq> None} \<subseteq> insert a {c. hp c \<noteq> None}" by auto
  then show "finite {c. (hp(a := v)) c \<noteq> None}"
    by (rule finite_subset) (use countedD(2)[OF assms(1)] in simp)
  show "p < next_ptr (acquire_opt v r)" if "objs (acquire_opt v r) p \<noteq> None" for p
    using that countedD(4)[OF assms(1), of p]
    by (auto simp: acquire_opt_def reg_acquire_def split: option.splits if_splits)
  show "1 \<le> n" if "objs (acquire_opt v r) p = Some (x, n)" for p x n
    using that countedD(5)[OF assms(1), of p]
    by (auto simp: acquire_opt_def reg_acquire_def split: option.splits if_splits)
  show "uses (acquire_opt v r) p = owners hash (hp(a := v)) (hp a) (acquire_opt v r) p" for p
    using countedD(6)[OF assms(1), of p] card_holders[OF counted_finite[OF assms(1)], where q = p and a = a and v = v]
    by (simp only: uses_acquire[OF assms(2)] owners_def acquire_opt_fields) (simp split: if_splits)
qed (use countedD[OF assms(1)] in auto)

text \<open>A new object under a free key.\<close>

lemma counted_set:
  assumes "counted hash hp None r" and "entry_ptr hash k r = None"
  shows "\<exists>r1. reg_set hash k x r = (None, r1) \<and> counted hash hp None r1
    \<and> cache_live hash (entries r1) = (cache_live hash (entries r))(k \<mapsto> next_ptr r)
    \<and> objs r1 = (objs r)(next_ptr r \<mapsto> (x, 1))"
proof -
  define p where "p = next_ptr r"
  define r1 where "r1 = r\<lparr>entries := snd (cache_set hash k (Some p) 0 WRITE_ALWAYS (entries r)),
    objs := (objs r)(p := Some (x, 1)), next_ptr := p + 1\<rparr>"
  note ok = countedD(1)[OF assms(1)]
  have f: "next_ptr r1 = p + 1" "objs r1 = (objs r)(p := Some (x, 1))"
    "entries r1 = snd (cache_set hash k (Some p) 0 WRITE_ALWAYS (entries r))"
    by (simp_all add: r1_def)
  have live: "cache_live hash (entries r1) = (cache_live hash (entries r))(k := Some p)"
    unfolding f by (rule ptr_cache.put_view[OF ok])
  have free: "objs r p = None" using countedD(4)[OF assms(1), of p] by (cases "objs r p") (auto simp: p_def)
  have "owners hash hp None r p = 0" using countedD(6)[OF assms(1), of p] free by (simp add: uses_def)
  then have fresh: "entry_ptr hash j r \<noteq> Some p" "card {c. hp c = Some p} = 0" for j
    by (auto simp: owners_def split: if_splits)
  have "reg_set hash k x r = (None, r1)"
    by (simp add: reg_set_def reg_make_def release_old_def assms(2) r1_def p_def)
  moreover have "counted hash hp None r1"
  proof (rule countedI)
    show "eternal_ok hash (entries r1)" unfolding f by (rule ptr_cache.put_inv[OF ok])
    show "i = j" if "entry_ptr hash i r1 = Some q" "entry_ptr hash j r1 = Some q" for i j q
      using countedD(3)[OF assms(1), of i q j] fresh(1) that by (auto simp: live split: if_splits)
    show "q < next_ptr r1" if "objs r1 q \<noteq> None" for q
      using countedD(4)[OF assms(1), of q] that by (auto simp: f p_def split: if_splits)
    show "1 \<le> m" if "objs r1 q = Some (y, m)" for q y m
      using that countedD(5)[OF assms(1)] by (auto simp: f split: if_splits)
    show "uses r1 q = owners hash hp None r1 q" for q
    proof (cases "q = p")
      case True
      have "cache_live hash (entries r1) k = Some p" by (simp add: live)
      then have "\<exists>k. cache_live hash (entries r1) k = Some p" by blast
      with True fresh(2) show ?thesis by (simp only: uses_def owners_def) (simp add: f)
    next
      case False
      have "j \<noteq> k" if "entry_ptr hash j r = Some q" for j using that assms(2) by auto
      with False have "(\<exists>j. cache_live hash (entries r1) j = Some q) \<longleftrightarrow> (\<exists>j. entry_ptr hash j r = Some q)"
        by (auto simp: live)
      with False countedD(6)[OF assms(1), of q] show ?thesis by (simp add: uses_def owners_def f)
    qed
  qed (rule countedD(2)[OF assms(1)])
  ultimately show ?thesis using live f by (auto simp: p_def)
qed

end
