(* ===== verification/Listen.thy ===== *)
theory Listen
  imports Fetch Replay Owned
begin

section \<open>listen: messages, replies and connection errors\<close>

text \<open>
  Models \<open>BrokerImpl::listen_messages\<close> of \<open>src/src/broker_impl/broker.cc\<close> with every callback it
  registers, \<open>ReplayImpl::commit\<close> and the two callbacks of the reply's transaction,
  \<open>DeferredListening\<close> of \<open>src/src/deferred_mpl/deferred.h\<close>, \<open>set_deferred\<close> and \<open>reset_deferred\<close> of
  \<open>ConnectionCache\<close> and \<open>onError\<close> and \<open>onLost\<close> of \<open>ConnectionHandler\<close>. A listener is owned by its
  registry entry and by the handler of the connection it is the error target of. Replies are raw
  pointers: the heap of replies says which are alive. \<open>tid\<close> is the thread a step runs on: the
  connection a callback works with is the one of that thread.
\<close>

subsection \<open>State\<close>

type_synonym 'h listen_payload = "rpc result \<times> nat"
type_synonym 'h listen_throws = "('h, rpc result \<times> nat) throws"
type_synonym 'h listen_action = "('h, rpc result \<times> nat) action"

record 'h listening =
  listen_deferred :: "'h deferred"
  listen_channel :: chan

definition mk_listening :: "chan \<Rightarrow> 'h listening" where
  "mk_listening ch = \<lparr>listen_deferred = mk_deferred (common_err Common_OK), listen_channel = ch\<rparr>"

definition on_listening ::
  "('h deferred \<Rightarrow> 'h deferred \<times> ('h, rpc result \<times> nat) call list \<times> unit outcome) \<Rightarrow>
   'h listening \<Rightarrow> 'h listening \<times> 'h listen_action list \<times> unit outcome" where
  "on_listening m x =
     (case m (listen_deferred x) of (d, cs, r) \<Rightarrow> (x\<lparr>listen_deferred := d\<rparr>, map Callback cs, r))"

definition destroy_listening :: "'h listen_throws \<Rightarrow> 'h listening \<Rightarrow> 'h listen_action list \<times> unit outcome" where
  "destroy_listening thr x =
     (case destroy_deferred thr (listen_deferred x) of
        (cs, r) \<Rightarrow> (Command (Close_channel (listen_channel x)) # map Callback cs, r))"

text \<open>
  \<open>srv_commits\<close> holds, for each channel with a transaction under way, the reply pointer and the
  listener id its two callbacks captured.
\<close>

record 'h server =
  srv_conns :: connections
  srv_listeners :: "'h listening registry"
  srv_replays :: "nat \<Rightarrow> 'h replay option"
  next_replay :: nat
  srv_commits :: "chan \<Rightarrow> (nat \<times> string) option"

type_synonym 'h server_step = "('h server, 'h listen_action) step"

text \<open>What the application handed in may throw: its callbacks and its completion handlers.\<close>

record 'h app =
  app_throws :: "'h listen_throws"
  complete_throws :: "'h \<Rightarrow> exn option"

subsection \<open>Steps on the parts\<close>

definition on_listeners :: "('h listening registry, 'h listen_action) step \<Rightarrow> 'h server_step" where
  "on_listeners f s = (case f (srv_listeners s) of (l, as, r) \<Rightarrow> (s\<lparr>srv_listeners := l\<rparr>, as, r))"

text \<open>\<open>listeners_.get(id)->m()\<close>, with no test that there is one.\<close>

definition listener_call ::
  "env \<Rightarrow> string \<Rightarrow> ('h listening \<Rightarrow> 'h listening \<times> 'h listen_action list \<times> unit outcome) \<Rightarrow> 'h server_step" where
  "listener_call env cid m = on_listeners (reg_call (str_hash env) (clock env) cid m)"

definition listener_del :: "env \<Rightarrow> 'h app \<Rightarrow> string \<Rightarrow> 'h server_step" where
  "listener_del env app cid =
     on_listeners (reg_del_step (str_hash env) cid (destroy_listening (app_throws app)))"

definition release_listener :: "'h app \<Rightarrow> nat option \<Rightarrow> 'h server_step" where
  "release_listener app old =
     on_listeners (\<lambda>l. destroy_opt (destroy_listening (app_throws app)) (release_old old l))"

text \<open>
  Assigning the \<open>shared_ptr\<close> of the connection's handler: the new pointer is acquired, then the
  old one given up.
\<close>

definition set_deferred :: "env \<Rightarrow> 'h app \<Rightarrow> thread_id \<Rightarrow> nat option \<Rightarrow> 'h server_step" where
  "set_deferred env app tid p s =
     (case assign_deferred env tid p (srv_conns s) of
        (cs, as, old, r) \<Rightarrow>
          (case r of
             Ret _ \<Rightarrow>
               (case release_listener app old
                       (s\<lparr>srv_conns := cs,
                          srv_listeners := acquire_opt p (srv_listeners s)\<rparr>) of
                  (s1, bs, r1) \<Rightarrow> (s1, map Command as @ bs, r1))
           | _ \<Rightarrow> (s\<lparr>srv_conns := cs\<rparr>, map Command as, Undefined)))"

definition reset_deferred :: "env \<Rightarrow> 'h app \<Rightarrow> thread_id \<Rightarrow> 'h server_step" where
  "reset_deferred env app tid = set_deferred env app tid None"

subsection \<open>Replies\<close>

text \<open>\<open>delete r\<close>\<close>

definition delete_replay :: "'h app \<Rightarrow> nat \<Rightarrow> 'h server_step" where
  "delete_replay app p s =
     (case srv_replays s p of
        None \<Rightarrow> (s, [], Undefined)
      | Some x \<Rightarrow>
          (case destroy_replay (complete_throws app) p x of
             (as, r) \<Rightarrow> (s\<lparr>srv_replays := (srv_replays s)(p := None)\<rparr>, as, r)))"

definition close_channel :: "chan \<Rightarrow> 'h server_step" where
  "close_channel ch = act [Command (Close_channel ch)]"

text \<open>The commit handler, on reply \<open>p\<close>: the value is built first, then the channel is opened.\<close>

definition commit_body :: "env \<Rightarrow> thread_id \<Rightarrow> commit_closure \<Rightarrow> nat \<Rightarrow> 'h server_step" where
  "commit_body env tid c p s =
     (case srv_replays s p of
        None \<Rightarrow> (s, [], Undefined)
      | Some x \<Rightarrow>
          (case reply_json (replay_message x) of
             Ret j \<Rightarrow>
               (case new_channel env tid (srv_conns s) of
                  (cs, as, Ret ch) \<Rightarrow>
                    (s\<lparr>srv_conns := cs, srv_commits := (srv_commits s)(ch := Some (p, commit_listener c))\<rparr>,
                     map Command (as @
                       [Start_transaction ch, Publish ch [] (commit_reply_to c) (reply_envelope c j) {},
                        Commit_transaction ch]), Ret ())
                | (cs, as, Raise e) \<Rightarrow> (s\<lparr>srv_conns := cs\<rparr>, map Command as, Raise e)
                | (cs, as, _) \<Rightarrow> (s\<lparr>srv_conns := cs\<rparr>, map Command as, Undefined))
           | Raise e \<Rightarrow> (s, [], Raise e)
           | Abort \<Rightarrow> (s, [], Abort)
           | Undefined \<Rightarrow> (s, [], Undefined)))"

definition update_replay :: "nat \<Rightarrow> ('h replay \<Rightarrow> 'h replay) \<Rightarrow> 'h server_step" where
  "update_replay p f s =
     (case srv_replays s p of
        None \<Rightarrow> (s, [], Undefined)
      | Some x \<Rightarrow> (s\<lparr>srv_replays := (srv_replays s)(p := Some (f x))\<rparr>, [], Ret ()))"

text \<open>
  \<open>ReplayImpl::commit\<close>. The two callbacks of the transaction are steps of their own, run after their
  registration; \<open>replay_commit_refused\<close> in \<open>Serving\<close> is the case of a library that runs one inside it.
\<close>

definition replay_commit :: "env \<Rightarrow> thread_id \<Rightarrow> nat \<Rightarrow> 'h server_step" where
  "replay_commit env tid p s =
     (case srv_replays s p of
        None \<Rightarrow> (s, [], Undefined)
      | Some x \<Rightarrow>
          (case commit_handler x of
             None \<Rightarrow> (s, [], Ret ())
           | Some c \<Rightarrow>
               andthen (commit_body env tid c p) (update_replay p (\<lambda>x. x\<lparr>complete_handler := None\<rparr>)) s))"

text \<open>
  \<open>commitTransaction().onSuccess\<close> and \<open>.onError\<close> of the reply's channel; the channel is deleted
  in both and calls nothing afterwards.
\<close>

definition with_commit :: "chan \<Rightarrow> (nat \<Rightarrow> string \<Rightarrow> 'h server_step) \<Rightarrow> 'h server_step" where
  "with_commit ch f s =
     (case srv_commits s ch of
        None \<Rightarrow> (s, [], Ret ())
      | Some (p, cid) \<Rightarrow> f p cid (s\<lparr>srv_commits := (srv_commits s)(ch := None)\<rparr>))"

definition commit_ok :: "'h app \<Rightarrow> chan \<Rightarrow> 'h server_step" where
  "commit_ok app ch =
     with_commit ch (\<lambda>p cid. andthen (delete_replay app p) (close_channel ch))"

definition commit_failed :: "env \<Rightarrow> 'h app \<Rightarrow> chan \<Rightarrow> string \<Rightarrow> 'h server_step" where
  "commit_failed env app ch message =
     with_commit ch (\<lambda>p cid.
       andthen (listener_call env cid (on_listening (report_error (app_throws app) (broker_err Broker_PUBLISH message))))
         (andthen (delete_replay app p) (close_channel ch)))"

subsection \<open>The callbacks of listen_messages\<close>

text \<open>What the callbacks of one listener capture.\<close>

record listener =
  lst_id :: string
  lst_exchange :: string
  lst_queue :: string

record delivery =
  delivery_tag :: u64
  delivery_body :: "u8 list"
  delivery_key :: string
  delivery_reply_to :: string
  delivery_cid :: string

definition report_listen_error ::
  "env \<Rightarrow> 'h app \<Rightarrow> string \<Rightarrow> error \<Rightarrow> 'h server_step" where
  "report_listen_error env app cid e = listener_call env cid (on_listening (report_error (app_throws app) e))"

definition listen_channel_error :: "env \<Rightarrow> 'h app \<Rightarrow> listener \<Rightarrow> string \<Rightarrow> 'h server_step" where
  "listen_channel_error env app l message =
     report_listen_error env app (lst_id l) (broker_err Broker_CHANNEL_MESSAGE message)"

definition listen_declare_failed :: "env \<Rightarrow> 'h app \<Rightarrow> listener \<Rightarrow> string \<Rightarrow> 'h server_step" where
  "listen_declare_failed env app l message =
     report_listen_error env app (lst_id l) (broker_err Broker_QUEUE_DECLARATION message)"

text \<open>The text has four places for strings; \<open>error_string\<close> is given two arguments.\<close>

definition listen_bind_failed :: "env \<Rightarrow> 'h app \<Rightarrow> listener \<Rightarrow> string \<Rightarrow> 'h server_step" where
  "listen_bind_failed env app l message s =
     (case error_string ''%s: %s:%s <- %s'' [message, lst_exchange l] of
        Ret t \<Rightarrow> report_listen_error env app (lst_id l) (broker_err Broker_QUEUE_BINDING t) s
      | _ \<Rightarrow> (s, [], Undefined))"

text \<open>
  \<open>new ReplayImpl()\<close>, its commit handler, and the report of the data. An exception of the data
  callback resets the error target of the connection, drops the listener and ends the process.
\<close>

definition listen_data :: "env \<Rightarrow> 'h app \<Rightarrow> thread_id \<Rightarrow> listener \<Rightarrow> delivery \<Rightarrow> json \<Rightarrow> 'h server_step" where
  "listen_data env app tid l d received s =
     (case mk_replay of
        Ret x \<Rightarrow>
          (let p = next_replay s;
               c = \<lparr>commit_cid = delivery_cid d, commit_reply_to = delivery_reply_to d, commit_listener = lst_id l\<rparr>;
               s1 = s\<lparr>srv_replays := (srv_replays s)(p := Some (set_commit c x)), next_replay := p + 1\<rparr>
           in try_catch
                (listener_call env (lst_id l)
                   (\<lambda>y. case expected_of_value (mk_rpc (delivery_key d) received) of
                          Ret request \<Rightarrow> on_listening (report_data (app_throws app) (request, p)) y
                        | _ \<Rightarrow> (y, [], Undefined)))
                (\<lambda>_. andthen (reset_deferred env app tid) (andthen (listener_del env app (lst_id l)) abort_step))
                s1)
      | _ \<Rightarrow> (s, [], Undefined))"

text \<open>\<open>consume(...).onReceived\<close>\<close>

definition listen_received :: "env \<Rightarrow> 'h app \<Rightarrow> thread_id \<Rightarrow> listener \<Rightarrow> delivery \<Rightarrow> 'h server_step" where
  "listen_received env app tid l d =
     andthen
       (listener_call env (lst_id l) (\<lambda>x. (x, [Command (Ack (listen_channel x) (delivery_tag d))], Ret ())))
       (case from_msgpack (delivery_body d) of
          Inl e \<Rightarrow> report_listen_error env app (lst_id l) (broker_err Broker_CHANNEL_MESSAGE (error_text e))
        | Inr received \<Rightarrow>
            andthen (reset_deferred env app tid) (listen_data env app tid l d received))"

definition listen_consume_ok :: "env \<Rightarrow> 'h app \<Rightarrow> listener \<Rightarrow> 'h server_step" where
  "listen_consume_ok env app l = listener_call env (lst_id l) (on_listening (report_success (app_throws app)))"

definition listen_consume_failed :: "env \<Rightarrow> 'h app \<Rightarrow> thread_id \<Rightarrow> listener \<Rightarrow> string \<Rightarrow> 'h server_step" where
  "listen_consume_failed env app tid l message =
     andthen (reset_deferred env app tid)
       (andthen (report_listen_error env app (lst_id l) (broker_err Broker_QUEUE_CONSUMING message))
          (listener_del env app (lst_id l)))"

subsection \<open>Errors of a connection\<close>

text \<open>\<open>onError\<close> and \<open>onLost\<close> of the handler of connection \<open>c\<close>\<close>

definition report_connection_error :: "'h app \<Rightarrow> conn \<Rightarrow> error \<Rightarrow> 'h server_step" where
  "report_connection_error app c e s =
     (case conn_objs (srv_conns s) c of
        None \<Rightarrow> (s, [], Undefined)
      | Some cn \<Rightarrow>
          (case handler_deferred cn of
             None \<Rightarrow> (s, [], Ret ())
           | Some p \<Rightarrow> on_listeners (call_ptr (Some p) (on_listening (report_error (app_throws app) e))) s))"

definition onError :: "'h app \<Rightarrow> conn \<Rightarrow> string \<Rightarrow> 'h server_step" where
  "onError app c message = report_connection_error app c (broker_err Broker_CONNECTION message)"

definition onLost :: "'h app \<Rightarrow> conn \<Rightarrow> 'h server_step" where
  "onLost app c = report_connection_error app c (broker_err Broker_CONNECTION_LOST ''connection lost'')"

subsection \<open>listen_messages\<close>

definition listen_messages ::
  "env \<Rightarrow> 'h app \<Rightarrow> thread_id \<Rightarrow> string \<Rightarrow> string \<Rightarrow> string list \<Rightarrow> int \<times> 'h server \<Rightarrow>
   (int \<times> 'h server) \<times> 'h listen_action list \<times> nat outcome" where
  "listen_messages env app tid exchange queue keys ns =
     (case ns of (n, s) \<Rightarrow>
        (case create_unique_id n of
           Ret (cid, n1) \<Rightarrow>
             (case new_channel env tid (srv_conns s) of
                (cs, as, Ret ch) \<Rightarrow>
                  (case on_listeners (\<lambda>l. destroy_opt (destroy_listening (app_throws app))
                                            (reg_set (str_hash env) cid (mk_listening ch) l)) (s\<lparr>srv_conns := cs\<rparr>) of
                     (s1, bs, Ret _) \<Rightarrow>
                       (case reg_get (str_hash env) (clock env) cid (srv_listeners s1) of
                          (Some p, l2) \<Rightarrow>
                            (case set_deferred env app tid (Some p) (s1\<lparr>srv_listeners := l2\<rparr>) of
                               (s2, es, Ret _) \<Rightarrow>
                                 ((n1, s2), map Command as @ bs @ es @ map Command
                                    (Declare_queue ch queue {durable}
                                     # map (\<lambda>k. Bind_queue ch exchange queue k) keys @ [Consume ch queue {}]),
                                  Ret p)
                             | (s2, es, _) \<Rightarrow> ((n1, s2), map Command as @ bs @ es, Undefined))
                        | (None, l2) \<Rightarrow> ((n1, s1\<lparr>srv_listeners := l2\<rparr>), map Command as @ bs, Undefined))
                   | (s1, bs, _) \<Rightarrow> ((n1, s1), map Command as @ bs, Abort))
              | (cs, as, Raise e) \<Rightarrow> ((n1, s\<lparr>srv_conns := cs\<rparr>), map Command as, Raise e)
              | (cs, as, _) \<Rightarrow> ((n1, s\<lparr>srv_conns := cs\<rparr>), map Command as, Undefined))
         | _ \<Rightarrow> (ns, [], Undefined)))"

subsection \<open>Events\<close>

text \<open>
  What can happen to a server: the AMQP library runs a callback of a listener, of a reply's
  transaction or of a connection, on the thread of the loop, or the application works on a reply
  it was given, on any thread.
\<close>

datatype listen_event =
    Channel_error string
  | Declare_failed string
  | Bind_failed string
  | Delivered delivery
  | Consumer_ok
  | Consumer_failed string

fun listen_step :: "env \<Rightarrow> 'h app \<Rightarrow> thread_id \<Rightarrow> listener \<Rightarrow> listen_event \<Rightarrow> 'h server_step" where
  "listen_step env app tid l (Channel_error m) = listen_channel_error env app l m"
| "listen_step env app tid l (Declare_failed m) = listen_declare_failed env app l m"
| "listen_step env app tid l (Bind_failed m) = listen_bind_failed env app l m"
| "listen_step env app tid l (Delivered d) = listen_received env app tid l d"
| "listen_step env app tid l Consumer_ok = listen_consume_ok env app l"
| "listen_step env app tid l (Consumer_failed m) = listen_consume_failed env app tid l m"

datatype 'h server_event =
    Listener_event listener listen_event
  | Commit_done chan
  | Commit_refused chan string
  | Connection_error conn string
  | Connection_lost conn
  | Set_message nat "json result"
  | Set_complete nat 'h
  | Commit_replay thread_id nat

fun server_step :: "env \<Rightarrow> 'h app \<Rightarrow> thread_id \<Rightarrow> 'h server_event \<Rightarrow> 'h server_step" where
  "server_step env app tid (Listener_event l ev) = listen_step env app tid l ev"
| "server_step env app tid (Commit_done ch) = commit_ok app ch"
| "server_step env app tid (Commit_refused ch m) = commit_failed env app ch m"
| "server_step env app tid (Connection_error c m) = onError app c m"
| "server_step env app tid (Connection_lost c) = onLost app c"
| "server_step env app tid (Set_message p m) = update_replay p (\<lambda>x. x\<lparr>replay_message := m\<rparr>)"
| "server_step env app tid (Set_complete p h) = update_replay p (on_complete h)"
| "server_step env app tid (Commit_replay t p) = replay_commit env t p"

definition server_run :: "env \<Rightarrow> 'h app \<Rightarrow> thread_id \<Rightarrow> 'h server_event list \<Rightarrow> 'h server_step" where
  "server_run env app tid evs = run_steps (map (server_step env app tid) evs)"

subsection \<open>Invariant\<close>

text \<open>
  Connections are well formed, every use count of a listener is the number of its owners, and
  replies are allocated in order.
\<close>

abbreviation handlers :: "'h server \<Rightarrow> conn \<Rightarrow> nat option" where
  "handlers s \<equiv> handler_ptr (srv_conns s)"

abbreviation lview :: "env \<Rightarrow> 'h server \<Rightarrow> string \<Rightarrow> 'h listening option" where
  "lview env s \<equiv> reg_view (str_hash env) (srv_listeners s)"

definition server_ok :: "env \<Rightarrow> 'h server \<Rightarrow> bool" where
  "server_ok env s \<longleftrightarrow>
     connections_ok env (srv_conns s)
     \<and> counted (str_hash env) (handlers s) None (srv_listeners s)
     \<and> (\<forall>p. srv_replays s p \<noteq> None \<longrightarrow> p < next_replay s)"

lemma server_okD:
  assumes "server_ok env s"
  shows "connections_ok env (srv_conns s)" "counted (str_hash env) (handlers s) None (srv_listeners s)"
    "srv_replays s p \<noteq> None \<Longrightarrow> p < next_replay s" "reg_ok (str_hash env) (srv_listeners s)"
  using assms counted_reg_ok unfolding server_ok_def by blast+

lemma server_okI:
  assumes "connections_ok env (srv_conns s)" and "counted (str_hash env) (handlers s) None (srv_listeners s)"
    and "\<And>p. srv_replays s p \<noteq> None \<Longrightarrow> p < next_replay s"
  shows "server_ok env s"
  using assms unfolding server_ok_def by blast

text \<open>The registry with the object at \<open>p\<close> replaced.\<close>

definition with_object :: "nat \<Rightarrow> 'h listening \<Rightarrow> nat \<Rightarrow> 'h server \<Rightarrow> 'h server" where
  "with_object p x n s =
     s\<lparr>srv_listeners := (srv_listeners s)\<lparr>objs := (objs (srv_listeners s))(p := Some (x, n))\<rparr>\<rparr>"

lemma with_object_fields [simp]:
  "srv_conns (with_object p x n s) = srv_conns s" "srv_replays (with_object p x n s) = srv_replays s"
  "next_replay (with_object p x n s) = next_replay s" "srv_commits (with_object p x n s) = srv_commits s"
  "entries (srv_listeners (with_object p x n s)) = entries (srv_listeners s)"
  "objs (srv_listeners (with_object p x n s)) = (objs (srv_listeners s))(p := Some (x, n))"
  by (simp_all add: with_object_def)

lemma with_object_ok:
  assumes "server_ok env s" and "objs (srv_listeners s) p = Some (x, n)"
  shows "server_ok env (with_object p x1 n s)"
  using assms counted_update[OF server_okD(2)[OF assms(1)] assms(2), of x1]
  by (auto simp: server_ok_def with_object_def)

lemma with_object_view:
  assumes "server_ok env s" and "entry_ptr (str_hash env) k (srv_listeners s) = Some p"
  shows "lview env (with_object p x n s) = (lview env s)(k := Some x)"
proof
  fix j
  have "entry_ptr (str_hash env) j (srv_listeners s) = Some p \<longleftrightarrow> j = k"
    using countedD(3)[OF server_okD(2)[OF assms(1)] assms(2), of j] assms(2) by blast
  then show "lview env (with_object p x n s) j = ((lview env s)(k := Some x)) j"
    using assms(2) by (auto simp: reg_view_def split: option.split)
qed

lemma lview_ptr:
  assumes "server_ok env s" and "lview env s k = Some x"
  obtains p n where "entry_ptr (str_hash env) k (srv_listeners s) = Some p" "objs (srv_listeners s) p = Some (x, n)"
  using assms(2) by (auto simp: reg_view_def split: option.splits)

lemma lview_None:
  "server_ok env s \<Longrightarrow> lview env s k = None \<longleftrightarrow> entry_ptr (str_hash env) k (srv_listeners s) = None"
  by (rule view_ptr[OF server_okD(4)])

text \<open>A call through the registry, whether the listener is there or not.\<close>

lemma listener_call_absent:
  assumes "server_ok env s" and "lview env s k = None"
  shows "listener_call env k m s = (s, [], Undefined)"
  using reg_call_null[OF server_okD(4)[OF assms(1)], where k = k and now = "clock env" and m = m]
    assms(2) lview_None[OF assms(1)]
  by (simp add: listener_call_def on_listeners_def)

lemma listener_call_present:
  assumes "server_ok env s" and "entry_ptr (str_hash env) k (srv_listeners s) = Some p"
    and "objs (srv_listeners s) p = Some (x, n)" and "m x = (x1, as, res)"
  shows "listener_call env k m s = (with_object p x1 n s, as, res)"
  using reg_call_ptr[OF server_okD(2)[OF assms(1)] assms(2,3), where m = m, OF assms(4)]
  by (simp add: listener_call_def on_listeners_def with_object_def)

lemma listener_call_ok: "server_ok env s \<Longrightarrow> server_ok env (fst (listener_call env k m s))"
proof (cases "lview env s k")
  case None
  assume ok: "server_ok env s"
  show ?thesis by (simp add: listener_call_absent[OF ok None] ok)
next
  case (Some x)
  assume ok: "server_ok env s"
  from lview_ptr[OF ok Some] obtain p n where p: "entry_ptr (str_hash env) k (srv_listeners s) = Some p"
    "objs (srv_listeners s) p = Some (x, n)" .
  obtain x1 as res where m: "m x = (x1, as, res)" by (metis prod.exhaust)
  show ?thesis by (simp add: listener_call_present[where m = m, OF ok p m] with_object_ok[OF ok p(2)])
qed

text \<open>Dropping a listener: its entry goes, the object stays while a connection reports to it.\<close>

lemma listener_del_spec:
  assumes "server_ok env s" and "entry_ptr (str_hash env) k (srv_listeners s) = Some p"
    and "objs (srv_listeners s) p = Some (x, n)"
  obtains s1 where "server_ok env s1" "srv_conns s1 = srv_conns s" "srv_replays s1 = srv_replays s"
    "next_replay s1 = next_replay s" "srv_commits s1 = srv_commits s"
    "lview env s1 = (lview env s)(k := None)"
    "listener_del env app k s =
       (if \<exists>c. handlers s c = Some p then (s1, [], Ret ())
        else (s1, fst (destroy_listening (app_throws app) x), snd (destroy_listening (app_throws app) x)))"
    "(\<exists>c. handlers s c = Some p) \<Longrightarrow> \<exists>m. objs (srv_listeners s1) p = Some (x, m)"
proof -
  let ?l = "srv_listeners s"
  define u where "u = ?l\<lparr>entries := snd (cache_del (str_hash env) k (entries ?l))\<rparr>"
  note un = counted_unlink[OF server_okD(2)[OF assms(1)] assms(2), folded u_def]
  have u: "objs u = objs ?l" by (simp add: u_def)
  have live: "cache_live (str_hash env) (entries u) = (cache_live (str_hash env) (entries ?l))(k := None)"
    using un(2) by (simp add: u_def)
  from counted_release[OF un(1)] obtain y m where y: "objs u p = Some (y, m)"
    "reg_release p u = (if owners (str_hash env) (handlers s) None u p = 0 then (Some y, u\<lparr>objs := (objs u)(p := None)\<rparr>)
       else (None, u\<lparr>objs := (objs u)(p := Some (y, m - 1))\<rparr>))"
    "counted (str_hash env) (handlers s) None (snd (reg_release p u))" .
  have yx: "y = x" using y(1) assms(3) u by simp
  have k: "entry_ptr (str_hash env) j ?l = Some p \<longleftrightarrow> j = k" for j
    using countedD(3)[OF server_okD(2)[OF assms(1)] assms(2), of j] assms(2) by blast
  have "owners (str_hash env) (handlers s) None u p = card {c. handlers s c = Some p}"
    using k by (auto simp: owners_def live)
  then have own: "owners (str_hash env) (handlers s) None u p = 0 \<longleftrightarrow> \<not> (\<exists>c. handlers s c = Some p)"
    using counted_finite[OF server_okD(2)[OF assms(1)], of p] by auto
  define s1 where "s1 = s\<lparr>srv_listeners := snd (reg_release p u)\<rparr>"
  have f: "srv_conns s1 = srv_conns s" "srv_replays s1 = srv_replays s" "next_replay s1 = next_replay s"
    "srv_commits s1 = srv_commits s" "srv_listeners s1 = snd (reg_release p u)"
    by (simp_all add: s1_def)
  have "server_ok env s1"
    by (rule server_okI) (use assms(1) y(3) in \<open>auto simp: f dest: server_okD\<close>)
  moreover have "listener_del env app k s =
       (if \<exists>c. handlers s c = Some p then (s1, [], Ret ())
        else (s1, fst (destroy_listening (app_throws app) x), snd (destroy_listening (app_throws app) x)))"
    using assms(2) own yx
    by (simp add: listener_del_def on_listeners_def reg_del_step_def reg_del_def release_old_def u_def[symmetric]
        destroy_opt_def s1_def y(2) split: prod.split)
  moreover have "lview env s1 = (lview env s)(k := None)"
  proof
    fix j
    show "lview env s1 j = ((lview env s)(k := None)) j"
      using k[of j] by (auto simp: reg_view_def f y(2) u u_def[symmetric] live split: option.split)
  qed
  moreover have "\<exists>m. objs (srv_listeners s1) p = Some (x, m)" if "\<exists>c. handlers s c = Some p"
    using that own by (simp add: f y(2) yx)
  ultimately show thesis using f by (intro that) auto
qed

lemma listener_del_absent:
  assumes "server_ok env s" and "lview env s k = None"
  shows "\<exists>s1. listener_del env app k s = (s1, [], Ret ()) \<and> server_ok env s1 \<and> srv_conns s1 = srv_conns s
    \<and> srv_replays s1 = srv_replays s \<and> lview env s1 = lview env s"
proof -
  let ?l = "srv_listeners s"
  note ok = server_okD(2)[OF assms(1)]
  define u where "u = ?l\<lparr>entries := snd (cache_del (str_hash env) k (entries ?l))\<rparr>"
  have e: "entry_ptr (str_hash env) k ?l = None" using assms lview_None by blast
  have live: "cache_live (str_hash env) (entries u) = cache_live (str_hash env) (entries ?l)"
    using e by (simp add: u_def ptr_cache.del_view[OF countedD(1)[OF ok]] fun_upd_idem)
  have u: "objs u = objs ?l" "next_ptr u = next_ptr ?l" by (simp_all add: u_def)
  have "eternal_ok (str_hash env) (entries u)"
    unfolding u_def by simp (rule ptr_cache.del_inv[OF countedD(1)[OF ok]])
  with ok have "counted (str_hash env) (handlers s) None u"
    unfolding counted_def owners_def uses_def live u by blast
  with assms(1) have "server_ok env (s\<lparr>srv_listeners := u\<rparr>)" by (auto simp: server_ok_def)
  moreover have "listener_del env app k s = (s\<lparr>srv_listeners := u\<rparr>, [], Ret ())"
    using e by (simp add: listener_del_def on_listeners_def reg_del_step_def reg_del_def release_old_def
        destroy_opt_def u_def)
  moreover have "lview env (s\<lparr>srv_listeners := u\<rparr>) = lview env s"
    by (rule ext) (simp add: reg_view_def live u cong: option.case_cong)
  ultimately show ?thesis by auto
qed

lemma listener_del_ok: "server_ok env s \<Longrightarrow> server_ok env (fst (listener_del env app k s))"
proof (cases "lview env s k")
  case None
  assume ok: "server_ok env s"
  from listener_del_absent[OF ok None, of app] show ?thesis by auto
next
  case (Some x)
  assume ok: "server_ok env s"
  from lview_ptr[OF ok Some] obtain p n where p: "entry_ptr (str_hash env) k (srv_listeners s) = Some p"
    "objs (srv_listeners s) p = Some (x, n)" .
  show ?thesis by (rule listener_del_spec[OF ok p, of app]) simp
qed

text \<open>
  The error target of a thread's connection changes hands. Registered listeners stay; the listener
  that was the target is destroyed when nobody else owns it.
\<close>

definition sole_owner :: "env \<Rightarrow> 'h server \<Rightarrow> conn \<Rightarrow> nat \<Rightarrow> bool" where
  "sole_owner env s c p \<longleftrightarrow>
     handlers s c = Some p \<and> (\<forall>k. entry_ptr (str_hash env) k (srv_listeners s) \<noteq> Some p)
     \<and> (\<forall>d. handlers s d = Some p \<longrightarrow> d = c)"

lemma set_deferred_spec:
  assumes "server_ok env s" and "\<And>a. p = Some a \<Longrightarrow> objs (srv_listeners s) a \<noteq> None"
  obtains s1 cs where "server_ok env s1" "handlers s1 = (handlers s)(the_conn env tid (srv_conns s) := p)"
    "thread_conn env (srv_conns s1) = (thread_conn env (srv_conns s))(tid \<mapsto> the_conn env tid (srv_conns s))"
    "next_chan (srv_conns s1) = next_chan (srv_conns s)" "conn_address (srv_conns s1) = conn_address (srv_conns s)"
    "srv_replays s1 = srv_replays s" "next_replay s1 = next_replay s" "srv_commits s1 = srv_commits s"
    "lview env s1 = lview env s"
    "entries (srv_listeners s1) = entries (srv_listeners s)"
    "set_deferred env app tid p s =
       (case handlers s (the_conn env tid (srv_conns s)) of
          None \<Rightarrow> (s1, map Command (connects env tid (srv_conns s)), Ret ())
        | Some q \<Rightarrow>
            if sole_owner env s (the_conn env tid (srv_conns s)) q \<and> p \<noteq> Some q then
              (case objs (srv_listeners s) q of
                 Some (x, n) \<Rightarrow>
                   (s1, map Command (connects env tid (srv_conns s)) @ fst (destroy_listening (app_throws app) x),
                    snd (destroy_listening (app_throws app) x))
               | None \<Rightarrow> (s1, [], Undefined))
            else (s1, map Command (connects env tid (srv_conns s)), Ret ()))"
proof -
  let ?c = "the_conn env tid (srv_conns s)" and ?l = "srv_listeners s" and ?h = "str_hash env"
  let ?hp = "(handlers s)(?c := p)"
  from assign_deferred_spec[OF server_okD(1)[OF assms(1)], of tid p] obtain cs1 where
    cs: "assign_deferred env tid p (srv_conns s) = (cs1, connects env tid (srv_conns s), handlers s ?c, Ret ())"
    "connections_ok env cs1" "handler_ptr cs1 = ?hp" "next_chan cs1 = next_chan (srv_conns s)"
    "thread_conn env cs1 = (thread_conn env (srv_conns s))(tid \<mapsto> ?c)" "conn_address cs1 = conn_address (srv_conns s)" .
  define u where "u = acquire_opt p ?l"
  have held: "counted ?h ?hp (handlers s ?c) u"
    unfolding u_def by (rule counted_hold[OF server_okD(2)[OF assms(1)] assms(2)])
  have ent: "entries u = entries ?l" by (simp add: u_def)
  have obj: "map_option fst (objs u q) = map_option fst (objs ?l q)" for q
    using assms(2) by (cases p) (auto simp: u_def acquire_opt_def reg_acquire_def split: option.split)
  define s0 where "s0 = s\<lparr>srv_conns := cs1, srv_listeners := u\<rparr>"
  have step: "set_deferred env app tid p s =
      (case release_listener app (handlers s ?c) s0 of (s1, bs, r1) \<Rightarrow> (s1, map Command (connects env tid (srv_conns s)) @ bs, r1))"
    by (simp add: set_deferred_def cs(1) s0_def u_def)
  define v where "v = snd (release_old (handlers s ?c) u)"
  define s1 where "s1 = s0\<lparr>srv_listeners := v\<rparr>"
  have f: "srv_conns s1 = cs1" "srv_replays s1 = srv_replays s" "next_replay s1 = next_replay s"
    "srv_commits s1 = srv_commits s" "srv_listeners s1 = v"
    by (simp_all add: s1_def s0_def)
  note ex = cs(4-6) step
  show thesis
  proof (cases "handlers s ?c")
    case None
    then have v: "v = u" by (simp add: v_def release_old_def)
    have "server_ok env s1"
      by (rule server_okI) (use assms(1) held None cs(2,3) in \<open>auto simp: f v dest: server_okD\<close>)
    moreover have "lview env s1 = lview env s"
      by (rule ext) (simp add: reg_view_def f v ent obj cong: option.case_cong)
    moreover have "set_deferred env app tid p s = (s1, map Command (connects env tid (srv_conns s)), Ret ())"
      by (simp add: step None release_listener_def release_old_def destroy_opt_def on_listeners_def s1_def v)
        (simp add: s0_def)
    ultimately show thesis
      using None cs f by (intro that[of s1]) (simp_all add: v ent)
  next
    case (Some q)
    from counted_live(2)[OF server_okD(2)[OF assms(1)], of ?c q, OF Some] obtain y m where q: "objs ?l q = Some (y, m)"
      by blast
    from counted_release[OF held[unfolded Some]] obtain x n where x: "objs u q = Some (x, n)"
      "reg_release q u = (if owners ?h ?hp None u q = 0 then (Some x, u\<lparr>objs := (objs u)(q := None)\<rparr>)
         else (None, u\<lparr>objs := (objs u)(q := Some (x, n - 1))\<rparr>))"
      "counted ?h ?hp None (snd (reg_release q u))" .
    have xy: "x = y" using obj[of q] x(1) q by simp
    have v: "v = snd (reg_release q u)" by (simp add: v_def release_old_def Some)
    have own: "owners ?h ?hp None u q = 0 \<longleftrightarrow> sole_owner env s ?c q \<and> p \<noteq> Some q"
    proof -
      have "finite {c. ?hp c = Some q}" by (rule counted_finite[OF held])
      then have "owners ?h ?hp None u q = 0 \<longleftrightarrow>
          (\<forall>k. entry_ptr ?h k ?l \<noteq> Some q) \<and> (\<forall>c. ?hp c \<noteq> Some q)"
        by (auto simp: owners_def ent)
      then show ?thesis using Some by (auto simp: sole_owner_def split: if_splits)
    qed
    have "server_ok env s1"
      by (rule server_okI) (use assms(1) x(3) cs(2,3) in \<open>auto simp: f v dest: server_okD\<close>)
    moreover have "lview env s1 = lview env s"
    proof
      fix k
      have "entry_ptr ?h k ?l \<noteq> Some q" if "owners ?h ?hp None u q = 0"
        using that by (auto simp: owners_def ent split: if_splits)
      then show "lview env s1 k = lview env s k"
        using obj q xy by (auto simp: reg_view_def f v x(2) ent split: option.split)
    qed
    moreover have "entries v = entries ?l" by (simp add: v x(2) ent)
    moreover have "set_deferred env app tid p s =
        (if sole_owner env s ?c q \<and> p \<noteq> Some q
         then (s1, map Command (connects env tid (srv_conns s)) @ fst (destroy_listening (app_throws app) y),
               snd (destroy_listening (app_throws app) y))
         else (s1, map Command (connects env tid (srv_conns s)), Ret ()))"
      unfolding step Some own[symmetric]
      by (simp add: release_listener_def release_old_def destroy_opt_def on_listeners_def s1_def v x(2) s0_def xy
          split: prod.split)
    ultimately show thesis
      using Some q cs f by (intro that[of s1]) simp_all
  qed
qed

lemma reset_deferred_ok: "server_ok env s \<Longrightarrow> server_ok env (fst (reset_deferred env app tid s))"
proof -
  assume ok: "server_ok env s"
  show ?thesis
    unfolding reset_deferred_def
    by (rule set_deferred_spec[OF ok, of None tid app]) (auto split: option.split prod.split)
qed

text \<open>The case every callback of a registered listener meets: nothing is destroyed.\<close>

lemma reset_deferred_spec:
  assumes "server_ok env s"
    and "\<And>q. handlers s (the_conn env tid (srv_conns s)) = Some q \<Longrightarrow>
           \<exists>k. entry_ptr (str_hash env) k (srv_listeners s) = Some q"
  obtains s1 where "server_ok env s1" "handlers s1 = (handlers s)(the_conn env tid (srv_conns s) := None)"
    "thread_conn env (srv_conns s1) = (thread_conn env (srv_conns s))(tid \<mapsto> the_conn env tid (srv_conns s))"
    "next_chan (srv_conns s1) = next_chan (srv_conns s)"
    "srv_replays s1 = srv_replays s" "next_replay s1 = next_replay s" "srv_commits s1 = srv_commits s"
    "lview env s1 = lview env s" "entries (srv_listeners s1) = entries (srv_listeners s)"
    "reset_deferred env app tid s = (s1, map Command (connects env tid (srv_conns s)), Ret ())"
proof (rule set_deferred_spec[OF assms(1), of None tid app])
  fix s1
  assume a: "server_ok env s1" "handlers s1 = (handlers s)(the_conn env tid (srv_conns s) := None)"
    "thread_conn env (srv_conns s1) = (thread_conn env (srv_conns s))(tid \<mapsto> the_conn env tid (srv_conns s))"
    "next_chan (srv_conns s1) = next_chan (srv_conns s)"
    "srv_replays s1 = srv_replays s" "next_replay s1 = next_replay s" "srv_commits s1 = srv_commits s"
    "lview env s1 = lview env s" "entries (srv_listeners s1) = entries (srv_listeners s)"
    "set_deferred env app tid None s =
       (case handlers s (the_conn env tid (srv_conns s)) of
          None \<Rightarrow> (s1, map Command (connects env tid (srv_conns s)), Ret ())
        | Some q \<Rightarrow>
            if sole_owner env s (the_conn env tid (srv_conns s)) q \<and> None \<noteq> Some q then
              (case objs (srv_listeners s) q of
                 Some (x, n) \<Rightarrow>
                   (s1, map Command (connects env tid (srv_conns s)) @ fst (destroy_listening (app_throws app) x),
                    snd (destroy_listening (app_throws app) x))
               | None \<Rightarrow> (s1, [], Undefined))
            else (s1, map Command (connects env tid (srv_conns s)), Ret ()))"
  have "\<not> sole_owner env s (the_conn env tid (srv_conns s)) q" if "handlers s (the_conn env tid (srv_conns s)) = Some q" for q
    using assms(2)[OF that] by (auto simp: sole_owner_def)
  with a(10) have "reset_deferred env app tid s = (s1, map Command (connects env tid (srv_conns s)), Ret ())"
    by (simp add: reset_deferred_def split: option.split)
  with a show thesis by (intro that)
qed simp

text \<open>Every step keeps the invariant.\<close>

definition keeps_ok :: "env \<Rightarrow> 'h server_step \<Rightarrow> bool" where
  "keeps_ok env f \<longleftrightarrow> (\<forall>s. server_ok env s \<longrightarrow> server_ok env (fst (f s)))"

named_theorems keeps \<open>steps that keep a server well formed\<close>

lemma keepsD: "keeps_ok env f \<Longrightarrow> server_ok env s \<Longrightarrow> server_ok env (fst (f s))"
  by (simp add: keeps_ok_def)

lemma keeps_andthen [keeps]: "keeps_ok env f \<Longrightarrow> keeps_ok env g \<Longrightarrow> keeps_ok env (andthen f g)"
  unfolding keeps_ok_def by (blast intro: andthen_invariant[where P = "server_ok env"])

lemma keeps_try [keeps]:
  "keeps_ok env f \<Longrightarrow> (\<And>e. keeps_ok env (h e)) \<Longrightarrow> keeps_ok env (try_catch f h)"
  unfolding keeps_ok_def by (blast intro: try_catch_invariant[where P = "server_ok env"])

lemma keeps_plain [keeps]:
  "keeps_ok env skip_step" "keeps_ok env abort_step" "keeps_ok env (act as)"
  "keeps_ok env (close_channel ch)"
  by (simp_all add: keeps_ok_def skip_step_def abort_step_def act_def close_channel_def)

lemma keeps_parts [keeps]:
  "keeps_ok env (listener_call env k m)" "keeps_ok env (listener_del env app k)"
  "keeps_ok env (reset_deferred env app tid)"
  by (simp_all add: keeps_ok_def listener_call_ok listener_del_ok reset_deferred_ok)

lemma keeps_replays [keeps]:
  "keeps_ok env (delete_replay app p)" "keeps_ok env (update_replay p f)"
  by (auto simp: keeps_ok_def delete_replay_def update_replay_def server_ok_def split: option.split prod.split)

lemma keeps_commit_body [keeps]: "keeps_ok env (commit_body env tid c p)"
  unfolding keeps_ok_def
proof (intro allI impI)
  fix s :: "'a server"
  assume ok: "server_ok env s"
  from new_channel_spec[OF server_okD(1)[OF ok], of tid] obtain cs1 where
    "new_channel env tid (srv_conns s) =
       (case channel_throws env (next_chan (srv_conns s)) (the_conn env tid (srv_conns s)) of
          None \<Rightarrow> (cs1, connects env tid (srv_conns s) @
             [Open_channel (next_chan (srv_conns s)) (the_conn env tid (srv_conns s))], Ret (next_chan (srv_conns s)))
        | Some e \<Rightarrow> (cs1, connects env tid (srv_conns s), Raise e))"
    "connections_ok env cs1" "handler_ptr cs1 = handlers s" .
  with ok show "server_ok env (fst (commit_body env tid c p s))"
    by (auto simp: commit_body_def server_ok_def split: option.split outcome.split)
qed

lemma keeps_replay_commit [keeps]: "keeps_ok env (replay_commit env tid p)"
  unfolding keeps_ok_def replay_commit_def
  by (auto split: option.split intro!: keepsD keeps)

lemma keeps_with_commit [keeps]: "(\<And>p cid. keeps_ok env (f p cid)) \<Longrightarrow> keeps_ok env (with_commit ch f)"
  by (auto simp: keeps_ok_def with_commit_def server_ok_def split: option.split)

lemma keeps_listen_data [keeps]: "keeps_ok env (listen_data env app tid l d j)"
proof -
  have alloc: "server_ok env (s\<lparr>srv_replays := (srv_replays s)(next_replay s := Some x), next_replay := next_replay s + 1\<rparr>)"
    if "server_ok env s" for s :: "'a server" and x
    using that by (auto simp: server_ok_def less_Suc_eq)
  show ?thesis
    unfolding keeps_ok_def listen_data_def
    by (auto simp only: mk_replay_eq outcome.case Let_def intro!: keepsD keeps alloc)
qed

lemma keeps_connection_error [keeps]: "keeps_ok env (report_connection_error app c e)"
  unfolding keeps_ok_def
proof (intro allI impI)
  fix s :: "'a server"
  assume ok: "server_ok env s"
  show "server_ok env (fst (report_connection_error app c e s))"
  proof (cases "handlers s c")
    case None
    then show ?thesis
      using ok by (simp add: report_connection_error_def handler_ptr_def split: option.splits)
  next
    case (Some p)
    from counted_live(2)[OF server_okD(2)[OF ok], of c p, OF Some] obtain x n
      where x: "objs (srv_listeners s) p = Some (x, n)" by blast
    from Some obtain cn where "conn_objs (srv_conns s) c = Some cn" "handler_deferred cn = Some p"
      by (auto simp: handler_ptr_def split: option.splits)
    then show ?thesis
      using with_object_ok[OF ok x]
      by (auto simp: report_connection_error_def on_listeners_def call_ptr_def x with_object_def split: prod.split)
  qed
qed

lemma keeps_bind_failed [keeps]: "keeps_ok env (listen_bind_failed env app l m)"
  by (auto simp: keeps_ok_def listen_bind_failed_def report_listen_error_def listener_call_ok split: outcome.split)

lemma keeps_listen_step [keeps]: "keeps_ok env (listen_step env app tid l ev)"
  by (cases ev)
    (auto simp: listen_channel_error_def listen_declare_failed_def listen_received_def listen_consume_ok_def
      listen_consume_failed_def report_listen_error_def split: sum.split intro!: keeps)

lemma keeps_server_step [keeps]: "keeps_ok env (server_step env app tid ev)"
  by (cases ev) (auto simp: commit_ok_def commit_failed_def onError_def onLost_def intro!: keeps)

lemma server_run_ok: "server_ok env s \<Longrightarrow> server_ok env (fst (server_run env app tid evs s))"
  unfolding server_run_def by (rule run_steps_invariant) (auto intro: keepsD keeps_server_step)

subsection \<open>What the steps do on a well-formed server\<close>

text \<open>The reply a delivery makes.\<close>

definition closure_of :: "listener \<Rightarrow> delivery \<Rightarrow> commit_closure" where
  "closure_of l d =
     \<lparr>commit_cid = delivery_cid d, commit_reply_to = delivery_reply_to d, commit_listener = lst_id l\<rparr>"

definition fresh_reply :: "listener \<Rightarrow> delivery \<Rightarrow> 'h replay" where
  "fresh_reply l d =
     \<lparr>replay_message = rep (Inr JNull), commit_handler = Some (closure_of l d), complete_handler = None\<rparr>"

text \<open>The error target of a connection, if it has one, is a registered listener.\<close>

definition target_ok :: "env \<Rightarrow> 'h server \<Rightarrow> conn \<Rightarrow> bool" where
  "target_ok env s c \<longleftrightarrow>
     (\<forall>q. handlers s c = Some q \<longrightarrow> (\<exists>k. entry_ptr (str_hash env) k (srv_listeners s) = Some q))"

lemma listener_call_view:
  assumes "server_ok env s" and "lview env s k = Some x" and "m x = (x1, as, res)"
  obtains s1 where "listener_call env k m s = (s1, as, res)" "server_ok env s1"
    "lview env s1 = (lview env s)(k := Some x1)" "srv_conns s1 = srv_conns s" "srv_replays s1 = srv_replays s"
    "next_replay s1 = next_replay s" "srv_commits s1 = srv_commits s"
    "entries (srv_listeners s1) = entries (srv_listeners s)"
proof -
  from lview_ptr[OF assms(1,2)] obtain p n where p: "entry_ptr (str_hash env) k (srv_listeners s) = Some p"
    "objs (srv_listeners s) p = Some (x, n)" .
  note c = listener_call_present[where m = m, OF assms(1) p assms(3)]
  show thesis
    by (rule that[OF c with_object_ok[OF assms(1) p(2)] with_object_view[OF assms(1) p(1)]]) simp_all
qed

lemma on_listening_quiet_data:
  assumes "failed (listen_deferred x) = Some False" and "data_handler (listen_deferred x) = Some h"
  shows "on_listening (report_data quiet_throws q) x = (x, [Callback (Call_data h q)], Ret ())"
  by (simp add: on_listening_def report_data_open[OF assms] invoke_def quiet_throws_def)

lemma on_listening_failed_data:
  "failed (listen_deferred x) = Some True \<Longrightarrow> on_listening (report_data thr q) x = (x, [], Ret ())"
  by (simp add: on_listening_def report_data_failed)

lemma listen_ack:
  assumes "server_ok env s" and "lview env s (lst_id l) = Some x"
  obtains s1 where
    "listener_call env (lst_id l) (\<lambda>x. (x, [Command (Ack (listen_channel x) tag)], Ret ())) s =
       (s1, [Command (Ack (listen_channel x) tag)], Ret ())"
    "server_ok env s1" "lview env s1 = lview env s" "srv_conns s1 = srv_conns s" "srv_replays s1 = srv_replays s"
    "next_replay s1 = next_replay s" "srv_commits s1 = srv_commits s"
    "entries (srv_listeners s1) = entries (srv_listeners s)"
proof (rule listener_call_view[OF assms, of "\<lambda>x. (x, [Command (Ack (listen_channel x) tag)], Ret ())" x
      "[Command (Ack (listen_channel x) tag)]" "Ret ()"])
  fix s1
  assume "listener_call env (lst_id l) (\<lambda>x. (x, [Command (Ack (listen_channel x) tag)], Ret ())) s =
      (s1, [Command (Ack (listen_channel x) tag)], Ret ())"
    "lview env s1 = (lview env s)(lst_id l \<mapsto> x)" "server_ok env s1" "srv_conns s1 = srv_conns s"
    "srv_replays s1 = srv_replays s" "next_replay s1 = next_replay s" "srv_commits s1 = srv_commits s"
    "entries (srv_listeners s1) = entries (srv_listeners s)"
  with assms(2) show thesis by (intro that[of s1]) (simp_all add: fun_upd_idem)
qed simp

text \<open>A message that parses: acknowledged, the error target reset, the reply made, the data reported.\<close>

lemma listen_received_steps:
  assumes "server_ok env s" and "lview env s (lst_id l) = Some x"
    and "from_msgpack (delivery_body d) = Inr j"
    and "target_ok env s (the_conn env tid (srv_conns s))"
  obtains s1 where "listen_received env app tid l d s =
      (case listen_data env app tid l d j s1 of
         (s2, bs, r) \<Rightarrow>
           (s2, Command (Ack (listen_channel x) (delivery_tag d)) # map Command (connects env tid (srv_conns s)) @ bs, r))"
    "server_ok env s1" "handlers s1 = (handlers s)(the_conn env tid (srv_conns s) := None)"
    "thread_conn env (srv_conns s1) = (thread_conn env (srv_conns s))(tid \<mapsto> the_conn env tid (srv_conns s))"
    "next_chan (srv_conns s1) = next_chan (srv_conns s)"
    "srv_replays s1 = srv_replays s" "next_replay s1 = next_replay s" "srv_commits s1 = srv_commits s"
    "lview env s1 = lview env s" "entries (srv_listeners s1) = entries (srv_listeners s)"
proof (rule listen_ack[OF assms(1,2), of "delivery_tag d"])
  fix s0
  assume 0: "listener_call env (lst_id l) (\<lambda>x. (x, [Command (Ack (listen_channel x) (delivery_tag d))], Ret ())) s =
      (s0, [Command (Ack (listen_channel x) (delivery_tag d))], Ret ())"
    "server_ok env s0" "lview env s0 = lview env s" "srv_conns s0 = srv_conns s" "srv_replays s0 = srv_replays s"
    "next_replay s0 = next_replay s" "srv_commits s0 = srv_commits s"
    "entries (srv_listeners s0) = entries (srv_listeners s)"
  have "\<exists>k. entry_ptr (str_hash env) k (srv_listeners s0) = Some q"
    if "handlers s0 (the_conn env tid (srv_conns s0)) = Some q" for q
    using assms(4) that 0 by (simp add: target_ok_def)
  from reset_deferred_spec[OF 0(2) this, of tid app] obtain s1 where
    1: "server_ok env s1" "handlers s1 = (handlers s0)(the_conn env tid (srv_conns s0) := None)"
    "thread_conn env (srv_conns s1) = (thread_conn env (srv_conns s0))(tid \<mapsto> the_conn env tid (srv_conns s0))"
    "next_chan (srv_conns s1) = next_chan (srv_conns s0)"
    "srv_replays s1 = srv_replays s0" "next_replay s1 = next_replay s0" "srv_commits s1 = srv_commits s0"
    "lview env s1 = lview env s0" "entries (srv_listeners s1) = entries (srv_listeners s0)"
    "reset_deferred env app tid s0 = (s1, map Command (connects env tid (srv_conns s0)), Ret ())" .
  have "listen_received env app tid l d s =
      (case listen_data env app tid l d j s1 of
         (s2, bs, r) \<Rightarrow>
           (s2, Command (Ack (listen_channel x) (delivery_tag d)) # map Command (connects env tid (srv_conns s)) @ bs, r))"
    using 0(4) by (simp add: listen_received_def assms(3) andthen_def 0(1) 1(10) split: prod.split)
  with 0 1 show thesis by (intro that[of s1]) simp_all
qed

lemma listen_data_eq:
  "listen_data env app tid l d j s =
     try_catch
       (listener_call env (lst_id l)
          (on_listening (report_data (app_throws app) (rep (Inr (mk_rpc (delivery_key d) j)), next_replay s))))
       (\<lambda>_. andthen (reset_deferred env app tid) (andthen (listener_del env app (lst_id l)) abort_step))
       (s\<lparr>srv_replays := (srv_replays s)(next_replay s := Some (fresh_reply l d)), next_replay := next_replay s + 1\<rparr>)"
  by (simp add: listen_data_def mk_replay_eq Let_def set_commit_def fresh_reply_def closure_of_def del: rep.simps)

definition with_reply :: "listener \<Rightarrow> delivery \<Rightarrow> 'h server \<Rightarrow> 'h server" where
  "with_reply l d s =
     s\<lparr>srv_replays := (srv_replays s)(next_replay s := Some (fresh_reply l d)), next_replay := next_replay s + 1\<rparr>"

lemma with_reply_ok: "server_ok env s \<Longrightarrow> server_ok env (with_reply l d s)"
  by (auto simp: server_ok_def with_reply_def less_Suc_eq)

lemma with_reply_fields [simp]:
  "srv_conns (with_reply l d s) = srv_conns s" "srv_listeners (with_reply l d s) = srv_listeners s"
  "srv_replays (with_reply l d s) = (srv_replays s)(next_replay s := Some (fresh_reply l d))"
  "next_replay (with_reply l d s) = next_replay s + 1" "srv_commits (with_reply l d s) = srv_commits s"
  by (simp_all add: with_reply_def)

lemma listen_data_call:
  assumes "server_ok env s" and "lview env s (lst_id l) = Some x"
    and "on_listening (report_data (app_throws app) (rep (Inr (mk_rpc (delivery_key d) j)), next_replay s)) x = (x, as, Ret ())"
  obtains s1 where "listen_data env app tid l d j s = (s1, as, Ret ())" "server_ok env s1"
    "lview env s1 = lview env s" "srv_conns s1 = srv_conns s"
    "srv_replays s1 = (srv_replays s)(next_replay s := Some (fresh_reply l d))"
    "next_replay s1 = next_replay s + 1" "srv_commits s1 = srv_commits s"
    "entries (srv_listeners s1) = entries (srv_listeners s)"
proof -
  have "lview env (with_reply l d s) (lst_id l) = Some x" using assms(2) by simp
  from listener_call_view[where m = "on_listening (report_data (app_throws app) (rep (Inr (mk_rpc (delivery_key d) j)), next_replay s))",
      OF with_reply_ok[OF assms(1)] this assms(3)]
  obtain s1 where 1: "listener_call env (lst_id l)
      (on_listening (report_data (app_throws app) (rep (Inr (mk_rpc (delivery_key d) j)), next_replay s)))
      (with_reply l d s) = (s1, as, Ret ())" "server_ok env s1"
    "lview env s1 = (lview env (with_reply l d s))(lst_id l \<mapsto> x)" "srv_conns s1 = srv_conns (with_reply l d s)"
    "srv_replays s1 = srv_replays (with_reply l d s)" "next_replay s1 = next_replay (with_reply l d s)"
    "srv_commits s1 = srv_commits (with_reply l d s)"
    "entries (srv_listeners s1) = entries (srv_listeners (with_reply l d s))" .
  have "listen_data env app tid l d j s = (s1, as, Ret ())"
    unfolding listen_data_eq try_catch_def with_reply_def[symmetric] 1(1) by simp
  with 1 assms(2) show thesis by (intro that[of s1]) (simp_all add: fun_upd_idem)
qed

text \<open>Committing a reply.\<close>

lemma replay_commit_spec:
  assumes "server_ok env s" and "srv_replays s p = Some x" and "replay_message x = rep v"
    and "commit_handler x = Some c"
    and "channel_throws env (next_chan (srv_conns s)) (the_conn env tid (srv_conns s)) = None"
  obtains s1 where "replay_commit env tid p s =
      (s1, map Command (connects env tid (srv_conns s) @
         [Open_channel (next_chan (srv_conns s)) (the_conn env tid (srv_conns s)),
          Start_transaction (next_chan (srv_conns s)),
          Publish (next_chan (srv_conns s)) [] (commit_reply_to c) (reply_envelope c (reply_value v)) {},
          Commit_transaction (next_chan (srv_conns s))]), Ret ())"
    "server_ok env s1" "srv_replays s1 = (srv_replays s)(p := Some (x\<lparr>complete_handler := None\<rparr>))"
    "srv_commits s1 = (srv_commits s)(next_chan (srv_conns s) := Some (p, commit_listener c))"
    "next_replay s1 = next_replay s" "lview env s1 = lview env s" "handlers s1 = handlers s"
    "next_chan (srv_conns s1) = next_chan (srv_conns s) + 1"
    "thread_conn env (srv_conns s1) = (thread_conn env (srv_conns s))(tid \<mapsto> the_conn env tid (srv_conns s))"
    "srv_listeners s1 = srv_listeners s"
proof (rule new_channel_spec[OF server_okD(1)[OF assms(1)], of tid])
  fix cs1
  let ?ch = "next_chan (srv_conns s)"
  assume n: "new_channel env tid (srv_conns s) =
       (case channel_throws env ?ch (the_conn env tid (srv_conns s)) of
          None \<Rightarrow> (cs1, connects env tid (srv_conns s) @ [Open_channel ?ch (the_conn env tid (srv_conns s))], Ret ?ch)
        | Some e \<Rightarrow> (cs1, connects env tid (srv_conns s), Raise e))"
    "handler_ptr cs1 = handlers s" "next_chan cs1 = ?ch + 1"
    "thread_conn env cs1 = (thread_conn env (srv_conns s))(tid \<mapsto> the_conn env tid (srv_conns s))"
  define s1 where "s1 = s\<lparr>srv_conns := cs1, srv_commits := (srv_commits s)(?ch := Some (p, commit_listener c)),
      srv_replays := (srv_replays s)(p := Some (x\<lparr>complete_handler := None\<rparr>))\<rparr>"
  have e: "replay_commit env tid p s = (s1, map Command (connects env tid (srv_conns s) @
         [Open_channel ?ch (the_conn env tid (srv_conns s)), Start_transaction ?ch,
          Publish ?ch [] (commit_reply_to c) (reply_envelope c (reply_value v)) {}, Commit_transaction ?ch]), Ret ())"
    by (simp add: replay_commit_def commit_body_def assms(2-5) reply_json_rep n(1) andthen_def update_replay_def s1_def
        del: rep.simps)
  have "server_ok env s1"
    using keepsD[OF keeps_replay_commit assms(1), of tid p] by (simp add: e)
  with e n(2-4) show thesis by (intro that[of s1]) (simp_all add: s1_def)
qed

lemma commit_ok_spec:
  assumes "srv_commits s ch = Some (p, cid)" and "srv_replays s p = Some x" and "complete_handler x = None"
  shows "commit_ok app ch s =
    (s\<lparr>srv_commits := (srv_commits s)(ch := None), srv_replays := (srv_replays s)(p := None)\<rparr>,
     [Command (Close_channel ch)], Ret ())"
  by (simp add: commit_ok_def with_commit_def assms andthen_def delete_replay_def destroy_replay_def
      close_channel_def act_def)

text \<open>Errors of the connection a listener is the target of.\<close>

lemma connection_error_none:
  assumes "handlers s c = None" and "conn_objs (srv_conns s) c \<noteq> None"
  shows "report_connection_error app c e s = (s, [], Ret ())"
  using assms by (auto simp: report_connection_error_def handler_ptr_def split: option.splits)

lemma connection_error_target:
  assumes "server_ok env s" and "handlers s c = Some p"
  obtains x n where "objs (srv_listeners s) p = Some (x, n)"
    "report_connection_error app c e s =
       (case on_listening (report_error (app_throws app) e) x of (x1, as, r) \<Rightarrow> (with_object p x1 n s, as, r))"
proof -
  from counted_live(2)[OF server_okD(2)[OF assms(1)], of c p, OF assms(2)] obtain x n
    where x: "objs (srv_listeners s) p = Some (x, n)" by blast
  from assms(2) obtain cn where "conn_objs (srv_conns s) c = Some cn" "handler_deferred cn = Some p"
    by (auto simp: handler_ptr_def split: option.splits)
  then have "report_connection_error app c e s =
       (case on_listening (report_error (app_throws app) e) x of (x1, as, r) \<Rightarrow> (with_object p x1 n s, as, r))"
    by (simp add: report_connection_error_def on_listeners_def call_ptr_def x with_object_def split: prod.split)
  with x show thesis by (rule that)
qed

text \<open>A listener whose entry is gone: every callback follows a null pointer.\<close>

lemma listen_step_gone:
  assumes "server_ok env s" and "lview env s (lst_id l) = None"
    and "target_ok env s (the_conn env tid (srv_conns s))"
  shows "snd (snd (listen_step env app tid l ev s)) = Undefined"
proof (cases ev)
  case (Consumer_failed m)
  have "\<exists>k. entry_ptr (str_hash env) k (srv_listeners s) = Some q"
    if "handlers s (the_conn env tid (srv_conns s)) = Some q" for q
    using assms(3) that by (simp add: target_ok_def)
  from reset_deferred_spec[OF assms(1) this, of tid app] obtain s1 where
    "server_ok env s1" "lview env s1 = lview env s"
    "reset_deferred env app tid s = (s1, map Command (connects env tid (srv_conns s)), Ret ())" .
  with Consumer_failed assms(2) show ?thesis
    by (simp add: listen_consume_failed_def andthen_def report_listen_error_def listener_call_absent)
next
  case (Bind_failed m)
  then show ?thesis
    by (simp add: listen_bind_failed_def error_string_def report_listen_error_def listener_call_absent[OF assms(1,2)]
        split: outcome.split)
qed (simp_all add: listen_channel_error_def listen_declare_failed_def listen_received_def listen_consume_ok_def
    report_listen_error_def andthen_def listener_call_absent[OF assms(1,2)])

lemma bind_failed_undefined: "listen_bind_failed env app l m s = (s, [], Undefined)"
  by (simp add: listen_bind_failed_def error_string_def vformat_missing_arg)

end
