(* ===== verification/Serving.thy ===== *)
theory Serving
  imports Listen
begin

section \<open>Properties of a server\<close>

text \<open>
  What a worker that listens on a queue can rely on, and what it cannot: deliveries, replies and
  their confirmation, messages that do not parse, the loss of a consumer or of a connection. The
  operations are those of \<open>Listen\<close>.
\<close>

subsection \<open>Deliveries\<close>

lemma listen_delivered:
  assumes "server_ok env s" and "lview env s (lst_id l) = Some x"
    and "from_msgpack (delivery_body d) = Inr j"
    and "target_ok env s (the_conn env tid (srv_conns s))"
    and "on_listening (report_data (app_throws app) (rep (Inr (mk_rpc (delivery_key d) j)), next_replay s)) x = (x, bs, Ret ())"
  obtains s1 where "listen_step env app tid l (Delivered d) s =
      (s1, Command (Ack (listen_channel x) (delivery_tag d)) # map Command (connects env tid (srv_conns s)) @ bs, Ret ())"
    "server_ok env s1" "handlers s1 = (handlers s)(the_conn env tid (srv_conns s) := None)"
    "thread_conn env (srv_conns s1) = (thread_conn env (srv_conns s))(tid \<mapsto> the_conn env tid (srv_conns s))"
    "next_chan (srv_conns s1) = next_chan (srv_conns s)"
    "srv_replays s1 = (srv_replays s)(next_replay s \<mapsto> fresh_reply l d)"
    "next_replay s1 = next_replay s + 1" "srv_commits s1 = srv_commits s" "lview env s1 = lview env s"
    "entries (srv_listeners s1) = entries (srv_listeners s)"
proof (rule listen_received_steps[OF assms(1-4)])
  fix s0
  assume 0: "listen_received env app tid l d s =
      (case listen_data env app tid l d j s0 of
         (s2, bs, r) \<Rightarrow>
           (s2, Command (Ack (listen_channel x) (delivery_tag d)) # map Command (connects env tid (srv_conns s)) @ bs, r))"
    "server_ok env s0" "handlers s0 = (handlers s)(the_conn env tid (srv_conns s) := None)"
    "thread_conn env (srv_conns s0) = (thread_conn env (srv_conns s))(tid \<mapsto> the_conn env tid (srv_conns s))"
    "next_chan (srv_conns s0) = next_chan (srv_conns s)"
    "srv_replays s0 = srv_replays s" "next_replay s0 = next_replay s" "srv_commits s0 = srv_commits s"
    "lview env s0 = lview env s" "entries (srv_listeners s0) = entries (srv_listeners s)"
  have "lview env s0 (lst_id l) = Some x" using 0(9) assms(2) by simp
  moreover have "on_listening (report_data (app_throws app) (rep (Inr (mk_rpc (delivery_key d) j)), next_replay s0)) x =
      (x, bs, Ret ())"
    using assms(5) 0(7) by simp
  ultimately show thesis
  proof (rule listen_data_call[OF 0(2)])
    fix s1
    assume "listen_data env app tid l d j s0 = (s1, bs, Ret ())" "server_ok env s1"
      "lview env s1 = lview env s0" "srv_conns s1 = srv_conns s0"
      "srv_replays s1 = (srv_replays s0)(next_replay s0 \<mapsto> fresh_reply l d)"
      "next_replay s1 = next_replay s0 + 1" "srv_commits s1 = srv_commits s0"
      "entries (srv_listeners s1) = entries (srv_listeners s0)"
    with 0 show thesis by (intro that[of s1]) simp_all
  qed
qed

text \<open>
  C11: A message is delivered: from any well-formed server whose listener has a data callback and
  has not failed, the arrival of a value acknowledges it first and then calls the data callback
  once, with the routing key, the value that was sent and a fresh reply that holds the null value
  and will answer to the message's return queue under its correlation id. No other reply and no
  listener changes.
\<close>

theorem message_delivered:
  assumes "server_ok env s" and "lview env s (lst_id l) = Some x"
    and "failed (listen_deferred x) = Some False" and "data_handler (listen_deferred x) = Some h"
    and "storable j" and "delivery_body d = to_msgpack j"
    and "target_ok env s (the_conn env tid (srv_conns s))" and "app_throws app = quiet_throws"
  shows "\<exists>s1. listen_step env app tid l (Delivered d) s =
      (s1, Command (Ack (listen_channel x) (delivery_tag d)) # map Command (connects env tid (srv_conns s))
             @ [Callback (Call_data h (rep (Inr (mk_rpc (delivery_key d) (canon j))), next_replay s))], Ret ())
    \<and> server_ok env s1
    \<and> srv_replays s1 = (srv_replays s)(next_replay s \<mapsto>
        \<lparr>replay_message = rep (Inr JNull),
         commit_handler = Some \<lparr>commit_cid = delivery_cid d, commit_reply_to = delivery_reply_to d,
                                commit_listener = lst_id l\<rparr>,
         complete_handler = None\<rparr>)
    \<and> srv_replays s (next_replay s) = None
    \<and> lview env s1 = lview env s \<and> srv_commits s1 = srv_commits s"
proof -
  have p: "from_msgpack (delivery_body d) = Inr (canon j)"
    unfolding assms(6) by (rule from_write[OF assms(5)])
  have "on_listening (report_data (app_throws app) (rep (Inr (mk_rpc (delivery_key d) (canon j))), next_replay s)) x =
      (x, [Callback (Call_data h (rep (Inr (mk_rpc (delivery_key d) (canon j))), next_replay s))], Ret ())"
    unfolding assms(8) by (rule on_listening_quiet_data[OF assms(3,4)])
  moreover have "srv_replays s (next_replay s) = None"
    using server_okD(3)[OF assms(1), of "next_replay s"] by (cases "srv_replays s (next_replay s)") auto
  ultimately show ?thesis
    using listen_delivered[OF assms(1,2) p assms(7)] unfolding fresh_reply_def closure_of_def by metis
qed

subsection \<open>Replies\<close>

text \<open>
  C12: A committed reply is sent once and freed: whatever result the worker left in the reply, its
  commit opens one channel and publishes to the return queue, in a transaction and under the
  correlation id of the request, a body that reads back as that result: the value itself, or for
  an error or an empty value the pair \<open>["error", {"code", "message"}]\<close>. The confirmation of the
  transaction deletes the reply and closes the channel.
\<close>

theorem reply_published:
  assumes "server_ok env s" and "srv_replays s p = Some x" and "replay_message x = rep v"
    and "commit_handler x = Some c"
    and "channel_throws env (next_chan (srv_conns s)) (the_conn env t (srv_conns s)) = None"
    and "storable (reply_value v)"
  shows "\<exists>s1 s2 e ch. ch = next_chan (srv_conns s)
    \<and> server_step env app tid (Commit_replay t p) s =
        (s1, map Command (connects env t (srv_conns s) @
           [Open_channel ch (the_conn env t (srv_conns s)), Start_transaction ch,
            Publish ch [] (commit_reply_to c) e {}, Commit_transaction ch]), Ret ())
    \<and> from_msgpack (body e) = Inr (canon (reply_value v)) \<and> correlation_id e = Some (commit_cid c)
    \<and> server_ok env s1
    \<and> server_step env app tid (Commit_done ch) s1 = (s2, [Command (Close_channel ch)], Ret ())
    \<and> srv_replays s2 = (srv_replays s)(p := None) \<and> server_ok env s2"
proof (rule replay_commit_spec[OF assms(1-5)])
  fix s1
  let ?ch = "next_chan (srv_conns s)" and ?e = "reply_envelope c (reply_value v)"
  assume 1: "replay_commit env t p s =
      (s1, map Command (connects env t (srv_conns s) @
         [Open_channel ?ch (the_conn env t (srv_conns s)), Start_transaction ?ch,
          Publish ?ch [] (commit_reply_to c) ?e {}, Commit_transaction ?ch]), Ret ())"
    "server_ok env s1" "srv_replays s1 = (srv_replays s)(p \<mapsto> x\<lparr>complete_handler := None\<rparr>)"
    "srv_commits s1 = (srv_commits s)(?ch \<mapsto> (p, commit_listener c))"
  have c: "srv_commits s1 ?ch = Some (p, commit_listener c)" "srv_replays s1 p = Some (x\<lparr>complete_handler := None\<rparr>)"
    using 1 by simp_all
  define s2 where "s2 = s1\<lparr>srv_commits := (srv_commits s1)(?ch := None), srv_replays := (srv_replays s1)(p := None)\<rparr>"
  have d: "server_step env app tid (Commit_done ?ch) s1 = (s2, [Command (Close_channel ?ch)], Ret ())"
    using commit_ok_spec[OF c] by (simp add: s2_def)
  have "server_ok env s2" using keepsD[OF keeps_server_step 1(2), of app tid "Commit_done ?ch"] by (simp only: d fst_conv)
  moreover have "from_msgpack (body ?e) = Inr (canon (reply_value v)) \<and> correlation_id ?e = Some (commit_cid c)"
    using from_write[OF assms(6)] by (simp add: reply_envelope_def mk_envelope_def)
  moreover have "srv_replays s2 = (srv_replays s)(p := None)" by (simp add: s2_def 1(3))
  ultimately show ?thesis
    using 1(1,2) d by (intro exI[of _ s1] exI[of _ s2] exI[of _ ?e] exI[of _ ?ch]) simp
qed

subsection \<open>Messages that do not parse\<close>

fun is_ack :: "('h, 'p) action \<Rightarrow> bool" where
  "is_ack (Command (Ack _ _)) = True"
| "is_ack _ = False"

lemma count_connects [simp]:
  "count_acts is_ack (map Command (connects env tid cs)) = 0"
  "count_acts is_data (map Command (connects env tid cs)) = 0"
  by (simp_all add: connects_def to_address_def split: option.split prod.split)

lemma listen_malformed:
  assumes "server_ok env s" and "lview env s (lst_id l) = Some x"
    and "from_msgpack (delivery_body d) = Inl e" and "app_throws app = quiet_throws"
  obtains s1 y where "listen_step env app tid l (Delivered d) s =
      (s1, [Command (Ack (listen_channel x) (delivery_tag d))]
             @ map Callback (case error_handler (listen_deferred x) of
                 Some h \<Rightarrow> [Call_error h (broker_err Broker_CHANNEL_MESSAGE (error_text e))] | None \<Rightarrow> []), Ret ())"
    "server_ok env s1" "lview env s1 = (lview env s)(lst_id l \<mapsto> y)" "failed (listen_deferred y) = Some True"
    "srv_conns s1 = srv_conns s" "entries (srv_listeners s1) = entries (srv_listeners s)"
    "srv_replays s1 = srv_replays s"
proof (rule listen_ack[OF assms(1,2), of "delivery_tag d"])
  fix s0
  let ?e = "broker_err Broker_CHANNEL_MESSAGE (error_text e)"
  let ?m = "on_listening (report_error quiet_throws ?e)"
  let ?cs = "case error_handler (listen_deferred x) of Some h \<Rightarrow> [Call_error h ?e] | None \<Rightarrow> []"
  assume 0: "listener_call env (lst_id l) (\<lambda>x. (x, [Command (Ack (listen_channel x) (delivery_tag d))], Ret ())) s =
      (s0, [Command (Ack (listen_channel x) (delivery_tag d))], Ret ())"
    "server_ok env s0" "lview env s0 = lview env s" "srv_conns s0 = srv_conns s"
    "entries (srv_listeners s0) = entries (srv_listeners s)" "srv_replays s0 = srv_replays s"
  define y where "y = fst (?m x)"
  have m: "?m x = (y, map Callback ?cs, Ret ())"
    by (simp add: y_def on_listening_def report_error_quiet split: option.split)
  have f: "failed (listen_deferred y) = Some True"
    by (simp add: y_def on_listening_def report_error_quiet)
  have v: "lview env s0 (lst_id l) = Some x" using 0(3) assms(2) by simp
  from listener_call_view[where m = ?m, OF 0(2) v m] obtain s1 where
    1: "listener_call env (lst_id l) ?m s0 = (s1, map Callback ?cs, Ret ())" "server_ok env s1"
    "lview env s1 = (lview env s0)(lst_id l \<mapsto> y)" "srv_conns s1 = srv_conns s0"
    "entries (srv_listeners s1) = entries (srv_listeners s0)" "srv_replays s1 = srv_replays s0" .
  show thesis
    using 0 1 f by (intro that[of s1 y])
      (simp_all add: listen_received_def andthen_def 0(1) assms(3,4) report_listen_error_def)
qed

text \<open>A failed listener acknowledges whatever arrives and tells its data callback nothing.\<close>

lemma failed_listener_delivery:
  assumes "server_ok env s" and "lview env s (lst_id l) = Some x" and "failed (listen_deferred x) = Some True"
    and "app_throws app = quiet_throws" and "target_ok env s (the_conn env tid (srv_conns s))"
  obtains s1 as y where "listen_step env app tid l (Delivered d) s = (s1, as, Ret ())"
    "server_ok env s1" "lview env s1 (lst_id l) = Some y" "failed (listen_deferred y) = Some True"
    "target_ok env s1 (the_conn env tid (srv_conns s1))"
    "count_acts is_ack as = 1" "count_acts is_data as = 0"
proof (cases "from_msgpack (delivery_body d)")
  case (Inl e)
  show thesis
  proof (rule listen_malformed[OF assms(1,2) Inl assms(4), of tid])
    fix s1 y
    assume 1: "listen_step env app tid l (Delivered d) s =
      (s1, [Command (Ack (listen_channel x) (delivery_tag d))]
             @ map Callback (case error_handler (listen_deferred x) of
                 Some h \<Rightarrow> [Call_error h (broker_err Broker_CHANNEL_MESSAGE (error_text e))] | None \<Rightarrow> []), Ret ())"
      "server_ok env s1" "lview env s1 = (lview env s)(lst_id l \<mapsto> y)" "failed (listen_deferred y) = Some True"
      "srv_conns s1 = srv_conns s" "entries (srv_listeners s1) = entries (srv_listeners s)"
    then show thesis
      using assms(5) by (intro that[OF 1(1,2)]) (auto simp: target_ok_def split: option.split)
  qed
next
  case (Inr j)
  show thesis
  proof (rule listen_delivered[OF assms(1,2) Inr assms(5) on_listening_failed_data[OF assms(3)]])
    fix s1
    assume 1: "listen_step env app tid l (Delivered d) s =
      (s1, Command (Ack (listen_channel x) (delivery_tag d)) # map Command (connects env tid (srv_conns s)) @ [], Ret ())"
      "server_ok env s1" "handlers s1 = (handlers s)(the_conn env tid (srv_conns s) := None)"
      "thread_conn env (srv_conns s1) = (thread_conn env (srv_conns s))(tid \<mapsto> the_conn env tid (srv_conns s))"
      "lview env s1 = lview env s"
    then show thesis
      using assms(2,3) by (intro that[OF 1(1,2)]) (simp_all add: target_ok_def the_conn_def)
  qed
qed

lemma failed_listener_run:
  assumes "server_ok env s" and "lview env s (lst_id l) = Some x" and "failed (listen_deferred x) = Some True"
    and "app_throws app = quiet_throws" and "target_ok env s (the_conn env tid (srv_conns s))"
  shows "\<exists>s1 as. server_run env app tid (map (\<lambda>d. Listener_event l (Delivered d)) ds) s = (s1, as, Ret ())
    \<and> count_acts is_ack as = length ds \<and> count_acts is_data as = 0"
  using assms
proof (induction ds arbitrary: s x)
  case Nil
  then show ?case by (simp add: server_run_def skip_step_def)
next
  case (Cons d ds)
  from failed_listener_delivery[OF Cons.prems(1-5)] obtain s1 as y where
    1: "listen_step env app tid l (Delivered d) s = (s1, as, Ret ())"
    "server_ok env s1" "lview env s1 (lst_id l) = Some y" "failed (listen_deferred y) = Some True"
    "target_ok env s1 (the_conn env tid (srv_conns s1))"
    "count_acts is_ack as = 1" "count_acts is_data as = 0" .
  from Cons.IH[OF 1(2-4) Cons.prems(4) 1(5)] obtain s2 bs where
    "server_run env app tid (map (\<lambda>d. Listener_event l (Delivered d)) ds) s1 = (s2, bs, Ret ())"
    "count_acts is_ack bs = length ds" "count_acts is_data bs = 0" by blast
  with 1 show ?case
    by (intro exI[of _ s2] exI[of _ "as @ bs"]) (simp add: server_run_def andthen_def)
qed

text \<open>
  C19: One message that does not parse silences a listener: it is acknowledged and reported once as
  \<open>CHANNEL_MESSAGE\<close> with the text of the parser, and from then on every further delivery, however
  well formed, is acknowledged and thrown away. The data callback is not called again.
\<close>

theorem malformed_message_silences_listener:
  assumes "server_ok env s" and "lview env s (lst_id l) = Some x"
    and "error_handler (listen_deferred x) = Some h"
    and "from_msgpack (delivery_body d) = Inl e" and "app_throws app = quiet_throws"
    and "target_ok env s (the_conn env tid (srv_conns s))"
  shows "\<exists>s1 s2 as. listen_step env app tid l (Delivered d) s =
      (s1, [Command (Ack (listen_channel x) (delivery_tag d)),
            Callback (Call_error h (broker_err Broker_CHANNEL_MESSAGE (error_text e)))], Ret ())
    \<and> server_run env app tid (map (\<lambda>d. Listener_event l (Delivered d)) ds) s1 = (s2, as, Ret ())
    \<and> count_acts is_ack as = length ds \<and> count_acts is_data as = 0"
proof (rule listen_malformed[OF assms(1,2,4,5), of tid])
  fix s1 y
  assume 1: "listen_step env app tid l (Delivered d) s =
      (s1, [Command (Ack (listen_channel x) (delivery_tag d))]
             @ map Callback (case error_handler (listen_deferred x) of
                 Some h \<Rightarrow> [Call_error h (broker_err Broker_CHANNEL_MESSAGE (error_text e))] | None \<Rightarrow> []), Ret ())"
    "server_ok env s1" "lview env s1 = (lview env s)(lst_id l \<mapsto> y)" "failed (listen_deferred y) = Some True"
    "srv_conns s1 = srv_conns s" "entries (srv_listeners s1) = entries (srv_listeners s)"
  have "lview env s1 (lst_id l) = Some y" and "target_ok env s1 (the_conn env tid (srv_conns s1))"
    using 1 assms(6) by (simp_all add: target_ok_def)
  from failed_listener_run[OF 1(2) this(1) 1(4) assms(5) this(2), of ds] 1(1) assms(3)
  show ?thesis by auto
qed

subsection \<open>The loss of a consumer\<close>

lemma consumer_failed_spec:
  assumes "server_ok env s" and "entry_ptr (str_hash env) (lst_id l) (srv_listeners s) = Some p"
    and "objs (srv_listeners s) p = Some (x, n)" and "error_handler (listen_deferred x) = Some h"
    and "app_throws app = quiet_throws" and "target_ok env s (the_conn env tid (srv_conns s))"
  obtains s1 where "listen_step env app tid l (Consumer_failed m) s =
      (s1, map Command (connects env tid (srv_conns s))
           @ [Callback (Call_error h (broker_err Broker_QUEUE_CONSUMING m))]
           @ (if \<exists>c. c \<noteq> the_conn env tid (srv_conns s) \<and> handlers s c = Some p then []
              else Command (Close_channel (listen_channel x)) #
                map Callback (case finalize_handler (listen_deferred x) of Some f \<Rightarrow> [Call_finalize f] | None \<Rightarrow> [])),
       Ret ())"
    "server_ok env s1" "lview env s1 = (lview env s)(lst_id l := None)"
    "handlers s1 = (handlers s)(the_conn env tid (srv_conns s) := None)"
    "the_conn env tid (srv_conns s1) = the_conn env tid (srv_conns s)"
proof -
  let ?c = "the_conn env tid (srv_conns s)" and ?e = "broker_err Broker_QUEUE_CONSUMING m"
  let ?m = "on_listening (report_error quiet_throws ?e)"
  have "\<exists>k. entry_ptr (str_hash env) k (srv_listeners s) = Some q" if "handlers s ?c = Some q" for q
    using assms(6) that by (simp add: target_ok_def)
  from reset_deferred_spec[OF assms(1) this, of tid app] obtain s0 where
    0: "server_ok env s0" "handlers s0 = (handlers s)(?c := None)"
    "thread_conn env (srv_conns s0) = (thread_conn env (srv_conns s))(tid \<mapsto> ?c)"
    "lview env s0 = lview env s" "entries (srv_listeners s0) = entries (srv_listeners s)"
    "reset_deferred env app tid s = (s0, map Command (connects env tid (srv_conns s)), Ret ())" .
  have e0: "entry_ptr (str_hash env) (lst_id l) (srv_listeners s0) = Some p" using 0(5) assms(2) by simp
  have "lview env s (lst_id l) = Some x" using assms(2,3) by (simp add: reg_view_def)
  then have "lview env s0 (lst_id l) = Some x" using 0(4) by simp
  with e0 obtain n0 where o0: "objs (srv_listeners s0) p = Some (x, n0)"
    by (auto simp: reg_view_def split: option.splits)
  define y where "y = fst (?m x)"
  have m: "?m x = (y, [Callback (Call_error h ?e)], Ret ())"
    by (simp add: y_def on_listening_def report_error_quiet assms(4))
  have y: "listen_channel y = listen_channel x" "finalize_handler (listen_deferred y) = finalize_handler (listen_deferred x)"
    "\<not> error_bool (deferred_error (listen_deferred y))"
    by (simp_all add: y_def on_listening_def report_error_quiet)
  note call = listener_call_present[where m = ?m, OF 0(1) e0 o0 m]
  define s1 where "s1 = with_object p y n0 s0"
  have ok1: "server_ok env s1" unfolding s1_def by (rule with_object_ok[OF 0(1) o0])
  have e1: "entry_ptr (str_hash env) (lst_id l) (srv_listeners s1) = Some p" using e0 by (simp add: s1_def)
  have o1: "objs (srv_listeners s1) p = Some (y, n0)" by (simp add: s1_def)
  have h1: "handlers s1 = (handlers s)(?c := None)" using 0(2) by (simp add: s1_def)
  have ex: "(\<exists>c. handlers s1 c = Some p) \<longleftrightarrow> (\<exists>c. c \<noteq> ?c \<and> handlers s c = Some p)" by (auto simp: h1)
  show thesis
  proof (rule listener_del_spec[OF ok1 e1 o1, of app])
    fix s2
    assume 2: "server_ok env s2" "srv_conns s2 = srv_conns s1" "lview env s2 = (lview env s1)(lst_id l := None)"
      "listener_del env app (lst_id l) s1 =
       (if \<exists>c. handlers s1 c = Some p then (s2, [], Ret ())
        else (s2, fst (destroy_listening (app_throws app) y), snd (destroy_listening (app_throws app) y)))"
    have "lview env s1 = (lview env s0)(lst_id l \<mapsto> y)" unfolding s1_def by (rule with_object_view[OF 0(1) e0])
    then have v: "lview env s2 = (lview env s)(lst_id l := None)" using 2(3) 0(4) by simp
    have t: "the_conn env tid (srv_conns s2) = ?c" using 0(3) by (simp add: 2(2) s1_def the_conn_def)
    show thesis
      using v t 2(1,2) h1
      by (intro that[of s2])
        (simp_all add: listen_consume_failed_def andthen_def 0(6) report_listen_error_def assms(5) call
          s1_def[symmetric] 2(4) ex destroy_listening_def destroy_quiet[OF y(3)] y(1,2), auto)
  qed
qed

text \<open>
  C21: On the thread that made it, the loss of its consumer ends a listener: the error is reported
  as \<open>QUEUE_CONSUMING\<close>, the channel is closed, the finalize callback runs and the listener is gone.
\<close>

theorem consumer_failure_ends_listener:
  assumes "server_ok env s" and "entry_ptr (str_hash env) (lst_id l) (srv_listeners s) = Some p"
    and "objs (srv_listeners s) p = Some (x, n)" and "error_handler (listen_deferred x) = Some h"
    and "finalize_handler (listen_deferred x) = Some f"
    and "app_throws app = quiet_throws" and "thread_conn env (srv_conns s) tid = Some c"
    and "handlers s c = Some p" and "\<And>d. handlers s d = Some p \<Longrightarrow> d = c"
  shows "\<exists>s1. listen_step env app tid l (Consumer_failed m) s =
      (s1, [Callback (Call_error h (broker_err Broker_QUEUE_CONSUMING m)),
            Command (Close_channel (listen_channel x)), Callback (Call_finalize f)], Ret ())
    \<and> server_ok env s1 \<and> lview env s1 = (lview env s)(lst_id l := None)"
proof -
  have c: "the_conn env tid (srv_conns s) = c" "connects env tid (srv_conns s) = []"
    using assms(7) by (simp_all add: the_conn_def connects_def)
  have t: "target_ok env s (the_conn env tid (srv_conns s))"
    unfolding c target_ok_def using assms(2,8) by auto
  have "(\<exists>d. d \<noteq> c \<and> handlers s d = Some p) = False" using assms(9) by blast
  note sole = this[folded c(1)]
  show ?thesis
    by (rule consumer_failed_spec[OF assms(1-4,6) t, of m]) (unfold sole c(2), simp add: assms(5))
qed

text \<open>
  C20: On any other thread it does not: \<open>reset_deferred\<close> works on the connection of the calling
  thread, so when \<open>listen\<close> ran on one thread and the loop runs on another, the loss of the consumer
  is reported but the handler of the first connection keeps the listener alive: its channel stays
  open and its finalize callback does not run, while its entry is gone, so that the error of that
  channel, which follows, and every other callback of the listener dereference a null pointer.
\<close>

theorem consumer_failure_leaks_listener:
  assumes "server_ok env s" and "entry_ptr (str_hash env) (lst_id l) (srv_listeners s) = Some p"
    and "objs (srv_listeners s) p = Some (x, n)" and "error_handler (listen_deferred x) = Some h"
    and "app_throws app = quiet_throws" and "target_ok env s (the_conn env tid (srv_conns s))"
    and "handlers s c = Some p" and "c \<noteq> the_conn env tid (srv_conns s)"
  shows "\<exists>s1. listen_step env app tid l (Consumer_failed m) s =
      (s1, map Command (connects env tid (srv_conns s))
           @ [Callback (Call_error h (broker_err Broker_QUEUE_CONSUMING m))], Ret ())
    \<and> handlers s1 c = Some p \<and> objs (srv_listeners s1) p \<noteq> None
    \<and> (\<forall>ev. snd (snd (listen_step env app tid l ev s1)) = Undefined)"
proof (rule consumer_failed_spec[OF assms(1-6), of m])
  fix s1
  assume 1: "listen_step env app tid l (Consumer_failed m) s =
      (s1, map Command (connects env tid (srv_conns s))
           @ [Callback (Call_error h (broker_err Broker_QUEUE_CONSUMING m))]
           @ (if \<exists>c. c \<noteq> the_conn env tid (srv_conns s) \<and> handlers s c = Some p then []
              else Command (Close_channel (listen_channel x)) #
                map Callback (case finalize_handler (listen_deferred x) of Some f \<Rightarrow> [Call_finalize f] | None \<Rightarrow> [])),
       Ret ())"
    "server_ok env s1" "lview env s1 = (lview env s)(lst_id l := None)"
    "handlers s1 = (handlers s)(the_conn env tid (srv_conns s) := None)"
    "the_conn env tid (srv_conns s1) = the_conn env tid (srv_conns s)"
  have hp: "handlers s1 c = Some p" using 1(4) assms(7,8) by simp
  have "objs (srv_listeners s1) p \<noteq> None"
    using counted_live(2)[OF server_okD(2)[OF 1(2)], of c p, OF hp] by auto
  moreover have "lview env s1 (lst_id l) = None" using 1(3) by simp
  moreover have "target_ok env s1 (the_conn env tid (srv_conns s1))"
    using 1(4,5) by (simp add: target_ok_def)
  moreover have "\<exists>c. c \<noteq> the_conn env tid (srv_conns s) \<and> handlers s c = Some p" using assms(7,8) by blast
  ultimately show ?thesis
    using 1(1) hp listen_step_gone[OF 1(2)] by auto
qed

subsection \<open>Errors of the connection\<close>

text \<open>
  The loss of a connection is reported to the listener that is its error target, until a message of
  that listener is handled on the thread of the connection, which clears the target.
\<close>

lemma delivery_clears_target:
  assumes "server_ok env s" and "lview env s (lst_id l) = Some x"
    and "entry_ptr (str_hash env) (lst_id l) (srv_listeners s) = Some p"
    and "error_handler (listen_deferred x) = Some h" and "failed (listen_deferred x) = Some False"
    and "data_handler (listen_deferred x) = Some g"
    and "thread_conn env (srv_conns s) tid = Some c" and "handlers s c = Some p"
    and "from_msgpack (delivery_body d) = Inr j" and "app_throws app = quiet_throws"
  shows "fst (snd (onLost app c s)) = [Callback (Call_error h (broker_err Broker_CONNECTION_LOST ''connection lost''))]
    \<and> (\<exists>s1 as. listen_step env app tid l (Delivered d) s = (s1, as, Ret ())
      \<and> lview env s1 (lst_id l) = Some x \<and> server_ok env s1
      \<and> thread_conn env (srv_conns s1) tid = Some c \<and> handlers s1 c = None)"
proof (rule conjI)
  have o: "map_option fst (objs (srv_listeners s) p) = Some x"
    using assms(2,3) by (simp add: reg_view_def)
  show "fst (snd (onLost app c s)) = [Callback (Call_error h (broker_err Broker_CONNECTION_LOST ''connection lost''))]"
  proof (rule connection_error_target[OF assms(1,8)])
    fix y n
    assume y: "objs (srv_listeners s) p = Some (y, n)"
      "report_connection_error app c (broker_err Broker_CONNECTION_LOST ''connection lost'') s =
       (case on_listening (report_error (app_throws app) (broker_err Broker_CONNECTION_LOST ''connection lost'')) y of
          (x1, as, r) \<Rightarrow> (with_object p x1 n s, as, r))"
    from o y(1) have "y = x" by simp
    with y(2) show ?thesis
      by (simp add: onLost_def assms(10) on_listening_def report_error_quiet assms(4))
  qed
  have c: "the_conn env tid (srv_conns s) = c" using assms(7) by (simp add: the_conn_def)
  have t: "target_ok env s (the_conn env tid (srv_conns s))"
    unfolding c target_ok_def using assms(3,8) by auto
  have q: "on_listening (report_data (app_throws app) (rep (Inr (mk_rpc (delivery_key d) j)), next_replay s)) x =
      (x, [Callback (Call_data g (rep (Inr (mk_rpc (delivery_key d) j)), next_replay s))], Ret ())"
    unfolding assms(10) by (rule on_listening_quiet_data[OF assms(5,6)])
  show "\<exists>s1 as. listen_step env app tid l (Delivered d) s = (s1, as, Ret ())
      \<and> lview env s1 (lst_id l) = Some x \<and> server_ok env s1
      \<and> thread_conn env (srv_conns s1) tid = Some c \<and> handlers s1 c = None"
  proof (rule listen_delivered[OF assms(1,2,9) t q])
    fix s1
    assume 1: "listen_step env app tid l (Delivered d) s =
      (s1, Command (Ack (listen_channel x) (delivery_tag d)) # map Command (connects env tid (srv_conns s))
           @ [Callback (Call_data g (rep (Inr (mk_rpc (delivery_key d) j)), next_replay s))], Ret ())"
      "server_ok env s1" "handlers s1 = (handlers s)(the_conn env tid (srv_conns s) := None)"
      "thread_conn env (srv_conns s1) = (thread_conn env (srv_conns s))(tid \<mapsto> the_conn env tid (srv_conns s))"
      "lview env s1 = lview env s"
    then show ?thesis using c assms(2) by simp
  qed
qed

subsection \<open>Completion handlers\<close>

fun is_complete :: "('h, 'p) action \<Rightarrow> bool" where
  "is_complete (Complete _ _) = True"
| "is_complete _ = False"

text \<open>
  In a run, a completion handler is installed early when the reply has not been committed before;
  \<open>K\<close> holds the replies committed so far.
\<close>

fun completes_early :: "nat set \<Rightarrow> 'h server_event list \<Rightarrow> bool" where
  "completes_early K [] = True"
| "completes_early K (ev # evs) =
     ((case ev of Set_complete p h \<Rightarrow> p \<notin> K | _ \<Rightarrow> True)
      \<and> completes_early (case ev of Commit_replay t p \<Rightarrow> insert p K | _ \<Rightarrow> K) evs)"

text \<open>The replies whose transaction is under way.\<close>

definition in_flight :: "'h server \<Rightarrow> nat set" where
  "in_flight s = {p. \<exists>ch cid. srv_commits s ch = Some (p, cid)}"

text \<open>A reply whose transaction is under way has been committed and has no completion handler.\<close>

definition settled :: "nat set \<Rightarrow> 'h server \<Rightarrow> bool" where
  "settled K s \<longleftrightarrow>
     (\<forall>ch p cid. srv_commits s ch = Some (p, cid) \<longrightarrow>
        p \<in> K \<and> (\<forall>x. srv_replays s p = Some x \<longrightarrow> complete_handler x = None))"

lemma settledI:
  "(\<And>ch p cid. srv_commits s ch = Some (p, cid) \<Longrightarrow> p \<in> K) \<Longrightarrow>
   (\<And>ch p cid x. srv_commits s ch = Some (p, cid) \<Longrightarrow> srv_replays s p = Some x \<Longrightarrow> complete_handler x = None)
   \<Longrightarrow> settled K s"
  unfolding settled_def by blast

lemma settledD:
  "settled K s \<Longrightarrow> srv_commits s ch = Some (p, cid) \<Longrightarrow> srv_replays s p = Some x \<Longrightarrow> complete_handler x = None"
  "settled K s \<Longrightarrow> srv_commits s ch = Some (p, cid) \<Longrightarrow> p \<in> K"
  unfolding settled_def by blast+

lemma settled_mono: "settled K s \<Longrightarrow> K \<subseteq> L \<Longrightarrow> settled L s"
  unfolding settled_def by blast

lemma settled_fields [simp]:
  "settled K (s\<lparr>srv_conns := cs\<rparr>) = settled K s" "settled K (s\<lparr>srv_listeners := l\<rparr>) = settled K s"
  by (simp_all add: settled_def)

definition silent :: "nat set \<Rightarrow> 'h server_step \<Rightarrow> bool" where
  "silent K f \<longleftrightarrow>
     (\<forall>s. settled K s \<longrightarrow> settled K (fst (f s)) \<and> count_acts is_complete (fst (snd (f s))) = 0)"

named_theorems silent_rules \<open>steps that run no completion handler\<close>

lemma silentD:
  "silent K f \<Longrightarrow> settled K s \<Longrightarrow> f s = (s1, as, r) \<Longrightarrow> settled K s1 \<and> count_acts is_complete as = 0"
  by (fastforce simp: silent_def)

lemma silentI:
  "(\<And>s s1 as r. settled K s \<Longrightarrow> f s = (s1, as, r) \<Longrightarrow> settled K s1 \<and> count_acts is_complete as = 0) \<Longrightarrow> silent K f"
  by (metis prod.collapse silent_def)

lemma silent_andthen [silent_rules]:
  assumes "silent K f" and "silent K g"
  shows "silent K (andthen f g)"
proof (rule silentI)
  fix s s1 as r
  assume "settled K s" and a: "andthen f g s = (s1, as, r)"
  obtain s0 bs q where f: "f s = (s0, bs, q)" by (metis prod.exhaust)
  from silentD[OF assms(1) \<open>settled K s\<close> f] have 0: "settled K s0" "count_acts is_complete bs = 0" by simp_all
  obtain s2 cs w where g: "g s0 = (s2, cs, w)" by (metis prod.exhaust)
  from a f g 0 silentD[OF assms(2) 0(1) g] show "settled K s1 \<and> count_acts is_complete as = 0"
    by (cases q) (auto simp: andthen_def)
qed

lemma silent_try [silent_rules]:
  assumes "silent K f" and "\<And>e. silent K (h e)"
  shows "silent K (try_catch f h)"
proof (rule silentI)
  fix s s1 as r
  assume "settled K s" and a: "try_catch f h s = (s1, as, r)"
  obtain s0 bs q where f: "f s = (s0, bs, q)" by (metis prod.exhaust)
  from silentD[OF assms(1) \<open>settled K s\<close> f] have 0: "settled K s0" "count_acts is_complete bs = 0" by simp_all
  show "settled K s1 \<and> count_acts is_complete as = 0"
  proof (cases q)
    case (Raise e)
    obtain s2 cs w where g: "h e s0 = (s2, cs, w)" by (metis prod.exhaust)
    from a f g 0 Raise silentD[OF assms(2) 0(1) g] show ?thesis by (auto simp: try_catch_def)
  qed (use a f 0 in \<open>auto simp: try_catch_def\<close>)
qed

lemma complete_Callback [simp]:
  "count_acts is_complete (map Callback cs) = 0" "count_acts is_complete (map Command as) = 0"
  by (simp_all add: count_acts_def filter_empty_conv)

lemma silent_plain [silent_rules]:
  "silent K skip_step" "silent K abort_step" "silent K (act [Command c])" "silent K (close_channel ch)"
  by (simp_all add: silent_def skip_step_def abort_step_def act_def close_channel_def)

text \<open>A step on the listeners changes no reply.\<close>

lemma silent_listeners:
  assumes "\<And>l l1 as r. f l = (l1, as, r) \<Longrightarrow> count_acts is_complete as = 0"
  shows "silent K (on_listeners f)"
  by (rule silentI) (use assms in \<open>auto simp: on_listeners_def split: prod.splits\<close>)

lemma on_listening_complete:
  "on_listening m x = (x1, as, r) \<Longrightarrow> count_acts is_complete as = 0"
  by (auto simp: on_listening_def split: prod.splits)

lemma destroy_complete: "destroy_listening thr x = (as, r) \<Longrightarrow> count_acts is_complete as = 0"
  by (auto simp: destroy_listening_def split: prod.splits)

lemma silent_call [silent_rules]:
  assumes "\<And>x x1 as r. m x = (x1, as, r) \<Longrightarrow> count_acts is_complete as = 0"
  shows "silent K (listener_call env k m)"
  unfolding listener_call_def
  by (rule silent_listeners)
    (auto simp: reg_call_def call_ptr_def split: prod.splits option.splits dest: assms)

lemma silent_report [silent_rules]: "silent K (listener_call env k (on_listening m))"
  by (rule silent_call) (rule on_listening_complete)

lemma destroy_opt_complete:
  "destroy_opt (destroy_listening thr) q = (l, as, r) \<Longrightarrow> count_acts is_complete as = 0"
  by (auto simp: destroy_opt_def split: prod.splits option.splits dest: destroy_complete)

lemma silent_del [silent_rules]: "silent K (listener_del env app k)" "silent K (release_listener app old)"
  unfolding listener_del_def release_listener_def reg_del_step_def
  by (auto intro!: silent_listeners dest: destroy_opt_complete)

lemma silent_reset [silent_rules]: "silent K (reset_deferred env app tid)"
proof (rule silentI)
  fix s s1 :: "'a server" and as r
  assume ok: "settled K s" and 1: "reset_deferred env app tid s = (s1, as, r)"
  obtain cs bs old q where a: "assign_deferred env tid None (srv_conns s) = (cs, bs, old, q)" by (metis prod.exhaust)
  let ?s = "s\<lparr>srv_conns := cs, srv_listeners := acquire_opt None (srv_listeners s)\<rparr>"
  obtain s2 es w where b: "release_listener app old ?s = (s2, es, w)" by (metis prod.exhaust)
  have "settled K s2 \<and> count_acts is_complete es = 0"
    by (rule silentD[OF silent_del(2) _ b]) (simp add: ok)
  with ok 1 a b show "settled K s1 \<and> count_acts is_complete as = 0"
    by (cases q) (auto simp: reset_deferred_def set_deferred_def)
qed

lemma silent_connection_error [silent_rules]: "silent K (report_connection_error app c e)"
proof -
  have "silent K (on_listeners (call_ptr (Some p) (on_listening (report_error (app_throws app) e))))" for p
    by (rule silent_listeners)
      (auto simp: call_ptr_def split: prod.splits option.splits dest: on_listening_complete)
  then show ?thesis
    by (intro silentI)
      (auto simp: report_connection_error_def split: option.splits dest: silentD)
qed

lemma silent_update [silent_rules]:
  assumes "p \<notin> K \<or> (\<forall>x. complete_handler x = None \<longrightarrow> complete_handler (f x) = None)"
  shows "silent K (update_replay p f)"
proof (rule silentI)
  fix s s1 :: "'a server" and as r
  assume ok: "settled K s" and 1: "update_replay p f s = (s1, as, r)"
  show "settled K s1 \<and> count_acts is_complete as = 0"
  proof (cases "srv_replays s p")
    case None
    with ok 1 show ?thesis by (auto simp: update_replay_def)
  next
    case (Some x)
    have "settled K (s\<lparr>srv_replays := (srv_replays s)(p := Some (f x))\<rparr>)"
      by (rule settledI) (use Some assms in \<open>auto dest: settledD[OF ok] split: if_splits\<close>)
    with 1 Some show ?thesis by (auto simp: update_replay_def)
  qed
qed

lemma settled_commit:
  assumes "settled K s" and "p \<in> K"
  shows "settled K (s\<lparr>srv_conns := cs, srv_commits := (srv_commits s)(ch := Some (p, cid)),
    srv_replays := (srv_replays s)(p := Some (x\<lparr>complete_handler := None\<rparr>))\<rparr>)"
  using assms(2) by (intro settledI) (auto dest: settledD[OF assms(1)] split: if_splits)

lemma silent_commit [silent_rules]:
  assumes "p \<in> K"
  shows "silent K (replay_commit env tid p)"
proof (rule silentI)
  fix s s1 :: "'a server" and as r
  assume ok: "settled K s" and 1: "replay_commit env tid p s = (s1, as, r)"
  show "settled K s1 \<and> count_acts is_complete as = 0"
  proof (cases "\<exists>x c j. srv_replays s p = Some x \<and> commit_handler x = Some c \<and> reply_json (replay_message x) = Ret j")
    case True
    then obtain x c j where x: "srv_replays s p = Some x" "commit_handler x = Some c" "reply_json (replay_message x) = Ret j"
      by blast
    obtain cs bs q where n: "new_channel env tid (srv_conns s) = (cs, bs, q)" by (metis prod.exhaust)
    show ?thesis
      using ok 1 x n settled_commit[OF ok assms, where cs = cs and cid = "commit_listener c" and x = x]
      by (cases q) (auto simp: replay_commit_def commit_body_def andthen_def update_replay_def)
  next
    case False
    with ok 1 show ?thesis
      by (auto simp: replay_commit_def commit_body_def andthen_def split: option.splits outcome.splits)
  qed
qed

text \<open>Deleting a reply whose transaction was under way.\<close>

lemma delete_settled:
  assumes "settled K s" and "\<And>x. srv_replays s p = Some x \<Longrightarrow> complete_handler x = None"
    and "andthen (delete_replay app p) (close_channel ch) s = (s1, as, r)"
  shows "settled K s1 \<and> count_acts is_complete as = 0"
proof -
  have "settled K (s\<lparr>srv_replays := (srv_replays s)(p := None)\<rparr>)"
    by (rule settledI) (auto dest: settledD[OF assms(1)] split: if_splits)
  with assms show ?thesis
    by (auto simp: andthen_def delete_replay_def destroy_replay_def close_channel_def act_def split: option.splits)
qed

lemma silent_confirm:
  assumes "silent K f" and "\<And>s. srv_replays (fst (f s)) = srv_replays s"
    and "settled K s" and "srv_commits s ch = Some (p, cid)"
    and "andthen f (andthen (delete_replay app p) (close_channel ch)) (s\<lparr>srv_commits := (srv_commits s)(ch := None)\<rparr>) = (s1, as, r)"
  shows "settled K s1 \<and> count_acts is_complete as = 0"
proof -
  let ?s = "s\<lparr>srv_commits := (srv_commits s)(ch := None)\<rparr>"
  have ok: "settled K ?s" by (rule settledI) (auto dest: settledD[OF assms(3)] split: if_splits)
  obtain s0 bs q where f: "f ?s = (s0, bs, q)" by (metis prod.exhaust)
  from silentD[OF assms(1) ok f] have 0: "settled K s0" "count_acts is_complete bs = 0" by simp_all
  have "srv_replays s0 = srv_replays s" using assms(2)[of ?s] f by simp
  then have x: "complete_handler x = None" if "srv_replays s0 p = Some x" for x
    using settledD[OF assms(3,4)] that by simp
  obtain s2 cs w where d: "andthen (delete_replay app p) (close_channel ch) s0 = (s2, cs, w)" by (metis prod.exhaust)
  from delete_settled[OF 0(1) x d] assms(5) f d 0 show ?thesis
    by (cases q) (auto simp: andthen_def[of f])
qed

lemma silent_confirmed [silent_rules]: "silent K (commit_ok app ch)" "silent K (commit_failed env app ch m)"
proof -
  let ?m = "on_listening (report_error (app_throws app) (broker_err Broker_PUBLISH m))"
  have f: "srv_replays (fst (listener_call env cid ?m s)) = srv_replays s" for cid and s :: "'a server"
    by (simp add: listener_call_def on_listeners_def split: prod.split)
  show "silent K (commit_failed env app ch m)"
    by (rule silentI)
      (auto simp: commit_failed_def with_commit_def split: option.splits
        dest: silent_confirm[OF silent_report f])
  have g: "srv_replays (fst (skip_step s)) = srv_replays s" for s :: "'a server"
    by (simp add: skip_step_def)
  show "silent K (commit_ok app ch)"
    by (rule silentI)
      (auto simp: commit_ok_def with_commit_def split: option.splits
        dest: silent_confirm[OF silent_plain(1) g, unfolded andthen_skip])
qed

lemma settled_reply: "settled K s \<Longrightarrow> settled K (with_reply l d s)"
  by (rule settledI) (auto simp: fresh_reply_def dest: settledD split: if_splits)

lemma silent_data [silent_rules]: "silent K (listen_data env app tid l d j)"
proof -
  let ?f = "\<lambda>p. try_catch
       (listener_call env (lst_id l)
          (on_listening (report_data (app_throws app) (rep (Inr (mk_rpc (delivery_key d) j)), p))))
       (\<lambda>_. andthen (reset_deferred env app tid) (andthen (listener_del env app (lst_id l)) abort_step))"
  have f: "silent K (?f p)" for p by (intro silent_rules)
  show ?thesis
  proof (rule silentI)
    fix s s1 :: "'a server" and as r
    assume ok: "settled K s" and 1: "listen_data env app tid l d j s = (s1, as, r)"
    have "?f (next_replay s) (with_reply l d s) = (s1, as, r)"
      using 1 unfolding listen_data_eq with_reply_def[symmetric] .
    from silentD[OF f settled_reply[OF ok] this] show "settled K s1 \<and> count_acts is_complete as = 0" .
  qed
qed

lemma silent_bind_failed [silent_rules]: "silent K (listen_bind_failed env app l m)"
  by (rule silentI) (auto simp: bind_failed_undefined)

lemma silent_listen_step [silent_rules]: "silent K (listen_step env app tid l ev)"
  by (cases ev)
    (auto simp: listen_channel_error_def listen_declare_failed_def listen_received_def listen_consume_ok_def
      listen_consume_failed_def report_listen_error_def split: sum.split intro!: silent_rules)

lemma silent_server_step:
  "(case ev of Set_complete p h \<Rightarrow> p \<notin> K | Commit_replay t p \<Rightarrow> p \<in> K | _ \<Rightarrow> True) \<Longrightarrow>
   silent K (server_step env app tid ev)"
  by (cases ev) (auto simp: onError_def onLost_def intro!: silent_rules)

lemma early_run:
  assumes "settled K s" and "completes_early K evs"
  shows "count_acts is_complete (fst (snd (server_run env app tid evs s))) = 0"
  using assms
proof (induction evs arbitrary: K s)
  case Nil
  then show ?case by (simp add: server_run_def skip_step_def)
next
  case (Cons ev evs)
  define L where "L = (case ev of Commit_replay t p \<Rightarrow> insert p K | _ \<Rightarrow> K)"
  have L: "completes_early L evs" "K \<subseteq> L" using Cons.prems(2) by (auto simp: L_def split: server_event.splits)
  have "silent L (server_step env app tid ev)"
    using Cons.prems(2) by (intro silent_server_step) (auto simp: L_def split: server_event.splits)
  moreover obtain s1 as r where 1: "server_step env app tid ev s = (s1, as, r)" by (metis prod.exhaust)
  ultimately have 2: "settled L s1" "count_acts is_complete as = 0"
    using silentD[where f = "server_step env app tid ev", OF _ settled_mono[OF Cons.prems(1) L(2)] 1] by simp_all
  from Cons.IH[OF 2(1) L(1)] 1 2(2) show ?case
    by (cases r) (auto simp: server_run_def andthen_def split: prod.split)
qed

text \<open>
  C23: A completion handler that is installed before the commit of its reply never runs: from any
  server whose replies under way have none, whatever handlers the other replies have, and over any
  sequence of deliveries, commits, confirmations, refusals and errors, in which the worker may
  install completion handlers at any time before the commit of the reply, on replies that were there
  or that were delivered meanwhile, no completion handler runs: \<open>commit\<close> drops it, and only a
  committed reply is ever deleted. In these runs the AMQP library runs the callbacks of a transaction
  after their registration; the other case is \<open>replay_commit_refused\<close> below.
\<close>

theorem completion_handlers_never_run:
  assumes "\<And>p x. p \<in> in_flight s \<Longrightarrow> srv_replays s p = Some x \<Longrightarrow> complete_handler x = None"
    and "completes_early (in_flight s) evs"
  shows "count_acts is_complete (fst (snd (server_run env app tid evs s))) = 0"
  by (rule early_run[OF _ assms(2)]) (rule settledI; use assms(1) in \<open>auto simp: in_flight_def\<close>)

text \<open>
  The same \<open>commit\<close> when the AMQP library refuses the transaction at once, that is, runs the error
  callback of \<open>commitTransaction\<close> while it is being registered, as a library does that cannot send the
  frame: the callback reports, deletes the reply and closes the channel before \<open>commit\<close> drops the
  completion handler. The handler then does run, and \<open>commit\<close> goes on to write to a reply that is gone.
\<close>

definition replay_commit_refused :: "env \<Rightarrow> 'h app \<Rightarrow> thread_id \<Rightarrow> nat \<Rightarrow> string \<Rightarrow> 'h server_step" where
  "replay_commit_refused env app tid p message s =
     (case srv_replays s p of
        None \<Rightarrow> (s, [], Undefined)
      | Some x \<Rightarrow>
          (case commit_handler x of
             None \<Rightarrow> (s, [], Ret ())
           | Some c \<Rightarrow>
               andthen (commit_body env tid c p)
                 (andthen (commit_failed env app (next_chan (srv_conns s)) message)
                    (update_replay p (\<lambda>x. x\<lparr>complete_handler := None\<rparr>))) s))"

theorem commit_refused_at_once:
  assumes "server_ok env s" and "srv_replays s p = Some x" and "replay_message x = rep v"
    and "commit_handler x = Some c" and "complete_handler x = Some h" and "complete_throws app h = None"
    and "lview env s (commit_listener c) = Some y" and "app_throws app = quiet_throws"
    and "channel_throws env (next_chan (srv_conns s)) (the_conn env tid (srv_conns s)) = None"
  shows "snd (snd (replay_commit_refused env app tid p m s)) = Undefined
    \<and> Complete h p \<in> set (fst (snd (replay_commit_refused env app tid p m s)))"
proof (rule new_channel_spec[OF server_okD(1)[OF assms(1)], of tid])
  fix cs1
  let ?ch = "next_chan (srv_conns s)" and ?e = "broker_err Broker_PUBLISH m"
  let ?m = "on_listening (report_error quiet_throws ?e)"
  assume n: "new_channel env tid (srv_conns s) =
       (case channel_throws env ?ch (the_conn env tid (srv_conns s)) of
          None \<Rightarrow> (cs1, connects env tid (srv_conns s) @ [Open_channel ?ch (the_conn env tid (srv_conns s))], Ret ?ch)
        | Some e \<Rightarrow> (cs1, connects env tid (srv_conns s), Raise e))"
    "connections_ok env cs1" "handler_ptr cs1 = handlers s"
  define s1 where "s1 = s\<lparr>srv_conns := cs1, srv_commits := (srv_commits s)(?ch := Some (p, commit_listener c))\<rparr>"
  obtain as where body: "commit_body env tid c p s = (s1, as, Ret ())"
    by (simp add: commit_body_def assms(2,3,9) reply_json_rep n(1) s1_def del: rep.simps)
  define s2 where "s2 = s1\<lparr>srv_commits := (srv_commits s1)(?ch := None)\<rparr>"
  have "server_ok env s2"
    using assms(1) n(2,3) by (simp add: server_ok_def s1_def s2_def)
  moreover have "lview env s2 (commit_listener c) = Some y" using assms(7) by (simp add: s1_def s2_def)
  moreover obtain y1 bs where "?m y = (y1, bs, Ret ())"
    by (simp add: on_listening_def report_error_quiet)
  ultimately obtain s3 where 3: "listener_call env (commit_listener c) ?m s2 = (s3, bs, Ret ())"
    "srv_replays s3 = srv_replays s2"
    by (rule listener_call_view[where m = ?m])
  have "srv_replays s3 p = Some x" using 3(2) assms(2) by (simp add: s1_def s2_def)
  moreover have "srv_commits s1 ?ch = Some (p, commit_listener c)" by (simp add: s1_def)
  ultimately have "commit_failed env app ?ch m s1 =
      (s3\<lparr>srv_replays := (srv_replays s3)(p := None)\<rparr>, bs @ [Complete h p, Command (Close_channel ?ch)], Ret ())"
    using 3(1) assms(5,6,8) unfolding s2_def
    by (simp add: commit_failed_def with_commit_def andthen_def delete_replay_def destroy_replay_def
        close_channel_def act_def)
  then show ?thesis
    by (simp add: replay_commit_refused_def assms(2,4) andthen_def body update_replay_def)
qed

text \<open>
  Committing a reply twice frees it twice: both commits publish, and the confirmation of the
  second transaction deletes what the first one has deleted.
\<close>

theorem double_commit_undefined:
  assumes "server_ok env s" and "srv_replays s p = Some x" and "replay_message x = rep v"
    and "commit_handler x = Some c" and "\<And>ch cn. channel_throws env ch cn = None"
  shows "\<exists>s1 as s2 bs s3. server_step env app tid (Commit_replay t p) s = (s1, as, Ret ())
    \<and> server_step env app tid (Commit_replay t p) s1 = (s2, bs, Ret ())
    \<and> count_acts is_publish as = 1 \<and> count_acts is_publish bs = 1
    \<and> server_step env app tid (Commit_done (next_chan (srv_conns s))) s2 =
        (s3, [Command (Close_channel (next_chan (srv_conns s)))], Ret ())
    \<and> snd (snd (server_step env app tid (Commit_done (next_chan (srv_conns s) + 1)) s3)) = Undefined"
proof (rule replay_commit_spec[OF assms(1-4) assms(5), of t])
  let ?ch = "next_chan (srv_conns s)"
  fix s1
  assume 1: "replay_commit env t p s =
      (s1, map Command (connects env t (srv_conns s) @
         [Open_channel ?ch (the_conn env t (srv_conns s)), Start_transaction ?ch,
          Publish ?ch [] (commit_reply_to c) (reply_envelope c (reply_value v)) {}, Commit_transaction ?ch]), Ret ())"
    "server_ok env s1" "srv_replays s1 = (srv_replays s)(p \<mapsto> x\<lparr>complete_handler := None\<rparr>)"
    "srv_commits s1 = (srv_commits s)(?ch \<mapsto> (p, commit_listener c))" "next_chan (srv_conns s1) = ?ch + 1"
  let ?x = "x\<lparr>complete_handler := None\<rparr>"
  have x: "srv_replays s1 p = Some ?x" "replay_message ?x = rep v" "commit_handler ?x = Some c"
    using 1(3) assms(3,4) by simp_all
  have pub: "count_acts is_publish (map Command (connects env t cs @
         [Open_channel ch a, Start_transaction ch, Publish ch u w e g, Commit_transaction ch])) = 1" for cs ch a u w e g
    by (simp add: connects_def to_address_def split: option.split prod.split)
  show ?thesis
  proof (rule replay_commit_spec[OF 1(2) x assms(5), of t])
    fix s2
    assume 2: "replay_commit env t p s1 =
      (s2, map Command (connects env t (srv_conns s1) @
         [Open_channel (next_chan (srv_conns s1)) (the_conn env t (srv_conns s1)),
          Start_transaction (next_chan (srv_conns s1)),
          Publish (next_chan (srv_conns s1)) [] (commit_reply_to c) (reply_envelope c (reply_value v)) {},
          Commit_transaction (next_chan (srv_conns s1))]), Ret ())"
      "srv_replays s2 = (srv_replays s1)(p \<mapsto> ?x\<lparr>complete_handler := None\<rparr>)"
      "srv_commits s2 = (srv_commits s1)(next_chan (srv_conns s1) \<mapsto> (p, commit_listener c))"
    define s3 where "s3 = s2\<lparr>srv_commits := (srv_commits s2)(?ch := None), srv_replays := (srv_replays s2)(p := None)\<rparr>"
    have "srv_commits s2 ?ch = Some (p, commit_listener c)" using 2(3) 1(4,5) by simp
    from commit_ok_spec[OF this, of ?x] 2(2) have
      d: "server_step env app tid (Commit_done ?ch) s2 = (s3, [Command (Close_channel ?ch)], Ret ())"
      by (simp add: s3_def)
    have "snd (snd (server_step env app tid (Commit_done (?ch + 1)) s3)) = Undefined"
      using 2(3) 1(5) by (simp add: s3_def commit_ok_def with_commit_def andthen_def delete_replay_def)
    moreover have "server_step env app tid (Commit_replay t p) s = (s1, fst (snd (replay_commit env t p s)), Ret ())"
      "server_step env app tid (Commit_replay t p) s1 = (s2, fst (snd (replay_commit env t p s1)), Ret ())"
      using 1(1) 2(1) by simp_all
    moreover have "count_acts is_publish (fst (snd (replay_commit env t p s))) = 1"
      "count_acts is_publish (fst (snd (replay_commit env t p s1))) = 1"
      unfolding 1(1) 2(1) fst_conv snd_conv by (rule pub)+
    ultimately show ?thesis using d by blast
  qed
qed

subsection \<open>Whole runs\<close>

lemma report_error_not_Undefined: "snd (snd (on_listening (report_error thr e) x)) \<noteq> Undefined"
  by (auto simp: on_listening_def report_error_def Let_def invoke_def split: prod.splits option.splits if_splits)

lemma connection_error_defined:
  assumes "server_ok env s" and "conn_objs (srv_conns s) c \<noteq> None"
  shows "snd (snd (report_connection_error app c e s)) \<noteq> Undefined"
proof (cases "handlers s c")
  case None
  then show ?thesis by (simp add: connection_error_none[OF None assms(2)])
next
  case (Some p)
  show ?thesis
  proof (rule connection_error_target[OF assms(1) Some])
    fix x n
    assume "report_connection_error app c e s =
       (case on_listening (report_error (app_throws app) e) x of (x1, as, r) \<Rightarrow> (with_object p x1 n s, as, r))"
    then show ?thesis using report_error_not_Undefined[of "app_throws app" e x] by (auto split: prod.splits)
  qed
qed

text \<open>
  C14: Whatever happens, in whatever order, a server stays well formed: every use count is the
  number of owners of its listener, so no listener is freed while an entry or a connection points
  to it or kept when nothing does, and an error of a connection never follows a dangling pointer.
\<close>

theorem server_stays_well_formed:
  assumes "server_ok env s"
  shows "server_ok env (fst (server_run env app tid evs s))
    \<and> (conn_objs (srv_conns (fst (server_run env app tid evs s))) c \<noteq> None \<longrightarrow>
         snd (snd (onLost app c (fst (server_run env app tid evs s)))) \<noteq> Undefined)"
  using server_run_ok[OF assms, of app tid evs]
    connection_error_defined[where s = "fst (server_run env app tid evs s)" and c = c and app = app]
  unfolding onLost_def by blast

text \<open>
  A failed binding is never reported: its error text has four places for strings and gets two,
  so the callback of \<open>bindQueue\<close> is undefined behaviour whatever the message.
\<close>

theorem binding_failure_undefined:
  "listen_step env app tid l (Bind_failed m) s = (s, [], Undefined)"
  by (simp add: bind_failed_undefined)

subsection \<open>listen\<close>

text \<open>The ids in use are among those handed out.\<close>

definition listen_ok :: "env \<Rightarrow> int \<times> 'h server \<Rightarrow> bool" where
  "listen_ok env ns \<longleftrightarrow>
     (case ns of (n, s) \<Rightarrow>
        1 \<le> n \<and> server_ok env s
        \<and> (\<forall>k. lview env s k \<noteq> None \<longrightarrow> (\<exists>i. 1 \<le> i \<and> i < n \<and> k = dec_int i)))"

lemma listen_ok_fresh:
  assumes "listen_ok env (n, s)"
  shows "lview env s (dec_int n) = None"
proof (rule ccontr)
  assume "lview env s (dec_int n) \<noteq> None"
  with assms obtain i where "1 \<le> i" "i < n" "dec_int n = dec_int i" by (auto simp: listen_ok_def)
  with dec_int_inject[of n i] show False by simp
qed

lemma listen_messages_spec:
  assumes "listen_ok env (n, s)" and "n < INT_MAX"
    and "channel_throws env (next_chan (srv_conns s)) (the_conn env tid (srv_conns s)) = None"
    and "target_ok env s (the_conn env tid (srv_conns s))"
  shows "\<exists>s1 p. listen_messages env app tid exchange queue keys (n, s) =
      ((n + 1, s1),
       map Command (connects env tid (srv_conns s) @
         Open_channel (next_chan (srv_conns s)) (the_conn env tid (srv_conns s)) #
         Declare_queue (next_chan (srv_conns s)) queue {durable} #
         map (Bind_queue (next_chan (srv_conns s)) exchange queue) keys @
         [Consume (next_chan (srv_conns s)) queue {}]), Ret p)
    \<and> listen_ok env (n + 1, s1)
    \<and> lview env s1 = (lview env s)(dec_int n \<mapsto> mk_listening (next_chan (srv_conns s)))
    \<and> entry_ptr (str_hash env) (dec_int n) (srv_listeners s1) = Some p
    \<and> handlers s1 = (handlers s)(the_conn env tid (srv_conns s) \<mapsto> p)
    \<and> p = next_ptr (srv_listeners s)
    \<and> thread_conn env (srv_conns s1) = (thread_conn env (srv_conns s))(tid \<mapsto> the_conn env tid (srv_conns s))
    \<and> next_chan (srv_conns s1) = next_chan (srv_conns s) + 1
    \<and> srv_replays s1 = srv_replays s \<and> next_replay s1 = next_replay s \<and> srv_commits s1 = srv_commits s"
proof -
  let ?c = "the_conn env tid (srv_conns s)" and ?ch = "next_chan (srv_conns s)" and ?h = "str_hash env"
  have n: "1 \<le> n" and ok: "server_ok env s"
    and ids: "\<And>k. lview env s k \<noteq> None \<Longrightarrow> \<exists>i. 1 \<le> i \<and> i < n \<and> k = dec_int i"
    using assms(1) by (auto simp: listen_ok_def)
  show ?thesis
  proof (rule new_channel_spec[OF server_okD(1)[OF ok], of tid])
    fix cs
    assume cs: "new_channel env tid (srv_conns s) =
       (case channel_throws env ?ch ?c of
          None \<Rightarrow> (cs, connects env tid (srv_conns s) @ [Open_channel ?ch ?c], Ret ?ch)
        | Some e \<Rightarrow> (cs, connects env tid (srv_conns s), Raise e))"
      "connections_ok env cs" "handler_ptr cs = handlers s"
      "thread_conn env cs = (thread_conn env (srv_conns s))(tid \<mapsto> ?c)" "next_chan cs = ?ch + 1"
    have free: "entry_ptr ?h (dec_int n) (srv_listeners s) = None"
      using listen_ok_fresh[OF assms(1)] lview_None[OF ok] by blast
    define p where "p = next_ptr (srv_listeners s)"
    from counted_set[OF server_okD(2)[OF ok] free, of "mk_listening ?ch"] obtain l1 where
      l1: "reg_set ?h (dec_int n) (mk_listening ?ch) (srv_listeners s) = (None, l1)" "counted ?h (handlers s) None l1"
      "cache_live ?h (entries l1) = (cache_live ?h (entries (srv_listeners s)))(dec_int n \<mapsto> p)"
      "objs l1 = (objs (srv_listeners s))(p \<mapsto> (mk_listening ?ch, 1))"
      unfolding p_def by blast
    define s0 where "s0 = s\<lparr>srv_conns := cs, srv_listeners := l1\<rparr>"
    have ok0: "server_ok env s0"
      by (rule server_okI) (use ok cs(2,3) l1(2) in \<open>auto simp: s0_def dest: server_okD\<close>)
    have e0: "entry_ptr ?h (dec_int n) (srv_listeners s0) = Some p" by (simp add: s0_def l1(3))
    have g: "reg_get ?h (clock env) (dec_int n) l1 = (Some p, l1)"
      using ptr_cache.get_law[OF countedD(1)[OF l1(2)]] by (simp add: reg_get_def l1(3))
    have c0: "the_conn env tid (srv_conns s0) = ?c" "connects env tid (srv_conns s0) = []"
      by (simp_all add: s0_def the_conn_def[of env tid cs] connects_def[of env tid cs] cs(4))
    have live: "objs (srv_listeners s0) a \<noteq> None" if "Some p = Some a" for a
      using that by (simp add: s0_def l1(4))
    have fresh: "entry_ptr ?h k (srv_listeners s) \<noteq> Some p" for k
      using counted_live(1)[OF server_okD(2)[OF ok], of k p] countedD(4)[OF server_okD(2)[OF ok], of p]
      by (auto simp: p_def)
    have "\<not> sole_owner env s0 ?c q" if "handlers s0 ?c = Some q" for q
    proof -
      from that have "handlers s ?c = Some q" by (simp add: s0_def cs(3))
      with assms(4) obtain k where k: "entry_ptr ?h k (srv_listeners s) = Some q" by (auto simp: target_ok_def)
      then have "k \<noteq> dec_int n" using free by auto
      with k have "entry_ptr ?h k (srv_listeners s0) = Some q" by (simp add: s0_def l1(3))
      then show ?thesis by (auto simp: sole_owner_def)
    qed
    note sole = this
    have v0: "lview env s0 = (lview env s)(dec_int n \<mapsto> mk_listening ?ch)"
      using fresh by (auto simp: fun_eq_iff reg_view_def s0_def l1(3,4) split: option.split)
    show ?thesis
    proof (rule set_deferred_spec[OF ok0 live, where tid = tid and app = app])
      fix s1
      assume 1: "server_ok env s1" "handlers s1 = (handlers s0)(the_conn env tid (srv_conns s0) \<mapsto> p)"
        "lview env s1 = lview env s0" "entries (srv_listeners s1) = entries (srv_listeners s0)"
        "set_deferred env app tid (Some p) s0 =
         (case handlers s0 (the_conn env tid (srv_conns s0)) of
            None \<Rightarrow> (s1, map Command (connects env tid (srv_conns s0)), Ret ())
          | Some q \<Rightarrow>
              if sole_owner env s0 (the_conn env tid (srv_conns s0)) q \<and> Some p \<noteq> Some q then
                (case objs (srv_listeners s0) q of
                   Some (x, n) \<Rightarrow>
                     (s1, map Command (connects env tid (srv_conns s0)) @ fst (destroy_listening (app_throws app) x),
                      snd (destroy_listening (app_throws app) x))
                 | None \<Rightarrow> (s1, [], Undefined))
              else (s1, map Command (connects env tid (srv_conns s0)), Ret ()))"
        "thread_conn env (srv_conns s1) = (thread_conn env (srv_conns s0))(tid \<mapsto> the_conn env tid (srv_conns s0))"
        "next_chan (srv_conns s1) = next_chan (srv_conns s0)"
        "srv_replays s1 = srv_replays s0" "next_replay s1 = next_replay s0" "srv_commits s1 = srv_commits s0"
      have d: "set_deferred env app tid (Some p) s0 = (s1, [], Ret ())"
        using sole unfolding 1(5) c0 by (simp split: option.split)
      have "\<exists>i. 1 \<le> i \<and> i < n + 1 \<and> k = dec_int i" if "lview env s1 k \<noteq> None" for k
        using that ids[of k] n unfolding 1(3) v0 by (cases "k = dec_int n") (auto intro: exI[of _ n])
      then have "listen_ok env (n + 1, s1)" using 1(1) n by (auto simp: listen_ok_def)
      moreover have "listen_messages env app tid exchange queue keys (n, s) =
          ((n + 1, s1),
           map Command (connects env tid (srv_conns s) @ Open_channel ?ch ?c # Declare_queue ?ch queue {durable} #
             map (Bind_queue ?ch exchange queue) keys @ [Consume ?ch queue {}]), Ret p)"
        using d by (simp add: listen_messages_def create_unique_id_def assms(2,3) cs(1) l1(1) destroy_opt_def
            on_listeners_def g s0_def)
      moreover have "handlers s1 = (handlers s)(?c \<mapsto> p)" using 1(2) unfolding c0 by (simp add: s0_def cs(3))
      moreover have "thread_conn env (srv_conns s1) = (thread_conn env (srv_conns s))(tid \<mapsto> ?c)"
        using 1(6) unfolding c0 by (simp add: s0_def cs(4))
      moreover have "next_chan (srv_conns s1) = ?ch + 1" "srv_replays s1 = srv_replays s"
        "next_replay s1 = next_replay s" "srv_commits s1 = srv_commits s"
        using 1(7-10) by (simp_all add: s0_def cs(5))
      moreover have "entry_ptr ?h (dec_int n) (srv_listeners s1) = Some p" using 1(4) e0 by simp
      moreover have "lview env s1 = (lview env s)(dec_int n \<mapsto> mk_listening ?ch)" using 1(3) v0 by simp
      ultimately show ?thesis using p_def by blast
    qed
  qed
qed

text \<open>
  \<open>listen\<close> opens one channel on the connection of the calling thread, registers a fresh
  listener under an id that is not in use, makes it the error target of that connection, and asks
  for the durable queue, one binding for each routing key and the consumer, in this order.
\<close>

theorem listen_registers:
  assumes "listen_ok env (n, s)" and "n < INT_MAX"
    and "channel_throws env (next_chan (srv_conns s)) (the_conn env tid (srv_conns s)) = None"
    and "target_ok env s (the_conn env tid (srv_conns s))"
  shows "\<exists>s1 p. listen_messages env app tid exchange queue keys (n, s) =
      ((n + 1, s1),
       map Command (connects env tid (srv_conns s) @
         Open_channel (next_chan (srv_conns s)) (the_conn env tid (srv_conns s)) #
         Declare_queue (next_chan (srv_conns s)) queue {durable} #
         map (Bind_queue (next_chan (srv_conns s)) exchange queue) keys @
         [Consume (next_chan (srv_conns s)) queue {}]), Ret p)
    \<and> listen_ok env (n + 1, s1)
    \<and> lview env s1 = (lview env s)(dec_int n \<mapsto> mk_listening (next_chan (srv_conns s)))
    \<and> entry_ptr (str_hash env) (dec_int n) (srv_listeners s1) = Some p
    \<and> handlers s1 = (handlers s)(the_conn env tid (srv_conns s) \<mapsto> p)"
  using listen_messages_spec[OF assms, of app exchange queue keys] by blast

subsection \<open>Instances\<close>

definition quiet_app :: "nat app" where
  "quiet_app = \<lparr>app_throws = quiet_throws, complete_throws = (\<lambda>_. None)\<rparr>"

definition new_server :: "address \<Rightarrow> u16 \<Rightarrow> 'h server" where
  "new_server a heartbeat =
     \<lparr>srv_conns = mk_connections a heartbeat, srv_listeners = new_registry, srv_replays = (\<lambda>_. None),
      next_replay = 0, srv_commits = (\<lambda>_. None)\<rparr>"

lemma new_server_ok: "listen_ok env (1, new_server a h)"
  by (simp add: listen_ok_def server_ok_def new_server_def)

definition sample_listener :: listener where
  "sample_listener = \<lparr>lst_id = ''1'', lst_exchange = ''amq.topic'', lst_queue = ''q''\<rparr>"

definition sample_listening :: "nat listening" where
  "sample_listening =
     \<lparr>listen_deferred = fst (report_success (quiet_throws :: nat listen_throws)
        (on_finalize 4 (on_error 3 (on_data 1 (mk_deferred (common_err Common_OK)))) :: nat deferred)),
      listen_channel = 0\<rparr>"

definition sample_delivery :: delivery where
  "sample_delivery =
     \<lparr>delivery_tag = 7, delivery_body = to_msgpack sample_json, delivery_key = ''k'', delivery_reply_to = ''r'',
      delivery_cid = ''42''\<rparr>"

text \<open>A server that listens, on thread 9, with the callbacks installed and the consumer confirmed.\<close>

definition sample_server0 :: "nat server" where
  "sample_server0 =
     snd (fst (listen_messages sample_env quiet_app 9 ''amq.topic'' ''q'' [''k''] (1, new_server sample_address 60)))"

definition sample_server :: "nat server" where
  "sample_server = with_object 0 sample_listening (uses (srv_listeners sample_server0) 0) sample_server0"

lemma sample_listening_facts:
  "failed (listen_deferred sample_listening) = Some False" "data_handler (listen_deferred sample_listening) = Some 1"
  "error_handler (listen_deferred sample_listening) = Some 3"
  "finalize_handler (listen_deferred sample_listening) = Some 4" "listen_channel sample_listening = 0"
  by (simp_all add: sample_listening_def deferred_setter_defs mk_deferred_def report_success_def)

lemma dec_int_1: "dec_int 1 = ''1''"
  by (simp add: dec_int_def dec_nat.simps digit_char_def) code_simp

lemma sample_server0_facts:
  "server_ok sample_env sample_server0" "lview sample_env sample_server0 = [''1'' \<mapsto> mk_listening 0]"
  "entry_ptr (str_hash sample_env) ''1'' (srv_listeners sample_server0) = Some 0"
  "handlers sample_server0 = [0 \<mapsto> 0]" "thread_conn sample_env (srv_conns sample_server0) = [9 \<mapsto> 0]"
  "next_chan (srv_conns sample_server0) = 1" "srv_replays sample_server0 = (\<lambda>_. None)"
  "next_replay sample_server0 = 0" "srv_commits sample_server0 = (\<lambda>_. None)"
proof -
  let ?s = "new_server sample_address 60 :: nat server"
  have t: "thread_conn sample_env (srv_conns ?s) = (\<lambda>_. None)"
    by (rule ext) (simp add: new_server_def mk_connections_def)
  have f: "next_chan (srv_conns ?s) = 0" "the_conn sample_env 9 (srv_conns ?s) = 0" "next_ptr (srv_listeners ?s) = 0"
    "lview sample_env ?s = (\<lambda>_. None)" "handlers ?s = (\<lambda>_. None)" "target_ok sample_env ?s 0"
    "srv_replays ?s = (\<lambda>_. None)" "next_replay ?s = 0" "srv_commits ?s = (\<lambda>_. None)"
    using t reg_ok_new(3)[of "str_hash sample_env"]
    by (simp_all add: the_conn_def target_ok_def new_server_def)
      (simp_all add: mk_connections_def new_registry_def)
  have "channel_throws sample_env (next_chan (srv_conns ?s)) (the_conn sample_env 9 (srv_conns ?s)) = None"
    by (simp add: sample_env_def)
  from listen_messages_spec[OF new_server_ok _ this, of quiet_app "''amq.topic''" "''q''" "[''k'']"] f t
  show "server_ok sample_env sample_server0" "lview sample_env sample_server0 = [''1'' \<mapsto> mk_listening 0]"
    "entry_ptr (str_hash sample_env) ''1'' (srv_listeners sample_server0) = Some 0"
    "handlers sample_server0 = [0 \<mapsto> 0]" "thread_conn sample_env (srv_conns sample_server0) = [9 \<mapsto> 0]"
    "next_chan (srv_conns sample_server0) = 1" "srv_replays sample_server0 = (\<lambda>_. None)"
    "next_replay sample_server0 = 0" "srv_commits sample_server0 = (\<lambda>_. None)"
    unfolding sample_server0_def by (auto simp: INT_MAX_def dec_int_1 listen_ok_def)
qed

lemma sample_server_facts:
  "server_ok sample_env sample_server" "lview sample_env sample_server (lst_id sample_listener) = Some sample_listening"
  "entry_ptr (str_hash sample_env) (lst_id sample_listener) (srv_listeners sample_server) = Some 0"
  "handlers sample_server = [0 \<mapsto> 0]" "thread_conn sample_env (srv_conns sample_server) = [9 \<mapsto> 0]"
  "next_chan (srv_conns sample_server) = 1" "srv_replays sample_server = (\<lambda>_. None)"
  "next_replay sample_server = 0" "srv_commits sample_server = (\<lambda>_. None)"
  "objs (srv_listeners sample_server) 0 = Some (sample_listening, uses (srv_listeners sample_server0) 0)"
  "app_throws quiet_app = quiet_throws"
proof -
  from counted_live(1)[OF server_okD(2)[OF sample_server0_facts(1)] sample_server0_facts(3)] obtain x n where
    x: "objs (srv_listeners sample_server0) 0 = Some (x, n)" by blast
  have n: "n = uses (srv_listeners sample_server0) 0" using x by (simp add: uses_def)
  show "server_ok sample_env sample_server"
    unfolding sample_server_def n[symmetric] by (rule with_object_ok[OF sample_server0_facts(1) x])
  show "lview sample_env sample_server (lst_id sample_listener) = Some sample_listening"
    unfolding sample_server_def with_object_view[OF sample_server0_facts(1,3)]
    by (simp add: sample_listener_def)
qed (simp_all add: sample_server_def sample_server0_facts sample_listener_def quiet_app_def)

lemma sample_conn:
  "the_conn sample_env 9 (srv_conns sample_server) = 0" "connects sample_env 9 (srv_conns sample_server) = []"
  "target_ok sample_env sample_server 0"
  "channel_throws sample_env c d = None"
proof -
  show "the_conn sample_env 9 (srv_conns sample_server) = 0" "connects sample_env 9 (srv_conns sample_server) = []"
    by (simp_all add: the_conn_def connects_def sample_server_facts(5))
  show "target_ok sample_env sample_server 0"
    using sample_server_facts(3) by (auto simp: target_ok_def sample_server_facts(4))
  show "channel_throws sample_env c d = None" by (simp add: sample_env_def)
qed

theorem message_delivered_witness:
  "fst (snd (listen_step sample_env quiet_app 9 sample_listener (Delivered sample_delivery) sample_server)) =
     [Command (Ack 0 7), Callback (Call_data 1 (rep (Inr (mk_rpc ''k'' (canon sample_json))), 0))]"
proof -
  have "delivery_body sample_delivery = to_msgpack sample_json" by (simp add: sample_delivery_def)
  moreover have "target_ok sample_env sample_server (the_conn sample_env 9 (srv_conns sample_server))"
    by (simp only: sample_conn)
  ultimately show ?thesis
    using message_delivered[OF sample_server_facts(1,2) sample_listening_facts(1,2) storable_sample _ _ sample_server_facts(11),
        of sample_delivery 9]
    by (auto simp: sample_conn(2) sample_listening_facts(5) sample_server_facts(8) sample_delivery_def simp del: rep.simps)
qed

text \<open>The same server once a message has been delivered and the worker has put its result in the reply.\<close>

definition sample_closure :: commit_closure where
  "sample_closure = \<lparr>commit_cid = ''42'', commit_reply_to = ''r'', commit_listener = ''1''\<rparr>"

definition sample_reply :: "nat replay" where
  "sample_reply = \<lparr>replay_message = rep (Inr sample_json), commit_handler = Some sample_closure, complete_handler = Some 5\<rparr>"

definition answered_server :: "nat server" where
  "answered_server = sample_server\<lparr>srv_replays := [0 \<mapsto> sample_reply], next_replay := 1\<rparr>"

lemma answered_server_facts:
  "server_ok sample_env answered_server" "srv_replays answered_server 0 = Some sample_reply"
  "srv_conns answered_server = srv_conns sample_server" "srv_commits answered_server = (\<lambda>_. None)"
  "replay_message sample_reply = rep (Inr sample_json)" "commit_handler sample_reply = Some sample_closure"
  using sample_server_facts(1)
  by (simp_all add: answered_server_def server_ok_def sample_server_facts(9) sample_reply_def)

theorem reply_published_witness:
  "\<exists>s1 e. server_step sample_env quiet_app 9 (Commit_replay 9 0) answered_server =
      (s1, map Command [Open_channel 1 0, Start_transaction 1, Publish 1 [] ''r'' e {}, Commit_transaction 1], Ret ())
    \<and> from_msgpack (body e) = Inr (canon sample_json) \<and> correlation_id e = Some ''42''"
proof -
  have "channel_throws sample_env (next_chan (srv_conns answered_server)) (the_conn sample_env 9 (srv_conns answered_server)) = None"
    by (rule sample_conn(4))
  moreover have v: "reply_value (Inr sample_json :: error + json) = sample_json" by (simp add: sample_json_def json_empty_def)
  then have "storable (reply_value (Inr sample_json))" by (simp only: storable_sample)
  ultimately show ?thesis
    using reply_published[OF answered_server_facts(1,2,5,6), of 9 quiet_app 9]
    unfolding v by (auto simp: answered_server_facts(3) sample_conn sample_server_facts(6) sample_closure_def)
qed

theorem malformed_message_silences_listener_witness:
  "\<exists>s1 s2 as. fst (listen_step sample_env quiet_app 9 sample_listener (Delivered (sample_delivery\<lparr>delivery_body := []\<rparr>)) sample_server) = s1
    \<and> server_run sample_env quiet_app 9
        (map (\<lambda>d. Listener_event sample_listener (Delivered d)) [sample_delivery, sample_delivery]) s1 = (s2, as, Ret ())
    \<and> count_acts is_ack as = 2 \<and> count_acts is_data as = 0"
proof -
  have "from_msgpack (delivery_body (sample_delivery\<lparr>delivery_body := []\<rparr>)) =
      Inl (unexpected_eof ''value'' \<lparr>input = [], chars_read = 1\<rparr>)"
    by (simp add: from_msgpack_def sax_parse_def get_char_def)
  moreover have "target_ok sample_env sample_server (the_conn sample_env 9 (srv_conns sample_server))"
    by (simp only: sample_conn)
  ultimately show ?thesis
    using malformed_message_silences_listener[OF sample_server_facts(1,2) sample_listening_facts(3) _ sample_server_facts(11),
        of "sample_delivery\<lparr>delivery_body := []\<rparr>" _ 9 "[sample_delivery, sample_delivery]"]
    by (auto simp del: map_map list.map)
qed

theorem consumer_failure_ends_listener_witness:
  "fst (snd (listen_step sample_env quiet_app 9 sample_listener (Consumer_failed ''gone'') sample_server)) =
     [Callback (Call_error 3 (broker_err Broker_QUEUE_CONSUMING ''gone'')), Command (Close_channel 0),
      Callback (Call_finalize 4)]"
proof -
  have "thread_conn sample_env (srv_conns sample_server) 9 = Some 0" "handlers sample_server 0 = Some 0"
    "\<And>d. handlers sample_server d = Some 0 \<Longrightarrow> d = 0"
    by (simp_all add: sample_server_facts(4,5) split: if_splits)
  from consumer_failure_ends_listener[OF sample_server_facts(1,3,10) sample_listening_facts(3,4) sample_server_facts(11) this,
      of "''gone''"]
  show ?thesis by (auto simp: sample_listening_facts(5))
qed

text \<open>A second thread has no connection yet: it is given a new one.\<close>

lemma sample_other_thread: "the_conn sample_env 8 (srv_conns sample_server) \<noteq> 0"
proof -
  note ok = server_okD(1)[OF sample_server_facts(1)]
  have "thread_conn sample_env (srv_conns sample_server) 9 = Some 0" by (simp add: sample_server_facts(5))
  from connections_okD(2)[OF ok this] have "0 < next_conn (srv_conns sample_server)"
    using connections_okD(4)[OF ok, of 0] by auto
  then show ?thesis by (simp add: the_conn_def sample_server_facts(5))
qed

theorem consumer_failure_leaks_listener_witness:
  "\<exists>s1. fst (listen_step sample_env quiet_app 8 sample_listener (Consumer_failed ''gone'') sample_server) = s1
    \<and> handlers s1 0 = Some 0
    \<and> snd (snd (listen_step sample_env quiet_app 8 sample_listener (Channel_error ''closed'') s1)) = Undefined"
proof -
  have "target_ok sample_env sample_server (the_conn sample_env 8 (srv_conns sample_server))"
    using sample_other_thread by (simp add: target_ok_def sample_server_facts(4))
  moreover have "handlers sample_server 0 = Some 0" by (simp add: sample_server_facts(4))
  ultimately show ?thesis
    using consumer_failure_leaks_listener[OF sample_server_facts(1,3,10) sample_listening_facts(3) sample_server_facts(11),
        of 8 0 "''gone''"] sample_other_thread
    by (auto simp del: listen_step.simps)
qed

theorem completion_handlers_never_run_witness:
  "count_acts is_complete (fst (snd (server_run sample_env quiet_app 9
     [Listener_event sample_listener (Delivered sample_delivery), Set_complete 0 5, Set_message 0 (rep (Inr sample_json)),
      Commit_replay 9 0, Listener_event sample_listener (Delivered sample_delivery), Set_complete 1 6,
      Commit_done 1] sample_server))) = 0"
  by (rule completion_handlers_never_run) (simp_all add: in_flight_def sample_server_facts(9))

theorem commit_refused_at_once_witness:
  "snd (snd (replay_commit_refused sample_env quiet_app 9 0 ''no'' answered_server)) = Undefined
   \<and> Complete 5 0 \<in> set (fst (snd (replay_commit_refused sample_env quiet_app 9 0 ''no'' answered_server)))"
proof (rule commit_refused_at_once[OF answered_server_facts(1,2,5,6)])
  show "complete_handler sample_reply = Some 5" "complete_throws quiet_app 5 = None" "app_throws quiet_app = quiet_throws"
    by (simp_all add: sample_reply_def quiet_app_def)
  show "lview sample_env answered_server (commit_listener sample_closure) = Some sample_listening"
    using sample_server_facts(2) by (simp add: answered_server_def sample_closure_def sample_listener_def)
qed (rule sample_conn(4))

theorem double_commit_undefined_witness:
  "\<exists>s3. snd (snd (server_step sample_env quiet_app 9 (Commit_done 2) s3)) = Undefined
     \<and> fst (server_run sample_env quiet_app 9 [Commit_replay 9 0, Commit_replay 9 0, Commit_done 1] answered_server) = s3"
proof -
  have "next_chan (srv_conns answered_server) = 1" by (simp add: answered_server_facts(3) sample_server_facts(6))
  with double_commit_undefined[OF answered_server_facts(1,2,5,6) sample_conn(4), of quiet_app 9 9]
  show ?thesis by (auto simp: server_run_def andthen_def skip_step_def numeral_2_eq_2)
qed

theorem server_stays_well_formed_witness:
  "server_ok sample_env (fst (server_run sample_env quiet_app 9
     [Listener_event sample_listener (Delivered sample_delivery), Connection_lost 0, Commit_replay 9 0] sample_server))"
  using server_stays_well_formed[OF sample_server_facts(1),
      of quiet_app 9 "[Listener_event sample_listener (Delivered sample_delivery), Connection_lost 0, Commit_replay 9 0]"]
  by blast

theorem listen_registers_witness:
  "fst (snd (listen_messages sample_env quiet_app 9 ''x'' ''q'' [''a'', ''b''] (1, new_server sample_address 60))) =
     map Command [Connect 0 ''somewhereelse.org'' 1111 ''admin'' ''password'' ''/vhost'', Open_channel 0 0,
       Declare_queue 0 ''q'' {durable}, Bind_queue 0 ''x'' ''q'' ''a'', Bind_queue 0 ''x'' ''q'' ''b'', Consume 0 ''q'' {}]"
proof -
  let ?s = "new_server sample_address 60 :: nat server"
  have t: "thread_conn sample_env (srv_conns ?s) 9 = None" by (simp add: new_server_def mk_connections_def)
  have f: "next_chan (srv_conns ?s) = 0" "the_conn sample_env 9 (srv_conns ?s) = 0" "target_ok sample_env ?s 0"
    using t by (simp_all add: the_conn_def target_ok_def new_server_def) (simp_all add: mk_connections_def)
  have a: "connects sample_env 9 (srv_conns ?s) = [Connect 0 ''somewhereelse.org'' 1111 ''admin'' ''password'' ''/vhost'']"
    using t by (simp add: connects_def)
      (simp add: new_server_def mk_connections_def to_address_def to_login_def sample_address_def get_login_def
        get_username_def get_password_def get_hostname_def get_port_def get_vhost_def)
  have "channel_throws sample_env (next_chan (srv_conns ?s)) (the_conn sample_env 9 (srv_conns ?s)) = None"
    by (rule sample_conn(4))
  moreover have "target_ok sample_env ?s (the_conn sample_env 9 (srv_conns ?s))" by (simp only: f)
  moreover have "(1 :: int) < INT_MAX" by (simp add: INT_MAX_def)
  ultimately show ?thesis
    using listen_registers[OF new_server_ok, of sample_env sample_address 60 9 quiet_app "''x''" "''q''" "[''a'', ''b'']"]
    by (auto simp: f a)
qed

end
