(* ===== verification/Callbacks.thy ===== *)
theory Callbacks
  imports Serving
begin

section \<open>What a callback of a server can meet\<close>

text \<open>
  The callbacks of \<open>Listen\<close> follow raw pointers: ids captured by lambdas and looked up without a
  test, replies that the application and two transactions share. This theory says, for a
  well-formed server, exactly which of them can be undefined behaviour, and which connections can
  lose or gain an error target.
\<close>

subsection \<open>Undefined behaviour\<close>

text \<open>
  The callbacks that follow a pointer to nothing, or read what was never written: a callback of a
  listener whose entry is gone, a binding that failed (its error text lacks arguments), a message
  for a listener that was never confirmed, a transaction whose reply another one has deleted, or
  whose listener is gone when it is refused, an error of a connection that does not exist, and work
  on a reply that was deleted.
\<close>

fun server_hazard :: "env \<Rightarrow> 'h server \<Rightarrow> 'h server_event \<Rightarrow> bool" where
  "server_hazard env s (Listener_event l ev) =
     (case lview env s (lst_id l) of
        None \<Rightarrow> True
      | Some x \<Rightarrow>
          (case ev of
             Bind_failed _ \<Rightarrow> True
           | Delivered d \<Rightarrow> (case from_msgpack (delivery_body d) of Inl _ \<Rightarrow> False | Inr _ \<Rightarrow> failed (listen_deferred x) = None)
           | _ \<Rightarrow> False))"
| "server_hazard env s (Commit_done ch) =
     (case srv_commits s ch of None \<Rightarrow> False | Some (p, cid) \<Rightarrow> srv_replays s p = None)"
| "server_hazard env s (Commit_refused ch m) =
     (case srv_commits s ch of
        None \<Rightarrow> False
      | Some (p, cid) \<Rightarrow> srv_replays s p = None \<or> lview env s cid = None)"
| "server_hazard env s (Connection_error c m) = (conn_objs (srv_conns s) c = None)"
| "server_hazard env s (Connection_lost c) = (conn_objs (srv_conns s) c = None)"
| "server_hazard env s (Set_message p m) = (srv_replays s p = None)"
| "server_hazard env s (Set_complete p h) = (srv_replays s p = None)"
| "server_hazard env s (Commit_replay t p) =
     (case srv_replays s p of
        None \<Rightarrow> True
      | Some x \<Rightarrow> commit_handler x \<noteq> None \<and> reply_json (replay_message x) = Undefined)"

lemma andthen_undefined:
  assumes "snd (snd (andthen f g s)) = Undefined" and "snd (snd (f s)) \<noteq> Undefined"
  obtains s1 as where "f s = (s1, as, Ret ())" "snd (snd (g s1)) = Undefined"
proof -
  obtain s1 as r where f: "f s = (s1, as, r)" by (metis prod.exhaust)
  with assms show thesis by (cases r) (auto simp: andthen_def intro: that split: prod.splits)
qed

lemma destroy_defined: "snd (destroy_listening thr x) \<noteq> Undefined"
proof -
  have "snd (run_noexcept thr cs) \<noteq> Undefined" for cs
    by (induction cs) (auto split: option.split prod.split)
  then show ?thesis by (simp add: destroy_listening_def destroy_deferred_def split: prod.split) (metis snd_conv)
qed

lemma reset_defined:
  assumes "server_ok env s"
  shows "snd (snd (reset_deferred env app tid s)) \<noteq> Undefined"
    and "server_ok env (fst (reset_deferred env app tid s))"
    and "lview env (fst (reset_deferred env app tid s)) = lview env s"
proof -
  have "snd (snd (reset_deferred env app tid s)) \<noteq> Undefined
      \<and> server_ok env (fst (reset_deferred env app tid s)) \<and> lview env (fst (reset_deferred env app tid s)) = lview env s"
  proof (rule set_deferred_spec[OF assms, of None tid app])
    fix s1
    assume 1: "server_ok env s1" "lview env s1 = lview env s"
      "set_deferred env app tid None s =
       (case handlers s (the_conn env tid (srv_conns s)) of
          None \<Rightarrow> (s1, map Command (connects env tid (srv_conns s)), Ret ())
        | Some q \<Rightarrow>
            if sole_owner env s (the_conn env tid (srv_conns s)) q \<and> None \<noteq> Some q then
              (case objs (srv_listeners s) q of
                 Some (x, n) \<Rightarrow>
                   (s1, map Command (connects env tid (srv_conns s)) @ fst (destroy_listening (app_throws app) x),
                    snd (destroy_listening (app_throws app) x))
               | None \<Rightarrow> (s1, [], Undefined))
            else (s1, map Command (connects env tid (srv_conns s)), Ret ()))"
    have "objs (srv_listeners s) q \<noteq> None" if "handlers s (the_conn env tid (srv_conns s)) = Some q" for q
      using counted_live(2)[OF server_okD(2)[OF assms], of _ q, OF that] by auto
    with 1 show ?thesis
      by (auto simp: reset_deferred_def destroy_defined split: option.splits)
  qed simp
  then show "snd (snd (reset_deferred env app tid s)) \<noteq> Undefined"
    "server_ok env (fst (reset_deferred env app tid s))"
    "lview env (fst (reset_deferred env app tid s)) = lview env s" by simp_all
qed

lemma del_defined:
  assumes "server_ok env s"
  shows "snd (snd (listener_del env app k s)) \<noteq> Undefined"
proof (cases "lview env s k")
  case None
  from listener_del_absent[OF assms None, of app] show ?thesis by auto
next
  case (Some x)
  from lview_ptr[OF assms Some] obtain p n where p: "entry_ptr (str_hash env) k (srv_listeners s) = Some p"
    "objs (srv_listeners s) p = Some (x, n)" .
  show ?thesis by (rule listener_del_spec[OF assms p, of app]) (simp add: destroy_defined)
qed

lemma call_undefined:
  assumes "server_ok env s" and "snd (snd (listener_call env k m s)) = Undefined"
  shows "lview env s k = None \<or> (\<exists>x. lview env s k = Some x \<and> snd (snd (m x)) = Undefined)"
proof (cases "lview env s k")
  case (Some x)
  obtain x1 as r where m: "m x = (x1, as, r)" by (metis prod.exhaust)
  show ?thesis
    by (rule listener_call_view[where m = m, OF assms(1) Some m]) (use assms(2) m Some in simp)
qed simp

lemma report_undefined:
  assumes "server_ok env s" and "snd (snd (listener_call env k (on_listening (report_error thr e)) s)) = Undefined"
  shows "lview env s k = None"
  using call_undefined[OF assms] report_error_not_Undefined by blast

text \<open>A call leaves a listener that is there.\<close>

lemma call_present:
  assumes "server_ok env s" and "lview env s k \<noteq> None"
  shows "lview env (fst (listener_call env k m s)) k \<noteq> None"
proof -
  from assms(2) obtain x where x: "lview env s k = Some x" by blast
  obtain x1 as r where m: "m x = (x1, as, r)" by (metis prod.exhaust)
  show ?thesis by (rule listener_call_view[where m = m, OF assms(1) x m]) simp
qed

lemma data_undefined:
  assumes "server_ok env s" and "snd (snd (listen_data env app tid l d j s)) = Undefined"
    and "lview env s (lst_id l) = Some x"
  shows "failed (listen_deferred x) = None"
proof (rule ccontr)
  assume f: "failed (listen_deferred x) \<noteq> None"
  let ?m = "on_listening (report_data (app_throws app) (rep (Inr (mk_rpc (delivery_key d) j)), next_replay s))"
  have ok: "server_ok env (with_reply l d s)" "lview env (with_reply l d s) (lst_id l) = Some x"
    using assms(1,3) by (simp_all add: with_reply_ok)
  obtain y as r where m: "?m x = (y, as, r)" by (metis prod.exhaust)
  from f m have r: "r \<noteq> Undefined"
    by (auto simp: on_listening_def report_data_def deferred_bool_def invoke_def split: option.splits if_splits bool.splits)
  show False
  proof (rule listener_call_view[where m = ?m, OF ok m])
    fix s1
    assume c: "listener_call env (lst_id l) ?m (with_reply l d s) = (s1, as, r)" "server_ok env s1"
    let ?h = "andthen (reset_deferred env app tid) (andthen (listener_del env app (lst_id l)) abort_step)"
    have "snd (snd (?h s1)) \<noteq> Undefined"
    proof
      assume "snd (snd (?h s1)) = Undefined"
      then obtain s2 bs where 2: "reset_deferred env app tid s1 = (s2, bs, Ret ())"
        "snd (snd (andthen (listener_del env app (lst_id l)) abort_step s2)) = Undefined"
        by (rule andthen_undefined) (rule reset_defined(1)[OF c(2)])
      have "server_ok env s2" using reset_defined(2)[OF c(2), of app tid] by (simp add: 2(1))
      from 2(2) show False
        by (rule andthen_undefined) (auto simp: del_defined[OF \<open>server_ok env s2\<close>] abort_step_def)
    qed
    then show False
      using assms(2) c(1) r unfolding listen_data_eq with_reply_def[symmetric]
      by (cases r) (auto simp: try_catch_def split: prod.splits)
  qed
qed


lemma received_undefined:
  assumes "server_ok env s" and "snd (snd (listen_received env app tid l d s)) = Undefined"
    and "lview env s (lst_id l) = Some x"
  shows "\<exists>j. from_msgpack (delivery_body d) = Inr j \<and> failed (listen_deferred x) = None"
proof (rule listen_ack[OF assms(1,3), of "delivery_tag d"])
  fix s0
  assume 0: "listener_call env (lst_id l) (\<lambda>x. (x, [Command (Ack (listen_channel x) (delivery_tag d))], Ret ())) s =
      (s0, [Command (Ack (listen_channel x) (delivery_tag d))], Ret ())"
    "server_ok env s0" "lview env s0 = lview env s"
  show ?thesis
  proof (cases "from_msgpack (delivery_body d)")
    case (Inl e)
    with assms(2) 0 have "snd (snd (report_listen_error env app (lst_id l) (broker_err Broker_CHANNEL_MESSAGE (error_text e)) s0)) = Undefined"
      by (simp add: listen_received_def andthen_def split: prod.splits)
    from report_undefined[OF 0(2) this[unfolded report_listen_error_def]] 0(3) assms(3) show ?thesis by simp
  next
    case (Inr j)
    with assms(2) 0 have "snd (snd (andthen (reset_deferred env app tid) (listen_data env app tid l d j) s0)) = Undefined"
      by (simp add: listen_received_def andthen_def[of "listener_call env k m" for k m] split: prod.splits)
    then obtain s1 as where 1: "reset_deferred env app tid s0 = (s1, as, Ret ())"
      "snd (snd (listen_data env app tid l d j s1)) = Undefined"
      by (rule andthen_undefined) (rule reset_defined(1)[OF 0(2)])
    have "server_ok env s1" "lview env s1 (lst_id l) = Some x"
      using reset_defined(2,3)[OF 0(2), of app tid] 0(3) assms(3) by (simp_all add: 1(1))
    from data_undefined[OF this(1) 1(2) this(2)] Inr show ?thesis by simp
  qed
qed

lemma consume_failed_undefined:
  assumes "server_ok env s" and "snd (snd (listen_consume_failed env app tid l m s)) = Undefined"
  shows "lview env s (lst_id l) = None"
proof (rule ccontr)
  assume present: "lview env s (lst_id l) \<noteq> None"
  from assms(2) obtain s1 as where 1: "reset_deferred env app tid s = (s1, as, Ret ())"
    "snd (snd (andthen (report_listen_error env app (lst_id l) (broker_err Broker_QUEUE_CONSUMING m))
        (listener_del env app (lst_id l)) s1)) = Undefined"
    unfolding listen_consume_failed_def by (rule andthen_undefined) (rule reset_defined(1)[OF assms(1)])
  have ok: "server_ok env s1" "lview env s1 (lst_id l) \<noteq> None"
    using reset_defined(2,3)[OF assms(1), of app tid] present by (simp_all add: 1(1))
  have r: "snd (snd (report_listen_error env app (lst_id l) (broker_err Broker_QUEUE_CONSUMING m) s1)) \<noteq> Undefined"
    using report_undefined[OF ok(1)] ok(2) unfolding report_listen_error_def by fastforce
  from 1(2) r obtain s2 bs where 2: "report_listen_error env app (lst_id l) (broker_err Broker_QUEUE_CONSUMING m) s1 = (s2, bs, Ret ())"
    "snd (snd (listener_del env app (lst_id l) s2)) = Undefined"
    by (rule andthen_undefined)
  have "server_ok env s2"
    using listener_call_ok[OF ok(1)] 2(1) unfolding report_listen_error_def by (metis fst_conv)
  with 2(2) del_defined show False by blast
qed

text \<open>The deletion of a reply, and the closing of its channel, are undefined only if it is gone.\<close>

lemma delete_undefined:
  assumes "snd (snd (andthen (delete_replay app p) (close_channel ch) s)) = Undefined"
  shows "srv_replays s p = None"
  using assms
  by (auto simp: andthen_def delete_replay_def destroy_replay_def close_channel_def act_def split: option.splits)

lemma refused_undefined:
  assumes "server_ok env s" and "snd (snd (commit_failed env app ch m s)) = Undefined"
  shows "\<exists>p cid. srv_commits s ch = Some (p, cid) \<and> (srv_replays s p = None \<or> lview env s cid = None)"
proof (cases "srv_commits s ch")
  case (Some a)
  obtain p cid where a: "srv_commits s ch = Some (p, cid)" using Some by (cases a) simp
  let ?s = "s\<lparr>srv_commits := (srv_commits s)(ch := None)\<rparr>"
  let ?m = "on_listening (report_error (app_throws app) (broker_err Broker_PUBLISH m))"
  have ok: "server_ok env ?s" using assms(1) by (simp add: server_ok_def)
  have u: "snd (snd (andthen (listener_call env cid ?m) (andthen (delete_replay app p) (close_channel ch)) ?s)) = Undefined"
    using assms(2) by (simp add: commit_failed_def with_commit_def a)
  have "srv_replays s p = None \<or> lview env s cid = None"
  proof (rule ccontr)
    assume h: "\<not> (srv_replays s p = None \<or> lview env s cid = None)"
    then have "snd (snd (listener_call env cid ?m ?s)) \<noteq> Undefined"
      using report_undefined[OF ok] by fastforce
    with u obtain s1 as where 1: "listener_call env cid ?m ?s = (s1, as, Ret ())"
      "snd (snd (andthen (delete_replay app p) (close_channel ch) s1)) = Undefined"
      by (rule andthen_undefined)
    have "srv_replays (fst (listener_call env cid ?m ?s)) = srv_replays s"
      by (simp add: listener_call_def on_listeners_def split: prod.split)
    with delete_undefined[OF 1(2)] h 1(1) show False by simp
  qed
  with a show ?thesis by blast
qed (use assms(2) in \<open>simp add: commit_failed_def with_commit_def\<close>)

lemma commit_undefined:
  assumes "server_ok env s" and "snd (snd (replay_commit env tid p s)) = Undefined"
  shows "server_hazard env s (Commit_replay tid p)"
proof (rule new_channel_spec[OF server_okD(1)[OF assms(1)], of tid])
  fix cs1
  assume "new_channel env tid (srv_conns s) =
       (case channel_throws env (next_chan (srv_conns s)) (the_conn env tid (srv_conns s)) of
          None \<Rightarrow> (cs1, connects env tid (srv_conns s) @
             [Open_channel (next_chan (srv_conns s)) (the_conn env tid (srv_conns s))], Ret (next_chan (srv_conns s)))
        | Some e \<Rightarrow> (cs1, connects env tid (srv_conns s), Raise e))"
  with assms(2) show ?thesis
    by (auto simp: replay_commit_def commit_body_def andthen_def update_replay_def split: option.splits outcome.splits)
qed

lemma listen_undefined:
  assumes "server_ok env s" and "snd (snd (listen_step env app tid l ev s)) = Undefined"
  shows "server_hazard env s (Listener_event l ev)"
proof (cases "lview env s (lst_id l)")
  case (Some x)
  have plain: "snd (snd (listener_call env (lst_id l) (on_listening (report_error thr e)) s)) \<noteq> Undefined" for thr e
    using report_undefined[OF assms(1)] Some by fastforce
  have success: "snd (snd (listener_call env (lst_id l) (on_listening (report_success thr)) s)) \<noteq> Undefined" for thr
    using call_undefined[OF assms(1), of "lst_id l" "on_listening (report_success thr)"] Some
    by (auto simp: on_listening_def report_success_def Let_def invoke_def split: option.splits)
  show ?thesis
  proof (cases ev)
    case (Delivered d)
    with assms(2) Some received_undefined[OF assms(1), of app tid l d x] show ?thesis by auto
  next
    case (Consumer_failed m)
    with assms(2) Some consume_failed_undefined[OF assms(1), of app tid l m] show ?thesis by simp
  qed (use assms(2) plain success Some in
      \<open>auto simp: listen_channel_error_def listen_declare_failed_def report_listen_error_def listen_consume_ok_def\<close>)
qed simp

text \<open>On a well-formed server these are the only ways to undefined behaviour.\<close>

lemma server_step_undefined:
  assumes "server_ok env s" and "snd (snd (server_step env app tid ev s)) = Undefined"
  shows "server_hazard env s ev"
proof (cases ev)
  case (Listener_event l e)
  then show ?thesis using listen_undefined[OF assms(1)] assms(2) by simp
next
  case (Commit_done ch)
  with assms(2) show ?thesis
    by (auto simp: commit_ok_def with_commit_def split: option.splits dest!: delete_undefined)
next
  case (Commit_refused ch m)
  with refused_undefined[OF assms(1), of app ch m] assms(2) show ?thesis by auto
next
  case (Connection_error c m)
  with connection_error_defined[OF assms(1), of c app] assms(2) show ?thesis by (fastforce simp: onError_def)
next
  case (Connection_lost c)
  with connection_error_defined[OF assms(1), of c app] assms(2) show ?thesis by (fastforce simp: onLost_def)
next
  case (Commit_replay t p)
  with commit_undefined[OF assms(1), of t p] assms(2) show ?thesis by simp
qed (use assms(2) in \<open>auto simp: update_replay_def split: option.splits\<close>)

subsection \<open>Connections without an error target\<close>

text \<open>The connection \<open>c\<close> of thread \<open>tid\<close> reports its errors to nobody.\<close>

definition unreported :: "env \<Rightarrow> thread_id \<Rightarrow> conn \<Rightarrow> 'h server \<Rightarrow> bool" where
  "unreported env tid c s \<longleftrightarrow>
     server_ok env s \<and> thread_conn env (srv_conns s) tid = Some c \<and> handlers s c = None"

definition calm :: "env \<Rightarrow> thread_id \<Rightarrow> conn \<Rightarrow> 'h server_step \<Rightarrow> bool" where
  "calm env tid c f \<longleftrightarrow> (\<forall>s. unreported env tid c s \<longrightarrow> unreported env tid c (fst (f s)))"

named_theorems calm_rules \<open>steps that give a connection no error target\<close>

lemma calmD: "calm env tid c f \<Longrightarrow> unreported env tid c s \<Longrightarrow> unreported env tid c (fst (f s))"
  by (simp add: calm_def)

lemma unreported_silent:
  assumes "unreported env tid c s"
  shows "report_connection_error app c e s = (s, [], Ret ())"
proof -
  have "conn_objs (srv_conns s) c \<noteq> None"
    using assms connections_okD(2)[OF server_okD(1)] unfolding unreported_def by blast
  with assms show ?thesis by (simp add: unreported_def connection_error_none)
qed

lemma calm_andthen [calm_rules]: "calm env tid c f \<Longrightarrow> calm env tid c g \<Longrightarrow> calm env tid c (andthen f g)"
  unfolding calm_def by (blast intro: andthen_invariant[where P = "unreported env tid c"])

lemma calm_try [calm_rules]:
  "calm env tid c f \<Longrightarrow> (\<And>e. calm env tid c (h e)) \<Longrightarrow> calm env tid c (try_catch f h)"
  unfolding calm_def by (blast intro: try_catch_invariant[where P = "unreported env tid c"])

text \<open>A step that leaves the connections alone.\<close>

lemma calm_frame: "keeps_ok env f \<Longrightarrow> (\<And>s. srv_conns (fst (f s)) = srv_conns s) \<Longrightarrow> calm env tid c f"
  by (simp add: calm_def unreported_def keepsD)

lemma on_listeners_conns [simp]: "srv_conns (fst (on_listeners f s)) = srv_conns s"
  by (simp add: on_listeners_def split: prod.split)

lemma calm_plain [calm_rules]:
  "calm env tid c skip_step" "calm env tid c abort_step" "calm env tid c (act as)" "calm env tid c (close_channel ch)"
  "calm env tid c (listener_call env k m)" "calm env tid c (listener_del env app k)"
  "calm env tid c (delete_replay app p)" "calm env tid c (update_replay p f)"
  by (rule calm_frame, rule keeps, simp add: skip_step_def abort_step_def act_def close_channel_def
      listener_call_def listener_del_def delete_replay_def update_replay_def split: option.split prod.split)+

lemma calm_connection_error [calm_rules]: "calm env tid c (report_connection_error app d e)"
  by (rule calm_frame) (simp_all add: keeps report_connection_error_def split: option.split)

text \<open>A thread keeps its connection.\<close>

lemma same_conn: "thread_conn env cs u = Some c \<Longrightarrow> ((thread_conn env cs)(t \<mapsto> the_conn env t cs)) u = Some c"
  by (auto simp: the_conn_def)

lemma set_deferred_unreported:
  assumes "unreported env tid c s" and "\<And>a. p = Some a \<Longrightarrow> objs (srv_listeners s) a \<noteq> None"
    and "p = None \<or> the_conn env t (srv_conns s) \<noteq> c"
  shows "unreported env tid c (fst (set_deferred env app t p s))"
proof -
  have ok: "server_ok env s" using assms(1) by (simp add: unreported_def)
  show ?thesis
  proof (rule set_deferred_spec[OF ok assms(2), of p t app])
    fix s1
    assume "server_ok env s1" "handlers s1 = (handlers s)(the_conn env t (srv_conns s) := p)"
      "thread_conn env (srv_conns s1) = (thread_conn env (srv_conns s))(t \<mapsto> the_conn env t (srv_conns s))"
      and e: "set_deferred env app t p s =
       (case handlers s (the_conn env t (srv_conns s)) of
          None \<Rightarrow> (s1, map Command (connects env t (srv_conns s)), Ret ())
        | Some q \<Rightarrow>
            if sole_owner env s (the_conn env t (srv_conns s)) q \<and> p \<noteq> Some q then
              (case objs (srv_listeners s) q of
                 Some (x, n) \<Rightarrow>
                   (s1, map Command (connects env t (srv_conns s)) @ fst (destroy_listening (app_throws app) x),
                    snd (destroy_listening (app_throws app) x))
               | None \<Rightarrow> (s1, [], Undefined))
            else (s1, map Command (connects env t (srv_conns s)), Ret ()))"
    with assms(1,3) have "unreported env tid c s1"
      using same_conn[of env "srv_conns s" tid c t] by (auto simp: unreported_def)
    moreover have "fst (set_deferred env app t p s) = s1"
      unfolding e by (simp split: option.split prod.split)
    ultimately show ?thesis by simp
  qed simp
qed

lemma calm_reset [calm_rules]: "calm env tid c (reset_deferred env app t)"
  unfolding calm_def reset_deferred_def
proof (intro allI impI)
  fix s :: "'a server"
  assume "unreported env tid c s"
  then show "unreported env tid c (fst (set_deferred env app t None s))"
    by (rule set_deferred_unreported) simp_all
qed

text \<open>Opening a channel changes no error target.\<close>

lemma unreported_conns:
  assumes "unreported env tid c s" and "connections_ok env cs" and "handler_ptr cs = handlers s"
    and "thread_conn env cs = (thread_conn env (srv_conns s))(t \<mapsto> the_conn env t (srv_conns s))"
  shows "unreported env tid c (s\<lparr>srv_conns := cs\<rparr>)"
  using assms same_conn[of env "srv_conns s" tid c t] by (simp add: unreported_def server_ok_def)

lemma calm_commit [calm_rules]: "calm env tid c (commit_body env t a p)"
  unfolding calm_def
proof (intro allI impI)
  fix s :: "'a server"
  assume u: "unreported env tid c s"
  then have ok: "connections_ok env (srv_conns s)" by (simp add: unreported_def server_ok_def)
  show "unreported env tid c (fst (commit_body env t a p s))"
  proof (rule new_channel_spec[OF ok, of t])
    fix cs
    assume cs: "new_channel env t (srv_conns s) =
       (case channel_throws env (next_chan (srv_conns s)) (the_conn env t (srv_conns s)) of
          None \<Rightarrow> (cs, connects env t (srv_conns s) @
             [Open_channel (next_chan (srv_conns s)) (the_conn env t (srv_conns s))], Ret (next_chan (srv_conns s)))
        | Some e \<Rightarrow> (cs, connects env t (srv_conns s), Raise e))"
      "connections_ok env cs" "handler_ptr cs = handlers s"
      "thread_conn env cs = (thread_conn env (srv_conns s))(t \<mapsto> the_conn env t (srv_conns s))"
    from unreported_conns[OF u cs(2-4)] u cs(1) show ?thesis
      by (auto simp: commit_body_def unreported_def server_ok_def split: option.split outcome.split)
  qed
qed

lemma calm_replay_commit [calm_rules]: "calm env tid c (replay_commit env t p)"
  unfolding calm_def replay_commit_def
  by (auto split: option.split intro!: calmD[OF calm_andthen[OF calm_commit calm_plain(8)]])

lemma calm_with_commit [calm_rules]:
  assumes "\<And>p cid. calm env tid c (f p cid)"
  shows "calm env tid c (with_commit ch f)"
proof -
  have "unreported env tid c (s\<lparr>srv_commits := x\<rparr>) = unreported env tid c s" for s :: "'a server" and x
    by (simp add: unreported_def server_ok_def)
  then show ?thesis using assms by (auto simp: calm_def with_commit_def split: option.split)
qed

lemma calm_listen_data [calm_rules]: "calm env tid c (listen_data env app t l d j)"
proof -
  have "unreported env tid c s \<Longrightarrow> unreported env tid c (with_reply l d s)" for s :: "'a server"
    by (simp add: unreported_def with_reply_ok)
  moreover have "calm env tid c (try_catch
       (listener_call env (lst_id l)
          (on_listening (report_data (app_throws app) (rep (Inr (mk_rpc (delivery_key d) j)), p))))
       (\<lambda>_. andthen (reset_deferred env app t) (andthen (listener_del env app (lst_id l)) abort_step)))" for p
    by (intro calm_rules)
  ultimately show ?thesis
    unfolding calm_def listen_data_eq with_reply_def[symmetric] by simp
qed

lemma calm_server_step [calm_rules]: "calm env tid c (server_step env app t ev)"
proof -
  have "calm env tid c (listen_bind_failed env app l m)" for l m
    unfolding calm_def by (simp add: bind_failed_undefined)
  then have "calm env tid c (listen_step env app t l e)" for l e
    by (cases e)
      (auto simp: listen_channel_error_def listen_declare_failed_def listen_received_def listen_consume_ok_def
        listen_consume_failed_def report_listen_error_def split: sum.split intro!: calm_rules)
  then show ?thesis
    by (cases ev) (auto simp: commit_ok_def commit_failed_def onError_def onLost_def intro!: calm_rules)
qed
end
