(* ===== verification/Rpc.thy ===== *)
theory Rpc
  imports Serving
begin

section \<open>A call from a client to a worker and back\<close>

text \<open>
  The composition of \<open>fetch\<close> (\<open>Fetch\<close>) with \<open>listen\<close> and \<open>commit\<close> (\<open>Listen\<close>): a client and a
  worker, each with its own environment, and the AMQP server between them. What the server is
  relied on for is that it hands a worker the body, the routing key, the correlation id and the
  return queue of the message that was published, and a client the body of the reply; these are
  the hypotheses on the delivery.
\<close>

text \<open>The delivery \<open>d\<close> carries the envelope \<open>e\<close> that was published under \<open>key\<close>.\<close>

definition carries :: "delivery \<Rightarrow> string \<Rightarrow> envelope \<Rightarrow> bool" where
  "carries d key e \<longleftrightarrow>
     delivery_body d = body e \<and> delivery_key d = key \<and> correlation_id e = Some (delivery_cid d)
     \<and> reply_to e = Some (delivery_reply_to d)"

lemma answered_data:
  "filter is_data
     (map Command cs @ map Callback (case a of Some s \<Rightarrow> [Call_success s] | None \<Rightarrow> [])
      @ [Callback (Call_data h q), Command c]
      @ map Callback (case b of Some f \<Rightarrow> [Call_finalize f] | None \<Rightarrow> [])) = [Callback (Call_data h q)]"
  by (auto simp: filter_empty_conv split: option.split)

lemma answered_publish:
  "filter is_publish
     (map Command [Start_transaction ch, Publish ch ex k e fl, Commit_transaction ch, Consume ch n fm]
      @ map Callback (case a of Some s \<Rightarrow> [Call_success s] | None \<Rightarrow> [])
      @ [Callback (Call_data h q), Command (Close_channel c)]
      @ map Callback (case b of Some f \<Rightarrow> [Call_finalize f] | None \<Rightarrow> [])) = [Command (Publish ch ex k e fl)]"
  by (auto simp: filter_empty_conv split: option.split)

text \<open>The worker's half: the delivery reaches the callback, and its answer is published.\<close>

lemma request_served:
  assumes "storable (req_message req)"
    and "server_ok env' s" and "lview env' s (lst_id l) = Some y"
    and "failed (listen_deferred y) = Some False" and "data_handler (listen_deferred y) = Some g"
    and "target_ok env' s (the_conn env' tid (srv_conns s))" and "app_throws app = quiet_throws"
    and "\<And>ch c. channel_throws env' ch c = None"
    and "carries d (req_key req) (request_envelope req q)"
  shows "\<exists>s1 s2 as bs p e ch.
      listen_step env' app tid l (Delivered d) s = (s1, as, Ret ())
    \<and> filter is_data as = [Callback (Call_data g (rep (Inr (mk_rpc (req_key req) (canon (req_message req)))), p))]
    \<and> server_run env' app tid [Set_message p (rep v), Commit_replay tid p] s1 = (s2, bs, Ret ())
    \<and> filter is_publish bs = [Command (Publish ch [] q e {})] \<and> correlation_id e = Some (req_id req)
    \<and> body e = to_msgpack (reply_value v)"
proof -
  have d: "from_msgpack (delivery_body d) = Inr (canon (req_message req))" "delivery_key d = req_key req"
    "delivery_cid d = req_id req" "delivery_reply_to d = q"
    using assms(9) from_write[OF assms(1)] by (simp_all add: carries_def request_envelope_def mk_envelope_def)
  let ?q = "(rep (Inr (mk_rpc (req_key req) (canon (req_message req)))), next_replay s)"
  have rd: "on_listening (report_data (app_throws app) (rep (Inr (mk_rpc (delivery_key d) (canon (req_message req)))), next_replay s)) y =
      (y, [Callback (Call_data g ?q)], Ret ())"
    unfolding assms(7) d(2) by (rule on_listening_quiet_data[OF assms(4,5)])
  show ?thesis
  proof (rule listen_delivered[OF assms(2,3) d(1) assms(6) rd])
    fix s1
    assume 1: "listen_step env' app tid l (Delivered d) s =
      (s1, Command (Ack (listen_channel y) (delivery_tag d)) # map Command (connects env' tid (srv_conns s))
             @ [Callback (Call_data g ?q)], Ret ())"
      "server_ok env' s1" "srv_replays s1 = (srv_replays s)(next_replay s \<mapsto> fresh_reply l d)"
    let ?p = "next_replay s" and ?c = "closure_of l d"
    define w :: "'a replay" where "w = (fresh_reply l d)\<lparr>replay_message := rep v\<rparr>"
    define s1' where "s1' = s1\<lparr>srv_replays := (srv_replays s1)(?p \<mapsto> w)\<rparr>"
    have m: "server_step env' app tid (Set_message ?p (rep v)) s1 = (s1', [], Ret ())"
      by (simp add: update_replay_def 1(3) s1'_def w_def)
    have ok: "server_ok env' s1'"
      using keepsD[OF keeps_server_step 1(2), of app tid "Set_message ?p (rep v)"] by (simp only: m fst_conv)
    have w: "srv_replays s1' ?p = Some w" "replay_message w = rep v" "commit_handler w = Some ?c"
      by (simp_all add: s1'_def w_def fresh_reply_def)
    show ?thesis
    proof (rule replay_commit_spec[OF ok w assms(8), of tid])
      fix s2
      let ?ch = "next_chan (srv_conns s1')" and ?e = "reply_envelope ?c (reply_value v)"
      assume 2: "replay_commit env' tid ?p s1' =
        (s2, map Command (connects env' tid (srv_conns s1') @
           [Open_channel ?ch (the_conn env' tid (srv_conns s1')), Start_transaction ?ch,
            Publish ?ch [] (commit_reply_to ?c) ?e {}, Commit_transaction ?ch]), Ret ())"
      have b: "body ?e = to_msgpack (reply_value v)" "correlation_id ?e = Some (req_id req)" "commit_reply_to ?c = q"
        by (simp_all add: reply_envelope_def mk_envelope_def closure_of_def d)
      obtain bs where run: "server_run env' app tid [Set_message ?p (rep v), Commit_replay tid ?p] s1 = (s2, bs, Ret ())"
        "filter is_publish bs = [Command (Publish ?ch [] q ?e {})]"
        using m 2 b(3)
        by (simp add: server_run_def andthen_def skip_step_def connects_def to_address_def split: option.split prod.split)
      have "filter is_data (map Command (connects env' tid (srv_conns s)) :: 'a listen_action list) = []"
        by (simp add: filter_empty_conv)
      then have a: "filter is_data (Command (Ack (listen_channel y) (delivery_tag d)) # map Command (connects env' tid (srv_conns s))
             @ [Callback (Call_data g ?q)]) = [Callback (Call_data g ?q)]"
        by simp
      show ?thesis
        by (rule exI[of _ s1], rule exI[of _ s2], rule exI, rule exI, rule exI, rule exI, rule exI,
            intro conjI, rule 1(1), rule a, rule run(1), rule run(2), rule b(2), rule b(1))
    qed
  qed
qed

text \<open>
  C1: A remote call returns what the worker computed: the request a client publishes, carried to a
  worker that listens, makes the worker's data callback run with the client's message; the result
  the worker puts in the reply and commits is published to the client's own queue under the
  client's id; and that body, carried back, makes the client's data callback run, once, with that
  result, an error or an empty value as the pair \<open>["error", {"code", "message"}]\<close>.
\<close>

theorem rpc_round_trip:
  assumes "reg_ok (str_hash env) r" and "reg_solo (str_hash env) r"
    and "reg_view (str_hash env) r (req_id req) = Some x"
    and "data_handler (fetch_deferred x) = Some h" and "\<not> error_bool (deferred_error (fetch_deferred x))"
    and "storable (req_message req)"
    and "server_ok env' s" and "lview env' s (lst_id l) = Some y"
    and "failed (listen_deferred y) = Some False" and "data_handler (listen_deferred y) = Some g"
    and "target_ok env' s (the_conn env' tid (srv_conns s))" and "app_throws app = quiet_throws"
    and "\<And>ch c. channel_throws env' ch c = None"
    and "carries d (req_key req) (request_envelope req q)" and "storable (reply_value v)"
  shows "\<exists>s1 s2 as bs p e ch fs r1.
      listen_step env' app tid l (Delivered d) s = (s1, as, Ret ())
    \<and> filter is_data as = [Callback (Call_data g (rep (Inr (mk_rpc (req_key req) (canon (req_message req)))), p))]
    \<and> server_run env' app tid [Set_message p (rep v), Commit_replay tid p] s1 = (s2, bs, Ret ())
    \<and> filter is_publish bs = [Command (Publish ch [] q e {})] \<and> correlation_id e = Some (req_id req)
    \<and> fetch_run env quiet_throws exchange
        [(req, Queue_declared q), (req, Consume_ok), (req, Received (body e))] r = (r1, fs, Ret ())
    \<and> filter is_data fs = [Callback (Call_data h (rep (Inr (canon (reply_value v)))))]
    \<and> filter is_publish fs =
        [Command (Publish (fetch_channel x) exchange (req_key req) (request_envelope req q) {autodelete, mandatory})]"
proof -
  obtain s1 s2 as bs p e ch where worker:
    "listen_step env' app tid l (Delivered d) s = (s1, as, Ret ())"
    "filter is_data as = [Callback (Call_data g (rep (Inr (mk_rpc (req_key req) (canon (req_message req)))), p))]"
    "server_run env' app tid [Set_message p (rep v), Commit_replay tid p] s1 = (s2, bs, Ret ())"
    "filter is_publish bs = [Command (Publish ch [] q e {})]" "correlation_id e = Some (req_id req)"
    "body e = to_msgpack (reply_value v)"
    using request_served[OF assms(6-14), of v] by blast
  from answered_request[OF assms(1-6,15), of exchange q] worker(6) obtain r1 where
    f: "fetch_run env quiet_throws exchange [(req, Queue_declared q), (req, Consume_ok), (req, Received (body e))] r =
      (r1,
       map Command
         [Start_transaction (fetch_channel x),
          Publish (fetch_channel x) exchange (req_key req) (request_envelope req q) {autodelete, mandatory},
          Commit_transaction (fetch_channel x), Consume (fetch_channel x) q {noack}]
       @ map Callback (case success_handler (fetch_deferred x) of Some s \<Rightarrow> [Call_success s] | None \<Rightarrow> [])
       @ [Callback (Call_data h (rep (Inr (canon (reply_value v))))), Command (Close_channel (fetch_channel x))]
       @ map Callback (case finalize_handler (fetch_deferred x) of Some f \<Rightarrow> [Call_finalize f] | None \<Rightarrow> []),
       Ret ())" by auto
  show ?thesis
    by (rule exI[of _ s1], rule exI[of _ s2], rule exI, rule exI, rule exI, rule exI, rule exI, rule exI, rule exI[of _ r1],
        intro conjI, rule worker(1), rule worker(2), rule worker(3), rule worker(4), rule worker(5), rule f,
        rule answered_data, rule answered_publish)
qed

text \<open>The delivery of the sample request, and the worker's answer 8.\<close>

definition carried_request :: delivery where
  "carried_request =
     \<lparr>delivery_tag = 1, delivery_body = to_msgpack sample_json, delivery_key = ''echo'', delivery_reply_to = ''q'',
      delivery_cid = ''7''\<rparr>"

theorem rpc_round_trip_witness:
  "\<exists>s1 p ch e fs r1.
      fst (listen_step sample_env quiet_app 9 sample_listener (Delivered carried_request) sample_server) = s1
    \<and> filter is_publish (fst (snd (server_run sample_env quiet_app 9
        [Set_message p (rep (Inr (JInteger 8))), Commit_replay 9 p] s1))) = [Command (Publish ch [] ''q'' e {})]
    \<and> fetch_run sample_env quiet_throws ''amq.topic''
        [(sample_request, Queue_declared ''q''), (sample_request, Consume_ok), (sample_request, Received (body e))]
        sample_fetchers = (r1, fs, Ret ())
    \<and> filter is_data fs = [Callback (Call_data 1 (rep (Inr (JUnsigned 8))))]"
proof -
  have t: "target_ok sample_env sample_server (the_conn sample_env 9 (srv_conns sample_server))"
    by (simp only: sample_conn)
  have c: "carries carried_request (req_key sample_request) (request_envelope sample_request ''q'')"
    by (simp add: carries_def carried_request_def request_envelope_def mk_envelope_def sample_request_def)
  have v: "reply_value (Inr (JInteger 8) :: error + json) = JInteger 8" by (simp add: json_empty_def)
  then have "storable (reply_value (Inr (JInteger 8)))" by simp
  from rpc_round_trip[OF sample_fetchers_facts(1,2) sample_pending_facts(1,2,4,9) sample_server_facts(1,2)
      sample_listening_facts(1,2) t sample_server_facts(11) sample_conn(4) c this, of "''amq.topic''"]
  obtain s1 s2 as bs p e ch fs r1 where
    1: "listen_step sample_env quiet_app 9 sample_listener (Delivered carried_request) sample_server = (s1, as, Ret ())"
    "server_run sample_env quiet_app 9 [Set_message p (rep (Inr (JInteger 8))), Commit_replay 9 p] s1 = (s2, bs, Ret ())"
    "filter is_publish bs = [Command (Publish ch [] ''q'' e {})]"
    "fetch_run sample_env quiet_throws ''amq.topic''
       [(sample_request, Queue_declared ''q''), (sample_request, Consume_ok), (sample_request, Received (body e))]
       sample_fetchers = (r1, fs, Ret ())"
    "filter is_data fs = [Callback (Call_data 1 (rep (Inr (canon (reply_value (Inr (JInteger 8))))))) ]"
    by blast
  have "canon (reply_value (Inr (JInteger 8))) = JUnsigned 8" unfolding v by simp
  with 1 show ?thesis
    by (intro exI[of _ s1] exI[of _ p] exI[of _ ch] exI[of _ e] exI[of _ fs] exI[of _ r1])
      (simp del: rep.simps listen_step.simps fetch_step.simps)
qed
end
