(* ===== verification/Pool.thy ===== *)
theory Pool
  imports Prelude
begin

section \<open>The object pool\<close>

text \<open>
  Models \<open>Pool\<close> of \<open>src/src/broker_impl/pool.h\<close>: first its operations on the vector of available
  objects, then threads that share it. Every operation holds the mutex for the whole of its body,
  except that a thread which finds no object gives it up while it waits on the condition variable;
  so a step of the system is one critical section. As the standard allows, a wait may end with no
  notification.
\<close>

subsection \<open>Operations\<close>

record 'o pool =
  pool_size :: nat
  available_objects :: "'o list"

text \<open>The constructor with \<open>fill\<close>\<close>

definition pool_fill :: "nat \<Rightarrow> (nat \<Rightarrow> 'o) \<Rightarrow> 'o pool" where
  "pool_fill n factory = \<lparr>pool_size = n, available_objects = map factory [0..<n]\<rparr>"

text \<open>The body of \<open>acquire\<close> behind the loop: the last object is taken; \<open>None\<close> is to wait.\<close>

definition pool_acquire :: "'o pool \<Rightarrow> ('o \<times> 'o pool) option" where
  "pool_acquire p =
     (if available_objects p = [] then None
      else Some (last (available_objects p), p\<lparr>available_objects := butlast (available_objects p)\<rparr>))"

definition pool_release :: "'o \<Rightarrow> 'o pool \<Rightarrow> 'o pool" where
  "pool_release x p = p\<lparr>available_objects := x # available_objects p\<rparr>"

definition get_size :: "'o pool \<Rightarrow> nat" where
  "get_size p = pool_size p"

definition get_available :: "'o pool \<Rightarrow> nat" where
  "get_available p = length (available_objects p)"

definition pool_empty :: "'o pool \<Rightarrow> bool" where
  "pool_empty p \<longleftrightarrow> available_objects p = []"

text \<open>The destructor deletes these objects, in this order; those in use are not its own.\<close>

definition pool_destroy :: "'o pool \<Rightarrow> 'o list" where
  "pool_destroy p = available_objects p"

subsection \<open>First in, first out\<close>

text \<open>What a client of a queue relies on.\<close>

datatype 'o queue_op = Put 'o | Take

locale fifo =
  fixes contents :: "'p \<Rightarrow> 'o list"
    and put :: "'o \<Rightarrow> 'p \<Rightarrow> 'p"
    and take_first :: "'p \<Rightarrow> ('o \<times> 'p) option"
  assumes put_contents: "contents (put x p) = contents p @ [x]"
    and take_None: "take_first p = None \<longleftrightarrow> contents p = []"
    and take_Some: "take_first p = Some (x, q) \<Longrightarrow> contents p = x # contents q"
begin

text \<open>A run of operations and the objects it takes; a take from an empty queue does nothing.\<close>

fun queue_run :: "'o queue_op list \<Rightarrow> 'p \<Rightarrow> 'o list \<times> 'p" where
  "queue_run [] p = ([], p)"
| "queue_run (Put x # xs) p = queue_run xs (put x p)"
| "queue_run (Take # xs) p =
     (case take_first p of
        None \<Rightarrow> queue_run xs p
      | Some (x, q) \<Rightarrow> (case queue_run xs q of (ys, r) \<Rightarrow> (x # ys, r)))"

lemma queue_run_order:
  "queue_run xs p = (ys, q) \<Longrightarrow>
     contents p @ concat (map (\<lambda>a. case a of Put x \<Rightarrow> [x] | Take \<Rightarrow> []) xs) = ys @ contents q"
proof (induction xs p arbitrary: ys q rule: queue_run.induct)
  case (3 xs p)
  show ?case
  proof (cases "take_first p")
    case None
    with 3 show ?thesis by simp
  next
    case (Some a)
    then obtain x p1 zs where "take_first p = Some (x, p1)" "queue_run xs p1 = (zs, q)" "ys = x # zs"
      using "3.prems" by (cases a) (auto split: prod.splits)
    with "3.IH"(2)[of "(x, p1)" x p1 zs q] take_Some[of p x p1] show ?thesis by simp
  qed
qed (simp_all add: put_contents)

end

interpretation pool_fifo: fifo "\<lambda>p. rev (available_objects p)" pool_release pool_acquire
  by unfold_locales
    (auto simp: pool_release_def pool_acquire_def rev_eq_Cons_iff split: if_splits)

subsection \<open>Threads\<close>

text \<open>
  A thread is outside the pool, before the test of the loop in \<open>acquire\<close>, blocked in the wait, or
  has an object.
\<close>

datatype 'o thread_state = Idle | At_test | Blocked | Has 'o

record 'o system =
  the_pool :: "'o pool"
  threads :: "thread_id \<Rightarrow> 'o thread_state"

definition notify_all :: "(thread_id \<Rightarrow> 'o thread_state) \<Rightarrow> thread_id \<Rightarrow> 'o thread_state" where
  "notify_all th t = (if th t = Blocked then At_test else th t)"

inductive pool_step :: "'o system \<Rightarrow> 'o system \<Rightarrow> bool" where
  call: "threads s t = Idle \<Longrightarrow> pool_step s (s\<lparr>threads := (threads s)(t := At_test)\<rparr>)"
| block: "threads s t = At_test \<Longrightarrow> pool_acquire (the_pool s) = None \<Longrightarrow>
    pool_step s (s\<lparr>threads := (threads s)(t := Blocked)\<rparr>)"
| acquire: "threads s t = At_test \<Longrightarrow> pool_acquire (the_pool s) = Some (x, p) \<Longrightarrow>
    pool_step s (s\<lparr>the_pool := p, threads := (threads s)(t := Has x)\<rparr>)"
| release: "threads s t = Has x \<Longrightarrow>
    pool_step s (s\<lparr>the_pool := pool_release x (the_pool s), threads := notify_all ((threads s)(t := Idle))\<rparr>)"
| wake: "threads s t = Blocked \<Longrightarrow> pool_step s (s\<lparr>threads := (threads s)(t := At_test)\<rparr>)"

inductive_cases pool_stepE: "pool_step s s1"

definition pool_start :: "nat \<Rightarrow> (nat \<Rightarrow> 'o) \<Rightarrow> 'o system" where
  "pool_start n factory = \<lparr>the_pool = pool_fill n factory, threads = (\<lambda>_. Idle)\<rparr>"

abbreviation reaches :: "'o system \<Rightarrow> 'o system \<Rightarrow> bool" where
  "reaches \<equiv> pool_step\<^sup>*\<^sup>*"

text \<open>The objects in use, by thread.\<close>

definition in_use :: "'o system \<Rightarrow> thread_id \<Rightarrow> 'o option" where
  "in_use s t = (case threads s t of Has x \<Rightarrow> Some x | _ \<Rightarrow> None)"

definition pool_inv :: "'o set \<Rightarrow> 'o system \<Rightarrow> bool" where
  "pool_inv obs s \<longleftrightarrow>
     distinct (available_objects (the_pool s))
     \<and> (\<forall>t x. in_use s t = Some x \<longrightarrow> x \<notin> set (available_objects (the_pool s)))
     \<and> (\<forall>t u x. in_use s t = Some x \<longrightarrow> in_use s u = Some x \<longrightarrow> t = u)
     \<and> set (available_objects (the_pool s)) \<union> ran (in_use s) = obs
     \<and> (\<forall>t. threads s t = Blocked \<longrightarrow> available_objects (the_pool s) = [])"

lemma pool_invI:
  assumes "distinct (available_objects (the_pool s))"
    and "\<And>t x. in_use s t = Some x \<Longrightarrow> x \<notin> set (available_objects (the_pool s))"
    and "\<And>t u x. in_use s t = Some x \<Longrightarrow> in_use s u = Some x \<Longrightarrow> t = u"
    and "set (available_objects (the_pool s)) \<union> ran (in_use s) = obs"
    and "\<And>t. threads s t = Blocked \<Longrightarrow> available_objects (the_pool s) = []"
  shows "pool_inv obs s"
  using assms unfolding pool_inv_def by blast

lemma pool_invD:
  assumes "pool_inv obs s"
  shows "distinct (available_objects (the_pool s))"
    and "in_use s t = Some x \<Longrightarrow> x \<notin> set (available_objects (the_pool s))"
    and "in_use s t = Some x \<Longrightarrow> in_use s u = Some x \<Longrightarrow> t = u"
    and "set (available_objects (the_pool s)) \<union> ran (in_use s) = obs"
    and "threads s t = Blocked \<Longrightarrow> available_objects (the_pool s) = []"
  using assms unfolding pool_inv_def by blast+

lemma in_use_update:
  "in_use (s\<lparr>threads := (threads s)(t := w)\<rparr>) = (in_use s)(t := (case w of Has x \<Rightarrow> Some x | _ \<Rightarrow> None))"
  "in_use (s\<lparr>the_pool := p, threads := (threads s)(t := w)\<rparr>) = (in_use s)(t := (case w of Has x \<Rightarrow> Some x | _ \<Rightarrow> None))"
  "in_use (s\<lparr>the_pool := p, threads := notify_all ((threads s)(t := w))\<rparr>) =
     (in_use s)(t := (case w of Has x \<Rightarrow> Some x | _ \<Rightarrow> None))"
  by (auto simp: fun_eq_iff in_use_def notify_all_def split: thread_state.split)

lemma in_use_thread: "threads s t = Has x \<longleftrightarrow> in_use s t = Some x"
  by (simp add: in_use_def split: thread_state.split)

lemma pool_inv_start:
  assumes "inj_on factory {..<n}"
  shows "pool_inv (factory ` {..<n}) (pool_start n factory)"
proof -
  have "in_use (pool_start n factory) = (\<lambda>_. None)"
    by (simp add: fun_eq_iff in_use_def pool_start_def)
  moreover have "available_objects (the_pool (pool_start n factory)) = map factory [0..<n]"
    by (simp add: pool_start_def pool_fill_def)
  ultimately show ?thesis
    using assms by (intro pool_invI) (auto simp: distinct_map atLeast0LessThan, simp add: pool_start_def)
qed

lemma acquire_shape:
  "pool_acquire p = Some (x, q) \<Longrightarrow>
     available_objects p = available_objects q @ [x] \<and> pool_size q = pool_size p"
  by (auto simp: pool_acquire_def split: if_splits)

lemma ran_upd_None:
  assumes "m t = Some x" and "\<And>u. m u = Some x \<Longrightarrow> u = t"
  shows "ran (m(t := None)) = ran m - {x}"
proof (rule set_eqI)
  fix y
  have "y \<in> ran (m(t := None)) \<longleftrightarrow> (\<exists>u. u \<noteq> t \<and> m u = Some y)" by (auto simp: ran_def)
  also have "\<dots> \<longleftrightarrow> (\<exists>u. m u = Some y) \<and> y \<noteq> x" 
  proof (cases "y = x")
    case True
    with assms(2) show ?thesis by blast
  next
    case False
    with assms(1) show ?thesis by (metis option.inject)
  qed
  finally show "y \<in> ran (m(t := None)) \<longleftrightarrow> y \<in> ran m - {x}" by (simp add: ran_def)
qed

lemma pool_inv_step:
  assumes "pool_step s s1" and "pool_inv obs s"
  shows "pool_inv obs s1"
  using assms(1)
proof cases
  case (call t)
  have "in_use s t = None" using call(2) by (simp add: in_use_def)
  then have u: "in_use s1 = in_use s" unfolding call(1) in_use_update by (simp add: fun_upd_idem)
  show ?thesis
    by (rule pool_invI) (use pool_invD[OF assms(2)] u in \<open>auto simp: call(1) split: if_splits\<close>)
next
  case (block t)
  have "in_use s t = None" using block(2) by (simp add: in_use_def)
  then have u: "in_use s1 = in_use s" unfolding block(1) in_use_update by (simp add: fun_upd_idem)
  show ?thesis
    by (rule pool_invI)
      (use pool_invD[OF assms(2)] u block(3) in \<open>auto simp: block(1) pool_acquire_def split: if_splits\<close>)
next
  case (acquire t x p)
  note a = conjunct1[OF acquire_shape[OF acquire(3)]]
  have u: "in_use s1 = (in_use s)(t \<mapsto> x)" unfolding acquire(1) in_use_update by simp
  have t: "in_use s t = None" using acquire(2) by (simp add: in_use_def)
  have v: "available_objects (the_pool s1) = available_objects p" by (simp add: acquire(1))
  have x: "x \<in> set (available_objects (the_pool s))" by (simp add: a)
  show ?thesis
  proof (rule pool_invI)
    show "distinct (available_objects (the_pool s1))"
      using pool_invD(1)[OF assms(2)] by (simp add: v a)
    show "y \<notin> set (available_objects (the_pool s1))" if "in_use s1 k = Some y" for k y
      using that pool_invD(1)[OF assms(2)] pool_invD(2)[OF assms(2), of k y] by (auto simp: u v a split: if_splits)
    show "i = j" if "in_use s1 i = Some y" "in_use s1 j = Some y" for i j y
      using that x pool_invD(2)[OF assms(2)] pool_invD(3)[OF assms(2), of i y j] by (auto simp: u split: if_splits)
    have "ran (in_use s1) = insert x (ran (in_use s))" unfolding u using t by (rule ran_map_upd)
    then show "set (available_objects (the_pool s1)) \<union> ran (in_use s1) = obs"
      using pool_invD(4)[OF assms(2)] by (auto simp: v a)
    show "available_objects (the_pool s1) = []" if "threads s1 k = Blocked" for k
      using that pool_invD(5)[OF assms(2), of k] by (simp add: acquire(1) a split: if_splits)
  qed
next
  case (release t x)
  have u: "in_use s1 = (in_use s)(t := None)" unfolding release(1) in_use_update by simp
  have t: "in_use s t = Some x" using release(2) by (simp add: in_use_thread)
  have v: "available_objects (the_pool s1) = x # available_objects (the_pool s)"
    by (simp add: release(1) pool_release_def)
  have only: "k = t" if "in_use s k = Some x" for k using pool_invD(3)[OF assms(2) that t] .
  show ?thesis
  proof (rule pool_invI)
    show "distinct (available_objects (the_pool s1))"
      using pool_invD(1)[OF assms(2)] pool_invD(2)[OF assms(2) t] by (simp add: v)
    show "y \<notin> set (available_objects (the_pool s1))" if "in_use s1 k = Some y" for k y
      using that only[of k] pool_invD(2)[OF assms(2), of k y] by (auto simp: u v split: if_splits)
    show "i = j" if "in_use s1 i = Some y" "in_use s1 j = Some y" for i j y
      using that pool_invD(3)[OF assms(2), of i y j] by (auto simp: u split: if_splits)
    have "ran (in_use s1) = ran (in_use s) - {x}" unfolding u by (rule ran_upd_None[where m = "in_use s" and t = t and x = x, OF t only])
    moreover have "x \<in> ran (in_use s)" using t by (auto simp: ran_def)
    ultimately show "set (available_objects (the_pool s1)) \<union> ran (in_use s1) = obs"
      using pool_invD(4)[OF assms(2)] by (auto simp: v)
    show "available_objects (the_pool s1) = []" if "threads s1 k = Blocked" for k
      using that by (simp add: release(1) notify_all_def split: if_splits)
  qed
next
  case (wake t)
  have "in_use s t = None" using wake(2) by (simp add: in_use_def)
  then have u: "in_use s1 = in_use s" unfolding wake(1) in_use_update by (simp add: fun_upd_idem)
  show ?thesis
    by (rule pool_invI) (use pool_invD[OF assms(2)] u in \<open>auto simp: wake(1) split: if_splits\<close>)
qed

lemma pool_inv_reaches: "reaches s s1 \<Longrightarrow> pool_inv obs s \<Longrightarrow> pool_inv obs s1"
  by (induction rule: rtranclp_induct) (auto intro: pool_inv_step)

subsection \<open>Properties\<close>

text \<open>
  C17: However threads interleave, objects are neither lost nor shared: in every reachable state each
  object of the factory is either available, once, or in the hands of exactly one thread. No wakeup
  is lost either: while an object is available no thread is blocked.
\<close>

theorem pool_conserves_objects:
  assumes "inj_on factory {..<n}" and "reaches (pool_start n factory) s"
  shows "distinct (available_objects (the_pool s))
    \<and> set (available_objects (the_pool s)) \<union> ran (in_use s) = factory ` {..<n}
    \<and> set (available_objects (the_pool s)) \<inter> ran (in_use s) = {}
    \<and> inj_on (in_use s) (dom (in_use s))
    \<and> (available_objects (the_pool s) \<noteq> [] \<longrightarrow> threads s t \<noteq> Blocked)"
proof -
  note inv = pool_inv_reaches[OF assms(2) pool_inv_start[OF assms(1)]]
  have "inj_on (in_use s) (dom (in_use s))"
    by (rule inj_onI) (auto dest: pool_invD(3)[OF inv])
  moreover have "set (available_objects (the_pool s)) \<inter> ran (in_use s) = {}"
    using pool_invD(2)[OF inv] by (auto simp: ran_def)
  ultimately show ?thesis using pool_invD(1,4,5)[OF inv] by blast
qed

text \<open>Runs: a state for every step.\<close>

definition pool_run :: "(nat \<Rightarrow> 'o system) \<Rightarrow> bool" where
  "pool_run r \<longleftrightarrow> (\<forall>i. pool_step (r i) (r (Suc i)))"

lemma pool_run_inv: "pool_run r \<Longrightarrow> pool_inv obs (r 0) \<Longrightarrow> pool_inv obs (r i)"
  by (induction i) (auto simp: pool_run_def intro: pool_inv_step)

text \<open>The thread is in \<open>acquire\<close>, and it could take an object now.\<close>

definition waiting :: "'o system \<Rightarrow> thread_id \<Rightarrow> bool" where
  "waiting s t \<longleftrightarrow> threads s t = At_test \<or> threads s t = Blocked"

definition can_take :: "'o system \<Rightarrow> thread_id \<Rightarrow> bool" where
  "can_take s t \<longleftrightarrow> threads s t = At_test \<and> available_objects (the_pool s) \<noteq> []"

text \<open>A waiting thread stays in \<open>acquire\<close> until it has an object.\<close>

lemma waiting_step: "pool_step s s1 \<Longrightarrow> waiting s t \<Longrightarrow> waiting s1 t \<or> (\<exists>x. threads s1 t = Has x)"
  by (erule pool_step.cases) (auto simp: waiting_def notify_all_def)

lemma waiting_run:
  assumes "pool_run r" and "waiting (r i) t" and "\<And>j x. i \<le> j \<Longrightarrow> threads (r j) t \<noteq> Has x"
  shows "i \<le> j \<Longrightarrow> waiting (r j) t"
proof (induction j rule: dec_induct)
  case (step j)
  have "pool_step (r j) (r (Suc j))" using assms(1) by (simp add: pool_run_def)
  from waiting_step[OF this step.IH] assms(3)[of "Suc j"] step.hyps show ?case by auto
qed (rule assms(2))

text \<open>
  When somebody gives an object back, every thread that waits is at the test with an object there: the
  return makes one available and wakes whoever is blocked.
\<close>

lemma release_step:
  assumes "pool_step s s1" and "threads s u = Has x" and "\<forall>y. threads s1 u \<noteq> Has y" and "waiting s t"
  shows "can_take s1 t"
proof -
  have "t \<noteq> u" using assms(2,4) by (auto simp: waiting_def)
  with assms show ?thesis
    by (elim pool_step.cases)
      (auto simp: waiting_def can_take_def pool_release_def notify_all_def split: if_splits)
qed

text \<open>
  C18: No thread waits in \<open>acquire\<close> for ever, if the program and the scheduler play fair. In every run
  of a pool with at least one object, in which whoever has an object gives it back some time and a
  thread that again and again could take one (it is at the test and an object is there) does so some
  time, every thread in \<open>acquire\<close> gets an object. The pool's part is that a return always gives every
  waiting thread its chance: a blocked thread is woken, no return is lost, and some object is always
  there or with somebody who gives it back. Without fairness others may overtake for ever.
\<close>

theorem waiting_thread_is_served:
  assumes "inj_on factory {..<n}" and "0 < n" and "r 0 = pool_start n factory" and "pool_run r"
    and "\<And>i u x. threads (r i) u = Has x \<Longrightarrow> \<exists>j \<ge> i. \<forall>y. threads (r j) u \<noteq> Has y"
    and "(\<forall>i. \<exists>j \<ge> i. can_take (r j) t) \<Longrightarrow> (\<forall>i. \<exists>j \<ge> i. can_take (r j) t \<and> (\<exists>x. threads (r (Suc j)) t = Has x))"
    and "waiting (r i) t"
  shows "\<exists>j \<ge> i. \<exists>x. threads (r j) t = Has x"
proof (rule ccontr)
  assume "\<not> (\<exists>j \<ge> i. \<exists>x. threads (r j) t = Has x)"
  then have never: "threads (r j) t \<noteq> Has x" if "i \<le> j" for j x using that by blast
  have inv: "pool_inv (factory ` {..<n}) (r j)" for j
    using pool_run_inv[OF assms(4)] pool_inv_start[OF assms(1)] assms(3) by simp
  have wait: "i \<le> j \<Longrightarrow> waiting (r j) t" for j by (rule waiting_run[OF assms(4,7) never])
  have "\<exists>k \<ge> j. can_take (r k) t" if j: "i \<le> j" for j
  proof (cases "available_objects (the_pool (r j)) = []")
    case False
    then have "can_take (r j) t"
      using wait[OF j] pool_invD(5)[OF inv[of j], of t] by (auto simp: waiting_def can_take_def)
    then show ?thesis by blast
  next
    case True
    have "factory 0 \<in> ran (in_use (r j))" using pool_invD(4)[OF inv[of j]] True assms(2) by auto
    then obtain u x where u: "threads (r j) u = Has x" by (auto simp: ran_def in_use_thread[symmetric])
    define k where "k = (LEAST k. j \<le> k \<and> (\<forall>y. threads (r k) u \<noteq> Has y))"
    have k: "j \<le> k" "\<forall>y. threads (r k) u \<noteq> Has y"
      using LeastI_ex[OF assms(5)[OF u, simplified Bex_def]] by (auto simp: k_def)
    have "j \<noteq> k" using k(2) u by auto
    then obtain l where l: "k = Suc l" "j \<le> l" using k(1) by (cases k) auto
    have "\<exists>y. threads (r l) u = Has y"
      using not_less_Least[of l "\<lambda>k. j \<le> k \<and> (\<forall>y. threads (r k) u \<noteq> Has y)"] l by (auto simp: k_def[symmetric])
    then obtain y where y: "threads (r l) u = Has y" ..
    have "pool_step (r l) (r k)" using assms(4) by (simp add: pool_run_def l(1))
    from release_step[OF this y k(2)] wait[of l] j l(2) k(1) show ?thesis by auto
  qed
  then have "\<forall>j. \<exists>k \<ge> j. can_take (r k) t" by (metis le_trans nat_le_linear)
  then obtain k where "i \<le> k" "\<exists>x. threads (r (Suc k)) t = Has x" using assms(6) by blast
  with never[of "Suc k"] show False by auto
qed

text \<open>
  Objects are handed out in the order in which they came back: over any sequence of acquires
  and releases, what was available, the one released longest ago first, followed by what is
  released, is what is handed out followed by what is left. The objects of a new pool are handed
  out from the last index down.
\<close>

theorem pool_serves_in_order:
  "(case pool_fifo.queue_run ops p of (out, q) \<Rightarrow>
      rev (available_objects p) @ concat (map (\<lambda>a. case a of Put x \<Rightarrow> [x] | Take \<Rightarrow> []) ops) =
        out @ rev (available_objects q))
   \<and> rev (available_objects (pool_fill n factory)) = map factory (rev [0..<n])"
  using pool_fifo.queue_run_order[of ops p] by (simp add: pool_fill_def rev_map split: prod.split)

subsection \<open>Instances\<close>

text \<open>A pool of one object: thread 3 has it, thread 4 is blocked.\<close>

definition sample_system :: "nat system" where
  "sample_system =
     \<lparr>the_pool = \<lparr>pool_size = 1, available_objects = []\<rparr>, threads = (\<lambda>_. Idle)(3 := Has 7, 4 := Blocked)\<rparr>"

lemma sample_system_reached: "reaches (pool_start 1 (\<lambda>_. 7)) sample_system"
proof -
  let ?s = "pool_start 1 (\<lambda>_. 7) :: nat system"
  let ?s1 = "?s\<lparr>threads := (threads ?s)(3 := At_test)\<rparr>"
  let ?s2 = "?s1\<lparr>the_pool := \<lparr>pool_size = 1, available_objects = []\<rparr>, threads := (threads ?s1)(3 := Has 7)\<rparr>"
  let ?s3 = "?s2\<lparr>threads := (threads ?s2)(4 := At_test)\<rparr>"
  have "pool_step ?s ?s1" by (rule pool_step.call) (simp add: pool_start_def)
  moreover have "pool_step ?s1 ?s2"
    by (rule pool_step.acquire) (simp_all add: pool_start_def pool_fill_def pool_acquire_def)
  moreover have "pool_step ?s2 ?s3" by (rule pool_step.call) (simp add: pool_start_def)
  moreover have "pool_step ?s3 (?s3\<lparr>threads := (threads ?s3)(4 := Blocked)\<rparr>)"
    by (rule pool_step.block) (simp_all add: pool_acquire_def)
  moreover have "?s3\<lparr>threads := (threads ?s3)(4 := Blocked)\<rparr> = sample_system"
    by (simp add: pool_start_def sample_system_def)
  ultimately show ?thesis
    by (metis (no_types, lifting) rtranclp.rtrancl_into_rtrancl rtranclp.rtrancl_refl)
qed

theorem pool_conserves_objects_witness:
  "set (available_objects (the_pool sample_system)) \<union> ran (in_use sample_system) = (\<lambda>_. 7) ` {..<1::nat}"
  using pool_conserves_objects[OF _ sample_system_reached] by (simp add: inj_on_def)

text \<open>
  A run for ever in which two threads share one object: thread 3 takes it, thread 4 finds the pool
  empty and blocks, the return of thread 3 wakes thread 4, which takes the object and gives it back.
\<close>

definition shared_state :: "nat list \<Rightarrow> nat thread_state \<Rightarrow> nat thread_state \<Rightarrow> nat system" where
  "shared_state xs a b =
     \<lparr>the_pool = \<lparr>pool_size = 1, available_objects = xs\<rparr>, threads = (\<lambda>_. Idle)(3 := a, 4 := b)\<rparr>"

definition shared_cycle :: "nat system list" where
  "shared_cycle =
     [shared_state [7] Idle Idle, shared_state [7] At_test Idle, shared_state [] (Has 7) Idle,
      shared_state [] (Has 7) At_test, shared_state [] (Has 7) Blocked, shared_state [7] Idle At_test,
      shared_state [] Idle (Has 7)]"

definition shared_run :: "nat \<Rightarrow> nat system" where
  "shared_run i = shared_cycle ! (i mod 7)"

lemma shared_call:
  "pool_step (shared_state xs Idle b) (shared_state xs At_test b)"
  "pool_step (shared_state xs a Idle) (shared_state xs a At_test)"
  using pool_step.call[of "shared_state xs Idle b" 3] pool_step.call[of "shared_state xs a Idle" 4]
  by (simp_all add: shared_state_def fun_upd_twist)

lemma shared_acquire:
  "pool_step (shared_state [x] At_test b) (shared_state [] (Has x) b)"
  "pool_step (shared_state [x] a At_test) (shared_state [] a (Has x))"
  using pool_step.acquire[of "shared_state [x] At_test b" 3] pool_step.acquire[of "shared_state [x] a At_test" 4]
  by (simp_all add: shared_state_def pool_acquire_def fun_upd_twist)

lemma shared_block: "pool_step (shared_state [] a At_test) (shared_state [] a Blocked)"
  using pool_step.block[of "shared_state [] a At_test" 4] by (simp add: shared_state_def pool_acquire_def)

lemma shared_release:
  "pool_step (shared_state [] (Has x) Blocked) (shared_state [x] Idle At_test)"
  "pool_step (shared_state [] Idle (Has x)) (shared_state [x] Idle Idle)"
proof -
  have n: "notify_all ((\<lambda>_. Idle)(3 := Idle, 4 := b)) = (\<lambda>_. Idle)(3 := Idle, 4 := if b = Blocked then At_test else b)"
    for b :: "nat thread_state"
    by (rule ext) (simp add: notify_all_def)
  show "pool_step (shared_state [] (Has x) Blocked) (shared_state [x] Idle At_test)"
    using pool_step.release[of "shared_state [] (Has x) Blocked" 3 x] n[of Blocked]
    by (simp add: shared_state_def pool_release_def fun_upd_twist)
  show "pool_step (shared_state [] Idle (Has x)) (shared_state [x] Idle Idle)"
    using pool_step.release[of "shared_state [] Idle (Has x)" 4 x] n[of Idle]
    by (simp add: shared_state_def pool_release_def fun_upd_twist)
qed

lemma shared_run_steps: "pool_run shared_run"
  unfolding pool_run_def
proof
  fix i
  have "i mod 7 < (7::nat)" by simp
  then have "i mod 7 \<in> {0, 1, 2, 3, 4, 5, 6}" by auto
  then show "pool_step (shared_run i) (shared_run (Suc i))"
    using shared_call shared_acquire shared_block shared_release
    by (auto simp: shared_run_def mod_Suc shared_cycle_def)
qed

theorem waiting_thread_is_served_witness:
  "waiting (shared_run 4) 4 \<and> threads (shared_run 4) 4 = Blocked
   \<and> (\<exists>j \<ge> 4. \<exists>x. threads (shared_run j) 4 = Has x)"
proof -
  have start: "shared_run 0 = pool_start 1 (\<lambda>_. 7)"
    by (simp add: shared_run_def shared_cycle_def shared_state_def pool_start_def pool_fill_def fun_upd_idem)
  have gives: "\<exists>j \<ge> i. \<forall>y. threads (shared_run j) u \<noteq> Has y" for i u
    by (rule exI[of _ "7 * i"]) (simp add: shared_run_def shared_cycle_def shared_state_def)
  have fair: "\<exists>j \<ge> i. can_take (shared_run j) 4 \<and> (\<exists>x. threads (shared_run (Suc j)) 4 = Has x)" for i
    by (rule exI[of _ "7 * i + 5"]) (simp add: can_take_def shared_run_def shared_cycle_def shared_state_def)
  have w: "waiting (shared_run 4) 4" "threads (shared_run 4) 4 = Blocked"
    by (simp_all add: waiting_def shared_run_def shared_cycle_def shared_state_def)
  from waiting_thread_is_served[OF _ _ start shared_run_steps _ _ w(1)] gives fair w show ?thesis
    by (simp add: inj_on_def)
qed

end
