(* ===== verification/Broker.thy ===== *)
theory Broker
  imports Serving
begin

section \<open>The broker\<close>

text \<open>
  Models \<open>Broker\<close> (\<open>src/include/capy/amqp_broker.h\<close>, \<open>src/src/amqp_broker.cc\<close>) and what is left of
  \<open>BrokerImpl\<close> (\<open>src/src/broker_impl/broker.h\<close>, \<open>broker.cc\<close>): construction, \<open>Bind\<close> with its
  overloads, \<open>publish\<close>, \<open>fetch\<close>, \<open>listen\<close>, \<open>run\<close> and the flush of the connections. Fetchers and listeners share
  the connections of their broker and the counter of ids of the process.
\<close>

record 'h broker =
  exchange_name :: string
  brk_server :: "'h server"
  brk_fetchers :: "'h fetchers"

text \<open>\<open>BrokerImpl(address, exchange_name, heartbeat_timeout)\<close>\<close>

definition mk_broker :: "address \<Rightarrow> string \<Rightarrow> u16 \<Rightarrow> 'h broker" where
  "mk_broker a exchange heartbeat =
     \<lparr>exchange_name = exchange, brk_server = new_server a heartbeat, brk_fetchers = new_registry\<rparr>"

definition broker_conns :: "'h broker \<Rightarrow> connections" where
  "broker_conns b = srv_conns (brk_server b)"

definition set_conns :: "connections \<Rightarrow> 'h broker \<Rightarrow> 'h broker" where
  "set_conns cs b = b\<lparr>brk_server := (brk_server b)\<lparr>srv_conns := cs\<rparr>\<rparr>"

text \<open>The body of \<open>~BrokerImpl\<close>\<close>

definition broker_flush :: "'h broker \<Rightarrow> 'h broker" where
  "broker_flush b = set_conns (connections_flush (broker_conns b)) b"

subsection \<open>Bind\<close>

text \<open>\<open>what()\<close> of what is caught as \<open>std::exception\<close>; \<open>None\<close> for anything else.\<close>

fun exn_what :: "exn \<Rightarrow> string option" where
  "exn_what (Std_exception w) = Some w"
| "exn_what (Json_exception w) = Some w"
| "exn_what (Bad_expected_access e) = Some ''bad_expected_access''"
| "exn_what Other_exception = None"

text \<open>The text of the exception is the format of \<open>error_string\<close>.\<close>

definition bind_failure :: "exn \<Rightarrow> 'h broker result outcome" where
  "bind_failure e =
     obind (error_string (case exn_what e of Some w \<Rightarrow> w | None \<Rightarrow> ''Unknown error'') [])
       (\<lambda>t. expected_of_unexpected (make_unexpected (broker_err Broker_CONNECTION t)))"

definition bind :: "env \<Rightarrow> thread_id \<Rightarrow> address \<Rightarrow> string \<Rightarrow> u16 \<Rightarrow> command list \<times> 'h broker result outcome" where
  "bind env tid a exchange heartbeat =
     (let b = mk_broker a exchange heartbeat
      in case new_channel env tid (broker_conns b) of
           (cs, as, Ret ch) \<Rightarrow>
             (as @ [Declare_exchange ch exchange topic {durable}, Close_channel ch],
              expected_of_value (set_conns cs b))
         | (cs, as, Raise e) \<Rightarrow> (as, bind_failure e)
         | (cs, as, _) \<Rightarrow> (as, Undefined))"

text \<open>The callback of the declaration, with the error handler given to \<open>Bind\<close>.\<close>

definition bind_error :: "('h \<Rightarrow> error \<Rightarrow> 'b) \<Rightarrow> 'h \<Rightarrow> string \<Rightarrow> 'b" where
  "bind_error report h message = report h (broker_err Broker_QUEUE_DECLARATION message)"

definition default_heartbeat :: u16 where
  "default_heartbeat = 60"

text \<open>The overloads; the error handlers they supply themselves do nothing.\<close>

definition bind_exchange :: "env \<Rightarrow> thread_id \<Rightarrow> address \<Rightarrow> string \<Rightarrow> command list \<times> 'h broker result outcome" where
  "bind_exchange env tid a exchange = bind env tid a exchange default_heartbeat"

definition bind_heartbeat :: "env \<Rightarrow> thread_id \<Rightarrow> address \<Rightarrow> u16 \<Rightarrow> command list \<times> 'h broker result outcome" where
  "bind_heartbeat env tid a heartbeat = bind env tid a ''amq.topic'' heartbeat"

definition bind_default :: "env \<Rightarrow> thread_id \<Rightarrow> address \<Rightarrow> command list \<times> 'h broker result outcome" where
  "bind_default env tid a = bind env tid a ''amq.topic'' default_heartbeat"

subsection \<open>publish\<close>

text \<open>How the transaction of a message ends, when it does.\<close>

datatype confirmation = Confirmed | Refused string

fun barrier_value :: "confirmation \<Rightarrow> string" where
  "barrier_value Confirmed = []"
| "barrier_value (Refused message) = c_str message"

text \<open>
  \<open>publish_message\<close> blocks until the loop, on its own thread, hands over the confirmation; with none
  it does not return, which is the value \<open>None\<close>.
\<close>

definition publish_message ::
  "env \<Rightarrow> thread_id \<Rightarrow> json \<Rightarrow> string \<Rightarrow> confirmation option \<Rightarrow> 'h broker \<Rightarrow>
   'h broker \<times> command list \<times> error outcome option" where
  "publish_message env tid message key confirmed b =
     (let e = (mk_envelope (to_msgpack message))\<lparr>delivery_mode := Some 2\<rparr>
      in case new_channel env tid (broker_conns b) of
           (cs, as, Ret ch) \<Rightarrow>
             (let as1 = as @ [Start_transaction ch, Publish ch (exchange_name b) key e {autodelete, mandatory},
                              Commit_transaction ch]
              in case confirmed of
                   None \<Rightarrow> (set_conns cs b, as1, None)
                 | Some c \<Rightarrow>
                     (set_conns cs b, as1 @ [Close_channel ch],
                      Some (Ret (if barrier_value c \<noteq> [] then broker_err Broker_PUBLISH (barrier_value c)
                                 else common_err Common_OK))))
         | (cs, as, Raise x) \<Rightarrow> (set_conns cs b, as, Some (Raise x))
         | (cs, as, _) \<Rightarrow> (set_conns cs b, as, Some Undefined))"

subsection \<open>fetch, listen and run\<close>

text \<open>\<open>fetch\<close> returns with the reference what its callbacks captured.\<close>

definition broker_fetch ::
  "env \<Rightarrow> 'h fetch_throws \<Rightarrow> thread_id \<Rightarrow> json \<Rightarrow> string \<Rightarrow> int \<times> 'h broker \<Rightarrow>
   (int \<times> 'h broker) \<times> 'h fetch_action list \<times> (request \<times> nat) outcome" where
  "broker_fetch env thr tid message key nb =
     (case nb of (n, b) \<Rightarrow>
        (case fetch_message env thr tid (n, broker_conns b, brk_fetchers b) of
           ((n1, cs, r), as, res) \<Rightarrow>
             ((n1, (set_conns cs b)\<lparr>brk_fetchers := r\<rparr>), as,
              obind res (\<lambda>p. Ret (\<lparr>req_id = dec_int n, req_message = message, req_key = key\<rparr>, p)))))"

definition broker_listen ::
  "env \<Rightarrow> 'h app \<Rightarrow> thread_id \<Rightarrow> string \<Rightarrow> string list \<Rightarrow> int \<times> 'h broker \<Rightarrow>
   (int \<times> 'h broker) \<times> 'h listen_action list \<times> (listener \<times> nat) outcome" where
  "broker_listen env app tid queue keys nb =
     (case nb of (n, b) \<Rightarrow>
        (case listen_messages env app tid (exchange_name b) queue keys (n, brk_server b) of
           ((n1, s), as, res) \<Rightarrow>
             ((n1, b\<lparr>brk_server := s\<rparr>), as,
              obind res (\<lambda>p. Ret (\<lparr>lst_id = dec_int n, lst_exchange = exchange_name b, lst_queue = queue\<rparr>, p)))))"

datatype launch = Launch_async | Launch_sync

text \<open>The thread the loop, and so every callback, runs on; \<open>fresh\<close> is the one an \<open>async\<close> run makes.\<close>

fun broker_run :: "launch \<Rightarrow> thread_id \<Rightarrow> thread_id \<Rightarrow> thread_id" where
  "broker_run Launch_async fresh tid = fresh"
| "broker_run Launch_sync fresh tid = tid"

subsection \<open>Invariant\<close>

definition broker_ok :: "env \<Rightarrow> int \<times> 'h broker \<Rightarrow> bool" where
  "broker_ok env nb \<longleftrightarrow>
     (case nb of (n, b) \<Rightarrow>
        listen_ok env (n, brk_server b) \<and> fetch_ok env (n, broker_conns b, brk_fetchers b))"

lemma broker_fields [simp]:
  "broker_conns (set_conns cs b) = cs" "exchange_name (set_conns cs b) = exchange_name b"
  "brk_fetchers (set_conns cs b) = brk_fetchers b" "broker_conns (b\<lparr>brk_fetchers := r\<rparr>) = broker_conns b"
  "brk_server (set_conns cs b) = (brk_server b)\<lparr>srv_conns := cs\<rparr>"
  "broker_conns (mk_broker a e h) = mk_connections a h" "exchange_name (mk_broker a e h) = e"
  by (simp_all add: broker_conns_def set_conns_def mk_broker_def new_server_def)

lemma broker_ok_new: "broker_ok env (1, mk_broker a e h)"
  by (simp add: broker_ok_def fetch_ok_def) (simp add: mk_broker_def new_server_ok)


text \<open>The broker's invariant depends on its connections only through the pointers they hold.\<close>

lemma server_ok_conns:
  assumes "server_ok env s" and "connections_ok env cs" and "handler_ptr cs = handlers s"
  shows "server_ok env (s\<lparr>srv_conns := cs\<rparr>)"
  using assms by (simp add: server_ok_def)

lemma broker_okD:
  assumes "broker_ok env (n, b)"
  shows "listen_ok env (n, brk_server b)" "fetch_ok env (n, broker_conns b, brk_fetchers b)"
    "connections_ok env (broker_conns b)" "server_ok env (brk_server b)" "1 \<le> n"
  using assms by (auto simp: broker_ok_def fetch_ok_def listen_ok_def)

lemma listen_ok_later:
  assumes "listen_ok env (n, s)" and "n \<le> m" and "connections_ok env cs" and "handler_ptr cs = handlers s"
  shows "listen_ok env (m, s\<lparr>srv_conns := cs\<rparr>)"
  using assms server_ok_conns[of env s cs] by (fastforce simp: listen_ok_def)

lemma fetch_ok_later:
  "fetch_ok env (n, cs, r) \<Longrightarrow> n \<le> m \<Longrightarrow> connections_ok env cs1 \<Longrightarrow> fetch_ok env (m, cs1, r)"
  by (fastforce simp: fetch_ok_def)

text \<open>\<open>error_string\<close> with no arguments: a text without conversions, and one with a missing argument.\<close>

lemma error_string_plain: "pct_free w \<Longrightarrow> error_string w [] = Ret (''Cappy error: '' @ take 1023 (c_str w))"
proof -
  assume "pct_free w"
  then have "pct_free (c_str w)" using set_c_str_subset[of w] by (auto simp: pct_free_def)
  then show ?thesis by (simp add: error_string_def vformat_pct_free)
qed

lemma error_string_missing:
  assumes "pct_free u" and "NUL \<notin> set u"
  shows "error_string (u @ ''%s'' @ v) [] = Undefined"
proof -
  have "c_str (u @ ''%s'' @ v) = u @ CHR ''%'' # CHR ''s'' # c_str v"
    using assms(2) unfolding c_str_def by (induction u) auto
  with assms(1) show ?thesis
    by (simp add: error_string_def vformat_literal_append del: append_Cons append_Nil)
qed

subsection \<open>Properties\<close>

text \<open>
  C13: \<open>publish\<close> sends the message once, persistently and in one transaction, to the exchange of the
  broker, under a body that reads back as the message; it returns only once the transaction is
  settled, with the channel closed: \<open>OK\<close> if it was confirmed, a \<open>PUBLISH\<close> error with the text of the
  refusal if it was refused, but \<open>OK\<close> again if that text is empty.
\<close>

theorem publish_outcome:
  assumes "connections_ok env (broker_conns b)" and "storable message"
    and "channel_throws env (next_chan (broker_conns b)) (the_conn env tid (broker_conns b)) = None"
  shows "\<exists>cs e.
      (let ch = next_chan (broker_conns b);
           sent = connects env tid (broker_conns b) @
             [Open_channel ch (the_conn env tid (broker_conns b)), Start_transaction ch,
              Publish ch (exchange_name b) key e {autodelete, mandatory}, Commit_transaction ch];
           done = (\<lambda>r. (set_conns cs b, sent @ [Close_channel ch], Some (Ret r)))
       in publish_message env tid message key None b = (set_conns cs b, sent, None)
        \<and> publish_message env tid message key (Some Confirmed) b = done (common_err Common_OK)
        \<and> (\<forall>m. publish_message env tid message key (Some (Refused m)) b =
             done (if c_str m = [] then common_err Common_OK else broker_err Broker_PUBLISH (c_str m))))
    \<and> from_msgpack (body e) = Inr (canon message) \<and> delivery_mode e = Some 2 \<and> connections_ok env cs"
proof (rule new_channel_spec[OF assms(1), of tid])
  fix cs
  assume n: "new_channel env tid (broker_conns b) =
      (case channel_throws env (next_chan (broker_conns b)) (the_conn env tid (broker_conns b)) of
         None \<Rightarrow> (cs, connects env tid (broker_conns b) @
                   [Open_channel (next_chan (broker_conns b)) (the_conn env tid (broker_conns b))],
                  Ret (next_chan (broker_conns b)))
       | Some e \<Rightarrow> (cs, connects env tid (broker_conns b), Raise e))" and "connections_ok env cs"
  then show ?thesis
    using from_write[OF assms(2)]
    by (intro exI[of _ cs] exI[of _ "(mk_envelope (to_msgpack message))\<lparr>delivery_mode := Some 2\<rparr>"])
      (simp add: publish_message_def assms(3) Let_def, simp add: mk_envelope_def)
qed

text \<open>
  C27: \<open>Bind\<close> connects to the address of the broker, declares the exchange as a durable topic exchange
  on a channel of its own that it closes at once, and returns a broker that is well formed and has no
  request or listener. When the channel cannot be opened it returns a \<open>CONNECTION\<close> error with the
  text of the exception if that has no percent sign; but the text is used as a format, so a \<open>%s\<close> in
  it has no defined behaviour.
\<close>

theorem bind_outcome:
  "\<exists>cs. case channel_throws env 0 0 of
       None \<Rightarrow> bind env tid a exchange heartbeat =
           ([to_address 0 a, Open_channel 0 0, Declare_exchange 0 exchange topic {durable}, Close_channel 0],
            Ret (rep (Inr (set_conns cs (mk_broker a exchange heartbeat) :: 'h broker))))
         \<and> broker_ok env (1, set_conns cs (mk_broker a exchange heartbeat) :: 'h broker)
     | Some x \<Rightarrow>
         (\<forall>w. exn_what x = Some w \<longrightarrow> pct_free w \<longrightarrow>
            bind env tid a exchange heartbeat =
              ([to_address 0 a], Ret (rep (Inl (broker_err Broker_CONNECTION (''Cappy error: '' @ take 1023 (c_str w))))) :: 'h broker result outcome))
         \<and> (\<forall>u v. exn_what x = Some (u @ ''%s'' @ v) \<longrightarrow> pct_free u \<longrightarrow> NUL \<notin> set u \<longrightarrow>
            snd (bind env tid a exchange heartbeat) = (Undefined :: 'h broker result outcome))"
proof -
  let ?b = "mk_broker a exchange heartbeat :: 'h broker"
  have c: "the_conn env tid (mk_connections a heartbeat) = 0"
    "connects env tid (mk_connections a heartbeat) = [to_address 0 a]" "next_chan (mk_connections a heartbeat) = 0"
    by (simp_all add: the_conn_def connects_def mk_connections_def)
  show ?thesis
  proof (rule new_channel_spec[OF connections_ok_new[of env a heartbeat], of tid, unfolded c])
    fix cs
    assume n: "new_channel env tid (mk_connections a heartbeat) =
      (case channel_throws env 0 0 of
         None \<Rightarrow> (cs, [to_address 0 a] @ [Open_channel 0 0], Ret 0)
       | Some e \<Rightarrow> (cs, [to_address 0 a], Raise e))"
      and cs: "connections_ok env cs" "handler_ptr cs = handler_ptr (mk_connections a heartbeat)"
    have "broker_ok env (1, set_conns cs ?b)"
      using listen_ok_later[OF broker_okD(1)[OF broker_ok_new[of env a exchange heartbeat]] order_refl cs(1)]
        fetch_ok_later[OF broker_okD(2)[OF broker_ok_new[of env a exchange heartbeat]] order_refl cs(1)] cs(2)
      by (simp add: broker_ok_def mk_broker_def new_server_def set_conns_def broker_conns_def)
    then show ?thesis
      using n by (intro exI[of _ cs])
        (simp add: bind_def bind_failure_def make_unexpected_def error_string_plain error_string_missing
          split: option.split del: rep.simps append_Cons append_Nil)
  qed
qed

text \<open>\<open>fetch\<close> and \<open>listen\<close> on a broker whose channels open.\<close>

lemma broker_fetch_spec:
  assumes "broker_ok env (n, b)" and "n < INT_MAX"
    and "channel_throws env (next_chan (broker_conns b)) (the_conn env tid (broker_conns b)) = None"
  obtains b1 as p where "broker_fetch env thr tid message key (n, b) =
      ((n + 1, b1), as, Ret (\<lparr>req_id = dec_int n, req_message = message, req_key = key\<rparr>, p))"
    "broker_ok env (n + 1, b1)"
    "reg_view (str_hash env) (brk_fetchers b1) =
       (reg_view (str_hash env) (brk_fetchers b))(dec_int n \<mapsto> mk_fetching (next_chan (broker_conns b)))"
    "lview env (brk_server b1) = lview env (brk_server b)"
proof -
  note ok = broker_okD[OF assms(1)]
  let ?ch = "next_chan (broker_conns b)" and ?c = "the_conn env tid (broker_conns b)"
  from new_channel_spec[OF ok(3), of tid] obtain cs where
    n: "new_channel env tid (broker_conns b) = (cs, connects env tid (broker_conns b) @ [Open_channel ?ch ?c], Ret ?ch)"
    and cs: "connections_ok env cs" "handler_ptr cs = handler_ptr (broker_conns b)"
    unfolding assms(3) option.case(1) by blast
  from fetch_message_spec[OF ok(2) assms(2) n, of thr] obtain r1 where
    f: "fetch_message env thr tid (n, broker_conns b, brk_fetchers b) =
        ((n + 1, cs, r1),
         map Command ((connects env tid (broker_conns b) @ [Open_channel ?ch ?c]) @
           [Declare_queue ?ch [] {exclusive, autodelete}]), Ret (next_ptr (brk_fetchers b)))"
      "fetch_ok env (n + 1, cs, r1)"
      "reg_view (str_hash env) r1 = (reg_view (str_hash env) (brk_fetchers b))(dec_int n \<mapsto> mk_fetching ?ch)"
    by blast
  have "listen_ok env (n + 1, (brk_server b)\<lparr>srv_conns := cs\<rparr>)"
    by (rule listen_ok_later[OF ok(1) _ cs(1)]) (simp_all add: cs(2) broker_conns_def)
  then have "broker_ok env (n + 1, (set_conns cs b)\<lparr>brk_fetchers := r1\<rparr>)"
    using f(2) by (simp add: broker_ok_def)
  with f show thesis by (intro that[of "(set_conns cs b)\<lparr>brk_fetchers := r1\<rparr>"]) (simp_all add: broker_fetch_def)
qed

lemma broker_listen_spec:
  assumes "broker_ok env (n, b)" and "n < INT_MAX"
    and "channel_throws env (next_chan (broker_conns b)) (the_conn env tid (broker_conns b)) = None"
    and "target_ok env (brk_server b) (the_conn env tid (broker_conns b))"
  obtains b1 as p where "broker_listen env app tid queue keys (n, b) =
      ((n + 1, b1), as, Ret (\<lparr>lst_id = dec_int n, lst_exchange = exchange_name b, lst_queue = queue\<rparr>, p))"
    "broker_ok env (n + 1, b1)"
    "lview env (brk_server b1) = (lview env (brk_server b))(dec_int n \<mapsto> mk_listening (next_chan (broker_conns b)))"
    "reg_view (str_hash env) (brk_fetchers b1) = reg_view (str_hash env) (brk_fetchers b)"
proof -
  note ok = broker_okD[OF assms(1)]
  note c = broker_conns_def[of b]
  from listen_messages_spec[OF ok(1) assms(2), of tid app "exchange_name b" queue keys] assms(3,4) obtain s1 p where
    l: "fst (listen_messages env app tid (exchange_name b) queue keys (n, brk_server b)) = (n + 1, s1)"
       "snd (snd (listen_messages env app tid (exchange_name b) queue keys (n, brk_server b))) = Ret p"
       "listen_ok env (n + 1, s1)"
       "lview env s1 = (lview env (brk_server b))(dec_int n \<mapsto> mk_listening (next_chan (broker_conns b)))"
    unfolding c by fastforce
  have "fetch_ok env (n + 1, srv_conns s1, brk_fetchers b)"
    by (rule fetch_ok_later[OF ok(2)]) (use l(3) in \<open>auto simp: listen_ok_def server_ok_def\<close>)
  then have "broker_ok env (n + 1, b\<lparr>brk_server := s1\<rparr>)"
    using l(3) by (simp add: broker_ok_def broker_conns_def)
  moreover obtain as where "listen_messages env app tid (exchange_name b) queue keys (n, brk_server b) = ((n + 1, s1), as, Ret p)"
    using l(1,2) by (metis prod.collapse)
  ultimately show thesis using l(4) by (intro that[of "b\<lparr>brk_server := s1\<rparr>"]) (simp_all add: broker_listen_def)
qed

text \<open>
  Requests and listeners of one broker never share an id, and do not disturb each other: \<open>fetch\<close>
  registers a request under the next number and leaves every listener and every other request as it
  is, \<open>listen\<close> registers a listener under the next number and leaves every request and every other
  listener as it is; both return the id they used and a broker that is well formed.
\<close>

theorem broker_stays_well_formed:
  assumes "broker_ok env (n, b)" and "n < INT_MAX"
    and "channel_throws env (next_chan (broker_conns b)) (the_conn env tid (broker_conns b)) = None"
    and "target_ok env (brk_server b) (the_conn env tid (broker_conns b))"
  shows "(\<exists>b1 as p. broker_fetch env thr tid message key (n, b) =
              ((n + 1, b1), as, Ret (\<lparr>req_id = dec_int n, req_message = message, req_key = key\<rparr>, p))
            \<and> broker_ok env (n + 1, b1)
            \<and> reg_view (str_hash env) (brk_fetchers b1) =
                (reg_view (str_hash env) (brk_fetchers b))(dec_int n \<mapsto> mk_fetching (next_chan (broker_conns b)))
            \<and> lview env (brk_server b1) = lview env (brk_server b))
       \<and> (\<exists>b1 as p. broker_listen env app tid queue keys (n, b) =
              ((n + 1, b1), as, Ret (\<lparr>lst_id = dec_int n, lst_exchange = exchange_name b, lst_queue = queue\<rparr>, p))
            \<and> broker_ok env (n + 1, b1)
            \<and> lview env (brk_server b1) =
                (lview env (brk_server b))(dec_int n \<mapsto> mk_listening (next_chan (broker_conns b)))
            \<and> reg_view (str_hash env) (brk_fetchers b1) = reg_view (str_hash env) (brk_fetchers b))"
proof (rule conjI)
  show "\<exists>b1 as p. broker_fetch env thr tid message key (n, b) =
              ((n + 1, b1), as, Ret (\<lparr>req_id = dec_int n, req_message = message, req_key = key\<rparr>, p))
            \<and> broker_ok env (n + 1, b1)
            \<and> reg_view (str_hash env) (brk_fetchers b1) =
                (reg_view (str_hash env) (brk_fetchers b))(dec_int n \<mapsto> mk_fetching (next_chan (broker_conns b)))
            \<and> lview env (brk_server b1) = lview env (brk_server b)"
    by (rule broker_fetch_spec[OF assms(1-3), of thr message key]) blast
qed (rule broker_listen_spec[OF assms, of app queue keys], blast)

text \<open>
  C28: Only \<open>Bind\<close> turns an exception of the AMQP library into a result. When a channel cannot be
  opened, \<open>publish\<close>, \<open>fetch\<close> and \<open>listen\<close> throw what the library threw: nothing is sent, registered
  or reported to a callback, but an id is used up by the last two; the broker stays well formed.
\<close>

theorem channel_exception_escapes:
  assumes "broker_ok env (n, b)" and "n < INT_MAX"
    and "channel_throws env (next_chan (broker_conns b)) (the_conn env tid (broker_conns b)) = Some x"
  shows "\<exists>cs. publish_message env tid message key confirmed b =
        (set_conns cs b, connects env tid (broker_conns b), Some (Raise x))
    \<and> broker_fetch env thr tid message key (n, b) =
        ((n + 1, set_conns cs b), map Command (connects env tid (broker_conns b)), Raise x)
    \<and> broker_listen env app tid queue keys (n, b) =
        ((n + 1, set_conns cs b), map Command (connects env tid (broker_conns b)), Raise x)
    \<and> broker_ok env (n + 1, set_conns cs b)"
proof -
  note ok = broker_okD[OF assms(1)]
  from new_channel_spec[OF ok(3), of tid] obtain cs where
    q: "new_channel env tid (broker_conns b) = (cs, connects env tid (broker_conns b), Raise x)"
    and cs: "connections_ok env cs" "handler_ptr cs = handler_ptr (broker_conns b)"
    unfolding assms(3) option.case(2) by blast
  have "listen_ok env (n + 1, (brk_server b)\<lparr>srv_conns := cs\<rparr>)"
    by (rule listen_ok_later[OF ok(1) _ cs(1)]) (simp_all add: cs(2) broker_conns_def)
  moreover have "fetch_ok env (n + 1, cs, brk_fetchers b)" by (rule fetch_ok_later[OF ok(2) _ cs(1)]) simp
  ultimately have "broker_ok env (n + 1, set_conns cs b)" by (simp add: broker_ok_def)
  moreover have "(set_conns cs b)\<lparr>brk_fetchers := brk_fetchers b\<rparr> = set_conns cs b"
    by (cases b) (simp add: set_conns_def)
  moreover note q[unfolded broker_conns_def]
  ultimately show ?thesis
    using q assms(2)
    by (intro exI[of _ cs]) (simp add: publish_message_def broker_fetch_def fetch_message_def broker_listen_def
        listen_messages_def create_unique_id_def Let_def, simp add: set_conns_def broker_conns_def)
qed

subsection \<open>Instances\<close>

definition sample_broker :: "nat broker" where
  "sample_broker = mk_broker sample_address ''amq.topic'' default_heartbeat"

lemma sample_broker_facts:
  "broker_ok sample_env (1, sample_broker)" "connections_ok sample_env (broker_conns sample_broker)"
  "channel_throws sample_env c d = None" "target_ok sample_env (brk_server sample_broker) k" "1 < INT_MAX"
  unfolding sample_broker_def
  by (rule broker_ok_new, simp_all add: sample_env_def target_ok_def INT_MAX_def)
    (simp add: mk_broker_def new_server_def)

theorem publish_outcome_witness:
  "\<exists>cs as. publish_message sample_env 9 sample_json ''jobs'' (Some (Refused ''no'')) sample_broker =
     (set_conns cs sample_broker, as, Some (Ret (broker_err Broker_PUBLISH ''no'')))"
proof -
  have "c_str ''no'' = ''no''" by (simp add: c_str_def)
  then show ?thesis
    using publish_outcome[OF sample_broker_facts(2) storable_sample sample_broker_facts(3), of 9 "''jobs''"]
    unfolding Let_def by fastforce
qed

text \<open>Channels that cannot be opened.\<close>

definition closed_env :: "string \<Rightarrow> env" where
  "closed_env text = sample_env\<lparr>channel_throws := (\<lambda>_ _. Some (Std_exception text))\<rparr>"

theorem bind_outcome_witness:
  "snd (bind (closed_env ''no%s'') 9 sample_address ''x'' 60) = (Undefined :: nat broker result outcome)
   \<and> snd (bind (closed_env ''no'') 9 sample_address ''x'' 60) =
       (Ret (rep (Inl (broker_err Broker_CONNECTION ''Cappy error: no''))) :: nat broker result outcome)"
proof
  have c: "channel_throws (closed_env ''no%s'') 0 0 = Some (Std_exception (''no'' @ ''%s'' @ []))"
    by (simp add: closed_env_def)
  have "pct_free ''no''" "NUL \<notin> set ''no''" by (simp_all add: pct_free_def)
  with bind_outcome[where 'h = nat, of "closed_env ''no%s''" 9 sample_address "''x''" 60, unfolded c option.case(2)]
  show "snd (bind (closed_env ''no%s'') 9 sample_address ''x'' 60) = (Undefined :: nat broker result outcome)"
    using exn_what.simps(1) by blast
  have t: "''Cappy error: no'' = ''Cappy error: '' @ ''no''" by simp
  show "snd (bind (closed_env ''no'') 9 sample_address ''x'' 60) =
       (Ret (rep (Inl (broker_err Broker_CONNECTION ''Cappy error: no''))) :: nat broker result outcome)"
    unfolding t
    using bind_outcome[where 'h = nat, of "closed_env ''no''" 9 sample_address "''x''" 60]
    by (simp add: closed_env_def pct_free_def del: rep.simps append_Cons append_Nil)
qed

theorem channel_exception_escapes_witness:
  "snd (snd (publish_message (closed_env ''no'') 9 sample_json ''k'' None sample_broker)) = Some (Raise (Std_exception ''no''))"
proof -
  have "broker_ok (closed_env ''no'') (1, sample_broker)" unfolding sample_broker_def by (rule broker_ok_new)
  moreover have "channel_throws (closed_env ''no'') c d = Some (Std_exception ''no'')" for c d by (simp add: closed_env_def)
  ultimately show ?thesis
    using channel_exception_escapes[OF _ sample_broker_facts(5), of "closed_env ''no''" sample_broker 9 "Std_exception ''no''"
        sample_json "''k''" None quiet_throws quiet_app "''q''" "[]"]
    by auto
qed

theorem broker_stays_well_formed_witness:
  "\<exists>b1 as p. broker_listen sample_env quiet_app 9 ''q'' [''k''] (1, sample_broker) =
     ((2, b1), as, Ret (\<lparr>lst_id = dec_int 1, lst_exchange = exchange_name sample_broker, lst_queue = ''q''\<rparr>, p))"
  using broker_stays_well_formed[OF sample_broker_facts(1,5,3,4), of quiet_throws 9 sample_json "''k''" quiet_app "''q''" "[''k'']"]
  by auto
end
