(* ===== verification/System.thy ===== *)
theory System
  imports Broker Callbacks
begin

section \<open>A broker over its whole life\<close>

text \<open>
  Everything that can happen to a broker once \<open>Bind\<close> has made it, as one step relation: the
  application calls \<open>fetch\<close>, \<open>listen\<close> or \<open>publish\<close> on any thread, installs callbacks through the
  references it was given or works on a reply, and the AMQP library runs any callback that was
  registered, in any order. The invariant ties the components together: requests and listeners are
  well formed, share the connections, and never share an id.
\<close>

subsection \<open>Steps of a server make no listeners\<close>

text \<open>\<open>within env K f\<close>: \<open>f\<close> keeps a server well formed with its listeners among the ids \<open>K\<close>.\<close>

definition inside :: "env \<Rightarrow> string set \<Rightarrow> 'h server \<Rightarrow> bool" where
  "inside env K s \<longleftrightarrow> server_ok env s \<and> dom (lview env s) \<subseteq> K"

definition within :: "env \<Rightarrow> string set \<Rightarrow> 'h server_step \<Rightarrow> bool" where
  "within env K f \<longleftrightarrow> (\<forall>s. inside env K s \<longrightarrow> inside env K (fst (f s)))"

named_theorems within_rules \<open>steps that keep the listeners within a set of ids\<close>

lemma withinD: "within env K f \<Longrightarrow> inside env K s \<Longrightarrow> inside env K (fst (f s))"
  by (simp add: within_def)

lemma withinI:
  fixes f :: "'a server_step"
  assumes "keeps_ok env f"
    and "\<And>s. server_ok env s \<Longrightarrow> dom (lview env (fst (f s))) \<subseteq> dom (lview env s)"
  shows "within env K f"
  unfolding within_def
proof (intro allI impI)
  fix s :: "'a server"
  assume s: "inside env K s"
  with keepsD[OF assms(1)] assms(2)[of s] show "inside env K (fst (f s))"
    unfolding inside_def by (blast intro: subset_trans)
qed

lemma within_andthen [within_rules]: "within env K f \<Longrightarrow> within env K g \<Longrightarrow> within env K (andthen f g)"
  unfolding within_def by (blast intro: andthen_invariant[where P = "inside env K"])

lemma within_try [within_rules]:
  "within env K f \<Longrightarrow> (\<And>e. within env K (h e)) \<Longrightarrow> within env K (try_catch f h)"
  unfolding within_def by (blast intro: try_catch_invariant[where P = "inside env K"])

text \<open>A step that leaves the listeners alone.\<close>

lemma within_frame:
  assumes "keeps_ok env f" and "\<And>s. srv_listeners (fst (f s)) = srv_listeners s"
  shows "within env K f"
  using assms(2) by (intro withinI[OF assms(1)]) simp

lemma within_plain [within_rules]:
  "within env K skip_step" "within env K abort_step" "within env K (act as)" "within env K (close_channel ch)"
  by (rule within_frame; simp add: keeps skip_step_def abort_step_def act_def close_channel_def)+

lemma within_replays [within_rules]:
  "within env K (delete_replay app p)" "within env K (update_replay p f)" "within env K (commit_body env tid c p)"
  by (rule within_frame;
      simp add: keeps delete_replay_def update_replay_def commit_body_def split: option.split prod.split outcome.split)+

lemma within_commit [within_rules]: "within env K (replay_commit env tid p)"
  unfolding within_def replay_commit_def
  by (simp split: option.split) (blast intro: withinD within_rules)


lemma with_object_dom:
  "objs (srv_listeners s) p \<noteq> None \<Longrightarrow> dom (lview env (with_object p x n s)) = dom (lview env s)"
  by (auto simp: dom_def reg_view_def split: option.splits)

lemma within_call [within_rules]: "within env K (listener_call env k m)"
proof (rule withinI)
  fix s :: "'a server"
  assume ok: "server_ok env s"
  show "dom (lview env (fst (listener_call env k m s))) \<subseteq> dom (lview env s)"
  proof (cases "lview env s k")
    case None
    then show ?thesis by (simp add: listener_call_absent[OF ok])
  next
    case (Some x)
    obtain x1 as res where m: "m x = (x1, as, res)" by (metis prod.exhaust)
    from listener_call_view[where m = m, OF ok Some m] Some show ?thesis by (metis (no_types, lifting) dom_fun_upd
        domI fst_conv insert_absorb option.distinct(1) subset_refl)
  qed
qed (rule keeps)

lemma within_del [within_rules]: "within env K (listener_del env app k)"
proof (rule withinI)
  fix s :: "'a server"
  assume ok: "server_ok env s"
  show "dom (lview env (fst (listener_del env app k s))) \<subseteq> dom (lview env s)"
  proof (cases "lview env s k")
    case None
    then show ?thesis using listener_del_absent[OF ok None, of app] by auto
  next
    case (Some x)
    from lview_ptr[OF ok Some] obtain p n where p: "entry_ptr (str_hash env) k (srv_listeners s) = Some p"
      "objs (srv_listeners s) p = Some (x, n)" .
    show ?thesis by (rule listener_del_spec[OF ok p, of app]) (auto split: if_splits)
  qed
qed (rule keeps)

lemma lview_set_deferred:
  assumes "server_ok env s" and "\<And>a. p = Some a \<Longrightarrow> objs (srv_listeners s) a \<noteq> None"
  shows "server_ok env (fst (set_deferred env app tid p s)) \<and> lview env (fst (set_deferred env app tid p s)) = lview env s"
  by (rule set_deferred_spec[where p = p and tid = tid and app = app, OF assms]) (auto split: option.split prod.split)

lemma within_reset [within_rules]: "within env K (reset_deferred env app tid)"
  using lview_set_deferred[where env = env and p = None and app = app and tid = tid] unfolding reset_deferred_def
  by (intro withinI) (simp_all add: keeps_ok_def)

lemma within_with_commit [within_rules]:
  assumes "\<And>p cid. within env K (f p cid)"
  shows "within env K (with_commit ch f)"
proof -
  have "inside env K (s\<lparr>srv_commits := c\<rparr>) = inside env K s" for s :: "'a server" and c
    by (simp add: inside_def server_ok_def)
  then show ?thesis using assms by (auto simp: within_def with_commit_def split: option.split)
qed

lemma inside_with_reply: "inside env K s \<Longrightarrow> inside env K (with_reply l d s)"
  by (simp add: inside_def with_reply_ok)

lemma within_listen_data [within_rules]: "within env K (listen_data env app tid l d j)"
  unfolding within_def listen_data_eq with_reply_def[symmetric]
  by (blast intro: withinD within_rules inside_with_reply)

lemma within_connection_error [within_rules]: "within env K (report_connection_error app c e)"
proof (rule withinI)
  fix s :: "'a server"
  have "dom (lview env (fst (on_listeners (call_ptr (Some p) m) s))) = dom (lview env s)"
    for p and m :: "'a listening \<Rightarrow> 'a listening \<times> 'a listen_action list \<times> unit outcome"
    using with_object_dom[of s p env] by (auto simp: on_listeners_def call_ptr_def with_object_def split: option.split prod.split)
  then show "dom (lview env (fst (report_connection_error app c e s))) \<subseteq> dom (lview env s)"
    by (simp add: report_connection_error_def split: option.split)
qed (rule keeps)

lemma within_bind_failed [within_rules]: "within env K (listen_bind_failed env app l m)"
  unfolding within_def by (simp add: bind_failed_undefined)

lemma within_listen_step [within_rules]: "within env K (listen_step env app tid l ev)"
  by (cases ev)
    (auto simp: listen_channel_error_def listen_declare_failed_def listen_received_def listen_consume_ok_def
      listen_consume_failed_def report_listen_error_def bind_failed_undefined split: sum.split intro!: within_rules)

lemma within_server_step [within_rules]: "within env K (server_step env app tid ev)"
  by (cases ev) (auto simp: commit_ok_def commit_failed_def onError_def onLost_def intro!: within_rules)

subsection \<open>Calls of fetch and listen, however they end\<close>

lemma new_channel_total:
  assumes "connections_ok env cs"
  obtains cs1 as r where "new_channel env tid cs = (cs1, as, r)" "connections_ok env cs1"
    "handler_ptr cs1 = handler_ptr cs" "(\<exists>ch. r = Ret ch) \<or> (\<exists>e. r = Raise e)"
    "thread_conn env cs1 = (thread_conn env cs)(tid \<mapsto> the_conn env tid cs)"
proof (rule new_channel_spec[OF assms, of tid])
  fix cs1
  assume "new_channel env tid cs =
      (case channel_throws env (next_chan cs) (the_conn env tid cs) of
         None \<Rightarrow> (cs1, connects env tid cs @ [Open_channel (next_chan cs) (the_conn env tid cs)], Ret (next_chan cs))
       | Some e \<Rightarrow> (cs1, connects env tid cs, Raise e))"
    "connections_ok env cs1" "handler_ptr cs1 = handler_ptr cs"
    "thread_conn env cs1 = (thread_conn env cs)(tid \<mapsto> the_conn env tid cs)"
  then show thesis by (cases "channel_throws env (next_chan cs) (the_conn env tid cs)") (auto intro: that)
qed

text \<open>The next id is the only new one.\<close>

definition grows :: "int \<Rightarrow> int \<Rightarrow> string set \<Rightarrow> string set \<Rightarrow> bool" where
  "grows n n1 A B \<longleftrightarrow> n \<le> n1 \<and> (B \<subseteq> A \<or> n1 = n + 1 \<and> B \<subseteq> insert (dec_int n) A)"

lemma fetch_message_grows:
  assumes "fetch_ok env (n, cs, r)" and "fetch_message env thr tid (n, cs, r) = ((n1, cs1, r1), as, res)"
  shows "fetch_ok env (n1, cs1, r1) \<and> handler_ptr cs1 = handler_ptr cs
    \<and> grows n n1 (dom (reg_view (str_hash env) r)) (dom (reg_view (str_hash env) r1))"
proof (cases "n < INT_MAX")
  case False
  with assms show ?thesis by (auto simp: fetch_message_def create_unique_id_def grows_def)
next
  case True
  have "connections_ok env cs" using assms(1) by (simp add: fetch_ok_def)
  from new_channel_total[OF this, of tid] obtain cs2 bs q where
    q: "new_channel env tid cs = (cs2, bs, q)" "connections_ok env cs2" "handler_ptr cs2 = handler_ptr cs"
      "(\<exists>ch. q = Ret ch) \<or> (\<exists>e. q = Raise e)" .
  show ?thesis
  proof (cases q)
    case (Ret ch)
    from fetch_message_spec[OF assms(1) True q(1)[unfolded Ret], of thr] assms(2) q(3) show ?thesis
      by (auto simp: grows_def split: if_splits)
  next
    case (Raise e)
    with q fetch_ok_later[OF assms(1) _ q(2), of "n + 1"] assms(2) True show ?thesis
      by (auto simp: fetch_message_def create_unique_id_def grows_def)
  qed (use q(4) in auto)
qed

lemma listen_messages_grows:
  assumes "listen_ok env (n, s)" and "listen_messages env app tid exchange queue keys (n, s) = ((n1, s1), as, res)"
  shows "listen_ok env (n1, s1) \<and> grows n n1 (dom (lview env s)) (dom (lview env s1))"
proof (cases "n < INT_MAX")
  case False
  with assms show ?thesis by (auto simp: listen_messages_def create_unique_id_def grows_def)
next
  case True
  let ?h = "str_hash env"
  have n: "1 \<le> n" and ok: "server_ok env s" and ids: "\<And>k. lview env s k \<noteq> None \<Longrightarrow> \<exists>i. 1 \<le> i \<and> i < n \<and> k = dec_int i"
    using assms(1) by (auto simp: listen_ok_def)
  from new_channel_total[OF server_okD(1)[OF ok], of tid] obtain cs2 bs q where
    q: "new_channel env tid (srv_conns s) = (cs2, bs, q)" "connections_ok env cs2" "handler_ptr cs2 = handlers s"
      "(\<exists>ch. q = Ret ch) \<or> (\<exists>e. q = Raise e)" .
  show ?thesis
  proof (cases q)
    case (Raise e)
    with q(1) assms(2) True have "n1 = n + 1" "s1 = s\<lparr>srv_conns := cs2\<rparr>"
      by (simp_all add: listen_messages_def create_unique_id_def)
    with listen_ok_later[OF assms(1) _ q(2,3), of "n + 1"] show ?thesis by (simp add: grows_def)
  next
    case (Ret ch)
    have free: "entry_ptr ?h (dec_int n) (srv_listeners s) = None"
      using listen_ok_fresh[OF assms(1)] lview_None[OF ok] by blast
    from counted_set[OF server_okD(2)[OF ok] free, of "mk_listening ch"] obtain l1 where
      l1: "reg_set ?h (dec_int n) (mk_listening ch) (srv_listeners s) = (None, l1)" "counted ?h (handlers s) None l1"
      "cache_live ?h (entries l1) = (cache_live ?h (entries (srv_listeners s)))(dec_int n \<mapsto> next_ptr (srv_listeners s))"
      "objs l1 = (objs (srv_listeners s))(next_ptr (srv_listeners s) \<mapsto> (mk_listening ch, 1))"
      by blast
    define p where "p = next_ptr (srv_listeners s)"
    define s0 where "s0 = s\<lparr>srv_conns := cs2, srv_listeners := l1\<rparr>"
    have g: "reg_get ?h (clock env) (dec_int n) l1 = (Some p, l1)"
      by (simp add: reg_get_def ptr_cache.get_law[OF countedD(1)[OF l1(2)]] l1(3) p_def)
    have s0: "server_ok env s0"
      by (rule server_okI) (use l1(2) q(2,3) ok in \<open>auto simp: s0_def dest: server_okD\<close>)
    have "objs (srv_listeners s0) p \<noteq> None" by (simp add: s0_def l1(4) p_def)
    with lview_set_deferred[OF s0, where p = "Some p" and app = app and tid = tid] obtain s2 es w where
      d: "set_deferred env app tid (Some p) s0 = (s2, es, w)" "server_ok env s2" "lview env s2 = lview env s0"
      by (metis fst_conv option.inject prod.exhaust)
    have "s1 = s2" "n1 = n + 1"
      using assms(2) d(1) by (auto simp: listen_messages_def create_unique_id_def True q(1) Ret on_listeners_def l1(1)
          destroy_opt_def g s0_def split: outcome.splits)
    moreover have "dom (lview env s0) \<subseteq> insert (dec_int n) (dom (lview env s))"
    proof
      fix k assume "k \<in> dom (lview env s0)"
      then show "k \<in> insert (dec_int n) (dom (lview env s))"
        using lview_None[OF ok, of k] by (auto simp: reg_view_def s0_def l1(3) split: option.splits)
    qed
    moreover from this ids n have "\<And>k. lview env s0 k \<noteq> None \<Longrightarrow> \<exists>i. 1 \<le> i \<and> i < n + 1 \<and> k = dec_int i"
      by (metis domIff insert_iff less_add_one order_less_trans subsetD)
    ultimately show ?thesis using d n by (simp add: listen_ok_def grows_def)
  qed (use q(4) in auto)
qed

subsection \<open>The step relation\<close>

text \<open>The application installs callbacks through the reference \<open>listen\<close> returned.\<close>

definition user_listens :: "nat \<Rightarrow> ('h deferred \<Rightarrow> 'h deferred) \<Rightarrow> 'h server_step" where
  "user_listens p f = on_listeners (call_ptr (Some p) (\<lambda>x. (x\<lparr>listen_deferred := f (listen_deferred x)\<rparr>, [], Ret ())))"

text \<open>
  A program goes on after a call that returned or threw. Another broker of the process may take ids
  from the counter at any time.
\<close>

fun goes_on :: "'a outcome \<Rightarrow> bool" where
  "goes_on (Ret x) = True"
| "goes_on (Raise e) = True"
| "goes_on Undefined = False"
| "goes_on Abort = False"

inductive broker_step ::
  "env \<Rightarrow> 'h fetch_throws \<Rightarrow> 'h app \<Rightarrow> int \<times> 'h broker \<Rightarrow> int \<times> 'h broker \<Rightarrow> bool"
  for env :: env and thr :: "'h fetch_throws" and app :: "'h app" where
  call_fetch: "broker_fetch env thr tid message rk nb = (nb1, as, r) \<Longrightarrow> goes_on r \<Longrightarrow> broker_step env thr app nb nb1"
| call_listen: "broker_listen env app tid queue rks nb = (nb1, as, r) \<Longrightarrow> goes_on r \<Longrightarrow> broker_step env thr app nb nb1"
| call_publish: "publish_message env tid message rk (Some c) b = (b1, as, Some r) \<Longrightarrow> goes_on r \<Longrightarrow>
    broker_step env thr app (n, b) (n, b1)"
| fetch_callback: "fetch_step env thr (exchange_name b) req ev (brk_fetchers b) = (r1, as, r) \<Longrightarrow> goes_on r \<Longrightarrow>
    broker_step env thr app (n, b) (n, b\<lparr>brk_fetchers := r1\<rparr>)"
| server_callback: "server_step env app tid sev (brk_server b) = (s1, as, r) \<Longrightarrow> goes_on r \<Longrightarrow>
    broker_step env thr app (n, b) (n, b\<lparr>brk_server := s1\<rparr>)"
| install_fetch: "user_installs p f (brk_fetchers b) = (r1, as, r) \<Longrightarrow> goes_on r \<Longrightarrow>
    broker_step env thr app (n, b) (n, b\<lparr>brk_fetchers := r1\<rparr>)"
| install_listen: "user_listens p f (brk_server b) = (s1, as, r) \<Longrightarrow> goes_on r \<Longrightarrow>
    broker_step env thr app (n, b) (n, b\<lparr>brk_server := s1\<rparr>)"
| other_broker: "n \<le> m \<Longrightarrow> broker_step env thr app (n, b) (m, b)"

inductive_cases broker_stepE: "broker_step env thr app nb nb1"

abbreviation fview :: "env \<Rightarrow> 'h broker \<Rightarrow> string \<Rightarrow> 'h fetching option" where
  "fview env b \<equiv> reg_view (str_hash env) (brk_fetchers b)"

definition system_ok :: "env \<Rightarrow> int \<times> 'h broker \<Rightarrow> bool" where
  "system_ok env nb \<longleftrightarrow>
     broker_ok env nb \<and> dom (fview env (snd nb)) \<inter> dom (lview env (brk_server (snd nb))) = {}"

lemma system_okD:
  assumes "system_ok env (n, b)"
  shows "broker_ok env (n, b)" "dom (fview env b) \<inter> dom (lview env (brk_server b)) = {}"
  using assms by (simp_all add: system_ok_def)

lemma system_ok_later:
  assumes "system_ok env (n, b)" and "n \<le> m"
  shows "system_ok env (m, b)"
proof -
  note b = broker_okD[OF system_okD(1)[OF assms(1)]]
  have "listen_ok env (m, (brk_server b)\<lparr>srv_conns := broker_conns b\<rparr>)"
    by (rule listen_ok_later[OF b(1) assms(2) b(3)]) (simp add: broker_conns_def)
  moreover have "(brk_server b)\<lparr>srv_conns := broker_conns b\<rparr> = brk_server b" by (simp add: broker_conns_def)
  ultimately have "listen_ok env (m, brk_server b)" by simp
  with fetch_ok_later[OF b(2) assms(2) b(3)] system_okD(2)[OF assms(1)] show ?thesis
    by (simp add: system_ok_def broker_ok_def)
qed

lemma system_ok_new: "system_ok env (1, mk_broker a e h)"
  by (simp add: system_ok_def broker_ok_new) (simp add: mk_broker_def new_server_def)

text \<open>Changes on either side.\<close>

lemma system_ok_server:
  assumes "system_ok env (n, b)" and "n \<le> m" and "listen_ok env (m, s)"
    and "dom (lview env s) \<inter> dom (fview env b) = {}"
  shows "system_ok env (m, b\<lparr>brk_server := s\<rparr>)"
proof -
  have "connections_ok env (srv_conns s)" using assms(3) by (auto simp: listen_ok_def server_ok_def)
  with fetch_ok_later[OF broker_okD(2)[OF system_okD(1)[OF assms(1)]] assms(2)] assms(3,4)
  show ?thesis by (auto simp: system_ok_def broker_ok_def broker_conns_def)
qed

lemma system_ok_fetchers:
  assumes "system_ok env (n, b)" and "n \<le> m" and "fetch_ok env (m, cs, r)"
    and "handler_ptr cs = handler_ptr (broker_conns b)"
    and "dom (reg_view (str_hash env) r) \<inter> dom (lview env (brk_server b)) = {}"
  shows "system_ok env (m, (set_conns cs b)\<lparr>brk_fetchers := r\<rparr>)"
proof -
  have "connections_ok env cs" using assms(3) by (simp add: fetch_ok_def)
  with listen_ok_later[OF broker_okD(1)[OF system_okD(1)[OF assms(1)]] assms(2)] assms(3-5)
  show ?thesis by (auto simp: system_ok_def broker_ok_def broker_conns_def[of b])
qed

lemma set_conns_same [simp]: "set_conns (broker_conns b) b = b"
  by (simp add: set_conns_def broker_conns_def)

lemma system_ok_requests:
  assumes "system_ok env (n, b)" and "reg_ok (str_hash env) r" and "reg_solo (str_hash env) r"
    and "dom (reg_view (str_hash env) r) \<subseteq> dom (fview env b)"
  shows "system_ok env (n, b\<lparr>brk_fetchers := r\<rparr>)"
proof -
  note f = broker_okD(2)[OF system_okD(1)[OF assms(1)]]
  have "reg_view (str_hash env) (brk_fetchers b) k \<noteq> None" if "reg_view (str_hash env) r k \<noteq> None" for k
    using assms(4) that by blast
  with f assms(2,3) have "fetch_ok env (n, broker_conns b, r)" unfolding fetch_ok_def by (simp del: not_None_eq)
  from system_ok_fetchers[OF assms(1) order_refl this refl] assms(4) system_okD(2)[OF assms(1)]
  show ?thesis by (simp add: Int_commute disjoint_iff subset_iff)
qed

lemma call_ptr_requests:
  assumes "reg_ok hash r" and "reg_solo hash r"
  shows "reg_ok hash (fst (call_ptr (Some p) m r)) \<and> reg_solo hash (fst (call_ptr (Some p) m r))
    \<and> dom (reg_view hash (fst (call_ptr (Some p) m r))) = dom (reg_view hash r)"
proof (cases "objs r p")
  case None
  with assms show ?thesis by (simp add: call_ptr_def)
next
  case (Some xn)
  obtain x n x1 as res where x: "objs r p = Some (x, n)" and m: "m x = (x1, as, res)" using Some by (metis prod.exhaust)
  from reg_soloD[OF assms(2) x] obtain k where k: "entry_ptr hash k r = Some p" and "n = 1" by blast
  have v: "reg_view hash r k = Some x" by (simp add: reg_view_def k x)
  have "reg_call hash 0 k m r = call_ptr (Some p) m r" by (simp add: reg_call_eq[OF assms(1)] k)
  with reg_call_view[where m = m and now = 0, OF assms(1) v m] assms(2) v show ?thesis by (auto split: if_splits)
qed

lemma fetch_step_shrinks:
  assumes "reg_ok (str_hash env) r" and "reg_solo (str_hash env) r"
    and "fetch_step env thr exchange req ev r = (r1, as, res)"
  shows "reg_ok (str_hash env) r1 \<and> reg_solo (str_hash env) r1
    \<and> dom (reg_view (str_hash env) r1) \<subseteq> dom (reg_view (str_hash env) r)"
proof (cases "reg_view (str_hash env) r (req_id req)")
  case None
  with fetch_step_absent[OF assms(1) None] assms show ?thesis by auto
next
  case (Some x)
  obtain y bs res' where "pending_step thr exchange req ev x = (y, bs, res')" by (metis prod.exhaust)
  from fetch_step_view[OF assms(1,2) Some this] assms(3) Some show ?thesis by (auto split: if_splits)
qed

lemma within_installs: "within env K (user_listens p f)"
proof -
  have s: "server_ok env (fst (user_listens p f s)) \<and> dom (lview env (fst (user_listens p f s))) = dom (lview env s)"
    if ok: "server_ok env s" for s :: "'a server"
  proof (cases "objs (srv_listeners s) p")
    case None
    with ok show ?thesis by (simp add: user_listens_def on_listeners_def call_ptr_def)
  next
    case (Some xn)
    obtain x m where x: "objs (srv_listeners s) p = Some (x, m)" using Some by (cases xn) simp
    have "fst (user_listens p f s) = with_object p (x\<lparr>listen_deferred := f (listen_deferred x)\<rparr>) m s"
      using x by (simp add: user_listens_def on_listeners_def call_ptr_def with_object_def)
    with with_object_ok[OF ok x] with_object_dom[of s p env] x show ?thesis by simp
  qed
  then show ?thesis by (auto simp: within_def inside_def)
qed

text \<open>The invariant is kept by every step.\<close>

lemma grows_disjoint:
  assumes "grows n n1 A B" and "A \<inter> C = {}" and "dec_int n \<notin> C"
  shows "B \<inter> C = {}"
  using assms by (auto simp: grows_def)

lemma system_ok_served:
  assumes "system_ok env (n, b)" and "within env (dom (lview env (brk_server b))) f"
    and "f (brk_server b) = (s1, as, r)"
  shows "system_ok env (n, b\<lparr>brk_server := s1\<rparr>)"
proof -
  note l = broker_okD(1)[OF system_okD(1)[OF assms(1)]]
  have "inside env (dom (lview env (brk_server b))) (brk_server b)"
    using l by (simp add: inside_def listen_ok_def)
  from withinD[OF assms(2) this] assms(3) have s1: "server_ok env s1" "dom (lview env s1) \<subseteq> dom (lview env (brk_server b))"
    by (simp_all add: inside_def)
  with l have "listen_ok env (n, s1)" unfolding listen_ok_def by (blast dest: subsetD)
  then show ?thesis
    by (rule system_ok_server[OF assms(1) order_refl]) (use s1(2) system_okD(2)[OF assms(1)] in blast)
qed

lemma system_ok_step:
  assumes "broker_step env thr app nb nb1" and "system_ok env nb"
  shows "system_ok env nb1"
  using assms(1)
proof cases
  case (call_fetch tid message rk as r)
  obtain n b where nb: "nb = (n, b)" by (cases nb)
  obtain n1 cs r1 fs q where f: "fetch_message env thr tid (n, broker_conns b, brk_fetchers b) = ((n1, cs, r1), fs, q)"
    by (metis prod.exhaust)
  note ok = assms(2)[unfolded nb]
  note b = broker_okD[OF system_okD(1)[OF ok]]
  note g = fetch_message_grows[OF b(2) f]
  have "dec_int n \<notin> dom (lview env (brk_server b))" using listen_ok_fresh[OF b(1)] by (simp add: domIff)
  with grows_disjoint[OF conjunct2[OF conjunct2[OF g]] system_okD(2)[OF ok]]
  have d: "dom (reg_view (str_hash env) r1) \<inter> dom (lview env (brk_server b)) = {}" by simp
  have "nb1 = (n1, (set_conns cs b)\<lparr>brk_fetchers := r1\<rparr>)"
    using call_fetch(1) f nb by (simp add: broker_fetch_def)
  with system_ok_fetchers[OF ok _ _ _ d] g show ?thesis by (simp add: grows_def)
next
  case (call_listen tid queue rks as r)
  obtain n b where nb: "nb = (n, b)" by (cases nb)
  obtain n1 s1 fs q where l: "listen_messages env app tid (exchange_name b) queue rks (n, brk_server b) = ((n1, s1), fs, q)"
    by (metis prod.exhaust)
  note ok = assms(2)[unfolded nb]
  note b = broker_okD[OF system_okD(1)[OF ok]]
  note g = listen_messages_grows[OF b(1) l]
  have "dec_int n \<notin> dom (fview env b)" using fetch_ok_fresh[OF b(2)] by (simp add: domIff)
  with grows_disjoint[OF conjunct2[OF g]] system_okD(2)[OF ok]
  have "dom (lview env s1) \<inter> dom (fview env b) = {}" by (simp add: Int_commute)
  moreover have "nb1 = (n1, b\<lparr>brk_server := s1\<rparr>)"
    using call_listen(1) l nb by (simp add: broker_listen_def)
  ultimately show ?thesis using system_ok_server[OF ok] g by (simp add: grows_def)
next
  case (call_publish tid message rk c b b1 as r n)
  note ok = assms(2)[unfolded call_publish(1)]
  note b = broker_okD[OF system_okD(1)[OF ok]]
  from new_channel_total[OF b(3), of tid] obtain cs bs q where
    q: "new_channel env tid (broker_conns b) = (cs, bs, q)" "connections_ok env cs" "handler_ptr cs = handler_ptr (broker_conns b)"
      "(\<exists>ch. q = Ret ch) \<or> (\<exists>e. q = Raise e)" .
  have "b1 = set_conns cs b"
    using call_publish(3) q(1,4) by (auto simp: publish_message_def Let_def)
  moreover have "listen_ok env (n, (brk_server b)\<lparr>srv_conns := cs\<rparr>)"
    by (rule listen_ok_later[OF b(1) order_refl q(2)]) (simp add: q(3) broker_conns_def)
  moreover have "dom (lview env ((brk_server b)\<lparr>srv_conns := cs\<rparr>)) \<inter> dom (fview env b) = {}"
    using system_okD(2)[OF ok] by (simp add: Int_commute)
  ultimately show ?thesis using system_ok_server[OF ok order_refl] call_publish(2) by (simp add: set_conns_def)
next
  case (fetch_callback b req ev r1 as r n)
  note ok = assms(2)[unfolded fetch_callback(1)]
  have "reg_ok (str_hash env) (brk_fetchers b)" "reg_solo (str_hash env) (brk_fetchers b)"
    using broker_okD(2)[OF system_okD(1)[OF ok]] by (simp_all add: fetch_ok_def)
  from fetch_step_shrinks[OF this fetch_callback(3)] system_ok_requests[OF ok] fetch_callback(2) show ?thesis by simp
next
  case (server_callback tid sev b s1 as r n)
  then show ?thesis using system_ok_served[OF assms(2)[unfolded server_callback(1)] within_server_step server_callback(3)] by simp
next
  case (install_fetch p f b r1 as r n)
  note ok = assms(2)[unfolded install_fetch(1)]
  have "reg_ok (str_hash env) (brk_fetchers b)" "reg_solo (str_hash env) (brk_fetchers b)"
    using broker_okD(2)[OF system_okD(1)[OF ok]] by (simp_all add: fetch_ok_def)
  note r1 = call_ptr_requests[where p = p, OF this]
  from install_fetch(3) obtain m where "call_ptr (Some p) m (brk_fetchers b) = (r1, as, r)"
    unfolding user_installs_def by blast
  with r1[where m = m] have "reg_ok (str_hash env) r1" "reg_solo (str_hash env) r1"
    "dom (reg_view (str_hash env) r1) = dom (fview env b)"
    by simp_all
  with system_ok_requests[OF ok] install_fetch(2) show ?thesis by simp
next
  case (install_listen p f b s1 as r n)
  then show ?thesis using system_ok_served[OF assms(2)[unfolded install_listen(1)] within_installs install_listen(3)] by simp
next
  case (other_broker n m b)
  then show ?thesis using system_ok_later[OF assms(2)[unfolded other_broker(1)]] by simp
qed

lemma system_ok_reaches:
  "(broker_step env thr app)\<^sup>*\<^sup>* nb nb1 \<Longrightarrow> system_ok env nb \<Longrightarrow> system_ok env nb1"
  by (induction rule: rtranclp_induct) (auto intro: system_ok_step)

subsection \<open>Connections that report to nobody\<close>

text \<open>
  Steps other than a successful \<open>listen\<close> of thread \<open>tid\<close>: they leave the connection of that thread
  without an error target.
\<close>

definition other_step ::
  "env \<Rightarrow> 'h fetch_throws \<Rightarrow> 'h app \<Rightarrow> thread_id \<Rightarrow> int \<times> 'h broker \<Rightarrow> int \<times> 'h broker \<Rightarrow> bool" where
  "other_step env thr app tid nb nb1 \<longleftrightarrow>
     broker_step env thr app nb nb1
     \<and> \<not> (\<exists>queue rks as lp. broker_listen env app tid queue rks nb = (nb1, as, Ret lp))"

lemma fetch_message_conns:
  assumes "fetch_message env thr t (n, cs, r) = ((n1, cs1, r1), as, res)"
  shows "cs1 = cs \<or> cs1 = fst (new_channel env t cs)"
proof -
  obtain cs2 bs q where q: "new_channel env t cs = (cs2, bs, q)" by (metis prod.exhaust)
  with assms show ?thesis
    by (auto simp: fetch_message_def split: outcome.splits prod.splits option.splits)
qed

lemma unreported_channel:
  assumes "unreported env tid c s"
  shows "unreported env tid c (s\<lparr>srv_conns := fst (new_channel env t (srv_conns s))\<rparr>)"
proof -
  have "connections_ok env (srv_conns s)" using assms by (simp add: unreported_def server_ok_def)
  from new_channel_total[OF this, of t] obtain cs as r where cs: "new_channel env t (srv_conns s) = (cs, as, r)"
    "connections_ok env cs" "handler_ptr cs = handlers s"
    "thread_conn env cs = (thread_conn env (srv_conns s))(t \<mapsto> the_conn env t (srv_conns s))" .
  from unreported_conns[OF assms cs(2-4)] cs(1) show ?thesis by simp
qed

lemma listen_messages_unreported:
  assumes "listen_ok env (n, s)" and "unreported env tid c s"
    and "listen_messages env app t exchange queue keys (n, s) = ((n1, s1), as, r)"
    and "goes_on r" and "t \<noteq> tid \<or> (\<forall>p. r \<noteq> Ret p)"
  shows "unreported env tid c s1"
proof (cases "n < INT_MAX")
  case False
  with assms(2-4) show ?thesis by (auto simp: listen_messages_def create_unique_id_def)
next
  case True
  let ?h = "str_hash env"
  have ok: "server_ok env s" using assms(1) by (simp add: listen_ok_def)
  from new_channel_total[OF server_okD(1)[OF ok], of t] obtain cs bs q where
    q: "new_channel env t (srv_conns s) = (cs, bs, q)" "connections_ok env cs" "handler_ptr cs = handlers s"
      "(\<exists>ch. q = Ret ch) \<or> (\<exists>e. q = Raise e)"
      "thread_conn env cs = (thread_conn env (srv_conns s))(t \<mapsto> the_conn env t (srv_conns s))" .
  note u = unreported_conns[OF assms(2) q(2,3,5)]
  show ?thesis
  proof (cases q)
    case (Raise e)
    with q(1) assms(3) True u show ?thesis by (auto simp: listen_messages_def create_unique_id_def)
  next
    case (Ret ch)
    have free: "entry_ptr ?h (dec_int n) (srv_listeners s) = None"
      using listen_ok_fresh[OF assms(1)] lview_None[OF ok] by blast
    from counted_set[OF server_okD(2)[OF ok] free, of "mk_listening ch"] obtain l1 where
      l1: "reg_set ?h (dec_int n) (mk_listening ch) (srv_listeners s) = (None, l1)" "counted ?h (handlers s) None l1"
      "cache_live ?h (entries l1) = (cache_live ?h (entries (srv_listeners s)))(dec_int n \<mapsto> next_ptr (srv_listeners s))"
      "objs l1 = (objs (srv_listeners s))(next_ptr (srv_listeners s) \<mapsto> (mk_listening ch, 1))"
      by blast
    define p where "p = next_ptr (srv_listeners s)"
    define s0 where "s0 = s\<lparr>srv_conns := cs, srv_listeners := l1\<rparr>"
    have g: "reg_get ?h (clock env) (dec_int n) l1 = (Some p, l1)"
      by (simp add: reg_get_def ptr_cache.get_law[OF countedD(1)[OF l1(2)]] l1(3) p_def)
    have u0: "unreported env tid c s0"
      using u l1(2) q(3) by (auto simp: unreported_def server_ok_def s0_def)
    have live: "objs (srv_listeners s0) a \<noteq> None" if "Some p = Some a" for a
      using that by (simp add: s0_def l1(4) p_def)
    obtain s2 es w where d: "set_deferred env app t (Some p) s0 = (s2, es, w)" by (metis prod.exhaust)
    have e: "s1 = s2" "(\<exists>u. w = Ret u) \<longleftrightarrow> (\<exists>p. r = Ret p)" "goes_on r \<Longrightarrow> \<exists>u. w = Ret u"
      using assms(3) d by (auto simp: listen_messages_def create_unique_id_def True q(1) Ret on_listeners_def l1(1)
          destroy_opt_def g s0_def split: outcome.splits)
    have "t \<noteq> tid" using assms(4,5) e(2,3) by blast
    moreover have "thread_conn env (srv_conns s0) t = Some (the_conn env t (srv_conns s0))"
      by (simp add: s0_def the_conn_def[of env t cs] q(5))
    moreover have "thread_conn env (srv_conns s0) tid = Some c" "connections_ok env (srv_conns s0)"
      using u0 by (simp_all add: unreported_def server_ok_def)
    ultimately have "the_conn env t (srv_conns s0) \<noteq> c" using connections_okD(3) by metis
    then have "unreported env tid c (fst (set_deferred env app t (Some p) s0))"
      by (intro set_deferred_unreported[OF u0 live]) simp_all
    then show ?thesis by (simp add: d e(1))
  qed (use q(4) in auto)
qed

lemma unreported_step:
  assumes "other_step env thr app tid nb nb1" and "system_ok env nb"
    and "unreported env tid c (brk_server (snd nb))"
  shows "unreported env tid c (brk_server (snd nb1))"
proof -
  have "broker_step env thr app nb nb1" using assms(1) by (simp add: other_step_def)
  then show ?thesis
  proof cases
    case (call_fetch t message rk as r)
    obtain n b where nb: "nb = (n, b)" by (cases nb)
    obtain n1 cs r1 fs q where f: "fetch_message env thr t (n, broker_conns b, brk_fetchers b) = ((n1, cs, r1), fs, q)"
      by (metis prod.exhaust)
    have "brk_server (snd nb1) = (brk_server b)\<lparr>srv_conns := cs\<rparr>"
      using call_fetch(1) f nb by (auto simp: broker_fetch_def set_conns_def)
    with fetch_message_conns[OF f] unreported_channel[OF assms(3)] assms(3) nb show ?thesis
      by (auto simp: broker_conns_def)
  next
    case (call_listen t queue rks as r)
    obtain n b where nb: "nb = (n, b)" by (cases nb)
    obtain n1 s1 fs q where l: "listen_messages env app t (exchange_name b) queue rks (n, brk_server b) = ((n1, s1), fs, q)"
      by (metis prod.exhaust)
    have r: "nb1 = (n1, b\<lparr>brk_server := s1\<rparr>)"
      "r = obind q (\<lambda>p. Ret (\<lparr>lst_id = dec_int n, lst_exchange = exchange_name b, lst_queue = queue\<rparr>, p))"
      using call_listen(1) l nb by (auto simp: broker_listen_def)
    have "goes_on q" using call_listen(2) r(2) by (cases q) auto
    moreover have "t \<noteq> tid \<or> (\<forall>p. q \<noteq> Ret p)"
      using assms(1) call_listen(1) r(2) unfolding other_step_def by fastforce
    moreover have "listen_ok env (n, brk_server b)" using broker_okD(1)[OF system_okD(1)] assms(2) nb by blast
    ultimately show ?thesis using listen_messages_unreported[OF _ _ l] assms(3) nb r(1) by simp
  next
    case (call_publish t message rk x b b1 as r n)
    have "b1 = set_conns (fst (new_channel env t (broker_conns b))) b"
      using call_publish(3) by (auto simp: publish_message_def Let_def split: prod.splits outcome.splits)
    with unreported_channel[OF assms(3)] call_publish(1,2) show ?thesis by (simp add: set_conns_def broker_conns_def)
  next
    case (server_callback t ev b s1 as r n)
    with calmD[OF calm_server_step assms(3), of app t ev] show ?thesis by simp
  next
    case (install_listen p f b s1 as r n)
    have s1: "fst (user_listens p f (brk_server b)) = s1" by (simp add: install_listen(3))
    have "srv_conns s1 = srv_conns (brk_server b)" unfolding s1[symmetric] by (simp add: user_listens_def)
    moreover have "server_ok env s1"
      using withinD[OF within_installs, of env "dom (lview env (brk_server b))" "brk_server b" p f] assms(3) install_listen(1)
      by (simp add: s1 inside_def unreported_def)
    ultimately show ?thesis using assms(3) install_listen(1,2) by (simp add: unreported_def)
  qed (use assms(3) in simp_all)
qed

lemma unreported_later:
  assumes "(other_step env thr app tid)\<^sup>*\<^sup>* nb nb1" and "system_ok env nb"
    and "unreported env tid c (brk_server (snd nb))"
  shows "unreported env tid c (brk_server (snd nb1))"
proof -
  have "system_ok env nb1 \<and> unreported env tid c (brk_server (snd nb1))"
    using assms
    by (induction rule: rtranclp_induct)
      (auto intro: unreported_step system_ok_step simp: other_step_def)
  then show ?thesis ..
qed

subsection \<open>Properties\<close>

text \<open>
  C3: Whatever an application does with a broker, on however many threads, and in whatever order the
  AMQP library runs the callbacks it was given, as long as every step returns or throws (a step that
  ends in undefined behaviour, or ends the process, is followed no further), the broker stays well
  formed: requests and listeners are under ids that were handed out, never the same one; the next id
  is free; two threads never share a connection; a callback of a request that is gone does nothing;
  and every listener is owned exactly by its entry and the connections that report to it, so that
  an error of a connection never meets a freed listener. And from there the next callback is
  undefined behaviour in no other case than these: a reply to a request before any report, and what
  \<open>server_hazard\<close> lists for listeners, replies and connections. Some of these dangling uses do
  happen: \<open>callback_after_failure_undefined\<close>, \<open>double_commit_undefined\<close>, \<open>commit_refused_at_once\<close> and
  \<open>consumer_failure_leaks_listener\<close> give runs that meet them.
\<close>

theorem reachable_broker_well_formed:
  assumes "(broker_step env thr app)\<^sup>*\<^sup>* (1, mk_broker a exchange heartbeat) (n, b)"
  shows "dom (fview env b) \<inter> dom (lview env (brk_server b)) = {}
    \<and> dec_int n \<notin> dom (fview env b) \<union> dom (lview env (brk_server b))
    \<and> (\<forall>t u c. thread_conn env (broker_conns b) t = Some c \<longrightarrow> thread_conn env (broker_conns b) u = Some c \<longrightarrow> t = u)
    \<and> (\<forall>req ev. fview env b (req_id req) = None \<longrightarrow>
         fetch_step env thr (exchange_name b) req ev (brk_fetchers b) = (brk_fetchers b, [], Ret ()))
    \<and> counted (str_hash env) (handlers (brk_server b)) None (srv_listeners (brk_server b))
    \<and> (\<forall>c. conn_objs (broker_conns b) c \<noteq> None \<longrightarrow> snd (snd (onLost app c (brk_server b))) \<noteq> Undefined)
    \<and> (\<forall>req ev. snd (snd (fetch_step env thr (exchange_name b) req ev (brk_fetchers b))) = Undefined \<longrightarrow>
         (\<exists>x buffer j. fview env b (req_id req) = Some x \<and> failed (fetch_deferred x) = None
            \<and> ev = Received buffer \<and> from_msgpack buffer = Inr j))
    \<and> (\<forall>t ev. snd (snd (server_step env app t ev (brk_server b))) = Undefined \<longrightarrow>
         server_hazard env (brk_server b) ev)"
proof -
  note ok = system_ok_reaches[OF assms system_ok_new]
  note b = broker_okD[OF system_okD(1)[OF ok]]
  have r: "reg_ok (str_hash env) (brk_fetchers b)" "reg_solo (str_hash env) (brk_fetchers b)"
    using b(2) by (simp_all add: fetch_ok_def)
  then have "\<forall>req ev. fview env b (req_id req) = None \<longrightarrow>
      fetch_step env thr (exchange_name b) req ev (brk_fetchers b) = (brk_fetchers b, [], Ret ())"
    using fetch_step_absent by blast
  moreover have "\<forall>c. conn_objs (broker_conns b) c \<noteq> None \<longrightarrow> snd (snd (onLost app c (brk_server b))) \<noteq> Undefined"
    using connection_error_defined[OF b(4)] unfolding onLost_def broker_conns_def by blast
  moreover have "dec_int n \<notin> dom (fview env b) \<union> dom (lview env (brk_server b))"
    using listen_ok_fresh[OF b(1)] fetch_ok_fresh[OF b(2)] by (simp add: domIff)
  moreover note fetch_step_undefined[OF r] server_step_undefined[OF b(4)]
  ultimately show ?thesis
    using system_okD(2)[OF ok] connections_okD(3)[OF b(3)] server_okD(2)[OF b(4)] by blast
qed

text \<open>
  C22: The loss of a connection is reported to the listener that is its error target, as
  \<open>CONNECTION_LOST\<close>, until a message of that listener is handled on the thread of the connection.
  From then on nobody is told, though the listener is still there: whatever the application and the
  AMQP library do with the broker afterwards, on any thread and in any order, every error of that
  connection and its loss are reported to nobody, until a further \<open>listen\<close> on that thread succeeds.
\<close>

theorem connection_loss_unreported_after_message:
  assumes "system_ok env (n, b)" and "lview env (brk_server b) (lst_id l) = Some x"
    and "entry_ptr (str_hash env) (lst_id l) (srv_listeners (brk_server b)) = Some p"
    and "error_handler (listen_deferred x) = Some h" and "failed (listen_deferred x) = Some False"
    and "data_handler (listen_deferred x) = Some g"
    and "thread_conn env (broker_conns b) tid = Some c" and "handlers (brk_server b) c = Some p"
    and "from_msgpack (delivery_body d) = Inr j" and "app_throws app = quiet_throws"
  shows "fst (snd (onLost app c (brk_server b))) =
      [Callback (Call_error h (broker_err Broker_CONNECTION_LOST ''connection lost''))]
    \<and> (\<exists>s1 as. listen_step env app tid l (Delivered d) (brk_server b) = (s1, as, Ret ())
      \<and> lview env s1 (lst_id l) = Some x
      \<and> (\<forall>n2 b2 m. (other_step env thr app tid)\<^sup>*\<^sup>* (n, b\<lparr>brk_server := s1\<rparr>) (n2, b2) \<longrightarrow>
           onLost app c (brk_server b2) = (brk_server b2, [], Ret ())
           \<and> onError app c m (brk_server b2) = (brk_server b2, [], Ret ())))"
proof -
  have "server_ok env (brk_server b)" "thread_conn env (srv_conns (brk_server b)) tid = Some c"
    using broker_okD(4)[OF system_okD(1)[OF assms(1)]] assms(7) by (simp_all add: broker_conns_def)
  from delivery_clears_target[OF this(1) assms(2-6) this(2) assms(8-10)] obtain s1 as where
    lost: "fst (snd (onLost app c (brk_server b))) =
      [Callback (Call_error h (broker_err Broker_CONNECTION_LOST ''connection lost''))]"
    and 1: "listen_step env app tid l (Delivered d) (brk_server b) = (s1, as, Ret ())"
    "lview env s1 (lst_id l) = Some x" and u: "unreported env tid c s1"
    unfolding unreported_def by blast
  have "broker_step env thr app (n, b) (n, b\<lparr>brk_server := s1\<rparr>)"
    using 1(1)
    by (intro broker_step.server_callback[where tid = tid and sev = "Listener_event l (Delivered d)" and as = as and r = "Ret ()"])
      simp_all
  note ok = system_ok_step[OF this assms(1)]
  have "unreported env tid c (brk_server b2)"
    if "(other_step env thr app tid)\<^sup>*\<^sup>* (n, b\<lparr>brk_server := s1\<rparr>) (n2, b2)" for n2 b2
    using unreported_later[OF that ok] u by simp
  then show ?thesis
    using lost 1 unfolding onLost_def onError_def by (blast intro: unreported_silent)
qed

text \<open>A broker that listens and then fetches on another thread.\<close>

lemma serving_and_fetching:
  obtains b where "(broker_step sample_env quiet_throws quiet_app)\<^sup>*\<^sup>* (1, mk_broker sample_address ''amq.topic'' default_heartbeat) (3, b)"
    "lview sample_env (brk_server b) (dec_int 1) \<noteq> None" "fview sample_env b (dec_int 2) \<noteq> None"
proof -
  have max: "1 < INT_MAX" "(2 :: int) < INT_MAX" by (simp_all add: INT_MAX_def)
  have q: "channel_throws sample_env c d = None" for c d by (rule sample_broker_facts)
  let ?step = "broker_step sample_env quiet_throws quiet_app"
  from broker_listen_spec[where app = quiet_app and queue = "''q''" and keys = "[''k'']" and tid = 8,
      OF sample_broker_facts(1) max(1) q sample_broker_facts(4)]
  obtain b1 as p where 1: "broker_listen sample_env quiet_app 8 ''q'' [''k''] (1, sample_broker) =
      ((1 + 1, b1), as, Ret (\<lparr>lst_id = dec_int 1, lst_exchange = exchange_name sample_broker, lst_queue = ''q''\<rparr>, p))"
    "broker_ok sample_env (1 + 1, b1)"
    "lview sample_env (brk_server b1) =
      (lview sample_env (brk_server sample_broker))(dec_int 1 \<mapsto> mk_listening (next_chan (broker_conns sample_broker)))" .
  from 1(2) have b1: "broker_ok sample_env (2, b1)" by simp
  from broker_fetch_spec[where thr = quiet_throws and message = sample_json and key = "''k''" and tid = 9, OF b1 max(2) q]
  obtain b2 bs r where 2: "broker_fetch sample_env quiet_throws 9 sample_json ''k'' (2, b1) =
      ((2 + 1, b2), bs, Ret (\<lparr>req_id = dec_int 2, req_message = sample_json, req_key = ''k''\<rparr>, r))"
    "fview sample_env b2 = (fview sample_env b1)(dec_int 2 \<mapsto> mk_fetching (next_chan (broker_conns b1)))"
    "lview sample_env (brk_server b2) = lview sample_env (brk_server b1)" .
  have "?step (1, sample_broker) (2, b1)" by (rule broker_step.call_listen[OF 1(1)[unfolded one_add_one]]) simp
  moreover have "?step (2, b1) (2 + 1, b2)" by (rule broker_step.call_fetch[OF 2(1)]) simp
  ultimately have "?step\<^sup>*\<^sup>* (1, sample_broker) (2 + 1, b2)" by (blast intro: rtranclp.rtrancl_into_rtrancl r_into_rtranclp)
  with 1(3) 2(2,3) show thesis by (intro that[of b2]) (simp_all add: sample_broker_def)
qed

theorem reachable_broker_well_formed_witness:
  "\<exists>b :: nat broker. fview sample_env b (dec_int 2) \<noteq> None \<and> lview sample_env (brk_server b) (dec_int 1) \<noteq> None
     \<and> dom (fview sample_env b) \<inter> dom (lview sample_env (brk_server b)) = {}"
proof (rule serving_and_fetching)
  fix b
  assume "(broker_step sample_env quiet_throws quiet_app)\<^sup>*\<^sup>* (1, mk_broker sample_address ''amq.topic'' default_heartbeat) (3, b)"
    and views: "lview sample_env (brk_server b) (dec_int 1) \<noteq> None" "fview sample_env b (dec_int 2) \<noteq> None"
  from conjunct1[OF reachable_broker_well_formed[OF this(1)]] views show ?thesis by blast
qed

text \<open>The server that listens on thread 9, in its broker.\<close>

definition serving_broker :: "nat broker" where
  "serving_broker = sample_broker\<lparr>brk_server := sample_server\<rparr>"

lemma serving_broker_ok: "system_ok sample_env (2, serving_broker)"
proof -
  have ids: "dom (lview sample_env sample_server) \<subseteq> {dec_int 1}"
  proof -
    have "objs (srv_listeners sample_server0) 0 \<noteq> None"
      using counted_live(1)[OF server_okD(2)[OF sample_server0_facts(1)] sample_server0_facts(3)] by auto
    from with_object_dom[OF this, of sample_env] show ?thesis
      by (simp add: sample_server_def sample_server0_facts(2) dec_int_1)
  qed
  then have "listen_ok sample_env (2, sample_server)"
    using sample_server_facts(1) unfolding listen_ok_def by (force simp: dom_def)
  moreover have "system_ok sample_env (1, sample_broker)" unfolding sample_broker_def by (rule system_ok_new)
  moreover have "fview sample_env sample_broker = (\<lambda>_. None)"
    by (rule ext) (simp add: sample_broker_def mk_broker_def)
  ultimately show ?thesis unfolding serving_broker_def by (intro system_ok_server[of _ 1]) simp_all
qed

theorem connection_loss_unreported_after_message_witness:
  "\<exists>s1. fst (listen_step sample_env quiet_app 9 sample_listener (Delivered sample_delivery) sample_server) = s1
    \<and> fst (snd (onLost quiet_app 0 sample_server)) =
        [Callback (Call_error 3 (broker_err Broker_CONNECTION_LOST ''connection lost''))]
    \<and> (\<forall>n2 b2. (other_step sample_env quiet_throws quiet_app 9)\<^sup>*\<^sup>* (2, serving_broker\<lparr>brk_server := s1\<rparr>) (n2, b2) \<longrightarrow>
         onLost quiet_app 0 (brk_server b2) = (brk_server b2, [], Ret ()))"
proof -
  have s: "brk_server serving_broker = sample_server" by (simp add: serving_broker_def)
  have "from_msgpack (delivery_body sample_delivery) = Inr (canon sample_json)"
    using from_write[OF storable_sample] by (simp add: sample_delivery_def)
  moreover have "thread_conn sample_env (broker_conns serving_broker) 9 = Some 0" "handlers sample_server 0 = Some 0"
    by (simp_all add: broker_conns_def s sample_server_facts(4,5))
  ultimately show ?thesis
    using connection_loss_unreported_after_message[OF serving_broker_ok _ _ sample_listening_facts(3,1,2) _ _ _
        sample_server_facts(11), of sample_listener 0 9 0 sample_delivery "canon sample_json" quiet_throws]
      sample_server_facts(2,3)
    by (auto simp: s)
qed

end
