(* ===== verification/Dotenv.thy ===== *)
theory Dotenv
  imports Expected
begin

section \<open>Reading .env files\<close>

text \<open>
  Models \<open>src/external/dotenv/dotenv.h\<close> (the character containers, the recursive-descent parser and
  the object that keeps the variables) and \<open>get_dotenv\<close> of \<open>src/include/capy/amqp.h\<close>. The stream is the
  text that is left to read and its end-of-file flag; an operation of the parser takes the parser
  and returns it changed, with the exception it threw, if any. The first half translates the
  code; the second gives a reference on plain texts, shows that the parser computes it, and
  rests the properties on it.
\<close>

subsection \<open>Containers of characters\<close>

record container =
  included :: string
  excluded :: string

definition container_default :: container where
  "container_default = \<lparr>included = [], excluded = []\<rparr>"

definition container_of_char :: "char \<Rightarrow> container" where
  "container_of_char c = container_default\<lparr>included := [c]\<rparr>"

definition INCLUDE :: char where
  "INCLUDE = CHR 0x00"

definition EXCLUDE :: char where
  "EXCLUDE = CHR 0x01"

text \<open>The constructor from a list, whose first element is the mode.\<close>

fun container_of_list :: "char list \<Rightarrow> container outcome" where
  "container_of_list [] = Ret container_default"
| "container_of_list (m # cs) =
     (if m = INCLUDE then Ret (container_default\<lparr>included := cs\<rparr>)
      else if m = EXCLUDE then Ret (container_default\<lparr>excluded := cs\<rparr>)
      else Raise (Std_exception []))"

definition or_char :: "container \<Rightarrow> char \<Rightarrow> container" where
  "or_char cont c = cont\<lparr>included := included cont @ [c]\<rparr>"

definition or_container :: "container \<Rightarrow> container \<Rightarrow> container" where
  "or_container cont c = cont\<lparr>included := included cont @ included c, excluded := excluded cont @ excluded c\<rparr>"

definition char_or :: "char \<Rightarrow> container \<Rightarrow> container" where
  "char_or c cont = or_char cont c"

abbreviation CS_C :: char where "CS_C \<equiv> CHR ''#''"
abbreviation EQ_C :: char where "EQ_C \<equiv> CHR ''=''"
abbreviation SP_C :: char where "SP_C \<equiv> CHR '' ''"
abbreviation SQ_C :: char where "SQ_C \<equiv> CHR 0x27"
abbreviation DQ_C :: char where "DQ_C \<equiv> CHR 0x22"
abbreviation TB_C :: char where "TB_C \<equiv> CHR 0x09"
abbreviation NL_C :: char where "NL_C \<equiv> CHR 0x0A"
abbreviation CR_C :: char where "CR_C \<equiv> CHR 0x0D"

definition SP :: container where
  "SP = \<lparr>included = [SP_C, TB_C], excluded = []\<rparr>"

definition UNQUOTED_KEY_CHAR :: container where
  "UNQUOTED_KEY_CHAR = \<lparr>included = [], excluded = [CS_C, EQ_C, SP_C, DQ_C, SQ_C, TB_C, NL_C, CR_C]\<rparr>"

definition UNQUOTED_VALUE_CHAR :: container where
  "UNQUOTED_VALUE_CHAR = \<lparr>included = [], excluded = [CS_C, SP_C, DQ_C, SQ_C, TB_C, NL_C, CR_C]\<rparr>"

definition UNQUOTED_COMMENT_CHAR :: container where
  "UNQUOTED_COMMENT_CHAR = \<lparr>included = [], excluded = [NL_C, CR_C]\<rparr>"

text \<open>They are what the constructor makes of their initialisers.\<close>

lemma container_constants:
  "container_of_list [INCLUDE, SP_C, TB_C] = Ret SP"
  "container_of_list [EXCLUDE, CS_C, EQ_C, SP_C, DQ_C, SQ_C, TB_C, NL_C, CR_C] = Ret UNQUOTED_KEY_CHAR"
  "container_of_list [EXCLUDE, CS_C, SP_C, DQ_C, SQ_C, TB_C, NL_C, CR_C] = Ret UNQUOTED_VALUE_CHAR"
  "container_of_list [EXCLUDE, NL_C, CR_C] = Ret UNQUOTED_COMMENT_CHAR"
  by (simp_all add: INCLUDE_def EXCLUDE_def container_default_def SP_def UNQUOTED_KEY_CHAR_def
      UNQUOTED_VALUE_CHAR_def UNQUOTED_COMMENT_CHAR_def)

subsection \<open>The parser\<close>

text \<open>Which member \<open>binded\<close> points to.\<close>

datatype binding = Key_member | Value_member

record parser =
  token :: char
  row_count :: u32
  col_count :: u32
  bond :: bool
  binded :: "binding option"
  key_member :: string
  value_member :: string
  input_rest :: string
  input_eof :: bool
  env_map :: "string \<rightharpoonup> string"

text \<open>The constructor; it leaves \<open>token\<close>, \<open>row_count\<close> and \<open>col_count\<close> as they are in memory.\<close>

definition mk_parser :: "char \<Rightarrow> u32 \<Rightarrow> u32 \<Rightarrow> string \<Rightarrow> (string \<rightharpoonup> string) \<Rightarrow> parser" where
  "mk_parser c row col is m =
     \<lparr>token = c, row_count = row, col_count = col, bond = False, binded = None, key_member = [],
      value_member = [], input_rest = is, input_eof = False, env_map = m\<rparr>"

type_synonym parse_op = "parser \<Rightarrow> parser \<times> unit outcome"

text \<open>\<open>f; g\<close>\<close>

definition followed :: "parse_op \<Rightarrow> parse_op \<Rightarrow> parse_op" where
  "followed f g p = (case f p of (q, r) \<Rightarrow> (case r of Ret _ \<Rightarrow> g q | _ \<Rightarrow> (q, r)))"

text \<open>\<open>token = is.get()\<close>: past the end it is \<open>EOF\<close> cut to a \<open>char\<close>.\<close>

definition is_get :: "parser \<Rightarrow> parser" where
  "is_get p =
     (case input_rest p of
        [] \<Rightarrow> p\<lparr>token := CHR 0xFF, input_eof := True\<rparr>
      | c # cs \<Rightarrow> p\<lparr>token := c, input_rest := cs\<rparr>)"

definition init :: parse_op where
  "init p = ((is_get p)\<lparr>row_count := 0, col_count := 1\<rparr>, Ret ())"

definition token_is :: "char \<Rightarrow> parser \<Rightarrow> bool" where
  "token_is c p \<longleftrightarrow> token p = c \<and> \<not> input_eof p"

definition token_in :: "container \<Rightarrow> parser \<Rightarrow> bool" where
  "token_in cont p =
     (if input_eof p then False
      else if list_ex (\<lambda>c. token p = c) (included cont) then True
      else if excluded cont = [] then False
      else \<not> list_ex (\<lambda>c. token p = c) (excluded cont))"

definition syntax_text :: "u32 \<Rightarrow> u32 \<Rightarrow> string" where
  "syntax_text row col = ''Syntax error on line '' @ dec_nat (unat row) @ '':'' @ dec_nat (unat col)"

definition syntax_err :: parse_op where
  "syntax_err p = (p, Raise (Std_exception (syntax_text (row_count p) (col_count p))))"

definition append_bound :: "binding \<Rightarrow> char \<Rightarrow> parser \<Rightarrow> parser" where
  "append_bound b c p =
     (case b of
        Key_member \<Rightarrow> p\<lparr>key_member := key_member p @ [c]\<rparr>
      | Value_member \<Rightarrow> p\<lparr>value_member := value_member p @ [c]\<rparr>)"

definition next_token :: parse_op where
  "next_token p =
     (case (bond p, binded p) of
        (True, None) \<Rightarrow> (p, Raise (Std_exception ''something weird happened to this pointer''))
      | (b, m) \<Rightarrow>
          (let q = (case (b, m) of (True, Some x) \<Rightarrow> append_bound x (token p) p | _ \<Rightarrow> p);
               q = is_get q
           in (q\<lparr>col_count := col_count q + 1\<rparr>, Ret ())))"

definition match :: "char \<Rightarrow> parse_op" where
  "match c p = (if token_is c p then next_token p else syntax_err p)"

definition match_in :: "container \<Rightarrow> parse_op" where
  "match_in c p = (if token_in c p then next_token p else syntax_err p)"

definition bind_member :: "binding \<Rightarrow> parse_op" where
  "bind_member b p =
     ((case b of Key_member \<Rightarrow> p\<lparr>key_member := []\<rparr> | Value_member \<Rightarrow> p\<lparr>value_member := []\<rparr>)
        \<lparr>binded := Some b, bond := True\<rparr>, Ret ())"

definition unbind :: parse_op where
  "unbind p = (p\<lparr>binded := None, bond := False\<rparr>, Ret ())"

definition insert_to_map :: parse_op where
  "insert_to_map p =
     (if bond p \<or> binded p \<noteq> None then (p, Raise (Std_exception ''Something weird is happening''))
      else if key_member p = [] then (p, Raise (Std_exception []))
      else (p\<lparr>env_map := (case env_map p (key_member p) of
                              None \<Rightarrow> (env_map p)(key_member p \<mapsto> value_member p)
                            | Some _ \<Rightarrow> env_map p)\<rparr>, Ret ()))"

subsection \<open>Loops\<close>

text \<open>What is left to read, the current token included; every turn of a loop reads some of it.\<close>

definition left :: "parser \<Rightarrow> nat" where
  "left p = (if input_eof p then 0 else Suc (length (input_rest p)))"

lemma is_get_fields [simp]:
  "row_count (is_get p) = row_count p" "col_count (is_get p) = col_count p" "bond (is_get p) = bond p"
  "binded (is_get p) = binded p" "key_member (is_get p) = key_member p"
  "value_member (is_get p) = value_member p" "env_map (is_get p) = env_map p"
  by (simp_all add: is_get_def split: list.split)

lemma left_update [simp]:
  "left (p\<lparr>col_count := c\<rparr>) = left p" "left (p\<lparr>key_member := s\<rparr>) = left p"
  "left (p\<lparr>value_member := s\<rparr>) = left p" "left (p\<lparr>binded := b, bond := d\<rparr>) = left p"
  "left (p\<lparr>row_count := c\<rparr>) = left p" "left (p\<lparr>env_map := m\<rparr>) = left p"
  by (simp_all add: left_def)

lemma left_is_get: "\<not> input_eof p \<Longrightarrow> left (is_get p) < left p" "left (is_get p) \<le> left p"
  by (auto simp: is_get_def left_def split: list.split)

lemma append_bound_frame [simp]:
  "input_eof (append_bound b c p) = input_eof p" "input_rest (append_bound b c p) = input_rest p"
  by (simp_all add: append_bound_def split: binding.split)

lemma left_append [simp]: "left (append_bound b c p) = left p"
  by (simp add: left_def)

lemma left_next: "left (fst (next_token p)) \<le> left p"
  "snd (next_token p) = Ret () \<Longrightarrow> \<not> input_eof p \<Longrightarrow> left (fst (next_token p)) < left p"
proof -
  have a: "left (is_get (append_bound b c p)) \<le> left p" for b c
    using left_is_get(2)[of "append_bound b c p"] by simp
  have b: "left (is_get (append_bound b c p)) < left p" if "\<not> input_eof p" for b c
    using left_is_get(1)[of "append_bound b c p"] that by simp
  show "left (fst (next_token p)) \<le> left p"
    by (simp add: next_token_def Let_def a left_is_get(2) split: option.split bool.split)
  show "left (fst (next_token p)) < left p" if "snd (next_token p) = Ret ()" "\<not> input_eof p"
    using that by (cases "bond p"; cases "binded p") (auto simp: next_token_def Let_def b left_is_get(1))
qed

lemma token_in_eof: "token_in c p \<Longrightarrow> \<not> input_eof p"
  by (simp add: token_in_def split: if_splits)

lemma left_match_in: "left (fst (match_in c p)) \<le> left p"
  "snd (match_in c p) = Ret () \<Longrightarrow> left (fst (match_in c p)) < left p"
  using left_next[of p] token_in_eof[of c p] by (auto simp: match_in_def syntax_err_def split: if_splits)

lemma left_match: "left (fst (match c p)) \<le> left p"
  "snd (match c p) = Ret () \<Longrightarrow> left (fst (match c p)) < left p"
  using left_next[of p] by (auto simp: match_def syntax_err_def token_is_def split: if_splits)

text \<open>\<open>while (token_is(cont)) match(cont)\<close>\<close>

function while_match :: "container \<Rightarrow> parse_op" where
  "while_match c p =
     (if token_in c p then
        (case match_in c p of (q, r) \<Rightarrow> (case r of Ret _ \<Rightarrow> while_match c q | _ \<Rightarrow> (q, r)))
      else (p, Ret ()))"
  by pat_completeness auto
termination while_match
  by (relation "measure (\<lambda>(c, p). left p)") (simp_all, metis fst_conv left_match_in(2) old.unit.exhaust snd_conv)

declare while_match.simps [simp del]

lemma left_while_match: "left (fst (while_match c p)) \<le> left p"
proof (induction c p rule: while_match.induct)
  case (1 c p)
  obtain q r where m: "match_in c p = (q, r)" by (metis prod.exhaust)
  with left_match_in(1)[of c p] have "left q \<le> left p" by simp
  with 1[OF _ m[symmetric]] m show ?case
    by (subst while_match.simps) (fastforce split: outcome.split)
qed

definition UNQUOTED_KEY :: parse_op where
  "UNQUOTED_KEY = followed (match_in UNQUOTED_KEY_CHAR) (while_match UNQUOTED_KEY_CHAR)"

definition UNQUOTED_VALUE :: parse_op where
  "UNQUOTED_VALUE = followed (match_in UNQUOTED_VALUE_CHAR) (while_match UNQUOTED_VALUE_CHAR)"

definition UNQUOTED_COMMENT :: parse_op where
  "UNQUOTED_COMMENT = followed (match_in UNQUOTED_COMMENT_CHAR) (while_match UNQUOTED_COMMENT_CHAR)"

definition STRING :: parse_op where
  "STRING = next_token"

definition NL :: parse_op where
  "NL p = followed (\<lambda>q. if token_is CR_C q then match CR_C q else (q, Ret ())) (match NL_C) p"

definition comment :: parse_op where
  "comment = followed (match CS_C) UNQUOTED_COMMENT"

lemma left_followed:
  assumes "\<And>p. left (fst (f p)) \<le> left p" and "\<And>p. left (fst (g p)) \<le> left p"
  shows "left (fst (followed f g p)) \<le> left p"
  using assms(1)[of p] assms(2)[of "fst (f p)"] by (auto simp: followed_def split: prod.split outcome.split)

lemma left_followed_less:
  assumes "\<And>p. snd (f p) = Ret () \<Longrightarrow> left (fst (f p)) < left p" and "\<And>p. left (fst (g p)) \<le> left p"
    and "snd (followed f g p) = Ret ()"
  shows "left (fst (followed f g p)) < left p"
  using assms(1)[of p] assms(2)[of "fst (f p)"] assms(3)
  by (auto simp: followed_def split: prod.splits outcome.splits)

lemma left_UNQUOTED:
  "snd (UNQUOTED_KEY p) = Ret () \<Longrightarrow> left (fst (UNQUOTED_KEY p)) < left p"
  "snd (UNQUOTED_VALUE p) = Ret () \<Longrightarrow> left (fst (UNQUOTED_VALUE p)) < left p"
  unfolding UNQUOTED_KEY_def UNQUOTED_VALUE_def
  by (erule left_followed_less[rotated 2], rule left_match_in(2), assumption, rule left_while_match)+

text \<open>The loops of \<open>key\<close> and \<open>value\<close>.\<close>

abbreviation key_part :: container where
  "key_part \<equiv> or_char (or_char UNQUOTED_KEY_CHAR DQ_C) SQ_C"

abbreviation value_part :: container where
  "value_part \<equiv> or_char (or_char UNQUOTED_VALUE_CHAR DQ_C) SQ_C"

definition key_piece :: parse_op where
  "key_piece p = (if token_in UNQUOTED_KEY_CHAR p then UNQUOTED_KEY p else STRING p)"

definition value_piece :: parse_op where
  "value_piece p = (if token_in UNQUOTED_VALUE_CHAR p then UNQUOTED_VALUE p else STRING p)"

lemma left_pieces:
  "token_in c p \<Longrightarrow> snd (key_piece p) = Ret () \<Longrightarrow> left (fst (key_piece p)) < left p"
  "token_in c p \<Longrightarrow> snd (value_piece p) = Ret () \<Longrightarrow> left (fst (value_piece p)) < left p"
  using left_UNQUOTED[of p] left_next(2)[of p] token_in_eof[of c p]
  by (auto simp: key_piece_def value_piece_def STRING_def split: if_splits)

function key_loop :: parse_op where
  "key_loop p =
     (if token_in key_part p then
        (case key_piece p of (q, r) \<Rightarrow> (case r of Ret _ \<Rightarrow> key_loop q | _ \<Rightarrow> (q, r)))
      else (p, Ret ()))"
  by pat_completeness auto
termination key_loop
  by (relation "measure left") (simp_all, metis fst_conv left_pieces(1) old.unit.exhaust snd_conv)

function value_loop :: parse_op where
  "value_loop p =
     (if token_in value_part p then
        (case value_piece p of (q, r) \<Rightarrow> (case r of Ret _ \<Rightarrow> value_loop q | _ \<Rightarrow> (q, r)))
      else (p, Ret ()))"
  by pat_completeness auto
termination value_loop
  by (relation "measure left") (simp_all, metis fst_conv left_pieces(2) old.unit.exhaust snd_conv)

declare key_loop.simps [simp del] value_loop.simps [simp del]

definition key :: parse_op where
  "key = followed (bind_member Key_member) (followed key_piece (followed key_loop unbind))"

definition value_op :: parse_op where
  "value_op = followed (bind_member Value_member) (followed value_loop unbind)"

definition line_content :: parse_op where
  "line_content p =
     followed (while_match SP)
       (followed
          (\<lambda>q. if token_in key_part q then
                 followed key (followed (while_match SP) (followed (match EQ_C) (followed (while_match SP)
                   (followed value_op (followed (while_match SP) insert_to_map))))) q
               else (q, Ret ()))
          (\<lambda>q. if token_is CS_C q then comment q else (q, Ret ())))
       (p\<lparr>row_count := row_count p + 1, col_count := 1\<rparr>)"

text \<open>None of them moves backwards.\<close>

named_theorems left_rules \<open>operations of the parser that do not unread\<close>

declare left_followed [left_rules] left_match_in(1) [left_rules] left_match(1) [left_rules]
  left_while_match [left_rules]

lemma left_basic [left_rules]:
  "left (fst (next_token p)) \<le> left p" "left (fst (STRING p)) \<le> left p" "left (fst (syntax_err p)) \<le> left p"
  "left (fst (bind_member b p)) \<le> left p" "left (fst (unbind p)) \<le> left p" "left (fst (insert_to_map p)) \<le> left p"
  using left_next(1)[of p]
  by (simp_all add: STRING_def syntax_err_def bind_member_def unbind_def insert_to_map_def left_def split: binding.split)

lemma left_if [left_rules]:
  assumes "left (fst (f p)) \<le> left p"
  shows "left (fst (if b then f p else (p, Ret ()))) \<le> left p"
  using assms by simp

lemma left_words [left_rules]:
  "left (fst (UNQUOTED_KEY p)) \<le> left p" "left (fst (UNQUOTED_VALUE p)) \<le> left p"
  "left (fst (UNQUOTED_COMMENT p)) \<le> left p" "left (fst (comment p)) \<le> left p"
  unfolding comment_def UNQUOTED_KEY_def UNQUOTED_VALUE_def UNQUOTED_COMMENT_def by (intro left_rules)+

lemma left_key_piece [left_rules]: "left (fst (key_piece p)) \<le> left p" "left (fst (value_piece p)) \<le> left p"
  by (simp_all add: key_piece_def value_piece_def left_rules)

lemma left_key_loop [left_rules]: "left (fst (key_loop p)) \<le> left p"
proof (induction p rule: key_loop.induct)
  case (1 p)
  obtain q r where m: "key_piece p = (q, r)" by (metis prod.exhaust)
  with left_key_piece(1)[of p] have "left q \<le> left p" by simp
  with 1[OF _ m[symmetric]] m show ?case
    by (subst key_loop.simps) (fastforce split: outcome.split)
qed

lemma left_value_loop [left_rules]: "left (fst (value_loop p)) \<le> left p"
proof (induction p rule: value_loop.induct)
  case (1 p)
  obtain q r where m: "value_piece p = (q, r)" by (metis prod.exhaust)
  with left_key_piece(2)[of p] have "left q \<le> left p" by simp
  with 1[OF _ m[symmetric]] m show ?case
    by (subst value_loop.simps) (fastforce split: outcome.split)
qed

lemma left_line_content [left_rules]: "left (fst (line_content p)) \<le> left p"
proof -
  have "left (fst (line_content p)) \<le> left (p\<lparr>row_count := row_count p + 1, col_count := 1\<rparr>)"
    unfolding line_content_def key_def value_op_def by (intro left_rules)
  then show ?thesis by simp
qed

lemma left_NL:
  assumes "snd (NL p) = Ret ()"
  shows "left (fst (NL p)) < left p"
proof -
  obtain q r where f: "(if token_is CR_C p then match CR_C p else (p, Ret ())) = (q, r)" by (metis prod.exhaust)
  then have "left q \<le> left p" using left_match(1)[of CR_C p] by (auto split: if_splits)
  with left_match(2)[of NL_C q] assms f show ?thesis
    by (auto simp: NL_def followed_def split: outcome.splits)
qed

text \<open>The lines of \<open>env\<close> after the first.\<close>

function env_loop :: parse_op where
  "env_loop p =
     (if token_is NL_C p \<or> token_is CR_C p then
        (case NL p of (q, r) \<Rightarrow>
           (case r of
              Ret _ \<Rightarrow>
                (case line_content q of (q1, r1) \<Rightarrow> (case r1 of Ret _ \<Rightarrow> env_loop q1 | _ \<Rightarrow> (q1, r1)))
            | _ \<Rightarrow> (q, r)))
      else (p, Ret ()))"
  by pat_completeness auto
termination env_loop
proof (relation "measure left")
  fix p :: parser and q r x q1 r1 y
  assume "(q, r) = NL p" "r = Ret x" "(q1, r1) = line_content q"
  with left_NL[of p] left_line_content[of q] show "(q1, p) \<in> measure left"
    by (metis fst_conv in_measure le_less_trans old.unit.exhaust snd_conv)
qed simp

declare env_loop.simps [simp del]

definition eof :: parse_op where
  "eof p = (if input_eof p then (p, Ret ()) else syntax_err p)"

definition env_op :: parse_op where
  "env_op = followed init (followed line_content (followed env_loop eof))"

subsection \<open>The variables\<close>

record dotenv =
  config_called :: bool
  env_vars :: "string \<rightharpoonup> string"

definition new_dotenv :: dotenv where
  "new_dotenv = \<lparr>config_called = False, env_vars = Map.empty\<rparr>"

text \<open>\<open>parse(env_file)\<close>, with what the memory of the parser's \<open>token\<close> and counts holds.\<close>

type_synonym memory = "char \<times> u32 \<times> u32"

definition parse_file :: "memory \<Rightarrow> string \<Rightarrow> dotenv \<Rightarrow> dotenv \<times> unit outcome" where
  "parse_file mem text d =
     (case mem of (c, row, col) \<Rightarrow>
        (case env_op (mk_parser c row col text (env_vars d)) of
           (q, r) \<Rightarrow> (d\<lparr>env_vars := env_map q\<rparr>, r)))"

text \<open>\<open>config\<close>; \<open>None\<close> is a file that could not be opened.\<close>

definition config :: "memory \<Rightarrow> string option \<Rightarrow> dotenv \<Rightarrow> dotenv \<times> unit outcome" where
  "config mem file d =
     (case file of
        None \<Rightarrow> (d\<lparr>config_called := True\<rparr>, Ret ())
      | Some text \<Rightarrow>
          (case parse_file mem text d of
             (d1, Ret _) \<Rightarrow> (d1\<lparr>config_called := True\<rparr>, Ret ())
           | (d1, r) \<Rightarrow> (d1, r)))"

text \<open>The exceptions of \<open>operator[]\<close>, and any other.\<close>

datatype lookup_exn = Logic_error string | Out_of_range string | Not_an_exception

definition config_err :: string where
  "config_err = ''config() method must be called first''"

definition dotenv_at :: "dotenv \<Rightarrow> string \<Rightarrow> lookup_exn + string" where
  "dotenv_at d k =
     (if \<not> config_called d then Inl (Logic_error config_err)
      else case env_vars d k of
             Some v \<Rightarrow> Inr v
           | None \<Rightarrow> Inl (Out_of_range (''key '' @ [SQ_C] @ k @ [SQ_C] @ '' not found'')))"

text \<open>\<open>static dotenv& env = dotenv::instance().config()\<close>: what it throws ends the program.\<close>

definition static_env :: "memory \<Rightarrow> string option \<Rightarrow> dotenv outcome" where
  "static_env mem file =
     (case config mem file new_dotenv of
        (d, Ret _) \<Rightarrow> Ret d
      | (d, Undefined) \<Rightarrow> Undefined
      | (d, _) \<Rightarrow> Abort)"

abbreviation lookup_err :: "common_error \<Rightarrow> string \<Rightarrow> error" where
  "lookup_err c w \<equiv> mk_error (make_common_condition c) (Some w)"

definition get_dotenv :: "dotenv \<Rightarrow> string \<Rightarrow> string result outcome" where
  "get_dotenv d variable_name =
     (case dotenv_at d variable_name of
        Inr v \<Rightarrow> expected_of_value v
      | Inl (Out_of_range w) \<Rightarrow> expected_of_unexpected (make_unexpected (lookup_err Common_OUT_OF_RANGE w))
      | Inl (Logic_error w) \<Rightarrow> expected_of_unexpected (make_unexpected (lookup_err Common_NOT_FOUND w))
      | Inl Not_an_exception \<Rightarrow> expected_of_unexpected (make_unexpected (common_err Common_UNKNOWN)))"

subsection \<open>The operations as functions of the text\<close>

text \<open>
  \<open>placed s p\<close> is the parser about to read \<open>s\<close>; \<open>noted w p\<close> has read \<open>w\<close>, and appended it to the member
  that is bound.
\<close>

definition placed :: "string \<Rightarrow> parser \<Rightarrow> parser" where
  "placed s p = p\<lparr>token := (case s of [] \<Rightarrow> CHR 0xFF | c # _ \<Rightarrow> c), input_rest := tl s, input_eof := (s = [])\<rparr>"

definition noted :: "string \<Rightarrow> parser \<Rightarrow> parser" where
  "noted w p =
     (case (bond p, binded p) of
        (True, Some Key_member) \<Rightarrow> p\<lparr>col_count := col_count p + of_nat (length w), key_member := key_member p @ w\<rparr>
      | (True, Some Value_member) \<Rightarrow> p\<lparr>col_count := col_count p + of_nat (length w), value_member := value_member p @ w\<rparr>
      | _ \<Rightarrow> p\<lparr>col_count := col_count p + of_nat (length w)\<rparr>)"

definition coherent :: "parser \<Rightarrow> bool" where
  "coherent p \<longleftrightarrow> (bond p \<longleftrightarrow> binded p \<noteq> None)"

definition admits :: "container \<Rightarrow> char \<Rightarrow> bool" where
  "admits cont c \<longleftrightarrow> c \<in> set (included cont) \<or> excluded cont \<noteq> [] \<and> c \<notin> set (excluded cont)"

lemma placed_fields [simp]:
  "bond (placed s p) = bond p" "binded (placed s p) = binded p" "row_count (placed s p) = row_count p"
  "col_count (placed s p) = col_count p" "key_member (placed s p) = key_member p"
  "value_member (placed s p) = value_member p" "env_map (placed s p) = env_map p"
  "input_eof (placed s p) \<longleftrightarrow> s = []" "coherent (placed s p) = coherent p" "token (placed (c # t) p) = c"
  by (simp_all add: placed_def coherent_def)

lemma noted_fields [simp]:
  "bond (noted w p) = bond p" "binded (noted w p) = binded p" "row_count (noted w p) = row_count p"
  "env_map (noted w p) = env_map p" "col_count (noted w p) = col_count p + of_nat (length w)"
  "coherent (noted w p) = coherent p" "token (noted w p) = token p" "input_eof (noted w p) = input_eof p"
  by (simp_all add: noted_def coherent_def split: bool.split option.split binding.split)

lemma noted_Nil [simp]: "noted [] p = p"
  by (simp add: noted_def split: bool.split option.split binding.split)

lemma noted_noted [simp]: "noted v (noted u p) = noted (u @ v) p"
  by (simp add: noted_def algebra_simps split: bool.split option.split binding.split)

lemma noted_placed: "noted w (placed s p) = placed s (noted w p)"
  by (simp add: noted_def placed_def split: bool.split option.split binding.split)

lemma is_get_placed: "is_get (placed (c # s) p) = placed s p"
  by (simp add: is_get_def placed_def split: list.split)

lemma next_placed:
  "coherent p \<Longrightarrow> next_token (placed (c # s) p) = (placed s (noted [c] p), Ret ())"
  by (cases "binded p")
    (auto simp: coherent_def next_token_def append_bound_def is_get_def placed_def noted_def Let_def
      split: binding.split list.split bool.split option.split)

lemma token_in_placed: "token_in cont (placed s p) \<longleftrightarrow> s \<noteq> [] \<and> admits cont (hd s)"
  by (cases s) (auto simp: token_in_def admits_def list_ex_iff)

lemma token_is_placed: "token_is c (placed s p) \<longleftrightarrow> (case s of [] \<Rightarrow> False | d # _ \<Rightarrow> d = c)"
  by (cases s) (simp_all add: token_is_def)

text \<open>The error at a place.\<close>

lemma syntax_err_eq: "syntax_err p = (p, Raise (Std_exception (syntax_text (row_count p) (col_count p))))"
  by (rule syntax_err_def)

lemma match_placed:
  assumes "coherent p"
  shows "match c (placed s p) =
     (case s of d # t \<Rightarrow> if d = c then (placed t (noted [d] p), Ret ()) else syntax_err (placed s p)
              | [] \<Rightarrow> syntax_err (placed s p))"
  using next_placed[OF assms] by (cases s) (auto simp: match_def token_is_placed)

lemma match_in_placed:
  assumes "coherent p"
  shows "match_in cont (placed s p) =
     (case s of d # t \<Rightarrow> if admits cont d then (placed t (noted [d] p), Ret ()) else syntax_err (placed s p)
              | [] \<Rightarrow> syntax_err (placed s p))"
  using next_placed[OF assms] by (cases s) (auto simp: match_in_def token_in_placed)

lemma while_match_placed:
  "coherent p \<Longrightarrow> while_match cont (placed s p) =
     (placed (dropWhile (admits cont) s) (noted (takeWhile (admits cont) s) p), Ret ())"
proof (induction s arbitrary: p)
  case Nil
  then show ?case by (subst while_match.simps) (simp add: token_in_placed)
next
  case (Cons c s)
  then show ?case
    by (subst while_match.simps) (simp add: token_in_placed match_in_placed)
qed

text \<open>One or more characters, and the loops of \<open>key\<close> and \<open>value\<close>.\<close>

lemma word_placed:
  assumes "coherent p" and "s \<noteq> []" and "admits cont (hd s)"
  shows "followed (match_in cont) (while_match cont) (placed s p) =
    (placed (dropWhile (admits cont) s) (noted (takeWhile (admits cont) s) p), Ret ())"
  using assms by (cases s) (simp_all add: followed_def match_in_placed while_match_placed)

lemma admits_or_char: "admits (or_char cont c) d \<longleftrightarrow> admits cont d \<or> d = c"
  by (auto simp: admits_def or_char_def)

lemma takeWhile_widen:
  assumes "\<And>c. P c \<Longrightarrow> Q c"
  shows "takeWhile Q s = takeWhile P s @ takeWhile Q (dropWhile P s)"
    and "dropWhile Q s = dropWhile Q (dropWhile P s)"
  using assms by (induction s) auto

lemma length_dropWhile_hd: "s \<noteq> [] \<Longrightarrow> P (hd s) \<Longrightarrow> length (dropWhile P s) < length s"
  by (cases s) (simp_all add: le_imp_less_Suc length_dropWhile_le)

text \<open>What the two loops share: a turn reads a quote, or all the plain characters ahead.\<close>

locale word_loop =
  fixes plain :: container and piece loop :: parse_op
  assumes piece_law: "piece p =
      (if token_in plain p then followed (match_in plain) (while_match plain) p else next_token p)"
    and loop_law: "loop p =
      (if token_in (or_char (or_char plain DQ_C) SQ_C) p then
         (case piece p of (q, r) \<Rightarrow> (case r of Ret _ \<Rightarrow> loop q | _ \<Rightarrow> (q, r)))
       else (p, Ret ()))"
begin

abbreviation part :: "char \<Rightarrow> bool" where
  "part \<equiv> admits (or_char (or_char plain DQ_C) SQ_C)"

lemma piece_plain:
  assumes "coherent p" and "s \<noteq> []" and "admits plain (hd s)"
  shows "piece (placed s p) = (placed (dropWhile (admits plain) s) (noted (takeWhile (admits plain) s) p), Ret ())"
  using word_placed[OF assms] assms(2,3) by (simp add: piece_law token_in_placed)

lemma piece_quote:
  assumes "coherent p" and "\<not> admits plain c"
  shows "piece (placed (c # s) p) = (placed s (noted [c] p), Ret ())"
  using next_placed[OF assms(1)] assms(2) by (simp add: piece_law token_in_placed)

lemma loop_end: "s = [] \<or> \<not> part (hd s) \<Longrightarrow> loop (placed s p) = (placed s p, Ret ())"
  by (subst loop_law) (auto simp: token_in_placed)

lemma loop_turn:
  assumes "s \<noteq> []" and "part (hd s)" and "piece (placed s p) = (q, Ret ())"
  shows "loop (placed s p) = loop q"
  using assms by (subst loop_law) (simp add: token_in_placed)

lemma loop_placed:
  "coherent p \<Longrightarrow> loop (placed s p) = (placed (dropWhile part s) (noted (takeWhile part s) p), Ret ())"
proof (induction s arbitrary: p rule: length_induct)
  case (1 s)
  have w: "part c" if "admits plain c" for c using that by (simp add: admits_or_char)
  consider "s = [] \<or> \<not> part (hd s)" | "s \<noteq> []" "admits plain (hd s)"
    | "s \<noteq> []" "part (hd s)" "\<not> admits plain (hd s)" by blast
  then show ?case
  proof cases
    case 1
    then show ?thesis by (cases s) (auto simp: loop_end)
  next
    case 2
    let ?t = "dropWhile (admits plain) s" and ?u = "takeWhile (admits plain) s"
    have "loop (placed s p) = loop (placed ?t (noted ?u p))"
      by (rule loop_turn[OF 2(1) w[OF 2(2)] piece_plain[OF 1(2) 2]])
    then show ?thesis
      using 1 length_dropWhile_hd[of s "admits plain", OF 2] takeWhile_widen[of "admits plain" part s, OF w] by simp
  next
    case 3
    then obtain c t where s: "s = c # t" by (cases s) auto
    have "loop (placed s p) = loop (placed t (noted [c] p))"
      by (rule loop_turn[OF 3(1,2)]) (use piece_quote[OF 1(2), of c t] 3(3) in \<open>simp add: s\<close>)
    then show ?thesis using 1 3(2) s by simp
  qed
qed

end

interpretation key_word: word_loop UNQUOTED_KEY_CHAR key_piece key_loop
  by unfold_locales (simp_all add: key_piece_def UNQUOTED_KEY_def STRING_def key_loop.simps)

interpretation value_word: word_loop UNQUOTED_VALUE_CHAR value_piece value_loop
  by unfold_locales (simp_all add: value_piece_def UNQUOTED_VALUE_def STRING_def value_loop.simps)


subsection \<open>The reference: a file as a text\<close>

definition blank :: "char \<Rightarrow> bool" where
  "blank c \<longleftrightarrow> c \<in> {SP_C, TB_C}"

definition key_char :: "char \<Rightarrow> bool" where
  "key_char c \<longleftrightarrow> c \<notin> {CS_C, EQ_C, SP_C, TB_C, NL_C, CR_C}"

definition value_char :: "char \<Rightarrow> bool" where
  "value_char c \<longleftrightarrow> c \<notin> {CS_C, SP_C, TB_C, NL_C, CR_C}"

definition comment_char :: "char \<Rightarrow> bool" where
  "comment_char c \<longleftrightarrow> c \<notin> {NL_C, CR_C}"

text \<open>
  What a line binds, and where it ends: at a rest that goes on (\<open>Inr\<close>), or at a character it cannot
  go on with (\<open>Inl\<close>).
\<close>

definition ref_comment :: "string \<Rightarrow> string + string" where
  "ref_comment s =
     (case s of
        [] \<Rightarrow> Inr []
      | c # t \<Rightarrow>
          if c \<noteq> CS_C then Inr s
          else if t \<noteq> [] \<and> comment_char (hd t) then Inr (dropWhile comment_char t) else Inl t)"

definition ref_line :: "string \<Rightarrow> (string \<times> string) list \<times> (string + string)" where
  "ref_line s =
     (let s1 = dropWhile blank s in
      if s1 \<noteq> [] \<and> key_char (hd s1) then
        (case dropWhile blank (dropWhile key_char s1) of
           [] \<Rightarrow> ([], Inl [])
         | c # t \<Rightarrow>
             if c \<noteq> EQ_C then ([], Inl (c # t))
             else let t1 = dropWhile blank t in
               ([(takeWhile key_char s1, takeWhile value_char t1)],
                ref_comment (dropWhile blank (dropWhile value_char t1))))
      else ([], ref_comment s1))"

text \<open>The end of a line: \<open>None\<close> at the end of the text.\<close>

fun line_break :: "string \<Rightarrow> (string + string) option" where
  "line_break [] = None"
| "line_break (c # t) =
     (if c = NL_C then Some (Inr t)
      else if c = CR_C then Some (case t of d # u \<Rightarrow> (if d = NL_C then Inr u else Inl t) | [] \<Rightarrow> Inl t)
      else Some (Inl (c # t)))"

lemma length_dropWhile_trans: "length s \<le> n \<Longrightarrow> length (dropWhile P s) \<le> n"
  using length_dropWhile_le[of P s] by linarith

lemma ref_comment_length: "length (case ref_comment s of Inl u \<Rightarrow> u | Inr u \<Rightarrow> u) \<le> length s"
  by (auto simp: ref_comment_def length_dropWhile_le le_SucI split: list.split)

lemma ref_line_length: "length (case snd (ref_line s) of Inl u \<Rightarrow> u | Inr u \<Rightarrow> u) \<le> length s"
proof (cases "dropWhile blank s \<noteq> [] \<and> key_char (hd (dropWhile blank s))")
  case False
  with ref_comment_length[of "dropWhile blank s"] length_dropWhile_le[of blank s] show ?thesis
    by (auto simp: ref_line_def Let_def)
next
  case True
  let ?w = "dropWhile blank (dropWhile key_char (dropWhile blank s))"
  have w: "length ?w \<le> length s" by (intro length_dropWhile_trans order_refl)
  show ?thesis
  proof (cases "\<exists>t. ?w = EQ_C # t")
    case False
    then have "snd (ref_line s) = Inl ?w" using True
      by (auto simp: ref_line_def Let_def simp del: dropWhile_eq_Nil_conv split: list.split)
    with w show ?thesis by simp
  next
    case t: True
    then obtain t where t: "?w = EQ_C # t" by blast
    let ?v = "dropWhile blank (dropWhile value_char (dropWhile blank t))"
    have "snd (ref_line s) = ref_comment ?v" using t True by (simp add: ref_line_def Let_def)
    moreover have "length ?v \<le> length t" by (intro length_dropWhile_trans order_refl)
    ultimately show ?thesis using ref_comment_length[of ?v] w t by simp
  qed
qed

lemma line_break_length: "line_break s = Some (Inr u) \<Longrightarrow> length u < length s"
  by (cases s) (auto split: if_splits list.splits)

text \<open>
  The variables a text binds, in order, and where it is refused, if it is: the number of the line,
  and one more than the characters of the line before the refused one.
\<close>

function ref_lines :: "nat \<Rightarrow> string \<Rightarrow> (string \<times> string) list \<times> (nat \<times> nat) option" where
  "ref_lines n s =
     (case ref_line s of
        (es, Inl u) \<Rightarrow> (es, Some (n, length s - length u + 1))
      | (es, Inr u) \<Rightarrow>
          (case line_break u of
             None \<Rightarrow> (es, None)
           | Some (Inl w) \<Rightarrow> (es, Some (n, length s - length w + 1))
           | Some (Inr t) \<Rightarrow> (case ref_lines (n + 1) t of (fs, e) \<Rightarrow> (es @ fs, e))))"
  by pat_completeness auto
termination ref_lines
proof (relation "measure (\<lambda>(n, s). length s)")
  fix n s and es :: "(string \<times> string) list" and z u y t
  assume "(es, z) = ref_line s" "z = Inr u" "line_break u = Some y" "y = Inr t"
  with ref_line_length[of s] line_break_length[of u t]
  show "((n + 1, t), (n, s)) \<in> measure (\<lambda>(n, s). length s)" by (cases "ref_line s") simp
qed simp

declare ref_lines.simps [simp del]

subsection \<open>The parser computes the reference\<close>

lemma admits_constants:
  "admits SP = blank" "admits key_part = key_char" "admits value_part = value_char"
  "admits UNQUOTED_COMMENT_CHAR = comment_char"
  by (auto simp: fun_eq_iff or_char_def admits_def SP_def UNQUOTED_KEY_CHAR_def UNQUOTED_VALUE_CHAR_def
      UNQUOTED_COMMENT_CHAR_def blank_def key_char_def value_char_def comment_char_def)

text \<open>From \<open>p\<close> at \<open>s\<close> to \<open>q\<close> at \<open>u\<close> nothing but the column changed, by the characters between them.\<close>

definition goes :: "parser \<Rightarrow> string \<Rightarrow> parser \<Rightarrow> string \<Rightarrow> bool" where
  "goes p s q u \<longleftrightarrow>
     bond q = False \<and> binded q = None \<and> row_count q = row_count p \<and> env_map q = env_map p
     \<and> col_count q + of_nat (length u) = col_count p + of_nat (length s)"

definition idle :: "parser \<Rightarrow> bool" where
  "idle p \<longleftrightarrow> bond p = False \<and> binded p = None"

lemma idle_coherent: "idle p \<Longrightarrow> coherent p"
  by (simp add: idle_def coherent_def)

lemma goes_idle: "goes p s q u \<Longrightarrow> idle q"
  by (simp add: goes_def idle_def)

lemma goes_refl: "idle p \<Longrightarrow> goes p s p s"
  by (simp add: goes_def idle_def)

lemma goes_trans: "goes p s q u \<Longrightarrow> goes q u r v \<Longrightarrow> goes p s r v"
  by (simp add: goes_def)

lemma noted_idle: "idle p \<Longrightarrow> noted w p = p\<lparr>col_count := col_count p + of_nat (length w)\<rparr>"
  by (simp add: idle_def noted_def)

lemma split_length: "of_nat (length (takeWhile P s)) + of_nat (length (dropWhile P s)) = (of_nat (length s) :: u32)"
  by (metis length_append of_nat_add takeWhile_dropWhile_id)

lemma skip_blanks:
  assumes "idle p"
  obtains q where "while_match SP (placed s p) = (placed (dropWhile blank s) q, Ret ())"
    "goes p s q (dropWhile blank s)" "key_member q = key_member p" "value_member q = value_member p"
proof (rule that)
  let ?q = "p\<lparr>col_count := col_count p + of_nat (length (takeWhile blank s))\<rparr>"
  show "while_match SP (placed s p) = (placed (dropWhile blank s) ?q, Ret ())"
    by (simp add: while_match_placed[OF idle_coherent[OF assms]] admits_constants noted_idle[OF assms])
  show "goes p s ?q (dropWhile blank s)"
    using assms by (simp add: goes_def idle_def add.assoc split_length)
qed simp_all

lemma match_goes:
  assumes "idle p"
  obtains q where "match c (placed (c # s) p) = (placed s q, Ret ())" "goes p (c # s) q s"
    "key_member q = key_member p" "value_member q = value_member p"
proof (rule that)
  let ?q = "p\<lparr>col_count := col_count p + 1\<rparr>"
  show "match c (placed (c # s) p) = (placed s ?q, Ret ())"
    by (simp add: match_placed[OF idle_coherent[OF assms]] noted_idle[OF assms])
  show "goes p (c # s) ?q s" using assms by (simp add: goes_def idle_def)
qed simp_all

lemma match_refused:
  assumes "idle p" and "s = [] \<or> hd s \<noteq> c"
  shows "match c (placed s p) = syntax_err (placed s p)"
  using assms(2) by (cases s) (auto simp: match_placed[OF idle_coherent[OF assms(1)]])

lemma bind_placed: "bind_member b (placed s p) = (placed s (fst (bind_member b p)), Ret ())"
  by (simp add: bind_member_def placed_def split: binding.split)

lemma unbind_placed: "unbind (placed s p) = (placed s (fst (unbind p)), Ret ())"
  by (simp add: unbind_def placed_def)

lemma bind_coherent: "coherent (fst (bind_member b p))"
  by (simp add: bind_member_def coherent_def)

lemma followed_Ret: "f p = (q, Ret u) \<Longrightarrow> followed f g p = g q"
  by (simp add: followed_def)

lemma followed_stop: "f p = (q, r) \<Longrightarrow> r \<noteq> Ret () \<Longrightarrow> followed f g p = (q, r)"
  by (cases r) (simp_all add: followed_def)

text \<open>\<open>key\<close> and \<open>value\<close> leave the characters they take in their member.\<close>

lemma key_goes:
  assumes "idle p" and "s \<noteq> []" and "key_char (hd s)"
  obtains q where "key (placed s p) = (placed (dropWhile key_char s) q, Ret ())"
    "goes p s q (dropWhile key_char s)" "key_member q = takeWhile key_char s" "value_member q = value_member p"
proof (rule that)
  let ?p = "fst (bind_member Key_member p)"
  let ?n = "noted (takeWhile key_char s) ?p"
  have part: "key_word.part = key_char" by (rule admits_constants(2))
  have "\<exists>r. key_piece (placed s ?p) = (r, Ret ())"
    using key_word.piece_plain[OF bind_coherent assms(2)] key_word.piece_quote[OF bind_coherent, of "hd s" "tl s"] assms(2)
    by (cases "admits UNQUOTED_KEY_CHAR (hd s)") auto
  then obtain r where r: "key_piece (placed s ?p) = (r, Ret ())" by blast
  have "key_loop r = key_loop (placed s ?p)"
    using key_word.loop_turn[OF assms(2) _ r] assms(3) part by simp
  also have "\<dots> = (placed (dropWhile key_char s) ?n, Ret ())"
    using key_word.loop_placed[OF bind_coherent] part by simp
  finally show "key (placed s p) = (placed (dropWhile key_char s) (fst (unbind ?n)), Ret ())"
    by (simp add: key_def followed_def bind_placed r unbind_placed)
  show "goes p s (fst (unbind ?n)) (dropWhile key_char s)"
    by (simp add: goes_def unbind_def noted_def bind_member_def add.assoc split_length)
  show "key_member (fst (unbind ?n)) = takeWhile key_char s" "value_member (fst (unbind ?n)) = value_member p"
    by (simp_all add: unbind_def noted_def bind_member_def)
qed

lemma value_goes:
  assumes "idle p"
  obtains q where "value_op (placed s p) = (placed (dropWhile value_char s) q, Ret ())"
    "goes p s q (dropWhile value_char s)" "value_member q = takeWhile value_char s" "key_member q = key_member p"
proof (rule that)
  let ?p = "fst (bind_member Value_member p)"
  let ?n = "noted (takeWhile value_char s) ?p"
  have "value_loop (placed s ?p) = (placed (dropWhile value_char s) ?n, Ret ())"
    using value_word.loop_placed[OF bind_coherent] admits_constants(3) by simp
  then show "value_op (placed s p) = (placed (dropWhile value_char s) (fst (unbind ?n)), Ret ())"
    by (simp add: value_op_def followed_def bind_placed unbind_placed)
  show "goes p s (fst (unbind ?n)) (dropWhile value_char s)"
    by (simp add: goes_def unbind_def noted_def bind_member_def add.assoc split_length)
  show "value_member (fst (unbind ?n)) = takeWhile value_char s" "key_member (fst (unbind ?n)) = key_member p"
    by (simp_all add: unbind_def noted_def bind_member_def)
qed

lemma insert_placed:
  assumes "idle p" and "key_member p \<noteq> []"
  shows "insert_to_map (placed s p) =
    (placed s (p\<lparr>env_map := [key_member p \<mapsto> value_member p] ++ env_map p\<rparr>), Ret ())"
  using assms
  by (auto simp: insert_to_map_def idle_def placed_def map_add_def fun_eq_iff split: option.split)

text \<open>A comment, or none.\<close>

definition stops :: "parser \<Rightarrow> string \<Rightarrow> string + string \<Rightarrow> parser \<times> unit outcome \<Rightarrow> bool" where
  "stops p s x res \<longleftrightarrow>
     (\<exists>q. goes p s q (case x of Inl u \<Rightarrow> u | Inr u \<Rightarrow> u)
        \<and> res = (case x of Inl u \<Rightarrow> syntax_err (placed u q) | Inr u \<Rightarrow> (placed u q, Ret ())))"

lemma stopsI:
  "goes p s q u \<Longrightarrow> stops p s (Inr u) (placed u q, Ret ())"
  "goes p s q u \<Longrightarrow> stops p s (Inl u) (syntax_err (placed u q))"
  by (auto simp: stops_def)

lemma stops_trans: "goes p s q u \<Longrightarrow> stops q u x res \<Longrightarrow> stops p s x res"
  unfolding stops_def by (blast intro: goes_trans)

lemma comment_stops:
  assumes "idle p"
  shows "stops p s (ref_comment s) ((\<lambda>q. if token_is CS_C q then comment q else (q, Ret ())) (placed s p))"
proof (cases "\<exists>t. s = CS_C # t")
  case False
  then have "ref_comment s = Inr s" "\<not> token_is CS_C (placed s p)"
    by (auto simp: ref_comment_def token_is_placed split: list.split)
  then show ?thesis using stopsI(1)[OF goes_refl[OF assms]] by simp
next
  case True
  then obtain t where s: "s = CS_C # t" by blast
  from match_goes[OF assms, of CS_C t] obtain q where
    q: "match CS_C (placed (CS_C # t) p) = (placed t q, Ret ())" "goes p (CS_C # t) q t" by blast
  note i = goes_idle[OF q(2)]
  have u: "comment (placed s p) = UNQUOTED_COMMENT (placed t q)"
    by (simp add: comment_def s followed_def q(1))
  show ?thesis
  proof (cases "t \<noteq> [] \<and> comment_char (hd t)")
    case c: True
    let ?q = "q\<lparr>col_count := col_count q + of_nat (length (takeWhile comment_char t))\<rparr>"
    have "UNQUOTED_COMMENT (placed t q) = (placed (dropWhile comment_char t) ?q, Ret ())"
      using word_placed[OF idle_coherent[OF i], of t UNQUOTED_COMMENT_CHAR] c
      by (simp add: UNQUOTED_COMMENT_def admits_constants noted_idle[OF i])
    moreover have "goes q t ?q (dropWhile comment_char t)"
      using i by (simp add: goes_def idle_def add.assoc split_length)
    ultimately show ?thesis
      using stopsI(1)[OF goes_trans[OF q(2)]] c u by (simp add: s ref_comment_def token_is_placed)
  next
    case c: False
    have "match_in UNQUOTED_COMMENT_CHAR (placed t q) = syntax_err (placed t q)"
      using c by (cases t) (simp_all add: match_in_placed[OF idle_coherent[OF i]] admits_constants)
    then have "UNQUOTED_COMMENT (placed t q) = syntax_err (placed t q)"
      by (simp add: UNQUOTED_COMMENT_def followed_def syntax_err_eq)
    then show ?thesis
      using stopsI(2)[OF q(2)] c u by (auto simp: s ref_comment_def token_is_placed)
  qed
qed

definition new_line :: "parser \<Rightarrow> parser" where
  "new_line p = p\<lparr>row_count := row_count p + 1, col_count := 1\<rparr>"

definition binds :: "(string \<times> string) list \<Rightarrow> parser \<Rightarrow> parser" where
  "binds es p = p\<lparr>env_map := map_of es ++ env_map p\<rparr>"

lemma binds_Nil [simp]: "binds [] p = p"
  by (simp add: binds_def)

lemma goes_binds: "goes p s q u \<Longrightarrow> goes (binds es p) s (binds es q) u"
  by (simp add: goes_def binds_def)

lemma idle_new_line [simp]: "idle (new_line p) = idle p"
  by (simp add: idle_def new_line_def)

definition entry :: parse_op where
  "entry = followed key (followed (while_match SP) (followed (match EQ_C) (followed (while_match SP)
     (followed value_op (followed (while_match SP) insert_to_map)))))"

lemma line_content_placed:
  "line_content (placed s p) =
     followed (while_match SP)
       (followed (\<lambda>q. if token_in key_part q then entry q else (q, Ret ()))
          (\<lambda>q. if token_is CS_C q then comment q else (q, Ret ()))) (placed s (new_line p))"
proof -
  have e: "(placed s p)\<lparr>row_count := row_count (placed s p) + 1, col_count := 1\<rparr> = placed s (new_line p)"
    by (cases p) (simp add: new_line_def placed_def)
  show ?thesis unfolding line_content_def e entry_def by (rule refl)
qed

text \<open>A whole binding, and one that stops where the equals sign should be.\<close>

lemma entry_goes:
  assumes "idle p" and "s \<noteq> []" and "key_char (hd s)"
    and "dropWhile blank (dropWhile key_char s) = EQ_C # t"
  obtains q where
    "entry (placed s p) = (placed (dropWhile blank (dropWhile value_char (dropWhile blank t)))
       (binds [(takeWhile key_char s, takeWhile value_char (dropWhile blank t))] q), Ret ())"
    "goes p s q (dropWhile blank (dropWhile value_char (dropWhile blank t)))"
proof -
  from key_goes[OF assms(1-3)] obtain q1 where
    1: "key (placed s p) = (placed (dropWhile key_char s) q1, Ret ())" "goes p s q1 (dropWhile key_char s)"
    "key_member q1 = takeWhile key_char s" "value_member q1 = value_member p" .
  from skip_blanks[OF goes_idle[OF 1(2)], of "dropWhile key_char s", unfolded assms(4)] obtain q2 where
    2: "while_match SP (placed (dropWhile key_char s) q1) = (placed (EQ_C # t) q2, Ret ())"
    "goes q1 (dropWhile key_char s) q2 (EQ_C # t)" "key_member q2 = key_member q1" .
  from match_goes[OF goes_idle[OF 2(2)]] obtain q3 where
    3: "match EQ_C (placed (EQ_C # t) q2) = (placed t q3, Ret ())" "goes q2 (EQ_C # t) q3 t"
    "key_member q3 = key_member q2" by blast
  from skip_blanks[OF goes_idle[OF 3(2)]] obtain q4 where
    4: "while_match SP (placed t q3) = (placed (dropWhile blank t) q4, Ret ())" "goes q3 t q4 (dropWhile blank t)"
    "key_member q4 = key_member q3" by blast
  let ?v = "dropWhile blank t"
  from value_goes[OF goes_idle[OF 4(2)]] obtain q5 where
    5: "value_op (placed ?v q4) = (placed (dropWhile value_char ?v) q5, Ret ())"
    "goes q4 ?v q5 (dropWhile value_char ?v)" "value_member q5 = takeWhile value_char ?v" "key_member q5 = key_member q4"
    by blast
  from skip_blanks[OF goes_idle[OF 5(2)]] obtain q6 where
    6: "while_match SP (placed (dropWhile value_char ?v) q5) = (placed (dropWhile blank (dropWhile value_char ?v)) q6, Ret ())"
    "goes q5 (dropWhile value_char ?v) q6 (dropWhile blank (dropWhile value_char ?v))" "key_member q6 = key_member q5"
    "value_member q6 = value_member q5" by blast
  have k: "key_member q6 = takeWhile key_char s" "value_member q6 = takeWhile value_char ?v"
    using 1 2 3 4 5 6 by simp_all
  have "takeWhile key_char s \<noteq> []" using assms(2,3) by (cases s) simp_all
  with insert_placed[OF goes_idle[OF 6(2)]] k have
    "entry (placed s p) = (placed (dropWhile blank (dropWhile value_char ?v))
       (binds [(takeWhile key_char s, takeWhile value_char ?v)] q6), Ret ())"
    by (simp add: entry_def followed_def 1(1) 2(1) 3(1) 4(1) 5(1) 6(1) binds_def)
  moreover have "goes p s q6 (dropWhile blank (dropWhile value_char ?v))"
    by (rule goes_trans[OF 1(2) goes_trans[OF 2(2) goes_trans[OF 3(2) goes_trans[OF 4(2) goes_trans[OF 5(2) 6(2)]]]]])
  ultimately show thesis by (rule that)
qed

lemma entry_stops:
  assumes "idle p" and "s \<noteq> []" and "key_char (hd s)"
    and "dropWhile blank (dropWhile key_char s) = u" and "u = [] \<or> hd u \<noteq> EQ_C"
  shows "stops p s (Inl u) (entry (placed s p))"
proof -
  from key_goes[OF assms(1-3)] obtain q1 where
    1: "key (placed s p) = (placed (dropWhile key_char s) q1, Ret ())" "goes p s q1 (dropWhile key_char s)" by blast
  from skip_blanks[OF goes_idle[OF 1(2)], of "dropWhile key_char s", unfolded assms(4)] obtain q2 where
    2: "while_match SP (placed (dropWhile key_char s) q1) = (placed u q2, Ret ())"
    "goes q1 (dropWhile key_char s) q2 u" by blast
  have "entry (placed s p) = syntax_err (placed u q2)"
    using match_refused[OF goes_idle[OF 2(2)] assms(5)]
    by (simp add: entry_def followed_def 1(1) 2(1) syntax_err_eq)
  with stopsI(2)[OF goes_trans[OF 1(2) 2(2)]] show ?thesis by simp
qed

lemma followed_stops_Inl:
  "stops p s (Inl u) (f x) \<Longrightarrow> stops p s (Inl u) (followed f g x)"
  by (auto simp: stops_def syntax_err_eq followed_def)

lemma line_content_stops:
  assumes "idle p" and "ref_line s = (es, x)"
  shows "stops (binds es (new_line p)) s x (line_content (placed s p))"
proof -
  from assms(1) have "idle (new_line p)" by simp
  from skip_blanks[OF this, of s] obtain q where
    q: "while_match SP (placed s (new_line p)) = (placed (dropWhile blank s) q, Ret ())"
    "goes (new_line p) s q (dropWhile blank s)" by blast
  note i = goes_idle[OF q(2)]
  let ?s = "dropWhile blank s"
  let ?c = "\<lambda>q. if token_is CS_C q then comment q else (q, Ret ())"
  let ?f = "\<lambda>q. if token_in key_part q then entry q else (q, Ret ())"
  have l: "line_content (placed s p) = followed ?f ?c (placed ?s q)"
    by (simp add: line_content_placed followed_def[of "while_match SP"] q(1))
  show ?thesis
  proof (cases "?s \<noteq> [] \<and> key_char (hd ?s)")
    case False
    then have f: "?f (placed ?s q) = (placed ?s q, Ret ())" by (auto simp: token_in_placed admits_constants)
    have "es = []" "x = ref_comment ?s" using assms(2) False by (auto simp: ref_line_def Let_def)
    with comment_stops[OF i, of ?s] f l show ?thesis
      using stops_trans[OF q(2)] by (simp add: followed_def[of ?f])
  next
    case True
    then have f: "?f (placed ?s q) = entry (placed ?s q)" by (simp add: token_in_placed admits_constants)
    let ?u = "dropWhile blank (dropWhile key_char ?s)"
    show ?thesis
    proof (cases "\<exists>t. ?u = EQ_C # t")
      case False
      then have "es = []" "x = Inl ?u" using assms(2) True
        by (auto simp: ref_line_def Let_def simp del: dropWhile_eq_Nil_conv split: list.splits)
      moreover have "?u = [] \<or> hd ?u \<noteq> EQ_C" using False by (cases ?u) auto
      ultimately show ?thesis
        using stops_trans[OF q(2) followed_stops_Inl[of q ?s ?u ?f "placed ?s q" ?c]] entry_stops[OF i _ _ refl, of ?s] True f l
        by simp
    next
      case t: True
      then obtain t where t: "?u = EQ_C # t" by blast
      let ?v = "dropWhile blank t"
      let ?r = "dropWhile blank (dropWhile value_char ?v)"
      have e: "es = [(takeWhile key_char ?s, takeWhile value_char ?v)]" "x = ref_comment ?r"
        using assms(2) True t by (auto simp: ref_line_def Let_def)
      from entry_goes[OF i conjunct1[OF True] conjunct2[OF True] t] obtain q1 where
        q1: "entry (placed ?s q) = (placed ?r (binds es q1), Ret ())" "goes q ?s q1 ?r" unfolding e(1) by blast
      note g = goes_binds[OF goes_trans[OF q(2) q1(2)], of es]
      have "followed ?f ?c (placed ?s q) = ?c (placed ?r (binds es q1))"
        using f q1(1) by (simp add: followed_def[of ?f])
      with stops_trans[OF g comment_stops[OF goes_idle[OF g]]] e(2) l show ?thesis by simp
    qed
  qed
qed

text \<open>The rest of the file, from the end of a line on.\<close>

lemma NL_stops:
  assumes "idle p" and "u = c # v" and "c = NL_C \<or> c = CR_C" and "line_break u = Some x"
  shows "stops p u x (NL (placed u p))"
proof (cases "c = NL_C")
  case True
  from match_goes[OF assms(1), of NL_C v] obtain q where
    "match NL_C (placed (NL_C # v) p) = (placed v q, Ret ())" "goes p (NL_C # v) q v" by blast
  with stopsI(1)[of p u q v] assms(2,4) True show ?thesis by (simp add: NL_def followed_def token_is_placed)
next
  case False
  with assms(3) have c: "c = CR_C" by simp
  from match_goes[OF assms(1), of CR_C v] obtain q where
    q: "match CR_C (placed (CR_C # v) p) = (placed v q, Ret ())" "goes p (CR_C # v) q v" by blast
  note i = goes_idle[OF q(2)]
  have n: "NL (placed u p) = match NL_C (placed v q)"
    using q(1) by (simp add: NL_def followed_def token_is_placed assms(2) c)
  show ?thesis
  proof (cases "\<exists>w. v = NL_C # w")
    case True
    then obtain w where w: "v = NL_C # w" by blast
    from match_goes[OF i, of NL_C w] obtain r where
      "match NL_C (placed (NL_C # w) q) = (placed w r, Ret ())" "goes q (NL_C # w) r w" by blast
    with stopsI(1)[OF goes_trans[OF q(2)], of r w] n assms(2,4) c w show ?thesis by simp
  next
    case False
    then have "v = [] \<or> hd v \<noteq> NL_C" by (cases v) auto
    with match_refused[OF i this] stopsI(2)[OF q(2)] n assms(2,4) c False show ?thesis
      by (cases v) auto
  qed
qed

definition ends :: "parser \<Rightarrow> (string \<times> string) list \<times> (nat \<times> nat) option \<Rightarrow> parser \<times> unit outcome \<Rightarrow> bool" where
  "ends p ref res \<longleftrightarrow>
     env_map (fst res) = map_of (fst ref) ++ env_map p
     \<and> snd res = (case snd ref of
                    None \<Rightarrow> Ret ()
                  | Some (r, c) \<Rightarrow> Raise (Std_exception (syntax_text (of_nat r) (of_nat c))))"

text \<open>An error on a line that started with \<open>s\<close>.\<close>

lemma ends_error:
  assumes "goes (binds es p) s q u" and "row_count p = of_nat n" and "col_count p = 1" and "length u \<le> length s"
  shows "ends p (es, Some (n, length s - length u + 1)) (syntax_err (placed u q))"
proof -
  have "of_nat (length s) = (of_nat (length s - length u) + of_nat (length u) :: u32)"
    using assms(4) by (metis le_add_diff_inverse2 of_nat_add)
  then have "col_count q = of_nat (length s - length u + 1)"
    using assms(1,3) by (simp add: goes_def binds_def)
  with assms(1,2) show ?thesis by (simp add: ends_def syntax_err_eq goes_def binds_def)
qed

lemma env_loop_turn:
  assumes "token_is NL_C p \<or> token_is CR_C p" and "NL p = (q, Ret ())"
  shows "followed env_loop eof p = followed line_content (followed env_loop eof) q"
  using assms by (subst followed_def, subst env_loop.simps) (auto simp: followed_def split: prod.split outcome.split)

lemma env_loop_refused:
  assumes "token_is NL_C p \<or> token_is CR_C p" and "NL p = (q, r)" and "r \<noteq> Ret ()"
  shows "followed env_loop eof p = (q, r)"
  using assms by (cases r) (simp_all add: followed_def, (subst env_loop.simps, simp)+)

lemma env_loop_end:
  assumes "\<not> (token_is NL_C p \<or> token_is CR_C p)"
  shows "followed env_loop eof p = eof p"
  using assms by (simp add: followed_def) (subst env_loop.simps, simp)

lemma break_rest: "line_break u = Some (Inl w) \<Longrightarrow> length w \<le> length u"
  by (cases u) (auto split: if_splits list.splits)

lemma parses_ref:
  assumes "idle p" and "row_count p + 1 = of_nat n"
  shows "ends p (ref_lines n s) (followed line_content (followed env_loop eof) (placed s p))"
  using assms
proof (induction n s arbitrary: p rule: ref_lines.induct)
  case (1 n s)
  obtain es x where r: "ref_line s = (es, x)" by (metis prod.exhaust)
  let ?p = "binds es (new_line p)"
  from line_content_stops[OF 1(2) r] have st: "stops ?p s x (line_content (placed s p))" .
  have n: "row_count (new_line p) = of_nat n" "col_count (new_line p) = 1"
    using 1(3) by (simp_all add: new_line_def)
  have e: "ends p r res" if "ends (new_line p) r res" for r res
    using that by (simp add: ends_def new_line_def)
  have len: "length u \<le> length s" if "x = Inl u \<or> x = Inr u" for u
    using ref_line_length[of s] r that by auto
  show ?case
  proof (cases x)
    case (Inl u)
    with st obtain q where q: "goes ?p s q u" "line_content (placed s p) = syntax_err (placed u q)"
      by (auto simp: stops_def)
    have "followed line_content (followed env_loop eof) (placed s p) = syntax_err (placed u q)"
      by (simp add: followed_def[of line_content] q(2) syntax_err_eq)
    with e[OF ends_error[OF q(1) n len]] Inl r show ?thesis
      by (subst ref_lines.simps) simp
  next
    case (Inr u)
    with st obtain q where q: "goes ?p s q u" "line_content (placed s p) = (placed u q, Ret ())"
      by (auto simp: stops_def)
    note i = goes_idle[OF q(1)]
    have f: "followed line_content (followed env_loop eof) (placed s p) = followed env_loop eof (placed u q)"
      by (simp add: followed_def[of line_content] q(2))
    show ?thesis
    proof (cases u)
      case Nil
      then have "followed env_loop eof (placed u q) = (placed u q, Ret ())"
        by (subst env_loop_end) (simp_all add: token_is_placed eof_def)
      then show ?thesis
        using q(1) f r Inr Nil by (subst ref_lines.simps) (simp add: ends_def goes_def binds_def new_line_def)
    next
      case (Cons c v)
      show ?thesis
      proof (cases "c = NL_C \<or> c = CR_C")
        case False
        then have "followed env_loop eof (placed u q) = syntax_err (placed u q)"
          using Cons by (subst env_loop_end) (simp_all add: token_is_placed eof_def)
        moreover have "line_break u = Some (Inl u)" using Cons False by simp
        ultimately show ?thesis
          using e[OF ends_error[OF q(1) n len]] f r Inr by (subst ref_lines.simps) simp
      next
        case True
        then have t: "token_is NL_C (placed u q) \<or> token_is CR_C (placed u q)"
          using Cons by (auto simp: token_is_placed)
        obtain y where y: "line_break u = Some y" using Cons by (cases "line_break u") (auto split: if_splits)
        note nl = NL_stops[OF i Cons True y]
        show ?thesis
        proof (cases y)
          case yw: (Inl w)
          with nl obtain q1 where q1: "goes q u q1 w" "NL (placed u q) = syntax_err (placed w q1)"
            by (auto simp: stops_def)
          have "followed env_loop eof (placed u q) = syntax_err (placed w q1)"
            using env_loop_refused[OF t q1(2)[unfolded syntax_err_eq]] by (simp add: syntax_err_eq)
          moreover have "length w \<le> length s" using break_rest[of u w] y yw len[of u] Inr by simp
          ultimately show ?thesis
            using e[OF ends_error[OF goes_trans[OF q(1) q1(1)] n]] f r Inr y yw by (subst ref_lines.simps) simp
        next
          case yt: (Inr t')
          with nl obtain q1 where q1: "goes q u q1 t'" "NL (placed u q) = (placed t' q1, Ret ())"
            by (auto simp: stops_def)
          note g = goes_trans[OF q(1) q1(1)]
          obtain fs err where rl: "ref_lines (n + 1) t' = (fs, err)" by (metis prod.exhaust)
          have "row_count q1 + 1 = of_nat (n + 1)" using g n by (simp add: goes_def binds_def)
          from 1(1)[OF r[symmetric] Inr y yt goes_idle[OF g] this] rl
          have "ends q1 (fs, err) (followed line_content (followed env_loop eof) (placed t' q1))" by simp
          then have "ends p (es @ fs, err) (followed line_content (followed env_loop eof) (placed t' q1))"
            using g by (simp add: ends_def goes_def binds_def new_line_def map_add_assoc)
          then show ?thesis
            using env_loop_turn[OF t q1(2)] f r Inr y yt rl by (subst ref_lines.simps) simp
        qed
      qed
    qed
  qed
qed

subsection \<open>Files that are well formed\<close>

text \<open>A line: what it is indented by, its binding with the blanks around its parts, its comment.\<close>

record env_entry =
  ent_key :: string
  before_eq :: string
  after_eq :: string
  ent_value :: string
  after_value :: string

record env_line =
  indent :: string
  ent :: "env_entry option"
  remark :: "string option"

definition entry_ok :: "env_entry \<Rightarrow> bool" where
  "entry_ok e \<longleftrightarrow>
     ent_key e \<noteq> [] \<and> list_all key_char (ent_key e) \<and> list_all blank (before_eq e) \<and> list_all blank (after_eq e)
     \<and> list_all value_char (ent_value e) \<and> list_all blank (after_value e)"

definition line_ok :: "env_line \<Rightarrow> bool" where
  "line_ok l \<longleftrightarrow>
     list_all blank (indent l) \<and> pred_option entry_ok (ent l)
     \<and> pred_option (\<lambda>c. c \<noteq> [] \<and> list_all comment_char c) (remark l)"

definition render_comment :: "string option \<Rightarrow> string" where
  "render_comment c = (case c of None \<Rightarrow> [] | Some t \<Rightarrow> CS_C # t)"

definition render_line :: "env_line \<Rightarrow> string" where
  "render_line l = indent l @
     (case ent l of
        None \<Rightarrow> []
      | Some e \<Rightarrow> ent_key e @ before_eq e @ EQ_C # after_eq e @ ent_value e @ after_value e)
     @ render_comment (remark l)"

definition line_bindings :: "env_line \<Rightarrow> (string \<times> string) list" where
  "line_bindings l = (case ent l of None \<Rightarrow> [] | Some e \<Rightarrow> [(ent_key e, ent_value e)])"

text \<open>Each line but the last ends in a line feed, after a carriage return where the flag says so.\<close>

fun render_file :: "env_line \<Rightarrow> (bool \<times> env_line) list \<Rightarrow> string" where
  "render_file l [] = render_line l"
| "render_file l ((cr, l1) # ls) = render_line l @ (if cr then [CR_C, NL_C] else [NL_C]) @ render_file l1 ls"

lemma char_kinds:
  "blank c \<Longrightarrow> \<not> key_char c" "blank c \<Longrightarrow> \<not> value_char c" "value_char c \<Longrightarrow> \<not> blank c" "key_char c \<Longrightarrow> \<not> blank c"
  "\<not> blank CS_C" "\<not> key_char CS_C" "\<not> value_char CS_C" "\<not> key_char EQ_C" "\<not> blank EQ_C"
  by (auto simp: blank_def key_char_def value_char_def comment_char_def)

text \<open>What follows a word stops it.\<close>

definition stopped :: "(char \<Rightarrow> bool) \<Rightarrow> string \<Rightarrow> bool" where
  "stopped P s \<longleftrightarrow> s = [] \<or> \<not> P (hd s)"

lemma takeWhile_stopped:
  assumes "list_all P u" and "stopped P s"
  shows "takeWhile P (u @ s) = u" "dropWhile P (u @ s) = s"
proof -
  have s: "takeWhile P s = [] \<and> dropWhile P s = s" using assms(2) by (cases s) (simp_all add: stopped_def)
  from assms(1) have u: "\<And>x. x \<in> set u \<Longrightarrow> P x" by (simp add: list_all_iff)
  show "takeWhile P (u @ s) = u" using s takeWhile_append2[of u P s, OF u] by simp
  show "dropWhile P (u @ s) = s" using s dropWhile_append2[of u P s, OF u] by simp
qed

lemma stopped_append:
  "list_all (\<lambda>c. \<not> P c) u \<Longrightarrow> stopped P s \<Longrightarrow> stopped P (u @ s)"
  by (cases u) (auto simp: stopped_def)

lemma ref_comment_render:
  assumes "pred_option (\<lambda>c. c \<noteq> [] \<and> list_all comment_char c) r" and "s = [] \<or> hd s = NL_C \<or> hd s = CR_C"
  shows "ref_comment (render_comment r @ s) = Inr s"
proof (cases r)
  case None
  with assms(2) show ?thesis by (cases s) (auto simp: ref_comment_def render_comment_def)
next
  case (Some t)
  have "stopped comment_char s" using assms(2) by (auto simp: stopped_def comment_char_def)
  with Some assms(1) show ?thesis
    using takeWhile_stopped(2)[of comment_char t s] by (cases t) (auto simp: ref_comment_def render_comment_def)
qed

lemma ref_line_render:
  assumes "line_ok l" and "s = [] \<or> hd s = NL_C \<or> hd s = CR_C"
  shows "ref_line (render_line l @ s) = (line_bindings l, Inr s)"
proof -
  let ?c = "render_comment (remark l) @ s"
  have c: "ref_comment ?c = Inr s"
    using assms by (intro ref_comment_render) (auto simp: line_ok_def)
  have st: "stopped blank ?c" "stopped key_char ?c" "stopped value_char ?c"
    using assms(2)
    by (cases "remark l"; cases s;
        auto simp: stopped_def render_comment_def blank_def key_char_def value_char_def)+
  have ind: "list_all blank (indent l)" using assms(1) by (simp add: line_ok_def)
  show ?thesis
  proof (cases "ent l")
    case None
    then have "dropWhile blank (render_line l @ s) = ?c"
      using takeWhile_stopped(2)[OF ind st(1)] by (simp add: render_line_def)
    then show ?thesis using c st(2) None
      by (auto simp: ref_line_def Let_def line_bindings_def stopped_def)
  next
    case (Some e)
    with assms(1) have e: "ent_key e \<noteq> []" "list_all key_char (ent_key e)" "list_all blank (before_eq e)"
      "list_all blank (after_eq e)" "list_all value_char (ent_value e)" "list_all blank (after_value e)"
      by (auto simp: line_ok_def entry_ok_def)
    let ?v = "ent_value e @ after_value e @ ?c"
    let ?k = "ent_key e @ before_eq e @ EQ_C # after_eq e @ ?v"
    have "stopped blank ?k" using e(1,2) by (cases "ent_key e") (auto simp: stopped_def char_kinds(4))
    from takeWhile_stopped(2)[OF ind this] have 1: "dropWhile blank (render_line l @ s) = ?k"
      by (simp add: render_line_def Some)
    have "list_all (\<lambda>c. \<not> key_char c) (before_eq e)"
      using e(3) by (auto simp: list_all_iff char_kinds(1))
    then have "stopped key_char (before_eq e @ EQ_C # after_eq e @ ?v)"
      by (rule stopped_append) (simp add: stopped_def char_kinds(8))
    note 2 = takeWhile_stopped[OF e(2) this]
    have "stopped blank (EQ_C # after_eq e @ ?v)" by (simp add: stopped_def char_kinds(9))
    note 3 = takeWhile_stopped(2)[OF e(3) this]
    have av: "list_all (\<lambda>c. \<not> value_char c) (after_value e)" using e(6) by (auto simp: list_all_iff char_kinds(2))
    have "dropWhile blank (after_eq e @ ?v) = dropWhile blank ?v"
      using e(4) by (metis dropWhile_append2 list_all_iff)
    then have 4: "takeWhile value_char (dropWhile blank (after_eq e @ ?v)) = ent_value e
        \<and> dropWhile blank (dropWhile value_char (dropWhile blank (after_eq e @ ?v))) = ?c"
    proof (cases "ent_value e")
      case Nil
      have "dropWhile blank ?v = ?c" using takeWhile_stopped(2)[OF e(6) st(1)] Nil by simp
      moreover have "takeWhile value_char ?c = [] \<and> dropWhile value_char ?c = ?c \<and> dropWhile blank ?c = ?c"
        using takeWhile_stopped[of value_char "[]", OF _ st(3)] takeWhile_stopped[of blank "[]", OF _ st(1)] by simp
      ultimately show ?thesis using \<open>dropWhile blank (after_eq e @ ?v) = dropWhile blank ?v\<close> Nil by simp
    next
      case (Cons x w)
      then have "dropWhile blank ?v = ?v" using e(5) by (simp add: char_kinds(3))
      moreover note takeWhile_stopped[OF e(5) stopped_append[OF av st(3)]] takeWhile_stopped(2)[OF e(6) st(1)]
      ultimately show ?thesis using \<open>dropWhile blank (after_eq e @ ?v) = dropWhile blank ?v\<close> by simp
    qed
    have "?k \<noteq> [] \<and> key_char (hd ?k)" using e(1,2) by (cases "ent_key e") auto
    then show ?thesis
      unfolding ref_line_def 1 Let_def using 2 3 4 c by (simp add: line_bindings_def Some)
  qed
qed

lemma ref_lines_render:
  assumes "line_ok l" and "list_all (\<lambda>(cr, l). line_ok l) ls"
  shows "ref_lines n (render_file l ls) = (concat (map line_bindings (l # map snd ls)), None)"
  using assms
proof (induction l ls arbitrary: n rule: render_file.induct)
  case (1 l)
  then show ?case using ref_line_render[of l "[]"] by (subst ref_lines.simps) simp
next
  case (2 l cr l1 ls)
  let ?b = "(if cr then [CR_C, NL_C] else [NL_C]) @ render_file l1 ls"
  have "ref_line (render_line l @ ?b) = (line_bindings l, Inr ?b)"
    by (rule ref_line_render) (use 2 in auto)
  moreover have "line_break ?b = Some (Inr (render_file l1 ls))" by simp
  ultimately show ?case using 2 by (subst ref_lines.simps) simp
qed

subsection \<open>Properties\<close>

lemma env_op_ends: "ends p (ref_lines 1 text) (env_op (mk_parser c row col text (env_map p)))"
proof -
  let ?p = "(mk_parser c row col text (env_map p))\<lparr>row_count := 0, col_count := 1\<rparr>"
  have "init (mk_parser c row col text (env_map p)) = (placed text ?p, Ret ())"
    by (cases "text") (simp_all add: init_def mk_parser_def is_get_def placed_def)
  then have "env_op (mk_parser c row col text (env_map p)) = followed line_content (followed env_loop eof) (placed text ?p)"
    by (simp add: env_op_def followed_def)
  moreover have "idle ?p" "row_count ?p + 1 = of_nat 1" "env_map ?p = env_map p" by (simp_all add: idle_def mk_parser_def)
  ultimately show ?thesis using parses_ref[of ?p 1 "text"] by (simp add: ends_def)
qed

lemma parse_file_eq:
  "parse_file mem text d =
     (d\<lparr>env_vars := map_of (fst (ref_lines 1 text)) ++ env_vars d\<rparr>,
      case snd (ref_lines 1 text) of
        None \<Rightarrow> Ret ()
      | Some (r, c) \<Rightarrow> Raise (Std_exception (syntax_text (of_nat r) (of_nat c))))"
proof -
  obtain c row col where m: "mem = (c, row, col)" by (cases mem)
  let ?p = "mk_parser c row col text (env_vars d)"
  have "ends ?p (ref_lines 1 text) (env_op ?p)"
    using env_op_ends[of ?p "text" c row col] by (simp add: mk_parser_def)
  then show ?thesis
    by (cases "env_op ?p") (simp add: parse_file_def m ends_def, simp add: mk_parser_def)
qed

text \<open>
  C15: The parser of .env files always ends, whatever the text and whatever the memory it starts with: it
  binds the variables of the reference in their order, a name that is bound already keeping its value,
  and either returns or throws the syntax error with the line and the column at which the reference
  stops; nothing else is ever thrown. The bindings of the lines before an error are kept.
\<close>

theorem dotenv_parse_reference:
  "parse_file mem text d =
     (case ref_lines 1 text of
        (es, err) \<Rightarrow>
          (d\<lparr>env_vars := map_of es ++ env_vars d\<rparr>,
           case err of
             None \<Rightarrow> Ret ()
           | Some (r, c) \<Rightarrow> Raise (Std_exception (syntax_text (of_nat r) (of_nat c)))))"
  by (simp add: parse_file_eq split: prod.split)

text \<open>
  C16: What is written is what is read: a file made of well-formed lines, with any indentation, blanks
  around its names and values, comments, empty lines and either kind of line end, is accepted, and
  binds exactly the variables written in it, the first one of a name; what was bound before stays.
\<close>

theorem dotenv_round_trip:
  assumes "line_ok l" and "list_all (\<lambda>(cr, l). line_ok l) ls"
  shows "parse_file mem (render_file l ls) d =
    (d\<lparr>env_vars := map_of (concat (map line_bindings (l # map snd ls))) ++ env_vars d\<rparr>, Ret ())"
  by (simp add: parse_file_eq ref_lines_render[OF assms])

text \<open>
  \<open>get_dotenv\<close> after the program has started: with no .env file every name is an \<open>OUT_OF_RANGE\<close> error;
  with one the parser accepts, a name it binds gives the value of its first binding and any other is
  an \<open>OUT_OF_RANGE\<close> error with the name in its text; one the parser refuses ends the program before
  \<open>main\<close>, since it is read while a static variable is initialised. A name looked up before the file
  is read is a \<open>NOT_FOUND\<close> error.
\<close>

theorem get_dotenv_outcome:
  "(case static_env mem contents of
      Ret d \<Rightarrow>
        (case contents of None \<Rightarrow> env_vars d = Map.empty
         | Some text \<Rightarrow> snd (ref_lines 1 text) = None \<and> env_vars d = map_of (fst (ref_lines 1 text)))
        \<and> get_dotenv d name =
            Ret (rep (case env_vars d name of
                        Some v \<Rightarrow> Inr v
                      | None \<Rightarrow> Inl (lookup_err Common_OUT_OF_RANGE (''key '' @ [SQ_C] @ name @ [SQ_C] @ '' not found''))))
    | Abort \<Rightarrow> (\<exists>text. contents = Some text \<and> snd (ref_lines 1 text) \<noteq> None)
    | _ \<Rightarrow> False)
   \<and> get_dotenv new_dotenv name = Ret (rep (Inl (lookup_err Common_NOT_FOUND config_err)))"
  by (cases contents)
    (auto simp: static_env_def config_def parse_file_eq new_dotenv_def get_dotenv_def dotenv_at_def make_unexpected_def
      simp del: rep.simps split: option.splits outcome.splits)

subsection \<open>Instances\<close>

text \<open>A value in quotes keeps them, and ends at a blank; a comment with no text is refused.\<close>

lemma quotes_and_comments:
  "ref_lines 1 (''A='' @ [DQ_C] @ ''x'' @ [DQ_C]) = ([(''A'', [DQ_C] @ ''x'' @ [DQ_C])], None)"
  "ref_lines 1 (''A='' @ [DQ_C] @ ''x y'' @ [DQ_C]) = ([(''A'', [DQ_C] @ ''x'')], Some (1, 6))"
  "ref_lines 1 (CS_C # NL_C # ''A=1'') = ([], Some (1, 2))"
  by (simp_all add: ref_lines.simps ref_line_def ref_comment_def blank_def key_char_def value_char_def comment_char_def)

definition sample_lines :: "env_line \<times> (bool \<times> env_line) list" where
  "sample_lines =
     (\<lparr>indent = '' '', ent = Some \<lparr>ent_key = ''A'', before_eq = '' '', after_eq = [], ent_value = ''1'', after_value = '' ''\<rparr>,
       remark = Some '' one''\<rparr>,
      [(True, \<lparr>indent = [], ent = None, remark = None\<rparr>),
       (False, \<lparr>indent = [], ent = Some \<lparr>ent_key = ''A'', before_eq = [], after_eq = [], ent_value = ''2'', after_value = []\<rparr>,
                remark = None\<rparr>)])"

theorem dotenv_round_trip_witness:
  "env_vars (fst (parse_file (CHR 0x00, 0, 0) ('' A =1 # one'' @ [CR_C, NL_C, NL_C] @ ''A=2'') new_dotenv)) ''A'' = Some ''1''"
proof -
  have ok: "line_ok (fst sample_lines)" "list_all (\<lambda>(cr, l). line_ok l) (snd sample_lines)"
    by (simp_all add: sample_lines_def line_ok_def entry_ok_def blank_def key_char_def value_char_def comment_char_def)
  have "render_file (fst sample_lines) (snd sample_lines) = '' A =1 # one'' @ [CR_C, NL_C, NL_C] @ ''A=2''"
    by (simp add: sample_lines_def render_line_def render_comment_def)
  then show ?thesis
    using dotenv_round_trip[OF ok, of "(CHR 0x00, 0, 0)" new_dotenv]
    by (simp add: sample_lines_def line_bindings_def new_dotenv_def map_add_def)
qed
end
