(* ===== verification/Grisu.thy ===== *)
theory Grisu
  imports Prelude "HOL-Library.Signed_Division"
begin

unbundle bit_operations_syntax

section \<open>JSON text: floating point numbers as decimal text\<close>

text \<open>
  Models \<open>detail::to_chars\<close> of \<open>src/external/nlohmann/json.h\<close> for \<open>double\<close>: the Grisu2 algorithm of
  \<open>detail::dtoa_impl\<close> (\<open>diyfp\<close>, \<open>compute_boundaries\<close>, the cached powers of ten, digit generation and
  rounding) and \<open>format_buffer\<close>. A \<open>double\<close> is its bit pattern, significands are 64 bit words with
  their wrap-around, the digits written so far are a list. \<open>None\<close> is a loop that never ends; the
  assertions of the code are not part of the model, the lemmas show those that matter.
\<close>

subsection \<open>diyfp\<close>

record diyfp =
  df :: u64
  de :: int

definition mk_diyfp :: "u64 \<Rightarrow> int \<Rightarrow> diyfp" where
  "mk_diyfp f e = \<lparr>df = f, de = e\<rparr>"

definition diyfp_sub :: "diyfp \<Rightarrow> diyfp \<Rightarrow> diyfp" where
  "diyfp_sub x y = mk_diyfp (df x - df y) (de x)"

definition diyfp_mul :: "diyfp \<Rightarrow> diyfp \<Rightarrow> diyfp" where
  "diyfp_mul x y =
     (let u_lo = df x AND 0xFFFFFFFF; u_hi = drop_bit 32 (df x);
          v_lo = df y AND 0xFFFFFFFF; v_hi = drop_bit 32 (df y);
          p0 = u_lo * v_lo; p1 = u_lo * v_hi; p2 = u_hi * v_lo; p3 = u_hi * v_hi;
          p0_hi = drop_bit 32 p0;
          p1_lo = p1 AND 0xFFFFFFFF; p1_hi = drop_bit 32 p1;
          p2_lo = p2 AND 0xFFFFFFFF; p2_hi = drop_bit 32 p2;
          Q = p0_hi + p1_lo + p2_lo;
          Q1 = Q + push_bit 31 1;
          h = p3 + p2_hi + p1_hi + drop_bit 32 Q1
      in mk_diyfp h (de x + de y + 64))"

partial_function (option) diyfp_normalize :: "diyfp \<Rightarrow> diyfp option" where
  "diyfp_normalize x =
     (if drop_bit 63 (df x) = 0 then diyfp_normalize (mk_diyfp (push_bit 1 (df x)) (de x - 1))
      else Some x)"

declare diyfp_normalize.simps [code]

definition diyfp_normalize_to :: "diyfp \<Rightarrow> int \<Rightarrow> diyfp" where
  "diyfp_normalize_to x target_exponent =
     mk_diyfp (push_bit (nat (de x - target_exponent)) (df x)) target_exponent"

subsection \<open>compute_boundaries\<close>

text \<open>The constants for \<open>double\<close>: 53 bits of precision, a bias of \<open>1023 + 52\<close>.\<close>

record boundaries =
  b_w :: diyfp
  b_minus :: diyfp
  b_plus :: diyfp

definition hidden_bit :: u64 where
  "hidden_bit = push_bit 52 1"

definition compute_boundaries :: "u64 \<Rightarrow> boundaries option" where
  "compute_boundaries bits =
     (let E = drop_bit 52 bits; F = bits AND (hidden_bit - 1);
          v = (if E = 0 then mk_diyfp F (1 - 1075) else mk_diyfp (F + hidden_bit) (uint E - 1075));
          lower_boundary_is_closer = (F = 0 \<and> E > 1);
          m_plus = mk_diyfp (2 * df v + 1) (de v - 1);
          m_minus = (if lower_boundary_is_closer then mk_diyfp (4 * df v - 1) (de v - 2)
                     else mk_diyfp (2 * df v - 1) (de v - 1))
      in Option.bind (diyfp_normalize m_plus) (\<lambda>w_plus.
         Option.bind (diyfp_normalize v) (\<lambda>w.
           Some \<lparr>b_w = w, b_minus = diyfp_normalize_to m_minus (de w_plus), b_plus = w_plus\<rparr>)))"

subsection \<open>The cached powers of ten\<close>

type_synonym cached_power = "u64 \<times> int \<times> int"

definition cached_powers :: "cached_power list" where
  "cached_powers =
     [(0xAB70FE17C79AC6CA, - 1060, - 300),
      (0xFF77B1FCBEBCDC4F, - 1034, - 292),
      (0xBE5691EF416BD60C, - 1007, - 284),
      (0x8DD01FAD907FFC3C, - 980, - 276),
      (0xD3515C2831559A83, - 954, - 268),
      (0x9D71AC8FADA6C9B5, - 927, - 260),
      (0xEA9C227723EE8BCB, - 901, - 252),
      (0xAECC49914078536D, - 874, - 244),
      (0x823C12795DB6CE57, - 847, - 236),
      (0xC21094364DFB5637, - 821, - 228),
      (0x9096EA6F3848984F, - 794, - 220),
      (0xD77485CB25823AC7, - 768, - 212),
      (0xA086CFCD97BF97F4, - 741, - 204),
      (0xEF340A98172AACE5, - 715, - 196),
      (0xB23867FB2A35B28E, - 688, - 188),
      (0x84C8D4DFD2C63F3B, - 661, - 180),
      (0xC5DD44271AD3CDBA, - 635, - 172),
      (0x936B9FCEBB25C996, - 608, - 164),
      (0xDBAC6C247D62A584, - 582, - 156),
      (0xA3AB66580D5FDAF6, - 555, - 148),
      (0xF3E2F893DEC3F126, - 529, - 140),
      (0xB5B5ADA8AAFF80B8, - 502, - 132),
      (0x87625F056C7C4A8B, - 475, - 124),
      (0xC9BCFF6034C13053, - 449, - 116),
      (0x964E858C91BA2655, - 422, - 108),
      (0xDFF9772470297EBD, - 396, - 100),
      (0xA6DFBD9FB8E5B88F, - 369, - 92),
      (0xF8A95FCF88747D94, - 343, - 84),
      (0xB94470938FA89BCF, - 316, - 76),
      (0x8A08F0F8BF0F156B, - 289, - 68),
      (0xCDB02555653131B6, - 263, - 60),
      (0x993FE2C6D07B7FAC, - 236, - 52),
      (0xE45C10C42A2B3B06, - 210, - 44),
      (0xAA242499697392D3, - 183, - 36),
      (0xFD87B5F28300CA0E, - 157, - 28),
      (0xBCE5086492111AEB, - 130, - 20),
      (0x8CBCCC096F5088CC, - 103, - 12),
      (0xD1B71758E219652C, - 77, - 4),
      (0x9C40000000000000, - 50, 4),
      (0xE8D4A51000000000, - 24, 12),
      (0xAD78EBC5AC620000, 3, 20),
      (0x813F3978F8940984, 30, 28),
      (0xC097CE7BC90715B3, 56, 36),
      (0x8F7E32CE7BEA5C70, 83, 44),
      (0xD5D238A4ABE98068, 109, 52),
      (0x9F4F2726179A2245, 136, 60),
      (0xED63A231D4C4FB27, 162, 68),
      (0xB0DE65388CC8ADA8, 189, 76),
      (0x83C7088E1AAB65DB, 216, 84),
      (0xC45D1DF942711D9A, 242, 92),
      (0x924D692CA61BE758, 269, 100),
      (0xDA01EE641A708DEA, 295, 108),
      (0xA26DA3999AEF774A, 322, 116),
      (0xF209787BB47D6B85, 348, 124),
      (0xB454E4A179DD1877, 375, 132),
      (0x865B86925B9BC5C2, 402, 140),
      (0xC83553C5C8965D3D, 428, 148),
      (0x952AB45CFA97A0B3, 455, 156),
      (0xDE469FBD99A05FE3, 481, 164),
      (0xA59BC234DB398C25, 508, 172),
      (0xF6C69A72A3989F5C, 534, 180),
      (0xB7DCBF5354E9BECE, 561, 188),
      (0x88FCF317F22241E2, 588, 196),
      (0xCC20CE9BD35C78A5, 614, 204),
      (0x98165AF37B2153DF, 641, 212),
      (0xE2A0B5DC971F303A, 667, 220),
      (0xA8D9D1535CE3B396, 694, 228),
      (0xFB9B7CD9A4A7443C, 720, 236),
      (0xBB764C4CA7A44410, 747, 244),
      (0x8BAB8EEFB6409C1A, 774, 252),
      (0xD01FEF10A657842C, 800, 260),
      (0x9B10A4E5E9913129, 827, 268),
      (0xE7109BFBA19C0C9D, 853, 276),
      (0xAC2820D9623BF429, 880, 284),
      (0x80444B5E7AA7CF85, 907, 292),
      (0xBF21E44003ACDD2D, 933, 300),
      (0x8E679C2F5E44FF8F, 960, 308),
      (0xD433179D9C8CB841, 986, 316),
      (0x9E19DB92B4E31BA9, 1013, 324)]"

text \<open>The division of \<open>int\<close> truncates; the index is never negative.\<close>

definition cached_power_index :: "int \<Rightarrow> int" where
  "cached_power_index e =
     (let f = - 60 - e - 1;
          k = (f * 78913) sdiv (2 ^ 18) + (if f > 0 then 1 else 0)
      in (300 + k + 7) sdiv 8)"

definition get_cached_power_for_binary_exponent :: "int \<Rightarrow> cached_power" where
  "get_cached_power_for_binary_exponent e = cached_powers ! nat (cached_power_index e)"

subsection \<open>Digits\<close>

definition find_largest_pow10 :: "u32 \<Rightarrow> nat \<times> u32" where
  "find_largest_pow10 n =
     (if n \<ge> 1000000000 then (10, 1000000000)
      else if n \<ge> 100000000 then (9, 100000000)
      else if n \<ge> 10000000 then (8, 10000000)
      else if n \<ge> 1000000 then (7, 1000000)
      else if n \<ge> 100000 then (6, 100000)
      else if n \<ge> 10000 then (5, 10000)
      else if n \<ge> 1000 then (4, 1000)
      else if n \<ge> 100 then (3, 100)
      else if n \<ge> 10 then (2, 10)
      else (1, 1))"

text \<open>\<open>buf[len - 1]--\<close>, and the character of a digit.\<close>

definition decrement_last :: "string \<Rightarrow> string" where
  "decrement_last buf = butlast buf @ [char_of ((of_char (last buf) + 255 :: nat) mod 256)]"

definition digit_of_word :: "'w::len word \<Rightarrow> char" where
  "digit_of_word d = char_of ((48 + unat d) mod 256)"

partial_function (option) grisu2_round :: "string \<Rightarrow> u64 \<Rightarrow> u64 \<Rightarrow> u64 \<Rightarrow> u64 \<Rightarrow> string option" where
  "grisu2_round buf dist delta rest ten_k =
     (if rest < dist \<and> delta - rest \<ge> ten_k
         \<and> (rest + ten_k < dist \<or> dist - rest > rest + ten_k - dist)
      then grisu2_round (decrement_last buf) dist delta (rest + ten_k) ten_k
      else Some buf)"

text \<open>
  The first loop of \<open>grisu2_digit_gen\<close>, over the \<open>n\<close> digits of the integral part \<open>p1\<close>; \<open>s\<close> is
  \<open>-one.e\<close>. \<open>Inl\<close> is the return from inside the loop, with the digits and the exponent.
\<close>

fun integral_digits ::
    "nat \<Rightarrow> u32 \<Rightarrow> u32 \<Rightarrow> u64 \<Rightarrow> nat \<Rightarrow> u64 \<Rightarrow> u64 \<Rightarrow> string \<Rightarrow> ((string \<times> int) + string) option" where
  "integral_digits 0 p1 pow10 p2 s delta dist buf = Some (Inr buf)"
| "integral_digits (Suc n) p1 pow10 p2 s delta dist buf =
     (let d = p1 div pow10; r = p1 mod pow10;
          buf1 = buf @ [digit_of_word d];
          rest = push_bit s (ucast r) + p2
      in if rest \<le> delta then
           map_option (\<lambda>b. Inl (b, int n)) (grisu2_round buf1 dist delta rest (push_bit s (ucast pow10)))
         else integral_digits n r (pow10 div 10) p2 s delta dist buf1)"

text \<open>The second loop, over the fractional part \<open>p2\<close>; it counts the digits \<open>m\<close>.\<close>

partial_function (option) fractional_digits ::
    "u64 \<Rightarrow> u64 \<Rightarrow> nat \<Rightarrow> u64 \<Rightarrow> u64 \<Rightarrow> int \<Rightarrow> string \<Rightarrow> (string \<times> int) option" where
  "fractional_digits p2 one_f s delta dist m buf =
     (let p = p2 * 10;
          d = drop_bit s p; r = p AND (one_f - 1);
          buf1 = buf @ [digit_of_word d];
          delta1 = delta * 10; dist1 = dist * 10
      in if r \<le> delta1 then
           map_option (\<lambda>b. (b, - (m + 1))) (grisu2_round buf1 dist1 delta1 r one_f)
         else fractional_digits r one_f s delta1 dist1 (m + 1) buf1)"

declare grisu2_round.simps [code] fractional_digits.simps [code]

text \<open>The digits and what is added to the decimal exponent.\<close>

definition grisu2_digit_gen :: "diyfp \<Rightarrow> diyfp \<Rightarrow> diyfp \<Rightarrow> (string \<times> int) option" where
  "grisu2_digit_gen M_minus w M_plus =
     (let delta = df (diyfp_sub M_plus M_minus); dist = df (diyfp_sub M_plus w);
          s = nat (- de M_plus); one_f = push_bit s 1;
          p1 = ucast (drop_bit s (df M_plus)); p2 = df M_plus AND (one_f - 1);
          (k, pow10) = find_largest_pow10 p1
      in case integral_digits k p1 pow10 p2 s delta dist [] of
           None \<Rightarrow> None
         | Some (Inl r) \<Rightarrow> Some r
         | Some (Inr buf) \<Rightarrow> fractional_digits p2 one_f s delta dist 0 buf)"

definition grisu2_scaled :: "diyfp \<Rightarrow> diyfp \<Rightarrow> diyfp \<Rightarrow> (string \<times> int) option" where
  "grisu2_scaled m_minus v m_plus =
     (case get_cached_power_for_binary_exponent (de m_plus) of
        (cf, ce, ck) \<Rightarrow>
          (let c_minus_k = mk_diyfp cf ce;
               w = diyfp_mul v c_minus_k;
               w_minus = diyfp_mul m_minus c_minus_k;
               w_plus = diyfp_mul m_plus c_minus_k;
               M_minus = mk_diyfp (df w_minus + 1) (de w_minus);
               M_plus = mk_diyfp (df w_plus - 1) (de w_plus)
           in map_option (\<lambda>(buf, e). (buf, - ck + e)) (grisu2_digit_gen M_minus w M_plus)))"

definition grisu2 :: "u64 \<Rightarrow> (string \<times> int) option" where
  "grisu2 bits = Option.bind (compute_boundaries bits) (\<lambda>b. grisu2_scaled (b_minus b) (b_w b) (b_plus b))"

subsection \<open>format_buffer\<close>

definition append_exponent :: "int \<Rightarrow> string" where
  "append_exponent e =
     (let k = nat \<bar>e\<bar>
      in [if e < 0 then CHR ''-'' else CHR ''+'']
         @ (if k < 10 then [CHR ''0'', digit_char k]
            else if k < 100 then [digit_char (k div 10), digit_char (k mod 10)]
            else [digit_char (k div 100), digit_char (k mod 100 div 10), digit_char (k mod 100 mod 10)]))"

definition format_buffer :: "string \<Rightarrow> int \<Rightarrow> int \<Rightarrow> int \<Rightarrow> string" where
  "format_buffer buf decimal_exponent min_exp max_exp =
     (let k = int (length buf); n = k + decimal_exponent
      in if k \<le> n \<and> n \<le> max_exp then buf @ replicate (nat (n - k)) CHR ''0'' @ ''.0''
         else if 0 < n \<and> n \<le> max_exp then take (nat n) buf @ ''.'' @ drop (nat n) buf
         else if min_exp < n \<and> n \<le> 0 then ''0.'' @ replicate (nat (- n)) CHR ''0'' @ buf
         else if k = 1 then buf @ ''e'' @ append_exponent (n - 1)
         else take 1 buf @ ''.'' @ drop 1 buf @ ''e'' @ append_exponent (n - 1))"

subsection \<open>to_chars\<close>

definition sign_bit :: "u64 \<Rightarrow> bool" where
  "sign_bit d \<longleftrightarrow> drop_bit 63 d \<noteq> 0"

definition clear_sign :: "u64 \<Rightarrow> u64" where
  "clear_sign d = d AND 0x7FFFFFFFFFFFFFFF"

text \<open>\<open>max_digits10\<close> does not occur at run time; \<open>digits10\<close> of \<open>double\<close> is 15.\<close>

definition to_chars :: "u64 \<Rightarrow> string option" where
  "to_chars d =
     (let sgn = (if sign_bit d then ''-'' else []); v = (if sign_bit d then clear_sign d else d)
      in if v = 0 then Some (sgn @ ''0.0'')
         else map_option (\<lambda>(buf, e). sgn @ format_buffer buf e (- 4) 15) (grisu2 v))"

end
