(* ===== verification/Grisu_Powers.thy ===== *)
theory Grisu_Powers
  imports Grisu_Digits Complex_Main
begin

section \<open>JSON text: the cached powers of ten\<close>

text \<open>
  \<open>get_cached_power_for_binary_exponent\<close> of \<open>src/external/nlohmann/json.h\<close>: for every exponent a double
  can have, the index lies in the table, the exponent of the product is between \<open>kAlpha\<close> and
  \<open>kGamma\<close>, and every entry is the power of ten rounded to 64 bits, off by half a unit at most.
\<close>

subsection \<open>The entry for an exponent\<close>

lemma cached_powers_length: "length cached_powers = 79"
  by (simp add: cached_powers_def)

definition cached_power_bounds :: "cached_power \<Rightarrow> bool" where
  "cached_power_bounds = (\<lambda>(cf, ce, ck). 2 ^ 63 \<le> unat cf \<and>
     ck * 2 ^ 18 < 78913 * (ce + 64) \<and> 78913 * (ce + 34) < (ck - 8) * 2 ^ 18)"

lemma cached_powers_bounds: "list_all cached_power_bounds cached_powers"
  by (simp add: cached_powers_def cached_power_bounds_def)

lemma cached_powers_exponents: "map (\<lambda>(cf, ce, ck). ck) cached_powers = map (\<lambda>i. 8 * int i - 300) [0..<79]"
  by (simp add: cached_powers_def upt_rec)

lemma cached_powers_nth:
  assumes "i < 79" "cached_powers ! i = (cf, ce, ck)"
  shows "ck = 8 * int i - 300" "cached_power_bounds (cf, ce, ck)" "(cf, ce, ck) \<in> set cached_powers"
proof -
  have "map (\<lambda>(cf, ce, ck). ck) cached_powers ! i = map (\<lambda>i. 8 * int i - 300) [0..<79] ! i"
    by (simp only: cached_powers_exponents)
  with assms show "ck = 8 * int i - 300" by (simp add: cached_powers_length)
  show "(cf, ce, ck) \<in> set cached_powers"
    using assms nth_mem[of i cached_powers] by (simp add: cached_powers_length)
  then show "cached_power_bounds (cf, ce, ck)" using cached_powers_bounds by (auto simp: list_all_iff)
qed

lemma div_between: "(a div b) * b \<le> a \<and> a < (a div b + 1) * b" if "0 < b" for a b :: int
proof -
  have "a = (a div b) * b + a mod b" by simp
  with pos_mod_bound[OF that, of a] pos_mod_sign[OF that, of a] show ?thesis
    unfolding distrib_right by linarith
qed

definition truncated_log :: "int \<Rightarrow> int" where
  "truncated_log f = (f * 78913) sdiv (2 ^ 18) + (if f > 0 then 1 else 0)"

lemma truncated_log_between:
  "(truncated_log f - 1) * 2 ^ 18 \<le> f * 78913" "f * 78913 \<le> truncated_log f * 2 ^ 18"
proof -
  have "(truncated_log f - 1) * 2 ^ 18 \<le> f * 78913 \<and> f * 78913 \<le> truncated_log f * 2 ^ 18"
  proof (cases "f > 0")
    case True
    then have "truncated_log f = (f * 78913) div 2 ^ 18 + 1" by (simp add: truncated_log_def signed_divide_int_def)
    then show ?thesis using div_between[of "2 ^ 18" "f * 78913"] by simp
  next
    case False
    then have "truncated_log f = - ((- (f * 78913)) div 2 ^ 18)"
      by (cases "f = 0") (simp_all add: truncated_log_def signed_divide_int_def sgn_if)
    then show ?thesis using div_between[of "2 ^ 18" "- (f * 78913)"] by simp
  qed
  then show "(truncated_log f - 1) * 2 ^ 18 \<le> f * 78913" "f * 78913 \<le> truncated_log f * 2 ^ 18" by blast+
qed

lemma cached_power_index_bounds:
  assumes "- 1137 \<le> e" "e \<le> 960"
  shows "0 \<le> cached_power_index e" "cached_power_index e < 79"
    "(8 * cached_power_index e - 308) * 2 ^ 18 \<le> (- 61 - e) * 78913"
    "(- 61 - e) * 78913 \<le> (8 * cached_power_index e - 300) * 2 ^ 18"
proof -
  define k where "k = truncated_log (- 61 - e)"
  note k = truncated_log_between[of "- 61 - e", folded k_def]
  have pos: "- 307 \<le> k" "k \<le> 324" using k assms by simp_all
  have "cached_power_index e = (307 + k) sdiv 8"
    by (simp add: cached_power_index_def k_def truncated_log_def Let_def)
  then have "cached_power_index e = (307 + k) div 8" using pos by (simp add: signed_divide_int_def sgn_if)
  with div_between[of 8 "307 + k"] have i: "8 * cached_power_index e \<le> 307 + k" "307 + k < 8 * cached_power_index e + 8"
    by simp_all
  show "0 \<le> cached_power_index e" using i pos by simp
  show "cached_power_index e < 79" using i pos by simp
  show "(8 * cached_power_index e - 308) * 2 ^ 18 \<le> (- 61 - e) * 78913" using i(1) k(1) by simp
  show "(- 61 - e) * 78913 \<le> (8 * cached_power_index e - 300) * 2 ^ 18" using i(2) k(2) by simp
qed

text \<open>The assertions at the end of \<open>get_cached_power_for_binary_exponent\<close>.\<close>

lemma cached_power_range:
  assumes "- 1137 \<le> e" "e \<le> 960" "get_cached_power_for_binary_exponent e = (cf, ce, ck)"
  shows "2 ^ 63 \<le> unat cf" "- 60 \<le> ce + e + 64" "ce + e + 64 \<le> - 32" "- 300 \<le> ck" "ck \<le> 324"
    "(cf, ce, ck) \<in> set cached_powers"
proof -
  note b = cached_power_index_bounds[OF assms(1,2)]
  define i where "i = nat (cached_power_index e)"
  have i: "cached_power_index e = int i" using b(1) by (simp add: i_def)
  have less: "i < 79" using b(2) by (simp add: i_def)
  have nth: "cached_powers ! i = (cf, ce, ck)"
    using assms(3) by (simp add: get_cached_power_for_binary_exponent_def i_def)
  note n = cached_powers_nth[OF less nth]
  show "2 ^ 63 \<le> unat cf" "(cf, ce, ck) \<in> set cached_powers" using n(2,3) by (simp_all add: cached_power_bounds_def)
  show "- 300 \<le> ck" "ck \<le> 324" using n(1) less by simp_all
  have "(ck - 8) * 2 ^ 18 \<le> (- 61 - e) * 78913" "(- 61 - e) * 78913 \<le> ck * 2 ^ 18"
    using b(3,4) unfolding i n(1) by simp_all
  then show "- 60 \<le> ce + e + 64" "ce + e + 64 \<le> - 32" using n(2) by (simp_all add: cached_power_bounds_def)
qed

subsection \<open>The accuracy of the entries\<close>

text \<open>
  The next 40 bits of every entry: \<open>cf * 2 ^ 40\<close> plus the tail. Two neighbours differ by a factor of
  \<open>10 ^ 8\<close> up to a small error, and the entry of \<open>10 ^ 4\<close> is exact, so every entry is accurate.
\<close>

definition cached_power_tails :: "int list" where
  "cached_power_tails =
     [471328819785, 162821348372, 153756396486, - 351152907905, 57350505675, 478742037344,
      302226188666, 382166759284, 510115252439, - 445181985773, 274623285342, 538535170870,
      - 545852748083, - 519765921513, - 96127051185, 180067365888, 278903513477, - 228957759231,
      - 140560087369, - 269536407341, 388859929540, 58008900115, 74207516517, - 14869621795,
      250887010517, 384273623956, - 226344742897, 505267643288, - 34210574707, 118356888420,
      238688670411, - 114778700913, - 495119073865, - 146481098282, - 499111858663,
      - 511290172249, - 28998912188, - 189995609280, 0, 0, 0, 274877906944, 324791173120,
      - 118078037086, 492387190169, 7908508205, 329230493796, 254034665283, 520335378138,
      256184991026, 383261222512, - 102837041119, - 121360207089, - 273140654659, 179226690969,
      49562227386, 479199401109, - 147834899332, 480136629978, 291969270654, - 503898137001,
      51840380244, 292593394622, 214413053432, - 260072393861, 198720775300, 545867278146,
      97043672833, - 423371287525, 115167835843, 194002643376, - 229831953383, 54845925130,
      362442783392, 521852249039, - 136247090201, 373914462888, 410807341732, 463984575083]"

definition long_powers :: "(int \<times> int \<times> int) list" where
  "long_powers = map2 (\<lambda>(cf, ce, ck) t. (uint cf * 2 ^ 40 + t, ce, ck)) cached_powers cached_power_tails"

definition power_step :: "int \<times> int \<times> int \<Rightarrow> int \<times> int \<times> int \<Rightarrow> bool" where
  "power_step = (\<lambda>(A, x, j) (B, y, k). k = j + 8 \<and>
     (y = x + 26 \<and> \<bar>A * 10 ^ 8 - B * 2 ^ 26\<bar> \<le> 2 ^ 27 \<or> y = x + 27 \<and> \<bar>A * 10 ^ 8 - B * 2 ^ 27\<bar> \<le> 2 ^ 28))"

fun power_chain :: "(int \<times> int \<times> int) list \<Rightarrow> bool" where
  "power_chain (a # b # xs) \<longleftrightarrow> power_step a b \<and> power_chain (b # xs)"
| "power_chain xs \<longleftrightarrow> True"

lemma long_powers_chain: "power_chain long_powers"
  by (simp add: long_powers_def cached_powers_def cached_power_tails_def power_step_def)

lemma power_chain_nth: "power_chain xs \<Longrightarrow> Suc i < length xs \<Longrightarrow> power_step (xs ! i) (xs ! Suc i)"
proof (induction xs arbitrary: i rule: power_chain.induct)
  case (1 a b xs)
  then show ?case by (cases i) auto
qed auto

text \<open>The distance of an entry from its power of ten.\<close>

definition power_error :: "int \<times> int \<times> int \<Rightarrow> real" where
  "power_error = (\<lambda>(A, x, j). real_of_int A - 10 powi j * 2 powi (40 - x))"

lemma power_error_step:
  assumes "power_step a b"
  shows "\<bar>power_error b\<bar> \<le> 3 / 2 * \<bar>power_error a\<bar> + 3" "\<bar>power_error a\<bar> \<le> 3 / 2 * \<bar>power_error b\<bar> + 3"
proof -
  obtain A x j B y k where ab: "a = (A, x, j)" "b = (B, y, k)" by (cases a, cases b)
  obtain D :: int where D: "D = 2 ^ 26 \<and> y = x + 26 \<or> D = 2 ^ 27 \<and> y = x + 27" "\<bar>A * 10 ^ 8 - B * D\<bar> \<le> 2 * D"
    "k = j + 8"
    using assms by (auto simp: ab power_step_def)
  let ?c = "10 powi j * 2 powi (40 - x) :: real" and ?d = "10 powi k * 2 powi (40 - y) :: real"
  have "?d * D = ?c * 10 ^ 8"
    using D(1,3) by (auto simp: power_int_add power_int_diff)
  moreover have "\<bar>real_of_int A * 10 ^ 8 - B * D\<bar> \<le> 2 * D"
  proof -
    have "real_of_int \<bar>A * 10 ^ 8 - B * D\<bar> \<le> real_of_int (2 * D)" using D(2) by (simp only: of_int_le_iff)
    then show ?thesis by simp
  qed
  ultimately have e: "\<bar>power_error a * 10 ^ 8 - power_error b * D\<bar> \<le> 2 * D"
    by (simp add: ab power_error_def algebra_simps)
  from D(1) e show "\<bar>power_error b\<bar> \<le> 3 / 2 * \<bar>power_error a\<bar> + 3" by (elim disjE) (auto simp: abs_if split: if_splits)
  from D(1) e show "\<bar>power_error a\<bar> \<le> 3 / 2 * \<bar>power_error b\<bar> + 3" by (elim disjE) (auto simp: abs_if split: if_splits)
qed

lemma power_error_near:
  assumes "\<And>m. m < n \<Longrightarrow> \<bar>e (Suc m)\<bar> \<le> 3 / 2 * \<bar>e m\<bar> + (3 :: real)" "e 0 = 0" "n \<le> 40"
  shows "\<bar>e n\<bar> \<le> 10 ^ 8"
proof -
  have "m \<le> n \<Longrightarrow> \<bar>e m\<bar> \<le> 6 * ((3 / 2) ^ m - 1)" for m
  proof (induction m)
    case 0
    then show ?case using assms(2) by simp
  next
    case (Suc m)
    then show ?case using assms(1)[of m] by simp
  qed
  from this[of n] have "\<bar>e n\<bar> \<le> 6 * ((3 / 2) ^ n - 1)" by simp
  also have "(3 / 2 :: real) ^ n \<le> (3 / 2) ^ 40" using assms(3) by (intro power_increasing) simp_all
  finally show ?thesis by (simp add: power_divide)
qed

lemma long_powers_length: "length long_powers = 79"
  by (simp add: long_powers_def cached_powers_def cached_power_tails_def)

lemma power_error_middle: "power_error (long_powers ! 38) = 0"
  by (simp add: long_powers_def cached_powers_def cached_power_tails_def power_error_def power_int_def)

lemma power_error_small: "i < 79 \<Longrightarrow> \<bar>power_error (long_powers ! i)\<bar> \<le> 10 ^ 8"
proof -
  assume i: "i < 79"
  have s: "power_step (long_powers ! j) (long_powers ! Suc j)" if "Suc j < 79" for j
    using power_chain_nth[OF long_powers_chain] that by (simp add: long_powers_length)
  show ?thesis
  proof (cases "38 \<le> i")
    case True
    have "\<bar>power_error (long_powers ! (38 + Suc m))\<bar> \<le> 3 / 2 * \<bar>power_error (long_powers ! (38 + m))\<bar> + 3"
      if "m < i - 38" for m using power_error_step(1)[OF s[of "38 + m"]] that i by simp
    from power_error_near[of "i - 38" "\<lambda>m. power_error (long_powers ! (38 + m))", OF this] True i
    show ?thesis by (simp add: power_error_middle)
  next
    case False
    have "\<bar>power_error (long_powers ! (38 - Suc m))\<bar> \<le> 3 / 2 * \<bar>power_error (long_powers ! (38 - m))\<bar> + 3"
      if "m < 38 - i" for m
    proof -
      have "Suc (38 - Suc m) = 38 - m" using that by simp
      with power_error_step(2)[OF s[of "38 - Suc m"]] show ?thesis by simp
    qed
    from power_error_near[of "38 - i" "\<lambda>m. power_error (long_powers ! (38 - m))", OF this] False
    show ?thesis by (simp add: power_error_middle)
  qed
qed

lemma cached_power_tails_small: "list_all (\<lambda>t. \<bar>t\<bar> \<le> 2 ^ 39 - 10 ^ 8) cached_power_tails"
  by (simp add: cached_power_tails_def)

lemma half_unit: "\<bar>u * 2 ^ 40 + t\<bar> \<le> 10 ^ 8 \<Longrightarrow> \<bar>t\<bar> \<le> 2 ^ 39 - 10 ^ 8 \<Longrightarrow> \<bar>u\<bar> \<le> 1 / 2" for u t :: real
  by (rule abs_leI) (auto simp: abs_le_iff)

lemma cached_power_accurate:
  assumes "(cf, ce, ck) \<in> set cached_powers"
  shows "\<bar>real (unat cf) - 10 powi ck * 2 powi (- ce)\<bar> \<le> 1 / 2"
proof -
  obtain i where i: "i < 79" "cached_powers ! i = (cf, ce, ck)"
    using assms by (auto simp: in_set_conv_nth cached_powers_length)
  have len: "length cached_power_tails = 79" by (simp add: cached_power_tails_def)
  let ?t = "cached_power_tails ! i"
  have l: "long_powers ! i = (uint cf * 2 ^ 40 + ?t, ce, ck)"
    using i len by (simp add: long_powers_def cached_powers_length)
  have "\<bar>?t\<bar> \<le> 2 ^ 39 - 10 ^ 8" using cached_power_tails_small i(1) len nth_mem[of i cached_power_tails] by (simp add: list_all_iff)
  then have "real_of_int \<bar>?t\<bar> \<le> real_of_int (2 ^ 39 - 10 ^ 8)" by (simp only: of_int_le_iff)
  then have t: "\<bar>real_of_int ?t\<bar> \<le> 2 ^ 39 - 10 ^ 8" by simp
  let ?c = "10 powi ck * 2 powi (- ce) :: real"
  have "power_error (long_powers ! i) = (real (unat cf) - ?c) * 2 ^ 40 + ?t"
  proof -
    have "2 powi (40 - ce) = 2 powi (- ce) * (2 :: real) ^ 40" using power_int_add[of "2 :: real" "- ce" 40] by simp
    moreover have "real_of_int (uint cf * 2 ^ 40 + ?t) = real (unat cf) * 2 ^ 40 + ?t"
      by (simp only: of_int_add of_int_mult of_int_power of_int_numeral uint_nat of_int_of_nat_eq)
    ultimately show ?thesis by (simp only: l power_error_def prod.case left_diff_distrib mult.assoc)
  qed
  with power_error_small[OF i(1)] have "\<bar>(real (unat cf) - ?c) * 2 ^ 40 + ?t\<bar> \<le> 10 ^ 8" by (simp only:)
  from half_unit[OF this t] show ?thesis .
qed
end
