(* ===== verification/Grisu_Scaling.thy ===== *)
theory Grisu_Scaling
  imports Grisu_Powers
begin

unbundle bit_operations_syntax

section \<open>JSON text: the boundaries of a double, scaled by a power of ten\<close>

text \<open>
  \<open>compute_boundaries\<close>, the table of cached powers and \<open>grisu2\<close> of \<open>src/external/nlohmann/json.h\<close>: the
  significands of the two boundaries and of the value between them, and how far apart they are after
  the multiplication by the cached power.
\<close>

subsection \<open>The fields of a double\<close>

text \<open>
  \<open>positive_double\<close>: the doubles \<open>to_chars\<close> gives to \<open>grisu2\<close>, \<open>double_f * 2 ^ double_e\<close> is the value.
\<close>

definition double_f :: "u64 \<Rightarrow> nat" where
  "double_f d = (if unat d div 2 ^ 52 = 0 then unat d mod 2 ^ 52 else unat d mod 2 ^ 52 + 2 ^ 52)"

definition double_e :: "u64 \<Rightarrow> int" where
  "double_e d = (if unat d div 2 ^ 52 = 0 then - 1074 else int (unat d div 2 ^ 52) - 1075)"

definition lower_closer :: "u64 \<Rightarrow> bool" where
  "lower_closer d \<longleftrightarrow> unat d mod 2 ^ 52 = 0 \<and> unat d div 2 ^ 52 > 1"

definition positive_double :: "u64 \<Rightarrow> bool" where
  "positive_double d \<longleftrightarrow> 0 < unat d \<and> unat d < 2047 * 2 ^ 52"

lemma double_f_bounds: "positive_double d \<Longrightarrow> 0 < double_f d \<and> double_f d < 2 ^ 53"
proof -
  assume "positive_double d"
  moreover have "unat d mod 2 ^ 52 < 2 ^ 52" by simp
  moreover have "unat d div 2 ^ 52 = 0 \<Longrightarrow> unat d mod 2 ^ 52 = unat d" by (simp add: div_eq_0_iff)
  ultimately show ?thesis by (auto simp: double_f_def positive_double_def simp del: unsigned_less)
qed

lemma double_e_bounds:
  assumes "positive_double d"
  shows "- 1074 \<le> double_e d" "double_e d \<le> 971" "double_e d = - 1074 \<or> 2 ^ 52 \<le> double_f d"
    "lower_closer d \<Longrightarrow> double_f d = 2 ^ 52"
proof -
  have "unat d div 2 ^ 52 < 2047" using assms by (simp add: positive_double_def less_mult_imp_div_less)
  then show "- 1074 \<le> double_e d" "double_e d \<le> 971" "double_e d = - 1074 \<or> 2 ^ 52 \<le> double_f d"
    "lower_closer d \<Longrightarrow> double_f d = 2 ^ 52"
    by (auto simp: double_e_def double_f_def lower_closer_def)
qed

text \<open>The fields of a double as words.\<close>

lemma exponent_field: "unat (drop_bit 52 d :: u64) = unat d div 2 ^ 52"
  by (simp only: unat_drop_bit_eq) (simp add: drop_bit_eq_div)

lemma fraction_field: "unat (d AND (hidden_bit - 1) :: u64) = unat d mod 2 ^ 52"
proof -
  have "hidden_bit - 1 = (mask 52 :: u64)" by (simp add: mask_eq_exp_minus_1 hidden_bit_def)
  then have "d AND (hidden_bit - 1) = take_bit 52 d" by (simp only: take_bit_eq_mask)
  then show ?thesis by (simp only: unsigned_take_bit_eq) (simp add: take_bit_eq_mod)
qed

lemma unat_hidden_bit: "unat hidden_bit = 2 ^ 52"
  by (simp add: hidden_bit_def)

definition value_diyfp :: "u64 \<Rightarrow> diyfp" where
  "value_diyfp bits =
     (let E = drop_bit 52 bits; F = bits AND (hidden_bit - 1)
      in if E = 0 then mk_diyfp F (1 - 1075) else mk_diyfp (F + hidden_bit) (uint E - 1075))"

lemma value_diyfp_fields:
  "unat (df (value_diyfp d)) = double_f d" "de (value_diyfp d) = double_e d"
proof -
  have z: "drop_bit 52 d = 0 \<longleftrightarrow> unat d div 2 ^ 52 = 0"
  proof -
    have "drop_bit 52 d = 0 \<longleftrightarrow> unat (drop_bit 52 d) = 0" by (simp add: unat_eq_zero)
    then show ?thesis by (simp only: exponent_field)
  qed
  have s: "unat ((d AND (hidden_bit - 1)) + hidden_bit) = unat d mod 2 ^ 52 + 2 ^ 52"
  proof -
    have "unat d mod 2 ^ 52 < 2 ^ 52" by simp
    then have "unat (d AND (hidden_bit - 1)) + unat hidden_bit < 2 ^ 64"
      unfolding fraction_field unat_hidden_bit by simp
    from unat_add_small[OF this] show ?thesis unfolding fraction_field unat_hidden_bit .
  qed
  show "unat (df (value_diyfp d)) = double_f d"
    by (simp only: value_diyfp_def double_f_def Let_def z mk_diyfp_def)
      (simp add: fraction_field s)
  have "uint (drop_bit 52 d) = int (unat d div 2 ^ 52)" by (simp only: uint_nat exponent_field)
  then show "de (value_diyfp d) = double_e d"
    by (simp only: value_diyfp_def double_e_def Let_def z mk_diyfp_def) simp
qed

text \<open>The boundaries share one exponent; \<open>k\<close> is the shift that normalizes the upper one.\<close>

definition scaled_boundaries :: "u64 \<Rightarrow> nat \<Rightarrow> boundaries \<Rightarrow> bool" where
  "scaled_boundaries d k b \<longleftrightarrow>
     unat (df (b_plus b)) = (2 * double_f d + 1) * 2 ^ k
     \<and> unat (df (b_w b)) = 2 * double_f d * 2 ^ k
     \<and> unat (df (b_minus b)) =
         (if lower_closer d then (4 * double_f d - 1) * 2 ^ (k - 1) else (2 * double_f d - 1) * 2 ^ k)
     \<and> 2 ^ 63 \<le> unat (df (b_w b)) \<and> 10 \<le> k \<and> k \<le> 62 \<and> (k = 10 \<or> double_e d = - 1074)
     \<and> de (b_plus b) = double_e d - 1 - int k \<and> de (b_w b) = double_e d - 1 - int k
     \<and> de (b_minus b) = double_e d - 1 - int k"

lemma top_range: "2 ^ 63 \<le> A \<Longrightarrow> B < 2 ^ 64 \<Longrightarrow> \<not> 2 * A \<le> (B :: nat)"
  by simp

lemma normalize_shift_unique:
  assumes "2 ^ 63 \<le> (2 * f + 1) * 2 ^ k" "(2 * f + 1) * 2 ^ k < 2 ^ 64" "0 < f"
    and "2 ^ 63 \<le> f * 2 ^ j" "f * 2 ^ j < (2 ^ 64 :: nat)"
  shows "j = k + 1 \<and> k \<le> 62"
proof -
  have k: "k \<le> 62"
  proof (rule ccontr)
    assume "\<not> k \<le> 62"
    then have "(2 :: nat) ^ 63 \<le> 2 ^ k" by (intro power_increasing) simp_all
    moreover have "3 * (2::nat) ^ k \<le> (2 * f + 1) * 2 ^ k" using assms(3) by (intro mult_right_mono) simp_all
    ultimately show False using le_less_trans[OF _ assms(2), of "3 * 2 ^ k"] by simp
  qed
  have "(2 :: nat) ^ 63 = 2 ^ (63 - k) * 2 ^ k" using k by (simp add: power_add[symmetric])
  then have "(2 :: nat) ^ (63 - k) * 2 ^ k \<le> (2 * f + 1) * 2 ^ k" using assms(1) by (simp only:)
  then have "(2 :: nat) ^ (63 - k) \<le> 2 * f + 1" by (rule mult_right_le_imp_le) simp
  moreover have "(2 :: nat) ^ (63 - k) = 2 * 2 ^ (62 - k)" using k by (simp add: power_Suc[symmetric] Suc_diff_le del: power_Suc)
  ultimately have "2 * 2 ^ (62 - k) \<le> 2 * f" by presburger
  then have "2 * 2 ^ (62 - k) * 2 ^ k \<le> 2 * f * 2 ^ k" by (intro mult_right_mono) simp_all
  moreover have "(2 :: nat) * 2 ^ (62 - k) * 2 ^ k = 2 ^ 63" using k by (simp add: power_add[symmetric])
  moreover have "f * 2 ^ (k + 1) = 2 * f * 2 ^ k" by simp
  ultimately have lo: "2 ^ 63 \<le> f * 2 ^ (k + 1)" by (simp only:)
  have hi: "f * 2 ^ (k + 1) < 2 ^ 64" using assms(2) by (simp add: algebra_simps)
  have "\<not> j < k + 1"
  proof
    assume "j < k + 1"
    then have "2 * 2 ^ j \<le> (2 :: nat) ^ (k + 1)" by (simp add: power_Suc[symmetric] del: power_Suc)
    from mult_le_mono2[OF this, of f] have "2 * (f * 2 ^ j) \<le> f * 2 ^ (k + 1)" by (simp only: mult.left_commute)
    with top_range[OF assms(4) hi] show False by contradiction
  qed
  moreover have "\<not> k + 1 < j"
  proof
    assume "k + 1 < j"
    then have "2 * 2 ^ (k + 1) \<le> (2 :: nat) ^ j" by (simp add: power_Suc[symmetric] del: power_Suc)
    from mult_le_mono2[OF this, of f] have "2 * (f * 2 ^ (k + 1)) \<le> f * 2 ^ j" by (simp only: mult.left_commute)
    with top_range[OF lo assms(5)] show False by contradiction
  qed
  ultimately show ?thesis using k by simp
qed

lemma compute_boundaries_diyfp:
  "compute_boundaries bits =
     (let v = value_diyfp bits;
          m_plus = mk_diyfp (2 * df v + 1) (de v - 1);
          m_minus = (if bits AND (hidden_bit - 1) = 0 \<and> drop_bit 52 bits > 1 then mk_diyfp (4 * df v - 1) (de v - 2)
                     else mk_diyfp (2 * df v - 1) (de v - 1))
      in Option.bind (diyfp_normalize m_plus) (\<lambda>w_plus.
         Option.bind (diyfp_normalize v) (\<lambda>w.
           Some \<lparr>b_w = w, b_minus = diyfp_normalize_to m_minus (de w_plus), b_plus = w_plus\<rparr>)))"
  by (simp add: compute_boundaries_def value_diyfp_def Let_def)

lemma lower_closer_words: "(d AND (hidden_bit - 1) = 0 \<and> drop_bit 52 d > 1) = lower_closer d"
proof -
  have "d AND (hidden_bit - 1) = 0 \<longleftrightarrow> unat (d AND (hidden_bit - 1)) = 0" by (simp add: unat_eq_zero)
  moreover have "drop_bit 52 d > 1 \<longleftrightarrow> unat (drop_bit 52 d) > 1" by (simp add: word_less_nat_alt)
  ultimately show ?thesis unfolding lower_closer_def exponent_field fraction_field by (simp only:)
qed

lemma unat_scale_word: "unat (w :: u64) < 2 ^ 53 \<Longrightarrow> c \<le> 4 \<Longrightarrow> unat (of_nat c * w) = c * unat w"
proof -
  assume w: "unat w < 2 ^ 53" and c: "c \<le> 4"
  have "unat (of_nat c :: u64) = c" using c by (simp add: unat_of_nat)
  moreover have "c * unat w \<le> 4 * 2 ^ 53" using w c by (intro mult_le_mono) simp_all
  ultimately show ?thesis using unat_mult_small[of "of_nat c" w] by simp
qed

lemma boundary_words:
  assumes "0 < unat (w :: u64)" "unat w < 2 ^ 53"
  shows "unat (2 * w + 1) = 2 * unat w + 1" "unat (2 * w - 1) = 2 * unat w - 1" "unat (4 * w - 1) = 4 * unat w - 1"
proof -
  have m: "unat (2 * w) = 2 * unat w" "unat (4 * w) = 4 * unat w"
    using unat_scale_word[OF assms(2), of 2] unat_scale_word[OF assms(2), of 4] by simp_all
  show "unat (2 * w + 1) = 2 * unat w + 1" using unat_add_small[of "2 * w" 1] m assms by simp
  show "unat (2 * w - 1) = 2 * unat w - 1" using unat_sub_small[of 1 "2 * w"] m assms by simp
  show "unat (4 * w - 1) = 4 * unat w - 1" using unat_sub_small[of 1 "4 * w"] m assms by simp
qed

lemma compute_boundaries_scaled:
  assumes "positive_double d"
  shows "\<exists>b k. compute_boundaries d = Some b \<and> scaled_boundaries d k b"
proof -
  let ?v = "value_diyfp d" and ?f = "double_f d"
  note fb = double_f_bounds[OF assms] and eb = double_e_bounds[OF assms]
  have v: "0 < unat (df ?v)" "unat (df ?v) < 2 ^ 53" using fb by (simp_all add: value_diyfp_fields)
  note bw = boundary_words[OF v, unfolded value_diyfp_fields]
  let ?mp = "mk_diyfp (2 * df ?v + 1) (de ?v - 1)"
  let ?mm = "if lower_closer d then mk_diyfp (4 * df ?v - 1) (de ?v - 2) else mk_diyfp (2 * df ?v - 1) (de ?v - 1)"
  have "df ?mp \<noteq> 0" using bw(1) by (metis diyfp.select_convs(1) mk_diyfp_def add_is_0 one_neq_zero unat_0)
  from diyfp_normalize_ends[OF this] obtain k wp where
    wp: "diyfp_normalize ?mp = Some wp" "normalized ?mp k wp" by blast
  have "df ?v \<noteq> 0" using v(1) by auto
  from diyfp_normalize_ends[OF this] obtain j w where
    w: "diyfp_normalize ?v = Some w" "normalized ?v j w" by blast
  have nwp: "unat (df wp) = (2 * ?f + 1) * 2 ^ k" "2 ^ 63 \<le> unat (df wp)" "de wp = double_e d - 1 - int k"
    using wp(2) bw(1) by (simp_all add: normalized_def mk_diyfp_def value_diyfp_fields)
  have nw: "unat (df w) = ?f * 2 ^ j" "2 ^ 63 \<le> unat (df w)" "de w = double_e d - int j"
    using w(2) by (simp_all add: normalized_def value_diyfp_fields)
  have jk: "j = k + 1" "k \<le> 62"
    using normalize_shift_unique[of ?f k j] nwp(1,2) nw(1,2) unat_u64_less[of "df wp"] unat_u64_less[of "df w"] fb
    by simp_all
  have k10: "10 \<le> k"
  proof (rule ccontr)
    assume "\<not> 10 \<le> k"
    then have "(2 :: nat) ^ k \<le> 2 ^ 9" by (intro power_increasing) simp_all
    moreover have "2 * ?f + 1 \<le> 2 ^ 54 - 1" using fb by simp
    ultimately have "(2 * ?f + 1) * 2 ^ k \<le> (2 ^ 54 - 1) * 2 ^ 9" by (rule mult_le_mono[rotated])
    then show False using nwp(1,2) by simp
  qed
  have k11: "k = 10 \<or> double_e d = - 1074"
  proof (rule ccontr)
    assume a: "\<not> (k = 10 \<or> double_e d = - 1074)"
    then have "2 ^ 52 \<le> ?f" using eb(3) by blast
    moreover have "(2 :: nat) ^ 12 \<le> 2 ^ j" using a k10 jk by (intro power_increasing) simp_all
    ultimately have "2 ^ 52 * 2 ^ 12 \<le> ?f * 2 ^ j" by (rule mult_le_mono)
    then show False using nw(1) unat_u64_less[of "df w"] by simp
  qed
  let ?b = "\<lparr>b_w = w, b_minus = diyfp_normalize_to ?mm (de wp), b_plus = wp\<rparr>"
  have "compute_boundaries d = Some ?b"
    unfolding compute_boundaries_diyfp lower_closer_words by (simp add: Let_def wp(1) w(1))
  moreover have "unat (df (diyfp_normalize_to ?mm (de wp)))
      = (if lower_closer d then (4 * ?f - 1) * 2 ^ (k - 1) else (2 * ?f - 1) * 2 ^ k)"
  proof (cases "lower_closer d")
    case True
    have "(4 * ?f - 1) * 2 ^ (k - 1) \<le> 2 * ?f * 2 ^ k"
      using k10 by (cases k) (simp_all add: algebra_simps)
    then have "unat (4 * df ?v - 1) * 2 ^ (k - 1) < 2 ^ 64"
      using nw(1) jk unat_u64_less[of "df w"] unfolding bw(3) by (simp add: ac_simps)
    from unat_push_small[OF this] True show ?thesis
      using k10 by (simp add: diyfp_normalize_to_def mk_diyfp_def nwp(3) value_diyfp_fields bw(3) nat_diff_distrib)
  next
    case False
    have "(2 * ?f - 1) * 2 ^ k \<le> 2 * ?f * 2 ^ k" by (intro mult_right_mono) simp_all
    also have "\<dots> < 2 ^ 64" using nw(1) jk unat_u64_less[of "df w"] by (simp add: ac_simps)
    finally have "unat (2 * df ?v - 1) * 2 ^ k < 2 ^ 64" unfolding bw(2) .
    from unat_push_small[OF this] False show ?thesis
      by (simp add: diyfp_normalize_to_def mk_diyfp_def nwp(3) value_diyfp_fields bw(2))
  qed
  moreover have "de (diyfp_normalize_to ?mm (de wp)) = de wp" by (simp add: diyfp_normalize_to_def mk_diyfp_def)
  ultimately have "compute_boundaries d = Some ?b \<and> scaled_boundaries d k ?b"
    using nwp nw jk k10 k11 by (simp add: scaled_boundaries_def ac_simps)
  then show ?thesis by blast
qed

subsection \<open>The boundaries times a power of ten\<close>

text \<open>What digit generation needs to know of its three arguments.\<close>

definition digit_window :: "diyfp \<Rightarrow> diyfp \<Rightarrow> diyfp \<Rightarrow> bool" where
  "digit_window M_minus w M_plus \<longleftrightarrow>
     0 < unat (df M_minus) \<and> unat (df M_minus) \<le> unat (df w) \<and> unat (df w) \<le> unat (df M_plus)
     \<and> unat (df M_minus) + 765 \<le> unat (df M_plus) \<and> 2 ^ 62 \<le> unat (df M_plus) + 1
     \<and> unat (df M_plus) < 10 ^ 16 * (unat (df M_plus) - unat (df M_minus))
     \<and> - 60 \<le> de M_plus \<and> de M_plus \<le> - 32"

definition rounded_product :: "nat \<Rightarrow> nat \<Rightarrow> nat" where
  "rounded_product X C = (X * C + 2 ^ 63) div 2 ^ 64"

lemma rounded_product_between:
  "rounded_product X C * 2 ^ 64 \<le> X * C + 2 ^ 63" "X * C < rounded_product X C * 2 ^ 64 + 2 ^ 63"
proof -
  have "X * C + 2 ^ 63 = rounded_product X C * 2 ^ 64 + (X * C + 2 ^ 63) mod 2 ^ 64"
    unfolding rounded_product_def by (rule div_mult_mod_eq[symmetric])
  moreover have "(X * C + 2 ^ 63) mod 2 ^ 64 < 2 ^ 64" by simp
  ultimately show "rounded_product X C * 2 ^ 64 \<le> X * C + 2 ^ 63" "X * C < rounded_product X C * 2 ^ 64 + 2 ^ 63"
    by simp_all
qed

lemma window_numbers:
  assumes "2 ^ 63 \<le> C" "C < 2 ^ 64" "2 ^ 63 \<le> P" "P < 2 ^ 64" "W + 2 ^ 10 \<le> P" "M + 2 ^ 9 \<le> W" "P \<le> 2 ^ 53 * (P - M)"
  defines "p \<equiv> rounded_product P C" and "w \<equiv> rounded_product W C" and "m \<equiv> rounded_product M C"
  shows "m + 1 \<le> w" "w \<le> p - 1" "m + 1 + 765 \<le> p - 1" "2 ^ 62 \<le> p" "p < 2 ^ 64"
    "p - 1 < 10 ^ 16 * (p - 1 - (m + 1))"
proof -
  note b = rounded_product_between[of P C, folded p_def] rounded_product_between[of W C, folded w_def]
    rounded_product_between[of M C, folded m_def]
  have PW: "W * C + 2 ^ 73 \<le> P * C"
  proof -
    have "2 ^ 10 * 2 ^ 63 \<le> 2 ^ 10 * C" using assms(1) by (rule mult_le_mono2)
    moreover have "(W + 2 ^ 10) * C \<le> P * C" using assms(5) by (rule mult_le_mono1)
    ultimately show ?thesis by (simp add: algebra_simps)
  qed
  have WM: "M * C + 2 ^ 72 \<le> W * C"
  proof -
    have "2 ^ 9 * 2 ^ 63 \<le> 2 ^ 9 * C" using assms(1) by (rule mult_le_mono2)
    moreover have "(M + 2 ^ 9) * C \<le> W * C" using assms(6) by (rule mult_le_mono1)
    ultimately show ?thesis by (simp add: algebra_simps)
  qed
  have lo: "2 ^ 126 \<le> P * C" using mult_le_mono[OF assms(3,1)] by simp
  have hi: "P * C \<le> (2 ^ 64 - 1) * (2 ^ 64 - 1)" using assms(2,4) by (intro mult_le_mono) simp_all
  show "m + 1 \<le> w" using b WM by simp
  show wp: "w \<le> p - 1" using b PW by simp
  show d: "m + 1 + 765 \<le> p - 1" using b PW WM by simp
  show "2 ^ 62 \<le> p" using b lo by simp
  show "p < 2 ^ 64" using b hi by simp
  have "P * C \<le> 2 ^ 53 * (P * C - M * C)"
    using mult_le_mono1[OF assms(7), of C] by (simp add: diff_mult_distrib algebra_simps)
  with b PW WM d show "p - 1 < 10 ^ 16 * (p - 1 - (m + 1))" by simp
qed

lemma window_reals:
  fixes c :: real
  assumes "\<bar>real C - c\<bar> \<le> 1 / 2" "P < 2 ^ 64" "M < 2 ^ 64" "0 < rounded_product P C"
  shows "real (rounded_product P C - 1) * 2 ^ 64 < real P * c" "real M * c < real (rounded_product M C + 1) * 2 ^ 64"
proof -
  have near: "real X * real C - 2 ^ 63 < real X * c \<and> real X * c < real X * real C + 2 ^ 63" if "X < 2 ^ 64" for X
  proof -
    have "\<bar>real X * real C - real X * c\<bar> = real X * \<bar>real C - c\<bar>" by (simp add: right_diff_distrib[symmetric] abs_mult)
    also have "\<dots> \<le> real X * (1 / 2)" using assms(1) by (intro mult_left_mono) simp_all
    also have "\<dots> < 2 ^ 63" using that by simp
    finally show ?thesis by linarith
  qed
  have "real (rounded_product P C * 2 ^ 64) \<le> real (P * C + 2 ^ 63)"
    using rounded_product_between(1)[of P C] by (simp only: of_nat_le_iff)
  with near[OF assms(2)] assms(4) show "real (rounded_product P C - 1) * 2 ^ 64 < real P * c"
    by (simp add: of_nat_diff)
  have "real (M * C) < real (rounded_product M C * 2 ^ 64 + 2 ^ 63)"
    using rounded_product_between(2)[of M C] by (simp only: of_nat_less_iff)
  with near[OF assms(3)] show "real M * c < real (rounded_product M C + 1) * 2 ^ 64" by simp
qed

lemma scaled_boundaries_order:
  assumes "scaled_boundaries d k b" "positive_double d"
  defines "P \<equiv> unat (df (b_plus b))" and "W \<equiv> unat (df (b_w b))" and "M \<equiv> unat (df (b_minus b))"
  shows "2 ^ 63 \<le> P" "W + 2 ^ 10 \<le> P" "M + 2 ^ 9 \<le> W" "P \<le> 2 ^ 53 * (P - M)"
    "- 1137 \<le> de (b_plus b)" "de (b_plus b) \<le> 960"
proof -
  let ?f = "double_f d"
  note f = double_f_bounds[OF assms(2)] and e = double_e_bounds[OF assms(2)]
  note s = assms(1)[unfolded scaled_boundaries_def, folded P_def W_def M_def]
  obtain j where j: "k = Suc j" "9 \<le> j" using s by (cases k) simp_all
  have pow: "2 ^ 9 \<le> (2 :: nat) ^ j" using j by (intro power_increasing) simp_all
  have P: "P = W + 2 * 2 ^ j" using s j by (simp add: algebra_simps)
  have M: "M + 2 ^ j \<le> W" "lower_closer d \<Longrightarrow> W = 2 ^ 54 * 2 ^ j" "\<not> lower_closer d \<Longrightarrow> M + 2 * 2 ^ j = W"
  proof -
    have "(4 * ?f - 1) * 2 ^ j + 2 ^ j = 4 * ?f * 2 ^ j" "(2 * ?f - 1) * (2 * 2 ^ j) + 2 * 2 ^ j = 2 * ?f * (2 * 2 ^ j)"
      using f by (simp_all add: diff_mult_distrib)
    with s j show "M + 2 ^ j \<le> W" "\<not> lower_closer d \<Longrightarrow> M + 2 * 2 ^ j = W" by (auto simp: algebra_simps)
    show "lower_closer d \<Longrightarrow> W = 2 ^ 54 * 2 ^ j" using s j e(4) by simp
  qed
  show "2 ^ 63 \<le> P" using s P by simp
  show "W + 2 ^ 10 \<le> P" using P pow by simp
  show "M + 2 ^ 9 \<le> W" using M(1) pow by simp
  have less: "P < 2 ^ 64" unfolding P_def by (rule unat_u64_less)
  show "P \<le> 2 ^ 53 * (P - M)"
  proof (cases "lower_closer d")
    case True
    have "3 * 2 ^ j \<le> P - M" using P M(1) by simp
    then show ?thesis using M(2)[OF True] P pow by simp
  next
    case False
    have "2 ^ 11 \<le> P - M" using P M(3)[OF False] pow by simp
    then show ?thesis using less by simp
  qed
  show "- 1137 \<le> de (b_plus b)" "de (b_plus b) \<le> 960" using s e by auto
qed

text \<open>The reals between which a correctly rounded conversion returns the double.\<close>

definition upper_boundary :: "u64 \<Rightarrow> real" where
  "upper_boundary d = (real (double_f d) + 1 / 2) * 2 powi double_e d"

definition lower_boundary :: "u64 \<Rightarrow> real" where
  "lower_boundary d = (real (double_f d) - (if lower_closer d then 1 / 4 else 1 / 2)) * 2 powi double_e d"

lemma scaled_boundaries_reals:
  assumes "scaled_boundaries d k b" "positive_double d"
  shows "real (unat (df (b_plus b))) * 2 powi de (b_plus b) = upper_boundary d"
    "real (unat (df (b_minus b))) * 2 powi de (b_plus b) = lower_boundary d"
proof -
  let ?f = "double_f d" and ?e = "2 powi double_e d :: real"
  have f: "0 < ?f" using double_f_bounds[OF assms(2)] by simp
  note s = assms(1)[unfolded scaled_boundaries_def]
  obtain j where j: "k = Suc j" using s by (cases k) simp_all
  have e: "2 powi de (b_plus b) * (2 :: real) ^ k = ?e / 2"
  proof -
    have "2 powi de (b_plus b) * (2 :: real) powi int k = 2 powi (double_e d - 1)"
      using s power_int_add[of "2 :: real" "double_e d - 1 - int k" "int k"] by simp
    then show ?thesis by (simp add: power_int_diff)
  qed
  have m: "X * 2 * 2 ^ k * 2 powi de (b_plus b) = X * ?e" for X :: real
  proof -
    have "X * 2 * 2 ^ k * 2 powi de (b_plus b) = X * 2 * (2 powi de (b_plus b) * 2 ^ k)" by simp
    then show ?thesis by (simp add: e)
  qed
  have "real (unat (df (b_plus b))) = (2 * real ?f + 1) * 2 ^ k" using s by (simp add: algebra_simps)
  then show "real (unat (df (b_plus b))) * 2 powi de (b_plus b) = upper_boundary d"
    using e by (simp add: upper_boundary_def algebra_simps)
  have "real (unat (df (b_minus b))) = (real ?f - (if lower_closer d then 1 / 4 else 1 / 2)) * 2 * 2 ^ k"
    using s f j by (auto simp: of_nat_diff algebra_simps)
  then show "real (unat (df (b_minus b))) * 2 powi de (b_plus b) = lower_boundary d"
    by (simp only: lower_boundary_def m)
qed

lemma grisu2_window:
  assumes "positive_double d"
  obtains M_minus w M_plus ck where
    "grisu2 d = map_option (\<lambda>(buf, e). (buf, - ck + e)) (grisu2_digit_gen M_minus w M_plus)"
    "digit_window M_minus w M_plus" "- 300 \<le> ck" "ck \<le> 324"
    "lower_boundary d * 10 powi ck < real (unat (df M_minus)) * 2 powi de M_plus"
    "real (unat (df M_plus)) * 2 powi de M_plus < upper_boundary d * 10 powi ck"
proof -
  obtain b k where b: "compute_boundaries d = Some b" "scaled_boundaries d k b"
    using compute_boundaries_scaled[OF assms] by blast
  note o = scaled_boundaries_order[OF b(2) assms]
  obtain cf ce ck where c: "get_cached_power_for_binary_exponent (de (b_plus b)) = (cf, ce, ck)"
    by (metis prod_cases3)
  note r = cached_power_range[OF o(5,6) c]
  let ?c = "mk_diyfp cf ce"
  let ?P = "unat (df (b_plus b))" and ?W = "unat (df (b_w b))" and ?M = "unat (df (b_minus b))" and ?C = "unat cf"
  define wp w wm where w: "wp = diyfp_mul (b_plus b) ?c" "w = diyfp_mul (b_w b) ?c" "wm = diyfp_mul (b_minus b) ?c"
  define M_minus M_plus where M: "M_minus = mk_diyfp (df wm + 1) (de wm)" "M_plus = mk_diyfp (df wp - 1) (de wp)"
  have u: "unat (df wp) = rounded_product ?P ?C" "unat (df w) = rounded_product ?W ?C"
    "unat (df wm) = rounded_product ?M ?C"
    by (simp_all only: w diyfp_mul_rounds rounded_product_def mk_diyfp_def diyfp.select_convs)
  note n = window_numbers[OF r(1) unat_u64_less o(1) unat_u64_less o(2,3,4), folded u]
  have m: "unat (df M_minus) = unat (df wm) + 1"
    using unat_add_small[of "df wm" 1] n(1) unat_u64_less[of "df w"] by (simp add: M mk_diyfp_def)
  have p: "unat (df M_plus) = unat (df wp) - 1"
    using unat_sub_small[of 1 "df wp"] n(4) by (simp add: M mk_diyfp_def)
  have e: "de M_plus = ce + de (b_plus b) + 64" by (simp add: M w diyfp_mul_def mk_diyfp_def Let_def)
  have "grisu2 d = map_option (\<lambda>(buf, e). (buf, - ck + e)) (grisu2_digit_gen M_minus w M_plus)"
    by (simp add: grisu2_def b(1) grisu2_scaled_def c Let_def M w)
  moreover have "digit_window M_minus w M_plus"
    unfolding digit_window_def m p e using n r(2,3) by simp
  moreover note r(4,5)
  moreover have "lower_boundary d * 10 powi ck < real (unat (df M_minus)) * 2 powi de M_plus
    \<and> real (unat (df M_plus)) * 2 powi de M_plus < upper_boundary d * 10 powi ck"
  proof -
    let ?c = "10 powi ck * 2 powi (- ce) :: real" and ?t = "2 powi (ce + de (b_plus b)) :: real"
    have s: "X * ?c * ?t = X * 2 powi de (b_plus b) * 10 powi ck" for X
      using power_int_add[of "2 :: real" "- ce" "ce + de (b_plus b)"] by simp
    have t: "X * 2 powi de M_plus = X * 2 ^ 64 * ?t" for X :: real
      using power_int_add[of "2 :: real" "ce + de (b_plus b)" 64] unfolding e by simp
    have pos: "0 < ?t" by simp
    have "0 < rounded_product ?P ?C" using n(4) u(1) by simp
    note wr = window_reals[of ?C _ ?P ?M, OF cached_power_accurate[OF r(6)] unat_u64_less unat_u64_less this, folded u]
    from mult_strict_right_mono[OF wr(1) pos] mult_strict_right_mono[OF wr(2) pos]
    show ?thesis unfolding m p t scaled_boundaries_reals[OF b(2) assms, symmetric] s by blast
  qed
  ultimately show thesis using that by blast
qed
end
