(* ===== verification/Lexer.thy ===== *)
theory Lexer
  imports Json
begin

unbundle bit_operations_syntax

section \<open>JSON text: the lexer\<close>

text \<open>
  Models \<open>detail::lexer\<close> of \<open>src/external/nlohmann/json.h\<close> over a buffer of bytes
  (\<open>input_buffer_adapter\<close>): its input management with \<open>get()\<close>, \<open>unget()\<close> and the position it
  counts, the scanners of strings, numbers and literals, and \<open>scan()\<close>. A byte is a \<open>char\<close>, the
  end of the input (\<open>eof()\<close>) is \<open>None\<close>, a label the scanner of numbers jumps to is a constructor.
  \<open>std::strtod\<close> is the parameter \<open>strtod\<close>; \<open>strtoull\<close> and \<open>strtoll\<close>, which the scanner calls on
  digits only, are written out. The decimal point of the locale is a field of the lexer.
\<close>

subsection \<open>Tokens\<close>

datatype token_type =
    T_uninitialized | T_literal_true | T_literal_false | T_literal_null | T_value_string
  | T_value_unsigned | T_value_integer | T_value_float | T_begin_array | T_begin_object
  | T_end_array | T_end_object | T_name_separator | T_value_separator | T_parse_error
  | T_end_of_input | T_literal_or_value

abbreviation quote_char :: char where
  "quote_char \<equiv> CHR 0x27"

abbreviation newline_char :: char where
  "newline_char \<equiv> CHR 0x0A"

abbreviation backslash_char :: char where
  "backslash_char \<equiv> CHR 0x5C"

definition code :: "char \<Rightarrow> nat" where
  "code c = of_char c"

fun token_type_name :: "token_type \<Rightarrow> string" where
  "token_type_name T_uninitialized = ''<uninitialized>''"
| "token_type_name T_literal_true = ''true literal''"
| "token_type_name T_literal_false = ''false literal''"
| "token_type_name T_literal_null = ''null literal''"
| "token_type_name T_value_string = ''string literal''"
| "token_type_name T_value_unsigned = ''number literal''"
| "token_type_name T_value_integer = ''number literal''"
| "token_type_name T_value_float = ''number literal''"
| "token_type_name T_begin_array = [quote_char, CHR ''['', quote_char]"
| "token_type_name T_begin_object = [quote_char, CHR ''{'', quote_char]"
| "token_type_name T_end_array = [quote_char, CHR '']'', quote_char]"
| "token_type_name T_end_object = [quote_char, CHR ''}'', quote_char]"
| "token_type_name T_name_separator = [quote_char, CHR '':'', quote_char]"
| "token_type_name T_value_separator = [quote_char, CHR '','', quote_char]"
| "token_type_name T_parse_error = ''<parse error>''"
| "token_type_name T_end_of_input = ''end of input''"
| "token_type_name T_literal_or_value =
     [quote_char, CHR ''['', quote_char] @ '', '' @ [quote_char, CHR ''{'', quote_char] @ '', or a literal''"

subsection \<open>Input management\<close>

record lexer =
  lx_input :: string
  lx_current :: "char option"
  lx_unget :: bool
  lx_total :: nat
  lx_column :: nat
  lx_lines :: nat
  lx_token :: string
  lx_buffer :: string
  lx_error :: string
  lx_integer :: u64
  lx_unsigned :: u64
  lx_float :: u64
  lx_point :: char

definition new_lexer :: "char \<Rightarrow> string \<Rightarrow> lexer" where
  "new_lexer point t =
     \<lparr>lx_input = t, lx_current = None, lx_unget = False, lx_total = 0, lx_column = 0, lx_lines = 0,
      lx_token = [], lx_buffer = [], lx_error = [], lx_integer = 0, lx_unsigned = 0, lx_float = 0,
      lx_point = point\<rparr>"

definition lx_get :: "lexer \<Rightarrow> lexer" where
  "lx_get lx =
     (let lx1 = lx\<lparr>lx_total := lx_total lx + 1, lx_column := lx_column lx + 1\<rparr>;
          lx2 = (if lx_unget lx1 then lx1\<lparr>lx_unget := False\<rparr>
                 else (case lx_input lx1 of
                         [] \<Rightarrow> lx1\<lparr>lx_current := None\<rparr>
                       | c # cs \<Rightarrow> lx1\<lparr>lx_current := Some c, lx_input := cs\<rparr>));
          lx3 = (case lx_current lx2 of
                   None \<Rightarrow> lx2
                 | Some c \<Rightarrow> lx2\<lparr>lx_token := lx_token lx2 @ [c]\<rparr>)
      in if lx_current lx3 = Some newline_char
         then lx3\<lparr>lx_lines := lx_lines lx3 + 1, lx_column := 0\<rparr> else lx3)"

definition lx_unget_char :: "lexer \<Rightarrow> lexer" where
  "lx_unget_char lx =
     (let lx1 = lx\<lparr>lx_unget := True, lx_total := lx_total lx - 1\<rparr>;
          lx2 = (if lx_column lx1 = 0
                 then (if lx_lines lx1 > 0 then lx1\<lparr>lx_lines := lx_lines lx1 - 1\<rparr> else lx1)
                 else lx1\<lparr>lx_column := lx_column lx1 - 1\<rparr>)
      in if lx_current lx2 \<noteq> None then lx2\<lparr>lx_token := butlast (lx_token lx2)\<rparr> else lx2)"

text \<open>
  \<open>reset()\<close> pushes \<open>current\<close>, which both callers have just found to be a character, never
  \<open>eof()\<close>.
\<close>

definition lx_reset :: "lexer \<Rightarrow> lexer" where
  "lx_reset lx =
     lx\<lparr>lx_buffer := [], lx_token := (case lx_current lx of None \<Rightarrow> [] | Some c \<Rightarrow> [c])\<rparr>"

definition lx_add :: "char \<Rightarrow> lexer \<Rightarrow> lexer" where
  "lx_add c lx = lx\<lparr>lx_buffer := lx_buffer lx @ [c]\<rparr>"

text \<open>\<open>add(current)\<close>.\<close>

definition lx_add_current :: "lexer \<Rightarrow> lexer" where
  "lx_add_current lx = (case lx_current lx of None \<Rightarrow> lx | Some c \<Rightarrow> lx_add c lx)"

definition fail_with :: "string \<Rightarrow> lexer \<Rightarrow> lexer" where
  "fail_with m lx = lx\<lparr>lx_error := m\<rparr>"

definition hex_upper :: "nat \<Rightarrow> char" where
  "hex_upper d = (if d < 10 then char_of (48 + d) else char_of (55 + d))"

definition hex4_upper :: "nat \<Rightarrow> string" where
  "hex4_upper n =
     [hex_upper (n div 4096 mod 16), hex_upper (n div 256 mod 16), hex_upper (n div 16 mod 16),
      hex_upper (n mod 16)]"

text \<open>\<open>get_token_string()\<close>: control characters are shown by their code.\<close>

definition get_token_string :: "lexer \<Rightarrow> string" where
  "get_token_string lx =
     concat (map (\<lambda>c. if code c \<le> 0x1F then ''<U+'' @ hex4_upper (code c) @ ''>'' else [c])
       (lx_token lx))"

subsection \<open>What is left of the input\<close>

text \<open>
  The characters the next calls of \<open>get()\<close> return. \<open>lx_ok\<close> says that the end of the input is
  not taken back while there are characters left, which \<open>unget()\<close> right after \<open>get()\<close> ensures.
\<close>

definition lx_rest :: "lexer \<Rightarrow> string" where
  "lx_rest lx =
     (if lx_unget lx then (case lx_current lx of None \<Rightarrow> lx_input lx | Some c \<Rightarrow> c # lx_input lx)
      else lx_input lx)"

definition lx_ok :: "lexer \<Rightarrow> bool" where
  "lx_ok lx \<longleftrightarrow> lx_unget lx \<longrightarrow> lx_current lx = None \<longrightarrow> lx_input lx = []"

lemma lx_current_get:
  "lx_current (lx_get lx) =
     (if lx_unget lx then lx_current lx
      else (case lx_input lx of [] \<Rightarrow> None | c # cs \<Rightarrow> Some c))"
  by (simp add: lx_get_def Let_def split: option.split list.split)

lemma lx_input_get: "lx_input (lx_get lx) = (if lx_unget lx then lx_input lx else tl (lx_input lx))"
  by (simp add: lx_get_def Let_def split: option.split list.split)

lemma lx_unget_get [simp]: "lx_unget (lx_get lx) = False"
  by (simp add: lx_get_def Let_def split: option.split list.split)

lemma lx_get_Some:
  "lx_current (lx_get lx) = Some c \<Longrightarrow> lx_rest lx = c # lx_rest (lx_get lx)"
  by (auto simp: lx_current_get lx_input_get lx_rest_def split: option.splits list.splits if_splits)

lemma lx_get_shrinks:
  "lx_current (lx_get lx) \<noteq> None \<Longrightarrow> length (lx_rest (lx_get lx)) < length (lx_rest lx)"
  using lx_get_Some by fastforce

lemma lx_get_fields [simp]:
  "lx_buffer (lx_get lx) = lx_buffer lx" "lx_error (lx_get lx) = lx_error lx"
  "lx_integer (lx_get lx) = lx_integer lx" "lx_unsigned (lx_get lx) = lx_unsigned lx"
  "lx_float (lx_get lx) = lx_float lx" "lx_point (lx_get lx) = lx_point lx"
  "lx_total (lx_get lx) = Suc (lx_total lx)"
  by (auto simp: lx_get_def Let_def split: option.splits list.splits)

lemma lx_update_fields [simp]:
  "lx_rest (lx_add c lx) = lx_rest lx" "lx_rest (lx_reset lx) = lx_rest lx"
  "lx_rest (fail_with m lx) = lx_rest lx" "lx_rest (lx_add_current lx) = lx_rest lx"
  "lx_total (lx_add c lx) = lx_total lx" "lx_total (lx_reset lx) = lx_total lx"
  "lx_total (fail_with m lx) = lx_total lx" "lx_total (lx_add_current lx) = lx_total lx"
  "lx_current (lx_add c lx) = lx_current lx" "lx_current (lx_reset lx) = lx_current lx"
  "lx_current (fail_with m lx) = lx_current lx" "lx_current (lx_add_current lx) = lx_current lx"
  "lx_unget (lx_add c lx) = lx_unget lx" "lx_unget (lx_reset lx) = lx_unget lx"
  "lx_unget (fail_with m lx) = lx_unget lx" "lx_unget (lx_add_current lx) = lx_unget lx"
  "lx_input (lx_add c lx) = lx_input lx" "lx_input (lx_reset lx) = lx_input lx"
  "lx_input (fail_with m lx) = lx_input lx" "lx_input (lx_add_current lx) = lx_input lx"
  by (auto simp: lx_add_def lx_reset_def fail_with_def lx_add_current_def lx_rest_def
      split: option.splits)

text \<open>
  What a scanner does to the input: \<open>reads True\<close> when it never met the end of the input,
  \<open>reads False\<close> when it may have read \<open>eof()\<close> once.
\<close>

definition lx_span :: "lexer \<Rightarrow> nat" where
  "lx_span lx = lx_total lx + length (lx_rest lx)"

definition reads :: "bool \<Rightarrow> lexer \<Rightarrow> lexer \<Rightarrow> bool" where
  "reads ok lx lx1 \<longleftrightarrow>
     length (lx_rest lx1) \<le> length (lx_rest lx)
     \<and> (if ok then lx_span lx1 = lx_span lx else lx_span lx1 \<le> Suc (lx_span lx))"

lemma reads_refl [simp]: "reads ok lx lx"
  by (simp add: reads_def)

lemma reads_trans: "reads True lx lx1 \<Longrightarrow> reads ok lx1 lx2 \<Longrightarrow> reads ok lx lx2"
  by (auto simp: reads_def)

lemma reads_weaken: "reads ok lx lx1 \<Longrightarrow> reads False lx lx1"
  by (auto simp: reads_def split: if_splits)

lemma reads_update [simp]:
  "reads ok lx (lx_add c lx1) = reads ok lx lx1" "reads ok lx (fail_with m lx1) = reads ok lx lx1"
  "reads ok lx (lx_add_current lx1) = reads ok lx lx1" "reads ok lx (lx_reset lx1) = reads ok lx lx1"
  "reads ok (lx_add c lx) lx1 = reads ok lx lx1" "reads ok (lx_reset lx) lx1 = reads ok lx lx1"
  "reads ok (lx_add_current lx) lx1 = reads ok lx lx1"
  by (simp_all add: reads_def lx_span_def)

lemma reads_get: "reads (lx_current (lx_get lx) \<noteq> None) lx (lx_get lx)"
proof (cases "lx_current (lx_get lx)")
  case None
  then show ?thesis
    by (auto simp: reads_def lx_span_def lx_current_get lx_input_get lx_rest_def
        split: option.splits list.splits if_splits)
next
  case (Some c)
  from lx_get_Some[OF this] Some show ?thesis by (simp add: reads_def lx_span_def)
qed

lemma reads_get_Some: "lx_current (lx_get lx) = Some c \<Longrightarrow> reads True lx (lx_get lx)"
  using reads_get[of lx] by simp

lemma reads_get_any: "reads False lx (lx_get lx)"
  using reads_get reads_weaken by blast

lemma reads_length: "reads ok lx lx1 \<Longrightarrow> length (lx_rest lx1) \<le> length (lx_rest lx)"
  by (simp add: reads_def)

subsection \<open>scan_string\<close>

text \<open>\<open>get_codepoint\<close>: \<open>None\<close> is the \<open>-1\<close> of a character that is not a hexadecimal digit.\<close>

definition hex_value :: "char \<Rightarrow> nat option" where
  "hex_value c =
     (if CHR ''0'' \<le> c \<and> c \<le> CHR ''9'' then Some (code c - 0x30)
      else if CHR ''A'' \<le> c \<and> c \<le> CHR ''F'' then Some (code c - 0x37)
      else if CHR ''a'' \<le> c \<and> c \<le> CHR ''f'' then Some (code c - 0x57)
      else None)"

fun get_codepoint_from :: "nat list \<Rightarrow> nat \<Rightarrow> lexer \<Rightarrow> nat option \<times> lexer" where
  "get_codepoint_from [] codepoint lx = (Some codepoint, lx)"
| "get_codepoint_from (factor # factors) codepoint lx =
     (let lx1 = lx_get lx
      in case Option.bind (lx_current lx1) hex_value of
           None \<Rightarrow> (None, lx1)
         | Some d \<Rightarrow> get_codepoint_from factors (codepoint + push_bit factor d) lx1)"

definition get_codepoint :: "lexer \<Rightarrow> nat option \<times> lexer" where
  "get_codepoint lx = get_codepoint_from [12, 8, 4, 0] 0 lx"

definition bad_utf8 :: string where
  "bad_utf8 = ''invalid string: ill-formed UTF-8 byte''"

text \<open>The loop of \<open>next_byte_in_range\<close> over the pairs of bounds.\<close>

fun bytes_in_ranges :: "(nat \<times> nat) list \<Rightarrow> lexer \<Rightarrow> bool \<times> lexer" where
  "bytes_in_ranges [] lx = (True, lx)"
| "bytes_in_ranges ((lo, hi) # ranges) lx =
     (let lx1 = lx_get lx
      in case lx_current lx1 of
           None \<Rightarrow> (False, fail_with bad_utf8 lx1)
         | Some c \<Rightarrow>
             if lo \<le> code c \<and> code c \<le> hi then bytes_in_ranges ranges (lx_add c lx1)
             else (False, fail_with bad_utf8 lx1))"

definition next_byte_in_range :: "(nat \<times> nat) list \<Rightarrow> lexer \<Rightarrow> bool \<times> lexer" where
  "next_byte_in_range ranges lx = bytes_in_ranges ranges (lx_add_current lx)"

text \<open>The bytes of a code point, as the end of the \<open>\\u\<close> escape adds them.\<close>

definition utf8_bytes :: "nat \<Rightarrow> string" where
  "utf8_bytes cp =
     (if cp < 0x80 then [char_of cp]
      else if cp \<le> 0x7FF then
        [char_of (0xC0 OR drop_bit 6 cp), char_of (0x80 OR (cp AND 0x3F))]
      else if cp \<le> 0xFFFF then
        [char_of (0xE0 OR drop_bit 12 cp), char_of (0x80 OR (drop_bit 6 cp AND 0x3F)),
         char_of (0x80 OR (cp AND 0x3F))]
      else
        [char_of (0xF0 OR drop_bit 18 cp), char_of (0x80 OR (drop_bit 12 cp AND 0x3F)),
         char_of (0x80 OR (drop_bit 6 cp AND 0x3F)), char_of (0x80 OR (cp AND 0x3F))])"

definition add_codepoint :: "nat \<Rightarrow> lexer \<Rightarrow> lexer" where
  "add_codepoint cp lx = fold lx_add (utf8_bytes cp) lx"

definition escape_u :: string where
  "escape_u = [backslash_char, CHR ''u'']"

definition no_hex_digits :: string where
  "no_hex_digits = ''invalid string: '' @ [quote_char] @ escape_u @ [quote_char]
     @ '' must be followed by 4 hex digits''"

definition no_low_surrogate :: string where
  "no_low_surrogate =
     ''invalid string: surrogate U+DC00..U+DFFF must be followed by U+DC00..U+DFFF''"

definition no_high_surrogate :: string where
  "no_high_surrogate =
     ''invalid string: surrogate U+DC00..U+DFFF must follow U+D800..U+DBFF''"

text \<open>The case of \<open>\\u\<close>; \<open>False\<close> is the return of \<open>parse_error\<close>.\<close>

definition scan_unicode :: "lexer \<Rightarrow> bool \<times> lexer" where
  "scan_unicode lx =
     (case get_codepoint lx of
        (None, lx1) \<Rightarrow> (False, fail_with no_hex_digits lx1)
      | (Some codepoint1, lx1) \<Rightarrow>
          if 0xD800 \<le> codepoint1 \<and> codepoint1 \<le> 0xDBFF then
            (let lx2 = lx_get lx1
             in if lx_current lx2 \<noteq> Some backslash_char then (False, fail_with no_low_surrogate lx2)
                else
                  (let lx3 = lx_get lx2
                   in if lx_current lx3 \<noteq> Some CHR ''u'' then (False, fail_with no_low_surrogate lx3)
                      else
                        (case get_codepoint lx3 of
                           (None, lx4) \<Rightarrow> (False, fail_with no_hex_digits lx4)
                         | (Some codepoint2, lx4) \<Rightarrow>
                             if 0xDC00 \<le> codepoint2 \<and> codepoint2 \<le> 0xDFFF then
                               (True, add_codepoint (push_bit 10 codepoint1 + codepoint2 - 0x35FDC00) lx4)
                             else (False, fail_with no_low_surrogate lx4))))
          else if 0xDC00 \<le> codepoint1 \<and> codepoint1 \<le> 0xDFFF then
            (False, fail_with no_high_surrogate lx1)
          else (True, add_codepoint codepoint1 lx1))"

text \<open>The case of a backslash.\<close>

definition scan_escape :: "lexer \<Rightarrow> bool \<times> lexer" where
  "scan_escape lx =
     (let lx1 = lx_get lx
      in if lx_current lx1 = Some CHR 0x22 then (True, lx_add CHR 0x22 lx1)
         else if lx_current lx1 = Some backslash_char then (True, lx_add backslash_char lx1)
         else if lx_current lx1 = Some CHR ''/'' then (True, lx_add CHR ''/'' lx1)
         else if lx_current lx1 = Some CHR ''b'' then (True, lx_add CHR 0x08 lx1)
         else if lx_current lx1 = Some CHR ''f'' then (True, lx_add CHR 0x0C lx1)
         else if lx_current lx1 = Some CHR ''n'' then (True, lx_add CHR 0x0A lx1)
         else if lx_current lx1 = Some CHR ''r'' then (True, lx_add CHR 0x0D lx1)
         else if lx_current lx1 = Some CHR ''t'' then (True, lx_add CHR 0x09 lx1)
         else if lx_current lx1 = Some CHR ''u'' then scan_unicode lx1
         else (False, fail_with ''invalid string: forbidden character after backslash'' lx1))"

definition control_names :: "string list" where
  "control_names =
     [''NUL'', ''SOH'', ''STX'', ''ETX'', ''EOT'', ''ENQ'', ''ACK'', ''BEL'',
      ''BS'', ''HT'', ''LF'', ''VT'', ''FF'', ''CR'', ''SO'', ''SI'',
      ''DLE'', ''DC1'', ''DC2'', ''DC3'', ''DC4'', ''NAK'', ''SYN'', ''ETB'',
      ''CAN'', ''EM'', ''SUB'', ''ESC'', ''FS'', ''GS'', ''RS'', ''US'']"

definition short_escape :: "nat \<Rightarrow> string" where
  "short_escape n =
     (if n = 0x08 then '' or '' @ [backslash_char, CHR ''b'']
      else if n = 0x09 then '' or '' @ [backslash_char, CHR ''t'']
      else if n = 0x0A then '' or '' @ [backslash_char, CHR ''n'']
      else if n = 0x0C then '' or '' @ [backslash_char, CHR ''f'']
      else if n = 0x0D then '' or '' @ [backslash_char, CHR ''r'']
      else [])"

definition control_error :: "nat \<Rightarrow> string" where
  "control_error n =
     ''invalid string: control character U+'' @ hex4_upper n @ '' ('' @ control_names ! n
       @ '') must be escaped to '' @ escape_u @ hex4_upper n @ short_escape n"

text \<open>The ranges of the bytes that follow a first byte \<open>0xC2\<close> to \<open>0xF4\<close>.\<close>

definition utf8_ranges :: "nat \<Rightarrow> (nat \<times> nat) list option" where
  "utf8_ranges b =
     (if 0xC2 \<le> b \<and> b \<le> 0xDF then Some [(0x80, 0xBF)]
      else if b = 0xE0 then Some [(0xA0, 0xBF), (0x80, 0xBF)]
      else if 0xE1 \<le> b \<and> b \<le> 0xEC \<or> b = 0xEE \<or> b = 0xEF then Some [(0x80, 0xBF), (0x80, 0xBF)]
      else if b = 0xED then Some [(0x80, 0x9F), (0x80, 0xBF)]
      else if b = 0xF0 then Some [(0x90, 0xBF), (0x80, 0xBF), (0x80, 0xBF)]
      else if 0xF1 \<le> b \<and> b \<le> 0xF3 then Some [(0x80, 0xBF), (0x80, 0xBF), (0x80, 0xBF)]
      else if b = 0xF4 then Some [(0x80, 0x8F), (0x80, 0xBF), (0x80, 0xBF)]
      else None)"

text \<open>The cases of the \<open>switch\<close> after the end of the input and the closing quote.\<close>

definition scan_char :: "char \<Rightarrow> lexer \<Rightarrow> bool \<times> lexer" where
  "scan_char c lx =
     (if c = backslash_char then scan_escape lx
      else if code c \<le> 0x1F then (False, fail_with (control_error (code c)) lx)
      else if code c \<le> 0x7F then (True, lx_add c lx)
      else (case utf8_ranges (code c) of
              Some ranges \<Rightarrow> next_byte_in_range ranges lx
            | None \<Rightarrow> (False, fail_with bad_utf8 lx)))"

lemma get_codepoint_from_reads:
  "get_codepoint_from fs n lx = (r, lx1) \<Longrightarrow> reads (r \<noteq> None) lx lx1"
proof (induction fs arbitrary: n lx)
  case (Cons f fs)
  show ?case
  proof (cases "Option.bind (lx_current (lx_get lx)) hex_value")
    case None
    then show ?thesis using Cons.prems reads_get_any by (auto simp: Let_def)
  next
    case (Some d)
    then obtain c where "lx_current (lx_get lx) = Some c" by (auto simp: bind_eq_Some_conv)
    then have "reads True lx (lx_get lx)" by (rule reads_get_Some)
    then show ?thesis using Cons Some by (auto simp: Let_def elim: reads_trans)
  qed
qed auto

lemma get_codepoint_reads: "get_codepoint lx = (r, lx1) \<Longrightarrow> reads (r \<noteq> None) lx lx1"
  unfolding get_codepoint_def by (rule get_codepoint_from_reads)

lemma bytes_in_ranges_reads: "bytes_in_ranges rs lx = (ok, lx1) \<Longrightarrow> reads ok lx lx1"
proof (induction rs arbitrary: lx)
  case (Cons r rs)
  obtain lo hi where r: "r = (lo, hi)" by (cases r)
  show ?case
  proof (cases "lx_current (lx_get lx)")
    case None
    then show ?thesis using Cons.prems reads_get_any by (auto simp: r Let_def)
  next
    case (Some c)
    then have get: "reads True lx (lx_get lx)" by (rule reads_get_Some)
    show ?thesis
    proof (cases "lo \<le> code c \<and> code c \<le> hi")
      case True
      then have "bytes_in_ranges rs (lx_add c (lx_get lx)) = (ok, lx1)"
        using Cons.prems Some by (simp add: r Let_def)
      from Cons.IH[OF this] have "reads ok (lx_get lx) lx1" by simp
      with get show ?thesis by (rule reads_trans)
    next
      case False
      then have "ok = False" "lx1 = fail_with bad_utf8 (lx_get lx)"
        using Cons.prems Some by (auto simp: r Let_def)
      then show ?thesis using reads_get_any by simp
    qed
  qed
qed auto

lemma fold_add_fields [simp]:
  "lx_rest (fold lx_add s lx) = lx_rest lx" "lx_total (fold lx_add s lx) = lx_total lx"
  "lx_current (fold lx_add s lx) = lx_current lx" "lx_unget (fold lx_add s lx) = lx_unget lx"
  "lx_input (fold lx_add s lx) = lx_input lx"
  by (induction s arbitrary: lx) auto

lemma add_codepoint_reads [simp]: "reads ok lx (add_codepoint cp lx1) = reads ok lx lx1"
  by (simp add: add_codepoint_def reads_def lx_span_def)

lemma scan_unicode_reads: "scan_unicode lx = (ok, lx1) \<Longrightarrow> reads ok lx lx1"
proof -
  assume s: "scan_unicode lx = (ok, lx1)"
  obtain r lx2 where g: "get_codepoint lx = (r, lx2)" by (cases "get_codepoint lx")
  obtain r' lx4 where g': "get_codepoint (lx_get (lx_get lx2)) = (r', lx4)"
    by (cases "get_codepoint (lx_get (lx_get lx2))")
  note R = get_codepoint_reads[OF g] and R' = get_codepoint_reads[OF g']
  show ?thesis
  proof (cases "\<exists>cp. r = Some cp \<and> 0xD800 \<le> cp \<and> cp \<le> 0xDBFF")
    case False
    then show ?thesis using s g R by (cases r) (auto simp: scan_unicode_def split: if_splits dest: reads_weaken)
  next
    case True
    then obtain cp where r: "r = Some cp" "0xD800 \<le> cp \<and> cp \<le> 0xDBFF" by blast
    from R r have R1: "reads True lx lx2" by simp
    show ?thesis
    proof (cases "lx_current (lx_get lx2) = Some backslash_char")
      case False
      then have "ok = False" "lx1 = fail_with no_low_surrogate (lx_get lx2)"
        using s g r by (auto simp: scan_unicode_def Let_def)
      then show ?thesis using reads_trans[OF R1 reads_get_any] by simp
    next
      case b: True
      have R2: "reads True lx (lx_get lx2)" by (rule reads_trans[OF R1 reads_get_Some[OF b]])
      show ?thesis
      proof (cases "lx_current (lx_get (lx_get lx2)) = Some CHR ''u''")
        case False
        then have "ok = False" "lx1 = fail_with no_low_surrogate (lx_get (lx_get lx2))"
          using s g r b by (auto simp: scan_unicode_def Let_def)
        then show ?thesis using reads_trans[OF R2 reads_get_any] by simp
      next
        case u: True
        have R3: "reads True lx (lx_get (lx_get lx2))"
          by (rule reads_trans[OF R2 reads_get_Some[OF u]])
        have "reads ok lx lx4"
          using s g r b u g' reads_trans[OF R3 R']
          by (cases r') (auto simp: scan_unicode_def Let_def split: if_splits dest: reads_weaken)
        then show ?thesis using s g r b u g'
          by (cases r') (auto simp: scan_unicode_def Let_def split: if_splits)
      qed
    qed
  qed
qed

lemma scan_escape_reads: "scan_escape lx = (ok, lx1) \<Longrightarrow> reads ok lx lx1"
proof -
  assume s: "scan_escape lx = (ok, lx1)"
  show ?thesis
  proof (cases "lx_current (lx_get lx) = Some CHR ''u''")
    case True
    then have "scan_unicode (lx_get lx) = (ok, lx1)" using s by (simp add: scan_escape_def Let_def)
    then show ?thesis by (rule reads_trans[OF reads_get_Some[OF True] scan_unicode_reads])
  next
    case False
    then show ?thesis using s reads_get_Some[of lx] reads_get_any[of lx]
      by (auto simp: scan_escape_def Let_def split: if_splits)
  qed
qed

lemma scan_char_reads: "scan_char c lx = (ok, lx1) \<Longrightarrow> reads ok lx lx1"
  by (auto simp: scan_char_def next_byte_in_range_def split: if_splits option.splits
      dest: scan_escape_reads bytes_in_ranges_reads)

function scan_string_loop :: "lexer \<Rightarrow> token_type \<times> lexer" where
  "scan_string_loop lx =
     (let lx1 = lx_get lx
      in case lx_current lx1 of
           None \<Rightarrow> (T_parse_error, fail_with ''invalid string: missing closing quote'' lx1)
         | Some c \<Rightarrow>
             if c = CHR 0x22 then (T_value_string, lx1)
             else (case scan_char c lx1 of
                     (False, lx2) \<Rightarrow> (T_parse_error, lx2)
                   | (True, lx2) \<Rightarrow> scan_string_loop lx2))"
  by pat_completeness auto
termination scan_string_loop
proof (relation "measure (\<lambda>lx. length (lx_rest lx))", goal_cases)
  case prems: (2 lx lx1 c ok lx2)
  have "scan_char c lx1 = (True, lx2)" using prems by auto
  then have "length (lx_rest lx2) \<le> length (lx_rest lx1)"
    using scan_char_reads reads_length by blast
  also have "\<dots> < length (lx_rest lx)"
    using lx_get_shrinks[of lx] prems by simp
  finally show ?case by simp
qed simp

declare scan_string_loop.simps [simp del]

definition scan_string :: "lexer \<Rightarrow> token_type \<times> lexer" where
  "scan_string lx = scan_string_loop (lx_reset lx)"
subsection \<open>scan_number\<close>

text \<open>
  The labels \<open>scan_number_minus\<close> to \<open>scan_number_any2\<close>. What a label does with the next
  character: jump to another label after adding it, be done, or fail.
\<close>

datatype number_state =
    N_minus | N_zero | N_any1 | N_decimal1 | N_decimal2 | N_exponent | N_sign | N_any2

datatype number_action = N_goto number_state | N_done | N_error string

definition is_digit :: "char option \<Rightarrow> bool" where
  "is_digit c = (case c of None \<Rightarrow> False | Some d \<Rightarrow> CHR ''0'' \<le> d \<and> d \<le> CHR ''9'')"

definition is_digit19 :: "char option \<Rightarrow> bool" where
  "is_digit19 c = (case c of None \<Rightarrow> False | Some d \<Rightarrow> CHR ''1'' \<le> d \<and> d \<le> CHR ''9'')"

definition is_exponent :: "char option \<Rightarrow> bool" where
  "is_exponent c \<longleftrightarrow> c = Some CHR ''e'' \<or> c = Some CHR ''E''"

fun number_step :: "number_state \<Rightarrow> char option \<Rightarrow> number_action" where
  "number_step N_minus c =
     (if c = Some CHR ''0'' then N_goto N_zero
      else if is_digit19 c then N_goto N_any1
      else N_error (''invalid number; expected digit after '' @ [quote_char, CHR ''-'', quote_char]))"
| "number_step N_zero c =
     (if c = Some CHR ''.'' then N_goto N_decimal1
      else if is_exponent c then N_goto N_exponent
      else N_done)"
| "number_step N_any1 c =
     (if is_digit c then N_goto N_any1
      else if c = Some CHR ''.'' then N_goto N_decimal1
      else if is_exponent c then N_goto N_exponent
      else N_done)"
| "number_step N_decimal1 c =
     (if is_digit c then N_goto N_decimal2
      else N_error (''invalid number; expected digit after '' @ [quote_char, CHR ''.'', quote_char]))"
| "number_step N_decimal2 c =
     (if is_digit c then N_goto N_decimal2
      else if is_exponent c then N_goto N_exponent
      else N_done)"
| "number_step N_exponent c =
     (if c = Some CHR ''+'' \<or> c = Some CHR ''-'' then N_goto N_sign
      else if is_digit c then N_goto N_any2
      else N_error (''invalid number; expected '' @ [quote_char, CHR ''+'', quote_char] @ '', ''
        @ [quote_char, CHR ''-'', quote_char] @ '', or digit after exponent''))"
| "number_step N_sign c =
     (if is_digit c then N_goto N_any2
      else N_error ''invalid number; expected digit after exponent sign'')"
| "number_step N_any2 c =
     (if is_digit c then N_goto N_any2 else N_done)"

text \<open>The assignment to \<open>number_type\<close> some labels start with.\<close>

fun number_type_at :: "number_state \<Rightarrow> token_type \<Rightarrow> token_type" where
  "number_type_at N_minus t = T_value_integer"
| "number_type_at N_decimal1 t = T_value_float"
| "number_type_at N_exponent t = T_value_float"
| "number_type_at _ t = t"

text \<open>\<open>add(current)\<close>, or the locale's decimal point for a dot.\<close>

definition add_number_char :: "lexer \<Rightarrow> lexer" where
  "add_number_char lx =
     (if lx_current lx = Some CHR ''.'' then lx_add (lx_point lx) lx else lx_add_current lx)"

lemma add_number_char_rest [simp]: "lx_rest (add_number_char lx) = lx_rest lx"
  by (simp add: add_number_char_def)

lemma number_step_None: "number_step st None \<noteq> N_goto st'"
  by (cases st) (simp_all add: is_digit_def is_digit19_def is_exponent_def)

function scan_number_from :: "number_state \<Rightarrow> token_type \<Rightarrow> lexer \<Rightarrow> token_type \<times> lexer" where
  "scan_number_from st t lx =
     (let t1 = number_type_at st t; lx1 = lx_get lx
      in case number_step st (lx_current lx1) of
           N_goto st1 \<Rightarrow> scan_number_from st1 t1 (add_number_char lx1)
         | N_done \<Rightarrow> (t1, lx1)
         | N_error m \<Rightarrow> (T_parse_error, fail_with m lx1))"
  by pat_completeness auto
termination scan_number_from
proof (relation "measure (\<lambda>(st, t, lx). length (lx_rest lx))", goal_cases)
  case prems: (2 st t lx t1 lx1 st1)
  have "lx_current (lx_get lx) \<noteq> None"
    using prems number_step_None by metis
  then show ?case using lx_get_shrinks[of lx] prems by simp
qed simp

declare scan_number_from.simps [simp del]

text \<open>
  \<open>std::strtoull\<close> and \<open>std::strtoll\<close> on the digits scanned (with a minus sign for the latter);
  \<open>None\<close> is \<open>ERANGE\<close>.
\<close>

definition strtoull :: "string \<Rightarrow> u64 option" where
  "strtoull s = (if dec_val s < 2 ^ 64 then Some (word_of_nat (dec_val s)) else None)"

definition strtoll :: "string \<Rightarrow> u64 option" where
  "strtoll s =
     (if dec_val (tl s) \<le> 2 ^ 63 then Some (word_of_int (- int (dec_val (tl s)))) else None)"

text \<open>The label \<open>scan_number_done\<close>.\<close>

definition scan_number_done :: "(string \<Rightarrow> u64) \<Rightarrow> token_type \<Rightarrow> lexer \<Rightarrow> token_type \<times> lexer" where
  "scan_number_done strtod t lx =
     (let lx1 = lx_unget_char lx;
          as_float = (T_value_float, lx1\<lparr>lx_float := strtod (lx_buffer lx1)\<rparr>)
      in if t = T_value_unsigned then
           (case strtoull (lx_buffer lx1) of
              Some x \<Rightarrow> (T_value_unsigned, lx1\<lparr>lx_unsigned := x\<rparr>)
            | None \<Rightarrow> as_float)
         else if t = T_value_integer then
           (case strtoll (lx_buffer lx1) of
              Some x \<Rightarrow> (T_value_integer, lx1\<lparr>lx_integer := x\<rparr>)
            | None \<Rightarrow> as_float)
         else as_float)"

definition scan_number :: "(string \<Rightarrow> u64) \<Rightarrow> lexer \<Rightarrow> token_type \<times> lexer" where
  "scan_number strtod lx =
     (let lx1 = lx_add_current (lx_reset lx);
          st = (if lx_current lx = Some CHR ''-'' then N_minus
                else if lx_current lx = Some CHR ''0'' then N_zero
                else N_any1)
      in case scan_number_from st T_value_unsigned lx1 of
           (t, lx2) \<Rightarrow>
             if t = T_parse_error then (T_parse_error, lx2) else scan_number_done strtod t lx2)"

subsection \<open>scan\<close>

text \<open>The loop of \<open>scan_literal\<close> over the characters after the first one.\<close>

fun scan_literal_chars :: "string \<Rightarrow> token_type \<Rightarrow> lexer \<Rightarrow> token_type \<times> lexer" where
  "scan_literal_chars [] t lx = (t, lx)"
| "scan_literal_chars (c # cs) t lx =
     (let lx1 = lx_get lx
      in if lx_current lx1 \<noteq> Some c then (T_parse_error, fail_with ''invalid literal'' lx1)
         else scan_literal_chars cs t lx1)"

definition scan_literal :: "string \<Rightarrow> token_type \<Rightarrow> lexer \<Rightarrow> token_type \<times> lexer" where
  "scan_literal literal t lx = scan_literal_chars (tl literal) t lx"

definition skip_bom :: "lexer \<Rightarrow> bool \<times> lexer" where
  "skip_bom lx =
     (let lx1 = lx_get lx
      in if lx_current lx1 = Some CHR 0xEF then
           (let lx2 = lx_get lx1
            in if lx_current lx2 = Some CHR 0xBB then
                 (let lx3 = lx_get lx2 in (lx_current lx3 = Some CHR 0xBF, lx3))
               else (False, lx2))
         else (True, lx_unget_char lx1))"

definition is_whitespace :: "char option \<Rightarrow> bool" where
  "is_whitespace c \<longleftrightarrow>
     c = Some CHR '' '' \<or> c = Some CHR 0x09 \<or> c = Some CHR 0x0A \<or> c = Some CHR 0x0D"

function skip_whitespace :: "lexer \<Rightarrow> lexer" where
  "skip_whitespace lx =
     (let lx1 = lx_get lx
      in if is_whitespace (lx_current lx1) then skip_whitespace lx1 else lx1)"
  by pat_completeness auto
termination skip_whitespace
proof (relation "measure (\<lambda>lx. length (lx_rest lx))", goal_cases)
  case prems: (2 lx lx1)
  have "lx_current (lx_get lx) \<noteq> None" using prems by (auto simp: is_whitespace_def)
  then show ?case using lx_get_shrinks[of lx] prems by simp
qed simp

declare skip_whitespace.simps [simp del]

definition scan_token :: "(string \<Rightarrow> u64) \<Rightarrow> lexer \<Rightarrow> token_type \<times> lexer" where
  "scan_token strtod lx =
     (case lx_current lx of
        None \<Rightarrow> (T_end_of_input, lx)
      | Some c \<Rightarrow>
          if c = CHR ''['' then (T_begin_array, lx)
          else if c = CHR '']'' then (T_end_array, lx)
          else if c = CHR ''{'' then (T_begin_object, lx)
          else if c = CHR ''}'' then (T_end_object, lx)
          else if c = CHR '':'' then (T_name_separator, lx)
          else if c = CHR '','' then (T_value_separator, lx)
          else if c = CHR ''t'' then scan_literal ''true'' T_literal_true lx
          else if c = CHR ''f'' then scan_literal ''false'' T_literal_false lx
          else if c = CHR ''n'' then scan_literal ''null'' T_literal_null lx
          else if c = CHR 0x22 then scan_string lx
          else if c = CHR ''-'' \<or> is_digit (Some c) then scan_number strtod lx
          else if c = NUL then (T_end_of_input, lx)
          else (T_parse_error, fail_with ''invalid literal'' lx))"

definition scan :: "(string \<Rightarrow> u64) \<Rightarrow> lexer \<Rightarrow> token_type \<times> lexer" where
  "scan strtod lx =
     (let (bom_ok, lx1) = (if lx_total lx = 0 then skip_bom lx else (True, lx))
      in if \<not> bom_ok then
           (T_parse_error, fail_with ''invalid BOM; must be 0xEF 0xBB 0xBF if given'' lx1)
         else scan_token strtod (skip_whitespace lx1))"
subsection \<open>The scanner moves on\<close>

text \<open>
  After \<open>unget()\<close> the character is to be read again, and the input is as before the
  \<open>get()\<close>.
\<close>

lemma unget_fields [simp]:
  "lx_buffer (lx_unget_char lx) = lx_buffer lx" "lx_error (lx_unget_char lx) = lx_error lx"
  "lx_current (lx_unget_char lx) = lx_current lx" "lx_input (lx_unget_char lx) = lx_input lx"
  "lx_unget (lx_unget_char lx) = True" "lx_total (lx_unget_char lx) = lx_total lx - 1"
  by (simp_all add: lx_unget_char_def Let_def)

lemma unget_get:
  "lx_rest (lx_unget_char (lx_get lx)) = lx_rest lx"
  "lx_total (lx_unget_char (lx_get lx)) = lx_total lx"
  by (auto simp: lx_rest_def lx_current_get lx_input_get split: option.splits list.splits)

lemma lx_number_update [simp]:
  "lx_rest (lx\<lparr>lx_float := x\<rparr>) = lx_rest lx" "lx_rest (lx\<lparr>lx_integer := x\<rparr>) = lx_rest lx"
  "lx_rest (lx\<lparr>lx_unsigned := x\<rparr>) = lx_rest lx"
  by (simp_all add: lx_rest_def split: option.splits)

lemma scan_string_loop_reads:
  "scan_string_loop lx = (t, lx1) \<Longrightarrow>
     t = T_value_string \<and> reads True lx lx1 \<or> t = T_parse_error \<and> reads False lx lx1"
proof (induction lx rule: scan_string_loop.induct)
  case (1 lx)
  show ?case
  proof (cases "lx_current (lx_get lx)")
    case None
    then show ?thesis
      using 1(2) reads_get_any by (auto simp: scan_string_loop.simps[of lx] Let_def)
  next
    case (Some c)
    note get = reads_get_Some[OF Some]
    obtain ok lx2 where sc: "scan_char c (lx_get lx) = (ok, lx2)"
      by (cases "scan_char c (lx_get lx)")
    note R = reads_trans[OF get scan_char_reads[OF sc]]
    show ?thesis
    proof (cases "c = CHR 0x22")
      case True
      then show ?thesis
        using 1(2) Some get by (auto simp: scan_string_loop.simps[of lx] Let_def)
    next
      case ne: False
      show ?thesis
      proof (cases ok)
        case True
        then have "scan_string_loop lx2 = (t, lx1)"
          using 1(2) Some sc ne by (simp add: scan_string_loop.simps[of lx] Let_def)
        from 1(1)[OF refl Some ne, of True lx2] sc True this R
        show ?thesis by (auto intro: reads_trans)
      next
        case False
        then show ?thesis
          using 1(2) Some sc ne R by (auto simp: scan_string_loop.simps[of lx] Let_def)
      qed
    qed
  qed
qed
lemma scan_number_from_reads:
  "scan_number_from st t lx = (t1, lx1) \<Longrightarrow> t \<noteq> T_parse_error \<Longrightarrow>
     t1 = T_parse_error \<and> reads False lx lx1
     \<or> t1 \<in> {t, T_value_integer, T_value_float} \<and> (\<exists>lx2. lx1 = lx_get lx2 \<and> reads True lx lx2)"
proof (induction st t lx rule: scan_number_from.induct)
  case (1 st t lx)
  have t: "number_type_at st t \<in> {t, T_value_integer, T_value_float}" by (cases st) auto
  with 1(3) have nt: "number_type_at st t \<noteq> T_parse_error" by auto
  show ?case
  proof (cases "number_step st (lx_current (lx_get lx))")
    case (N_goto st1)
    then have "lx_current (lx_get lx) \<noteq> None" using number_step_None by metis
    then have get: "reads True lx (lx_get lx)" using reads_get_Some by blast
    have step: "scan_number_from st1 (number_type_at st t) (add_number_char (lx_get lx)) = (t1, lx1)"
      using 1(2) N_goto by (simp add: scan_number_from.simps[of st] Let_def)
    have get1: "reads True lx (add_number_char (lx_get lx))"
      using get by (simp add: add_number_char_def)
    from 1(1)[OF refl refl N_goto step nt] t get1 show ?thesis
      by (auto intro: reads_trans)
  next
    case N_done
    then show ?thesis using 1(2) t by (auto simp: scan_number_from.simps[of st] Let_def)
  next
    case (N_error m)
    then show ?thesis using 1(2) reads_get_any by (auto simp: scan_number_from.simps[of st] Let_def)
  qed
qed

lemma scan_number_done_reads:
  "scan_number_done strtod t (lx_get lx2) = (t1, lx1) \<Longrightarrow> reads True lx lx2 \<Longrightarrow>
     t1 \<in> {T_value_unsigned, T_value_integer, T_value_float} \<and> reads True lx lx1"
  by (simp add: scan_number_done_def Let_def reads_def lx_span_def unget_get
      del: unget_fields split: if_split_asm option.split_asm)
    (clarsimp simp: unget_get simp del: unget_fields)+

lemma scan_number_reads:
  assumes "scan_number strtod lx = (t, lx1)"
  shows "t = T_parse_error \<and> reads False lx lx1
     \<or> t \<in> {T_value_unsigned, T_value_integer, T_value_float} \<and> reads True lx lx1"
proof -
  define st where "st = (if lx_current lx = Some CHR ''-'' then N_minus
                else if lx_current lx = Some CHR ''0'' then N_zero else N_any1)"
  obtain t2 lx2 where f: "scan_number_from st T_value_unsigned (lx_add_current (lx_reset lx)) = (t2, lx2)"
    by (cases "scan_number_from st T_value_unsigned (lx_add_current (lx_reset lx))")
  from scan_number_from_reads[OF f]
  have r: "t2 = T_parse_error \<and> reads False lx lx2 \<or> t2 \<noteq> T_parse_error \<and>
      (\<exists>lx3. lx2 = lx_get lx3 \<and> reads True lx lx3)" by auto
  show ?thesis
  proof (cases "t2 = T_parse_error")
    case True
    then show ?thesis using assms f r by (simp add: scan_number_def st_def[symmetric] Let_def)
  next
    case False
    then have "scan_number_done strtod t2 lx2 = (t, lx1)"
      using assms f by (simp add: scan_number_def st_def[symmetric] Let_def)
    with False r show ?thesis using scan_number_done_reads by metis
  qed
qed

lemma scan_literal_reads:
  "scan_literal_chars cs t lx = (t1, lx1) \<Longrightarrow>
     t1 = T_parse_error \<and> reads False lx lx1 \<or> t1 = t \<and> reads True lx lx1"
proof (induction cs arbitrary: lx)
  case (Cons c cs)
  show ?case
  proof (cases "lx_current (lx_get lx) = Some c")
    case True
    then have "scan_literal_chars cs t (lx_get lx) = (t1, lx1)" using Cons.prems by (simp add: Let_def)
    from Cons.IH[OF this] reads_get_Some[OF True] show ?thesis by (auto intro: reads_trans)
  next
    case False
    then show ?thesis using Cons.prems reads_get_any by (auto simp: Let_def)
  qed
qed auto

lemma skip_whitespace_reads:
  "reads (lx_current (skip_whitespace lx) \<noteq> None) lx (skip_whitespace lx)
   \<and> (lx_current (skip_whitespace lx) \<noteq> None \<longrightarrow>
        length (lx_rest (skip_whitespace lx)) < length (lx_rest lx))"
proof (induction lx rule: skip_whitespace.induct)
  case (1 lx)
  show ?case
  proof (cases "is_whitespace (lx_current (lx_get lx))")
    case True
    then obtain c where c: "lx_current (lx_get lx) = Some c" by (auto simp: is_whitespace_def)
    have step: "skip_whitespace lx = skip_whitespace (lx_get lx)"
      using True by (simp add: skip_whitespace.simps[of lx] Let_def)
    note IH = 1[OF refl True]
    show ?thesis unfolding step
      using IH reads_trans[OF reads_get_Some[OF c]] lx_get_shrinks[of lx] c by auto
  next
    case False
    then have "skip_whitespace lx = lx_get lx" by (simp add: skip_whitespace.simps[of lx] Let_def)
    then show ?thesis using reads_get lx_get_shrinks by simp
  qed
qed

lemma skip_bom_reads: "skip_bom lx = (ok, lx1) \<Longrightarrow> reads ok lx lx1"
proof -
  assume s: "skip_bom lx = (ok, lx1)"
  show ?thesis
  proof (cases "lx_current (lx_get lx) = Some CHR 0xEF")
    case False
    then have "ok" "lx1 = lx_unget_char (lx_get lx)" using s by (auto simp: skip_bom_def Let_def)
    then show ?thesis by (simp add: reads_def lx_span_def unget_get del: unget_fields)
  next
    case e: True
    note R = reads_get_Some[OF e]
    show ?thesis
    proof (cases "lx_current (lx_get (lx_get lx)) = Some CHR 0xBB")
      case False
      then show ?thesis using s e reads_trans[OF R reads_get_any] by (auto simp: skip_bom_def Let_def)
    next
      case b: True
      note R2 = reads_trans[OF R reads_get_Some[OF b]]
      show ?thesis
        using s e b reads_trans[OF R2 reads_get_any] reads_trans[OF R2 reads_get_Some]
        by (auto simp: skip_bom_def Let_def)
    qed
  qed
qed

text \<open>A token other than an error and the end of the input takes at least one character.\<close>

definition scanned :: "lexer \<Rightarrow> token_type \<times> lexer \<Rightarrow> bool" where
  "scanned lx r \<longleftrightarrow> reads (fst r \<noteq> T_end_of_input \<and> fst r \<noteq> T_parse_error) lx (snd r)"

lemma scanned_if: "scanned lx r \<Longrightarrow> scanned lx r' \<Longrightarrow> scanned lx (if P then r else r')"
  by simp

lemma scanned_tokens:
  "scanned lx (t, lx)" "scanned lx (T_parse_error, fail_with m lx)"
  by (simp_all add: scanned_def)

lemma scanned_scanners:
  "scanned lx (scan_string lx)" "scanned lx (scan_number strtod lx)"
  "t \<noteq> T_end_of_input \<Longrightarrow> t \<noteq> T_parse_error \<Longrightarrow> scanned lx (scan_literal s t lx)"
  using scan_string_loop_reads[of "lx_reset lx" "fst (scan_string lx)" "snd (scan_string lx)"]
    scan_number_reads[of strtod lx "fst (scan_number strtod lx)" "snd (scan_number strtod lx)"]
    scan_literal_reads[of "tl s" t lx "fst (scan_literal s t lx)" "snd (scan_literal s t lx)"]
  by (auto simp: scanned_def scan_string_def scan_literal_def)

lemma scan_token_reads: "lx_current lx = Some c \<Longrightarrow> scanned lx (scan_token strtod lx)"
  by (simp only: scan_token_def option.case)
    (intro scanned_if scanned_tokens scanned_scanners token_type.distinct)

lemma scan_reads:
  assumes "scan strtod lx = (t, lx1)"
  shows "if t = T_end_of_input \<or> t = T_parse_error then reads False lx lx1
         else reads True lx lx1 \<and> length (lx_rest lx1) < length (lx_rest lx)"
proof -
  obtain ok lx2 where b: "(if lx_total lx = 0 then skip_bom lx else (True, lx)) = (ok, lx2)"
    by (cases "if lx_total lx = 0 then skip_bom lx else (True, lx)")
  have R: "reads ok lx lx2"
    using b skip_bom_reads by (auto split: if_splits)
  define lx3 where "lx3 = skip_whitespace lx2"
  show ?thesis
  proof (cases ok)
    case False
    then show ?thesis using assms b R by (auto simp: scan_def)
  next
    case ok: True
    then have s: "scan_token strtod lx3 = (t, lx1)" using assms b by (simp add: scan_def lx3_def)
    from R ok have R: "reads True lx lx2" by simp
    show ?thesis
    proof (cases "lx_current lx3")
      case None
      then have "t = T_end_of_input" "lx1 = lx3" using s by (auto simp: scan_token_def)
      then show ?thesis using reads_trans[OF R] skip_whitespace_reads[of lx2]
        by (auto simp: lx3_def dest: reads_weaken)
    next
      case (Some c)
      then have R3: "reads True lx lx3" "length (lx_rest lx3) < length (lx_rest lx2)"
        using skip_whitespace_reads[of lx2] reads_trans[OF R] by (auto simp: lx3_def)
      with scan_token_reads[OF Some, of strtod] s reads_length[OF R] show ?thesis
        by (auto simp: scanned_def split: if_splits dest: reads_length intro: reads_trans)
    qed
  qed
qed
end
