(* ===== verification/Text_Parser.thy ===== *)
theory Text_Parser
  imports Lexer
begin

section \<open>JSON text: the parser\<close>

text \<open>
  Models \<open>detail::parser\<close> of \<open>src/external/nlohmann/json.h\<close>: \<open>sax_parse_internal\<close> with its stack of
  open arrays and objects, driving a consumer of SAX events, \<open>parse\<close> with \<open>json_sax_dom_parser\<close>,
  which builds the value through pointers into it, and \<open>accept\<close> with \<open>json_sax_acceptor\<close>. The
  \<open>while (true)\<close> loop is a partial function; \<open>None\<close> would be a loop that never returns. A pointer
  into the value is the path to it, an exception is a value of \<open>json_exception\<close>.

  The recursive descent \<open>rd_value\<close> below is the specification the loop is proved equal to, for every
  consumer that fulfils the contract \<open>json_sax\<close>.
\<close>

subsection \<open>Exceptions\<close>

datatype json_exception =
    Parse_Error nat nat string
  | Out_Of_Range nat string
  | Type_Error nat string

definition exception_name :: "string \<Rightarrow> nat \<Rightarrow> string" where
  "exception_name ename i = ''[json.exception.'' @ ename @ ''.'' @ dec_nat i @ ''] ''"

definition position_string :: "lexer \<Rightarrow> string" where
  "position_string lx =
     '' at line '' @ dec_nat (lx_lines lx + 1) @ '', column '' @ dec_nat (lx_column lx)"

text \<open>\<open>parse_error::create\<close> with the position of the lexer.\<close>

definition parse_error_at :: "nat \<Rightarrow> lexer \<Rightarrow> string \<Rightarrow> json_exception" where
  "parse_error_at i lx what =
     Parse_Error i (lx_total lx)
       (exception_name ''parse_error'' i @ ''parse error'' @ position_string lx @ '': '' @ what)"

definition out_of_range :: "nat \<Rightarrow> string \<Rightarrow> json_exception" where
  "out_of_range i what = Out_Of_Range i (exception_name ''out_of_range'' i @ what)"

subsection \<open>The consumer of events\<close>

text \<open>
  The operations of a consumer return whether to go on. The parser always passes the unknown size
  \<open>std::size_t(-1)\<close> to \<open>start_object\<close> and \<open>start_array\<close>. \<open>parse_error\<close> gets the byte, the last token
  and the exception, and may throw.
\<close>

record 's sax =
  sx_null :: "'s \<Rightarrow> bool \<times> 's"
  sx_boolean :: "bool \<Rightarrow> 's \<Rightarrow> bool \<times> 's"
  sx_integer :: "u64 \<Rightarrow> 's \<Rightarrow> bool \<times> 's"
  sx_unsigned :: "u64 \<Rightarrow> 's \<Rightarrow> bool \<times> 's"
  sx_float :: "u64 \<Rightarrow> string \<Rightarrow> 's \<Rightarrow> bool \<times> 's"
  sx_string :: "string \<Rightarrow> 's \<Rightarrow> bool \<times> 's"
  sx_start_object :: "'s \<Rightarrow> bool \<times> 's"
  sx_key :: "string \<Rightarrow> 's \<Rightarrow> bool \<times> 's"
  sx_end_object :: "'s \<Rightarrow> bool \<times> 's"
  sx_start_array :: "'s \<Rightarrow> bool \<times> 's"
  sx_end_array :: "'s \<Rightarrow> bool \<times> 's"
  sx_parse_error :: "nat \<Rightarrow> string \<Rightarrow> json_exception \<Rightarrow> 's \<Rightarrow> json_exception + bool \<times> 's"

subsection \<open>sax_parse_internal\<close>

record json_parser =
  last_token :: token_type
  m_lexer :: lexer

definition get_token :: "(string \<Rightarrow> u64) \<Rightarrow> json_parser \<Rightarrow> json_parser" where
  "get_token strtod p =
     (case scan strtod (m_lexer p) of (t, lx) \<Rightarrow> \<lparr>last_token = t, m_lexer = lx\<rparr>)"

definition new_parser :: "(string \<Rightarrow> u64) \<Rightarrow> char \<Rightarrow> string \<Rightarrow> json_parser" where
  "new_parser strtod point t =
     get_token strtod \<lparr>last_token = T_uninitialized, m_lexer = new_lexer point t\<rparr>"

definition exception_message :: "json_parser \<Rightarrow> token_type \<Rightarrow> string \<Rightarrow> string" where
  "exception_message p expected context =
     ''syntax error '' @ (if context \<noteq> [] then ''while parsing '' @ context @ '' '' else [])
     @ ''- ''
     @ (if last_token p = T_parse_error then
          lx_error (m_lexer p) @ ''; last read: '' @ [quote_char] @ get_token_string (m_lexer p)
            @ [quote_char]
        else ''unexpected '' @ token_type_name (last_token p))
     @ (if expected \<noteq> T_uninitialized then ''; expected '' @ token_type_name expected else [])"

definition syntax_error :: "json_parser \<Rightarrow> token_type \<Rightarrow> string \<Rightarrow> json_exception" where
  "syntax_error p expected context =
     parse_error_at 101 (m_lexer p) (exception_message p expected context)"

definition number_overflow :: "json_parser \<Rightarrow> json_exception" where
  "number_overflow p =
     out_of_range 406
       (''number overflow parsing '' @ [quote_char] @ get_token_string (m_lexer p) @ [quote_char])"

text \<open>\<open>std::isfinite\<close>: the exponent is not the largest one.\<close>

definition is_finite :: "u64 \<Rightarrow> bool" where
  "is_finite d \<longleftrightarrow> drop_bit 52 d AND 0x7FF \<noteq> 0x7FF"

type_synonym 's outcome = "json_exception + bool \<times> json_parser \<times> 's"

text \<open>
  One round of the loop either returns or continues with a stack of open containers (the innermost
  first, \<open>True\<close> for an array), the parser and the consumer; \<open>skip\<close> is \<open>skip_to_state_evaluation\<close>.
\<close>

datatype 's round =
    Return "'s outcome"
  | Continue bool "bool list" json_parser 's

definition sax_error :: "'s sax \<Rightarrow> json_parser \<Rightarrow> json_exception \<Rightarrow> 's \<Rightarrow> 's outcome" where
  "sax_error sx p e s =
     (case sx_parse_error sx (lx_total (m_lexer p)) (get_token_string (m_lexer p)) e s of
        Inl x \<Rightarrow> Inl x
      | Inr (b, s1) \<Rightarrow> Inr (b, p, s1))"

text \<open>A consumer that returns \<open>false\<close> stops the parser; otherwise the code goes on with \<open>f\<close>.\<close>

definition unless_stopped :: "json_parser \<Rightarrow> bool \<times> 's \<Rightarrow> ('s \<Rightarrow> 's round) \<Rightarrow> 's round" where
  "unless_stopped p r f = (case r of (True, s) \<Rightarrow> f s | (False, s) \<Rightarrow> Return (Inr (False, p, s)))"

text \<open>The part of the loop after a value: the innermost container decides what may follow.\<close>

definition parse_key ::
    "(string \<Rightarrow> u64) \<Rightarrow> 's sax \<Rightarrow> json_parser \<Rightarrow> 's \<Rightarrow> (json_parser \<Rightarrow> 's \<Rightarrow> 's round) \<Rightarrow> 's round" where
  "parse_key strtod sx p s f =
     (if last_token p \<noteq> T_value_string then
        Return (sax_error sx p (syntax_error p T_value_string ''object key'') s)
      else unless_stopped p (sx_key sx (lx_buffer (m_lexer p)) s) (\<lambda>s1.
        let p1 = get_token strtod p
        in if last_token p1 \<noteq> T_name_separator then
             Return (sax_error sx p1 (syntax_error p1 T_name_separator ''object separator'') s1)
           else f (get_token strtod p1) s1))"

definition state_evaluation ::
    "(string \<Rightarrow> u64) \<Rightarrow> 's sax \<Rightarrow> bool list \<Rightarrow> json_parser \<Rightarrow> 's \<Rightarrow> 's round" where
  "state_evaluation strtod sx states p s =
     (case states of
        [] \<Rightarrow> Return (Inr (True, p, s))
      | True # outer \<Rightarrow>
          (let p1 = get_token strtod p
           in if last_token p1 = T_value_separator then Continue False states (get_token strtod p1) s
              else if last_token p1 = T_end_array then
                unless_stopped p1 (sx_end_array sx s) (\<lambda>s1. Continue True outer p1 s1)
              else Return (sax_error sx p1 (syntax_error p1 T_end_array ''array'') s))
      | False # outer \<Rightarrow>
          (let p1 = get_token strtod p
           in if last_token p1 = T_value_separator then
                parse_key strtod sx (get_token strtod p1) s (Continue False states)
              else if last_token p1 = T_end_object then
                unless_stopped p1 (sx_end_object sx s) (\<lambda>s1. Continue True outer p1 s1)
              else Return (sax_error sx p1 (syntax_error p1 T_end_object ''object'') s)))"

text \<open>The \<open>switch\<close> over the token a value starts with.\<close>

definition value_round ::
    "(string \<Rightarrow> u64) \<Rightarrow> 's sax \<Rightarrow> bool list \<Rightarrow> json_parser \<Rightarrow> 's \<Rightarrow> 's round" where
  "value_round strtod sx states p s =
     (let lx = m_lexer p; evaluate = state_evaluation strtod sx states p
      in case last_token p of
           T_begin_object \<Rightarrow>
             unless_stopped p (sx_start_object sx s) (\<lambda>s1.
               let p1 = get_token strtod p
               in if last_token p1 = T_end_object then
                    unless_stopped p1 (sx_end_object sx s1) (state_evaluation strtod sx states p1)
                  else parse_key strtod sx p1 s1 (Continue False (False # states)))
         | T_begin_array \<Rightarrow>
             unless_stopped p (sx_start_array sx s) (\<lambda>s1.
               let p1 = get_token strtod p
               in if last_token p1 = T_end_array then
                    unless_stopped p1 (sx_end_array sx s1) (state_evaluation strtod sx states p1)
                  else Continue False (True # states) p1 s1)
         | T_value_float \<Rightarrow>
             if \<not> is_finite (lx_float lx) then Return (sax_error sx p (number_overflow p) s)
             else unless_stopped p (sx_float sx (lx_float lx) (lx_buffer lx) s) evaluate
         | T_literal_false \<Rightarrow> unless_stopped p (sx_boolean sx False s) evaluate
         | T_literal_null \<Rightarrow> unless_stopped p (sx_null sx s) evaluate
         | T_literal_true \<Rightarrow> unless_stopped p (sx_boolean sx True s) evaluate
         | T_value_integer \<Rightarrow> unless_stopped p (sx_integer sx (lx_integer lx) s) evaluate
         | T_value_string \<Rightarrow> unless_stopped p (sx_string sx (lx_buffer lx) s) evaluate
         | T_value_unsigned \<Rightarrow> unless_stopped p (sx_unsigned sx (lx_unsigned lx) s) evaluate
         | T_parse_error \<Rightarrow> Return (sax_error sx p (syntax_error p T_uninitialized ''value'') s)
         | _ \<Rightarrow> Return (sax_error sx p (syntax_error p T_literal_or_value ''value'') s))"

definition sax_round ::
    "(string \<Rightarrow> u64) \<Rightarrow> 's sax \<Rightarrow> bool \<Rightarrow> bool list \<Rightarrow> json_parser \<Rightarrow> 's \<Rightarrow> 's round" where
  "sax_round strtod sx skip states p s =
     (if skip then state_evaluation strtod sx states p s else value_round strtod sx states p s)"

partial_function (option) sax_loop ::
    "(string \<Rightarrow> u64) \<Rightarrow> 's sax \<Rightarrow> bool \<Rightarrow> bool list \<Rightarrow> json_parser \<Rightarrow> 's \<Rightarrow> 's outcome option" where
  "sax_loop strtod sx skip states p s =
     (case sax_round strtod sx skip states p s of
        Return r \<Rightarrow> Some r
      | Continue skip1 states1 p1 s1 \<Rightarrow> sax_loop strtod sx skip1 states1 p1 s1)"

declare sax_loop.simps [code]

definition sax_parse_internal :: "(string \<Rightarrow> u64) \<Rightarrow> 's sax \<Rightarrow> json_parser \<Rightarrow> 's \<Rightarrow> 's outcome option" where
  "sax_parse_internal strtod sx p s = sax_loop strtod sx False [] p s"

text \<open>\<open>sax_parse\<close>: in strict mode the input must end after the value.\<close>

definition sax_parse_strict :: "(string \<Rightarrow> u64) \<Rightarrow> 's sax \<Rightarrow> json_parser \<Rightarrow> 's \<Rightarrow> 's outcome option" where
  "sax_parse_strict strtod sx p s =
     (case sax_parse_internal strtod sx p s of
        Some (Inr (True, p1, s1)) \<Rightarrow>
          (let p2 = get_token strtod p1
           in if last_token p2 \<noteq> T_end_of_input then
                Some (sax_error sx p2 (syntax_error p2 T_end_of_input ''value'') s1)
              else Some (Inr (True, p2, s1)))
      | r \<Rightarrow> r)"

subsection \<open>The loop ends\<close>

text \<open>
  What is left to do for a parser: every round that continues has taken a token from the input, or
  has met its end with a token that no later round accepts.
\<close>

definition live :: "json_parser \<Rightarrow> bool" where
  "live p \<longleftrightarrow> last_token p \<noteq> T_end_of_input \<and> last_token p \<noteq> T_parse_error"

definition token_left :: "json_parser \<Rightarrow> nat" where
  "token_left p = 2 * length (lx_rest (m_lexer p)) + (if live p then 1 else 0)"

lemma get_token_scan: "scan strtod (m_lexer p) = (last_token (get_token strtod p), m_lexer (get_token strtod p))"
  by (simp add: get_token_def split: prod.splits)

lemma get_token_reads: "reads (live (get_token strtod p)) (m_lexer p) (m_lexer (get_token strtod p))"
  using scan_reads[OF get_token_scan[of strtod p]] by (auto simp: live_def split: if_splits)

lemma get_token_shrinks:
  "live (get_token strtod p) \<Longrightarrow>
     length (lx_rest (m_lexer (get_token strtod p))) < length (lx_rest (m_lexer p))"
  using scan_reads[OF get_token_scan[of strtod p]] by (auto simp: live_def split: if_splits)

lemma left_get_token:
  "token_left (get_token strtod p) \<le> token_left p"
  "live p \<Longrightarrow> token_left (get_token strtod p) < token_left p"
  "live (get_token strtod p) \<Longrightarrow> token_left (get_token strtod p) < token_left p"
  using get_token_shrinks[of strtod p] reads_length[OF get_token_reads[of strtod p]]
  by (auto simp: token_left_def)

lemma live_tokens:
  "last_token p = T_value_separator \<Longrightarrow> live p" "last_token p = T_end_array \<Longrightarrow> live p"
  "last_token p = T_end_object \<Longrightarrow> live p" "last_token p = T_value_string \<Longrightarrow> live p"
  "last_token p = T_name_separator \<Longrightarrow> live p" "last_token p = T_begin_array \<Longrightarrow> live p"
  "last_token p = T_begin_object \<Longrightarrow> live p"
  by (simp_all add: live_def)

definition less_left :: "nat \<Rightarrow> 's round \<Rightarrow> bool" where
  "less_left n r = (case r of Return _ \<Rightarrow> True | Continue skip states p s \<Rightarrow> token_left p < n)"

lemma less_left_simps [simp]:
  "less_left n (Return r)" "less_left n (Continue skip states p s) \<longleftrightarrow> token_left p < n"
  by (simp_all add: less_left_def)

lemma less_left_mono: "less_left n r \<Longrightarrow> n \<le> m \<Longrightarrow> less_left m r"
  by (auto simp: less_left_def split: round.splits)

lemma less_left_unless_stopped:
  "(\<And>s. less_left n (f s)) \<Longrightarrow> less_left n (unless_stopped p r f)"
  by (auto simp: unless_stopped_def split: prod.splits bool.splits)

lemma parse_key_less:
  assumes "\<And>p2 s2. token_left p2 < token_left p \<Longrightarrow> less_left (token_left p) (f p2 s2)"
  shows "less_left (token_left p) (parse_key strtod sx p s f)"
proof (cases "last_token p = T_value_string")
  case True
  have f: "less_left (token_left p) (f (get_token strtod (get_token strtod p)) s2)" for s2
    by (rule assms[OF order.strict_trans1[OF left_get_token(1) left_get_token(2)[OF live_tokens(4)[OF True]]]])
  show ?thesis
    by (auto simp: parse_key_def True Let_def f intro!: less_left_unless_stopped)
qed (simp add: parse_key_def)

lemma state_evaluation_less: "less_left (token_left p) (state_evaluation strtod sx states p s)"
proof -
  let ?p1 = "get_token strtod p"
  have sep: "token_left (get_token strtod ?p1) < token_left p" "token_left ?p1 < token_left p" if "last_token ?p1 = T_value_separator"
    using left_get_token(1)[of strtod ?p1] left_get_token(3)[of strtod p] live_tokens(1)[OF that]
    by (auto intro: order.strict_trans)
  have ends: "token_left ?p1 < token_left p" if "last_token ?p1 = T_end_array \<or> last_token ?p1 = T_end_object"
    using left_get_token(3)[of strtod p] live_tokens(2,3)[of ?p1] that by auto
  have key: "less_left (token_left p) (parse_key strtod sx (get_token strtod ?p1) s (Continue False states'))"
    if "last_token ?p1 = T_value_separator" for states'
    using sep[OF that]
    by (intro less_left_mono[OF parse_key_less]) auto
  show ?thesis
    by (cases states; cases "hd states")
      (auto simp: state_evaluation_def Let_def sep ends key intro!: less_left_unless_stopped)
qed

lemma value_round_less: "less_left (token_left p) (value_round strtod sx states p s)"
proof -
  let ?p1 = "get_token strtod p"
  have le: "token_left ?p1 \<le> token_left p" by (rule left_get_token(1))
  have eval: "less_left (token_left p) (state_evaluation strtod sx states ?p1 s)" for s
    by (rule less_left_mono[OF state_evaluation_less le])
  have key: "less_left (token_left p) (parse_key strtod sx ?p1 s (Continue False states'))"
    for s states'
    by (rule less_left_mono[OF parse_key_less le]) simp
  have arr: "token_left ?p1 < token_left p" if "last_token p = T_begin_array"
    using left_get_token(2) live_tokens(6)[OF that] by blast
  show ?thesis
    by (cases "last_token p")
      (simp_all add: value_round_def Let_def eval key arr state_evaluation_less less_left_unless_stopped
        split: if_split)
qed

lemma sax_round_less: "less_left (token_left p) (sax_round strtod sx skip states p s)"
  by (simp add: sax_round_def state_evaluation_less value_round_less)

lemma sax_loop_ends: "\<exists>r. sax_loop strtod sx skip states p s = Some r"
proof (induction "token_left p" arbitrary: skip states p s rule: less_induct)
  case less
  show ?case
  proof (cases "sax_round strtod sx skip states p s")
    case (Return r)
    then show ?thesis by (simp add: sax_loop.simps[of strtod sx skip states p s])
  next
    case (Continue skip1 states1 p1 s1)
    with sax_round_less[of p strtod sx skip states s] have "token_left p1 < token_left p" by simp
    from less[OF this] Continue show ?thesis by (simp add: sax_loop.simps[of strtod sx skip states p s])
  qed
qed
subsection \<open>The specification: recursive descent\<close>

type_synonym 'a descent = "json_exception + 'a \<times> json_parser"

function rd_value :: "(string \<Rightarrow> u64) \<Rightarrow> json_parser \<Rightarrow> json descent"
  and rd_elements :: "(string \<Rightarrow> u64) \<Rightarrow> json list \<Rightarrow> json_parser \<Rightarrow> json descent"
  and rd_members :: "(string \<Rightarrow> u64) \<Rightarrow> (string \<times> json) list \<Rightarrow> json_parser \<Rightarrow> json descent" where
  "rd_value strtod p =
     (let lx = m_lexer p
      in case last_token p of
           T_begin_object \<Rightarrow>
             (let p1 = get_token strtod p
              in if last_token p1 = T_end_object then Inr (JObject [], p1) else rd_members strtod [] p1)
         | T_begin_array \<Rightarrow>
             (let p1 = get_token strtod p
              in if last_token p1 = T_end_array then Inr (JArray [], p1) else rd_elements strtod [] p1)
         | T_value_float \<Rightarrow>
             if is_finite (lx_float lx) then Inr (JFloat (lx_float lx), p) else Inl (number_overflow p)
         | T_literal_false \<Rightarrow> Inr (JBoolean False, p)
         | T_literal_null \<Rightarrow> Inr (JNull, p)
         | T_literal_true \<Rightarrow> Inr (JBoolean True, p)
         | T_value_integer \<Rightarrow> Inr (JInteger (lx_integer lx), p)
         | T_value_string \<Rightarrow> Inr (JString (lx_buffer lx), p)
         | T_value_unsigned \<Rightarrow> Inr (JUnsigned (lx_unsigned lx), p)
         | T_parse_error \<Rightarrow> Inl (syntax_error p T_uninitialized ''value'')
         | _ \<Rightarrow> Inl (syntax_error p T_literal_or_value ''value''))"
| "rd_elements strtod xs p =
     (case rd_value strtod p of
        Inl e \<Rightarrow> Inl e
      | Inr (v, p1) \<Rightarrow>
          (let p2 = get_token strtod p1
           in if last_token p2 = T_value_separator then
                rd_elements strtod (xs @ [v]) (get_token strtod p2)
              else if last_token p2 = T_end_array then Inr (JArray (xs @ [v]), p2)
              else Inl (syntax_error p2 T_end_array ''array'')))"
| "rd_members strtod m p =
     (let p1 = get_token strtod p
      in if last_token p \<noteq> T_value_string then Inl (syntax_error p T_value_string ''object key'')
         else if last_token p1 \<noteq> T_name_separator then
           Inl (syntax_error p1 T_name_separator ''object separator'')
         else
           (case rd_value strtod (get_token strtod p1) of
              Inl e \<Rightarrow> Inl e
            | Inr (v, p2) \<Rightarrow>
                (let m1 = omap_assign (lx_buffer (m_lexer p)) v m; p3 = get_token strtod p2
                 in if last_token p3 = T_value_separator then
                      rd_members strtod m1 (get_token strtod p3)
                    else if last_token p3 = T_end_object then Inr (JObject m1, p3)
                    else Inl (syntax_error p3 T_end_object ''object''))))"
  by pat_completeness auto

abbreviation rest_length :: "json_parser \<Rightarrow> nat" where
  "rest_length p \<equiv> length (lx_rest (m_lexer p))"

lemma get_token_rest: "rest_length (get_token strtod p) \<le> rest_length p"
  by (rule reads_length[OF get_token_reads])

lemma rd_consumes_partial:
  "rd_value_rd_elements_rd_members_dom (Inl (strtod, p)) \<Longrightarrow>
     rd_value strtod p = Inr (v, p1) \<Longrightarrow> rest_length p1 \<le> rest_length p"
  "rd_value_rd_elements_rd_members_dom (Inr (Inl (strtod, xs, p))) \<Longrightarrow>
     rd_elements strtod xs p = Inr (v, p1) \<Longrightarrow> rest_length p1 \<le> rest_length p"
  "rd_value_rd_elements_rd_members_dom (Inr (Inr (strtod, m, p))) \<Longrightarrow>
     rd_members strtod m p = Inr (v, p1) \<Longrightarrow> rest_length p1 \<le> rest_length p"
proof (induction arbitrary: v p1 and v p1 and v p1 rule: rd_value_rd_elements_rd_members.pinduct)
  case (1 strtod p)
  then show ?case
    using get_token_rest[of strtod p]
    by (auto simp: rd_value.psimps Let_def split: token_type.splits if_splits dest: order.trans)
next
  case (2 strtod xs p)
  obtain v1 p2 where v: "rd_value strtod p = Inr (v1, p2)"
    using 2 by (auto simp: rd_elements.psimps split: sum.splits)
  have "rest_length p2 \<le> rest_length p" by (rule 2(2)[OF v])
  moreover have "rest_length (get_token strtod p2) \<le> rest_length p2" by (rule get_token_rest)
  moreover have "rest_length (get_token strtod (get_token strtod p2)) \<le> rest_length (get_token strtod p2)"
    by (rule get_token_rest)
  ultimately show ?case
    using 2 v by (fastforce simp: rd_elements.psimps Let_def split: if_splits)
next
  case (3 strtod m p)
  let ?p2 = "get_token strtod (get_token strtod p)"
  obtain v1 p3 where v: "rd_value strtod ?p2 = Inr (v1, p3)"
    using 3 by (auto simp: rd_members.psimps Let_def split: sum.splits if_splits)
  have "rest_length ?p2 \<le> rest_length p" using get_token_rest order.trans by blast
  moreover have "rest_length p3 \<le> rest_length ?p2"
    using 3 v by (auto simp: rd_members.psimps Let_def split: if_splits)
  moreover have "rest_length (get_token strtod p3) \<le> rest_length p3" by (rule get_token_rest)
  moreover have "rest_length (get_token strtod (get_token strtod p3)) \<le> rest_length (get_token strtod p3)"
    by (rule get_token_rest)
  ultimately show ?case
    using 3 v by (fastforce simp: rd_members.psimps Let_def split: if_splits)
qed

lemma left_separator:
  "last_token (get_token strtod p1) = T_value_separator \<Longrightarrow> rest_length p1 \<le> rest_length p \<Longrightarrow>
     token_left (get_token strtod (get_token strtod p1)) < token_left p"
  using get_token_shrinks[of strtod p1] get_token_shrinks[of strtod "get_token strtod p1"]
    get_token_rest[of strtod "get_token strtod p1"] live_tokens(1)[of "get_token strtod p1"]
  by (auto simp: token_left_def split: if_splits)

lemma left_open:
  "last_token p = T_begin_array \<or> last_token p = T_begin_object \<Longrightarrow>
     Suc (2 * token_left (get_token strtod p)) < 2 * token_left p"
  using left_get_token(2)[of p strtod] live_tokens(6,7)[of p] by auto

lemma left_twice: "2 * token_left (get_token strtod (get_token strtod p)) < Suc (2 * token_left p)"
  using left_get_token(1)[of strtod p] left_get_token(1)[of strtod "get_token strtod p"] by linarith

lemma left_member:
  assumes "rd_value_rd_elements_rd_members_dom (Inl (strtod, get_token strtod (get_token strtod p)))"
    and "rd_value strtod (get_token strtod (get_token strtod p)) = Inr (v, p1)"
    and "last_token (get_token strtod p1) = T_value_separator"
  shows "token_left (get_token strtod (get_token strtod p1)) < token_left p"
proof (rule left_separator[OF assms(3)])
  show "rest_length p1 \<le> rest_length p"
    by (rule order.trans[OF rd_consumes_partial(1)[OF assms(1,2)] order.trans[OF get_token_rest get_token_rest]])
qed

termination rd_value
proof (relation "measure (\<lambda>x. case x of Inl (f, p) \<Rightarrow> 2 * token_left p | Inr (Inl (f, xs, p)) \<Rightarrow> 2 * token_left p + 1
    | Inr (Inr (f, m, p)) \<Rightarrow> 2 * token_left p + 1)", goal_cases)
  case (5 strtod xs p r v p1 p2)
  then have "rest_length p1 \<le> rest_length p" using rd_consumes_partial(1) by blast
  from left_separator[OF _ this] 5 show ?case by simp
qed (auto simp: Let_def left_open left_twice, (rule left_member; assumption))

declare rd_value.simps [simp del] rd_elements.simps [simp del] rd_members.simps [simp del]

subsection \<open>The contract of a consumer that builds values\<close>

text \<open>
  \<open>good s\<close>: the consumer waits for a value; \<open>built s v s1\<close>: \<open>s1\<close> is \<open>s\<close> after it has got \<open>v\<close>.
  \<open>in_array s xs s1\<close> and \<open>in_object s m s1\<close>: the array or object started in \<open>s\<close> is open in \<open>s1\<close>, with
  these elements so far; \<open>at_key s m k s1\<close>: its key \<open>k\<close> waits for its value.
\<close>

locale json_sax =
  fixes sx :: "'s sax"
    and good :: "'s \<Rightarrow> bool"
    and built :: "'s \<Rightarrow> json \<Rightarrow> 's \<Rightarrow> bool"
    and in_array :: "'s \<Rightarrow> json list \<Rightarrow> 's \<Rightarrow> bool"
    and in_object :: "'s \<Rightarrow> (string \<times> json) list \<Rightarrow> 's \<Rightarrow> bool"
    and at_key :: "'s \<Rightarrow> (string \<times> json) list \<Rightarrow> string \<Rightarrow> 's \<Rightarrow> bool"
  assumes null_ok: "good s \<Longrightarrow> \<exists>s1. sx_null sx s = (True, s1) \<and> built s JNull s1"
    and boolean_ok: "good s \<Longrightarrow> \<exists>s1. sx_boolean sx b s = (True, s1) \<and> built s (JBoolean b) s1"
    and integer_ok: "good s \<Longrightarrow> \<exists>s1. sx_integer sx w s = (True, s1) \<and> built s (JInteger w) s1"
    and unsigned_ok: "good s \<Longrightarrow> \<exists>s1. sx_unsigned sx w s = (True, s1) \<and> built s (JUnsigned w) s1"
    and float_ok: "good s \<Longrightarrow> \<exists>s1. sx_float sx w t s = (True, s1) \<and> built s (JFloat w) s1"
    and string_ok: "good s \<Longrightarrow> \<exists>s1. sx_string sx t s = (True, s1) \<and> built s (JString t) s1"
    and start_array_ok: "good s \<Longrightarrow> \<exists>s1. sx_start_array sx s = (True, s1) \<and> in_array s [] s1"
    and in_array_good: "in_array s xs s1 \<Longrightarrow> good s1"
    and in_array_built: "in_array s xs s1 \<Longrightarrow> built s1 v s2 \<Longrightarrow> in_array s (xs @ [v]) s2"
    and end_array_ok: "in_array s xs s1 \<Longrightarrow> \<exists>s2. sx_end_array sx s1 = (True, s2) \<and> built s (JArray xs) s2"
    and start_object_ok: "good s \<Longrightarrow> \<exists>s1. sx_start_object sx s = (True, s1) \<and> in_object s [] s1"
    and key_ok: "in_object s m s1 \<Longrightarrow> \<exists>s2. sx_key sx k s1 = (True, s2) \<and> at_key s m k s2"
    and at_key_good: "at_key s m k s1 \<Longrightarrow> good s1"
    and at_key_built: "at_key s m k s1 \<Longrightarrow> built s1 v s2 \<Longrightarrow> in_object s (omap_assign k v m) s2"
    and end_object_ok: "in_object s m s1 \<Longrightarrow> \<exists>s2. sx_end_object sx s1 = (True, s2) \<and> built s (JObject m) s2"
begin

definition run_round :: "(string \<Rightarrow> u64) \<Rightarrow> 's round \<Rightarrow> 's outcome option" where
  "run_round strtod r =
     (case r of
        Return x \<Rightarrow> Some x
      | Continue skip states p s \<Rightarrow> sax_loop strtod sx skip states p s)"

lemma run_round_simps [simp]:
  "run_round strtod (Return x) = Some x"
  "run_round strtod (Continue skip states p s) = sax_loop strtod sx skip states p s"
  by (simp_all add: run_round_def)

lemma loop_round: "sax_loop strtod sx skip states p s = run_round strtod (sax_round strtod sx skip states p s)"
  by (subst sax_loop.simps) (simp add: run_round_def)

lemma loop_skip: "sax_loop strtod sx True states p s = run_round strtod (state_evaluation strtod sx states p s)"
  by (simp add: loop_round sax_round_def)

lemma loop_value: "sax_loop strtod sx False states p s = run_round strtod (value_round strtod sx states p s)"
  by (simp add: loop_round sax_round_def)

lemma unless_stopped_True [simp]: "unless_stopped p (True, s) f = f s"
  by (simp add: unless_stopped_def)

text \<open>What the loop does where the recursive descent has the result \<open>d\<close>.\<close>

definition follows ::
    "(string \<Rightarrow> u64) \<Rightarrow> 's \<Rightarrow> bool list \<Rightarrow> json descent \<Rightarrow> 's outcome option \<Rightarrow> bool" where
  "follows strtod s states d r \<longleftrightarrow>
     (case d of
        Inl e \<Rightarrow> \<exists>p1 s1. r = Some (sax_error sx p1 e s1)
      | Inr (v, p1) \<Rightarrow> \<exists>s1. built s v s1 \<and> r = sax_loop strtod sx True states p1 s1)"

lemma follows_simps [simp]:
  "follows strtod s states (Inl e) (Some (sax_error sx p1 e s1))"
  "built s v s1 \<Longrightarrow> follows strtod s states (Inr (v, p1)) (sax_loop strtod sx True states p1 s1)"
  by (auto simp: follows_def)

lemma follows_evaluation:
  "built s v s1 \<Longrightarrow>
     follows strtod s states (Inr (v, p1)) (run_round strtod (state_evaluation strtod sx states p1 s1))"
  unfolding loop_skip[symmetric] by simp

lemma loop_descent:
  "good s \<Longrightarrow> follows strtod s states (rd_value strtod p) (sax_loop strtod sx False states p s)"
  "in_array s xs s1 \<Longrightarrow>
     follows strtod s states (rd_elements strtod xs p) (sax_loop strtod sx False (True # states) p s1)"
  "in_object s m s1 \<Longrightarrow>
     follows strtod s states (rd_members strtod m p)
       (run_round strtod (parse_key strtod sx p s1 (Continue False (False # states))))"
proof (induction strtod p and strtod xs p and strtod m p
    arbitrary: s states and s s1 states and s s1 states rule: rd_value_rd_elements_rd_members.induct)
  case (1 strtod p)
  let ?p1 = "get_token strtod p"
  obtain a where a: "sx_start_array sx s = (True, a)" "in_array s [] a"
    using start_array_ok[OF 1(3)] by blast
  obtain ob where ob: "sx_start_object sx s = (True, ob)" "in_object s [] ob"
    using start_object_ok[OF 1(3)] by blast
  obtain a1 where a1: "sx_end_array sx a = (True, a1)" "built s (JArray []) a1"
    using end_array_ok[OF a(2)] by blast
  obtain ob1 where ob1: "sx_end_object sx ob = (True, ob1)" "built s (JObject []) ob1"
    using end_object_ok[OF ob(2)] by blast
  note scalars = null_ok[OF 1(3)] boolean_ok[OF 1(3), of True] boolean_ok[OF 1(3), of False]
    integer_ok[OF 1(3), of "lx_integer (m_lexer p)"] unsigned_ok[OF 1(3), of "lx_unsigned (m_lexer p)"]
    float_ok[OF 1(3), of "lx_float (m_lexer p)" "lx_buffer (m_lexer p)"]
    string_ok[OF 1(3), of "lx_buffer (m_lexer p)"]
  show ?case
  proof (cases "last_token p")
    case T_begin_array
    show ?thesis
    proof (cases "last_token ?p1 = T_end_array")
      case True
      then show ?thesis using a a1 follows_evaluation
        by (simp add: T_begin_array rd_value.simps loop_value value_round_def Let_def)
    next
      case False
      from 1(1)[OF refl T_begin_array refl False a(2)] False a show ?thesis
        by (simp add: T_begin_array rd_value.simps loop_value[of _ _ p] value_round_def Let_def)
    qed
  next
    case T_begin_object
    show ?thesis
    proof (cases "last_token ?p1 = T_end_object")
      case True
      then show ?thesis using ob ob1 follows_evaluation
        by (simp add: T_begin_object rd_value.simps loop_value value_round_def Let_def)
    next
      case False
      from 1(2)[OF refl T_begin_object refl False ob(2)] False ob show ?thesis
        by (simp add: T_begin_object rd_value.simps loop_value value_round_def Let_def)
    qed
  qed (use scalars in \<open>auto simp: rd_value.simps loop_value value_round_def Let_def intro: follows_evaluation\<close>)
next
  case (2 strtod xs p)
  note IH = 2(1)[OF in_array_good[OF 2(3)], of "True # states"]
  show ?case
  proof (cases "rd_value strtod p")
    case (Inl e)
    with IH show ?thesis by (simp add: rd_elements.simps follows_def)
  next
    case (Inr vp)
    obtain v p1 where vp: "vp = (v, p1)" by (cases vp)
    with IH Inr obtain s2 where s2: "built s1 v s2"
        "sax_loop strtod sx False (True # states) p s1 = sax_loop strtod sx True (True # states) p1 s2"
      by (auto simp: follows_def)
    from in_array_built[OF 2(3) s2(1)] have arr: "in_array s (xs @ [v]) s2" .
    obtain s3 where s3: "sx_end_array sx s2 = (True, s3)" "built s (JArray (xs @ [v])) s3"
      using end_array_ok[OF arr] by blast
    let ?p2 = "get_token strtod p1"
    show ?thesis
    proof (cases "last_token ?p2 = T_value_separator")
      case True
      from 2(2)[OF Inr vp[symmetric] refl True arr] show ?thesis
        by (simp add: rd_elements.simps[of strtod xs] Inr vp s2 loop_skip state_evaluation_def Let_def True)
    next
      case False
      then show ?thesis using s3
        by (simp add: rd_elements.simps[of strtod xs] Inr vp s2 loop_skip[of _ "True # states"]
            state_evaluation_def Let_def)
    qed
  qed
next
  case (3 strtod m p)
  let ?p1 = "get_token strtod p"
  let ?p2 = "get_token strtod ?p1"
  show ?case
  proof (cases "last_token p = T_value_string")
    case False
    then show ?thesis by (simp add: rd_members.simps parse_key_def Let_def)
  next
    case str: True
    obtain s2 where s2: "sx_key sx (lx_buffer (m_lexer p)) s1 = (True, s2)"
        "at_key s m (lx_buffer (m_lexer p)) s2"
      using key_ok[OF 3(3)] by blast
    show ?thesis
    proof (cases "last_token ?p1 = T_name_separator")
      case False
      then show ?thesis using str s2 by (simp add: rd_members.simps parse_key_def Let_def)
    next
      case sep: True
      have key: "run_round strtod (parse_key strtod sx p s1 (Continue False (False # states)))
          = sax_loop strtod sx False (False # states) ?p2 s2"
        using str sep s2 by (simp add: parse_key_def Let_def)
      note IH = 3(1)[OF refl _ _ at_key_good[OF s2(2)], of "False # states"]
      show ?thesis
      proof (cases "rd_value strtod ?p2")
        case (Inl e)
        with IH str sep show ?thesis
          by (simp add: rd_members.simps[of strtod m] follows_def Let_def key)
      next
        case (Inr vp)
        obtain v p3 where vp: "vp = (v, p3)" by (cases vp)
        with IH Inr str sep obtain s3 where s3: "built s2 v s3"
            "sax_loop strtod sx False (False # states) ?p2 s2 = sax_loop strtod sx True (False # states) p3 s3"
          by (auto simp: follows_def)
        from at_key_built[OF s2(2) s3(1)]
        have obj: "in_object s (omap_assign (lx_buffer (m_lexer p)) v m) s3" .
        obtain s4 where s4: "sx_end_object sx s3 = (True, s4)"
            "built s (JObject (omap_assign (lx_buffer (m_lexer p)) v m)) s4"
          using end_object_ok[OF obj] by blast
        let ?p4 = "get_token strtod p3"
        show ?thesis
        proof (cases "last_token ?p4 = T_value_separator")
          case True
          from 3(2)[OF refl _ _ Inr vp[symmetric] refl refl True obj] str sep show ?thesis
            by (simp add: rd_members.simps[of strtod m p] Inr vp key s3 loop_skip state_evaluation_def Let_def True)
        next
          case False
          then show ?thesis using s4 str sep
            by (simp add: rd_members.simps[of strtod m p] Inr vp key s3 loop_skip[of _ "False # states"]
                state_evaluation_def Let_def)
        qed
      qed
    qed
  qed
qed

end

subsection \<open>json_sax_dom_parser: building the value through pointers\<close>

text \<open>
  A pointer to an element of the value under construction is the path to it: element \<open>i\<close> of an
  array, or the element an object holds under a key. \<open>json_update\<close> is an assignment through it.
\<close>

datatype path_step = At_index nat | At_key string

type_synonym path = "path_step list"

fun omap_update :: "string \<Rightarrow> ('v \<Rightarrow> 'v) \<Rightarrow> (string \<times> 'v) list \<Rightarrow> (string \<times> 'v) list" where
  "omap_update k f [] = []"
| "omap_update k f ((j, w) # m) = (if j = k then (j, f w) # m else (j, w) # omap_update k f m)"

fun json_at :: "path \<Rightarrow> json \<Rightarrow> json option" where
  "json_at [] j = Some j"
| "json_at (At_index i # p) (JArray xs) = (if i < length xs then json_at p (xs ! i) else None)"
| "json_at (At_key k # p) (JObject m) = Option.bind (map_of m k) (json_at p)"
| "json_at p j = None"

fun json_update :: "path \<Rightarrow> (json \<Rightarrow> json) \<Rightarrow> json \<Rightarrow> json" where
  "json_update [] f j = f j"
| "json_update (At_index i # p) f (JArray xs) =
     JArray (if i < length xs then xs[i := json_update p f (xs ! i)] else xs)"
| "json_update (At_key k # p) f (JObject m) = JObject (omap_update k (json_update p f) m)"
| "json_update p f j = j"

text \<open>The innermost container is the first of \<open>dom_stack\<close>.\<close>

record dom =
  dom_root :: json
  dom_stack :: "path list"
  dom_element :: "path option"
  dom_errored :: bool

definition new_dom :: dom where
  "new_dom = \<lparr>dom_root = JNull, dom_stack = [], dom_element = None, dom_errored = False\<rparr>"

text \<open>\<open>handle_value\<close>: the pointer to the new value and the state with it.\<close>

definition handle_value :: "json \<Rightarrow> dom \<Rightarrow> path \<times> dom" where
  "handle_value v d =
     (case dom_stack d of
        [] \<Rightarrow> ([], d\<lparr>dom_root := v\<rparr>)
      | p # outer \<Rightarrow>
          (case json_at p (dom_root d) of
             Some (JArray xs) \<Rightarrow>
               (p @ [At_index (length xs)],
                d\<lparr>dom_root := json_update p (\<lambda>_. JArray (xs @ [v])) (dom_root d)\<rparr>)
           | _ \<Rightarrow>
               (case dom_element d of
                  Some q \<Rightarrow> (q, d\<lparr>dom_root := json_update q (\<lambda>_. v) (dom_root d)\<rparr>)
                | None \<Rightarrow> ([], d))))"

definition dom_value :: "json \<Rightarrow> dom \<Rightarrow> bool \<times> dom" where
  "dom_value v d = (True, snd (handle_value v d))"

definition dom_start :: "json \<Rightarrow> dom \<Rightarrow> bool \<times> dom" where
  "dom_start v d = (case handle_value v d of (p, d1) \<Rightarrow> (True, d1\<lparr>dom_stack := p # dom_stack d1\<rparr>))"

definition dom_key :: "string \<Rightarrow> dom \<Rightarrow> bool \<times> dom" where
  "dom_key k d =
     (case dom_stack d of
        [] \<Rightarrow> (True, d)
      | p # outer \<Rightarrow>
          (True, d\<lparr>dom_root := json_update p (\<lambda>j. case j of JObject m \<Rightarrow> JObject (omap_emplace k JNull m) | _ \<Rightarrow> j)
                     (dom_root d),
                   dom_element := Some (p @ [At_key k])\<rparr>))"

definition dom_end :: "dom \<Rightarrow> bool \<times> dom" where
  "dom_end d = (True, d\<lparr>dom_stack := tl (dom_stack d)\<rparr>)"

text \<open>\<open>parse_error\<close> throws the exception, unless exceptions are switched off.\<close>

definition dom_parse_error :: "bool \<Rightarrow> json_exception \<Rightarrow> dom \<Rightarrow> json_exception + bool \<times> dom" where
  "dom_parse_error allow_exceptions e d =
     (if allow_exceptions then Inl e else Inr (False, d\<lparr>dom_errored := True\<rparr>))"

definition dom_sax :: "bool \<Rightarrow> dom sax" where
  "dom_sax allow_exceptions =
     \<lparr>sx_null = dom_value JNull, sx_boolean = (\<lambda>b. dom_value (JBoolean b)),
      sx_integer = (\<lambda>w. dom_value (JInteger w)), sx_unsigned = (\<lambda>w. dom_value (JUnsigned w)),
      sx_float = (\<lambda>w t. dom_value (JFloat w)), sx_string = (\<lambda>t. dom_value (JString t)),
      sx_start_object = dom_start (JObject []), sx_key = dom_key, sx_end_object = dom_end,
      sx_start_array = dom_start (JArray []), sx_end_array = dom_end,
      sx_parse_error = (\<lambda>byte token e. dom_parse_error allow_exceptions e)\<rparr>"

text \<open>Assignments through pointers: a path and the context it points into.\<close>

lemma json_at_append: "json_at (p @ q) j = Option.bind (json_at p j) (json_at q)"
proof (induction p j rule: json_at.induct)
  case (3 k p m)
  then show ?case by (cases "map_of m k") auto
qed auto

lemma json_update_root [simp]: "json_update [] f = f"
  by (simp add: fun_eq_iff)

lemma omap_update_cong: "(\<And>w. f w = g w) \<Longrightarrow> omap_update k f m = omap_update k g m"
  by (induction m) auto

lemma json_update_append: "json_update (p @ q) f j = json_update p (json_update q f) j"
proof (induction p f j rule: json_update.induct)
  case (3 k p f m)
  then show ?case by (auto intro: omap_update_cong)
qed auto

lemma map_of_assign: "map_of (omap_assign k v m) k = Some v"
  by (induction m) auto

lemma update_assign: "omap_update k f (omap_assign k v m) = omap_assign k (f v) m"
  by (induction m) auto

lemma update_emplace: "omap_update k (\<lambda>_. v) (omap_emplace k w m) = omap_assign k v m"
  by (induction m) auto

definition points :: "path \<Rightarrow> (json \<Rightarrow> json) \<Rightarrow> bool" where
  "points p C \<longleftrightarrow> (\<forall>x f. json_at p (C x) = Some x \<and> json_update p f (C x) = C (f x))"

lemma points_at: "points p C \<Longrightarrow> json_at p (C x) = Some x"
  and points_update: "points p C \<Longrightarrow> json_update p f (C x) = C (f x)"
  by (simp_all add: points_def)

lemma points_root: "points [] (\<lambda>x. x)"
  by (simp add: points_def)

lemma points_index: "points p C \<Longrightarrow> points (p @ [At_index (length xs)]) (\<lambda>x. C (JArray (xs @ [x])))"
  by (simp add: points_def json_at_append json_update_append)

lemma points_key: "points p C \<Longrightarrow> points (p @ [At_key k]) (\<lambda>x. C (JObject (omap_assign k x m)))"
  by (simp add: points_def json_at_append json_update_append map_of_assign update_assign)

text \<open>The place where the next value goes, and the relations of the contract.\<close>

definition dom_ptr :: "dom \<Rightarrow> path" where
  "dom_ptr d = fst (handle_value JNull d)"

definition dom_place :: "dom \<Rightarrow> json \<Rightarrow> json" where
  "dom_place d v = dom_root (snd (handle_value v d))"

definition dom_good :: "dom \<Rightarrow> bool" where
  "dom_good d \<longleftrightarrow>
     (\<forall>v. handle_value v d = (dom_ptr d, d\<lparr>dom_root := dom_place d v\<rparr>)) \<and> points (dom_ptr d) (dom_place d)"

definition dom_built :: "dom \<Rightarrow> json \<Rightarrow> dom \<Rightarrow> bool" where
  "dom_built d v d1 \<longleftrightarrow>
     dom_good d \<and> dom_root d1 = dom_place d v \<and> dom_stack d1 = dom_stack d \<and> dom_errored d1 = dom_errored d"

definition dom_in :: "dom \<Rightarrow> json \<Rightarrow> dom \<Rightarrow> bool" where
  "dom_in d v d1 \<longleftrightarrow>
     dom_good d \<and> dom_root d1 = dom_place d v \<and> dom_stack d1 = dom_ptr d # dom_stack d
     \<and> dom_errored d1 = dom_errored d"

definition dom_at_key :: "dom \<Rightarrow> (string \<times> json) list \<Rightarrow> string \<Rightarrow> dom \<Rightarrow> bool" where
  "dom_at_key d m k d1 \<longleftrightarrow>
     dom_in d (JObject (omap_emplace k JNull m)) d1 \<and> dom_element d1 = Some (dom_ptr d @ [At_key k])"

lemma dom_goodI:
  assumes "\<And>v. handle_value v d = (p, d\<lparr>dom_root := C v\<rparr>)" and "points p C"
  shows "dom_good d" "dom_ptr d = p" "dom_place d = C"
proof -
  show p: "dom_ptr d = p" using assms(1) by (simp add: dom_ptr_def)
  show C: "dom_place d = C" using assms(1) by (simp add: dom_place_def fun_eq_iff)
  show "dom_good d" unfolding dom_good_def p C using assms by simp
qed

lemma dom_good_new: "dom_good new_dom" "dom_place new_dom v = v" "dom_stack new_dom = []"
  using dom_goodI[of new_dom "[]" "\<lambda>x. x", OF _ points_root] by (simp_all add: handle_value_def new_dom_def)

lemma dom_value_built: "dom_good d \<Longrightarrow> dom_built d v (snd (dom_value v d))"
  by (simp add: dom_value_def dom_built_def) (simp add: dom_good_def)

lemma dom_start_in: "dom_good d \<Longrightarrow> dom_in d v (snd (dom_start v d))"
  by (simp add: dom_start_def dom_in_def split: prod.split) (auto simp: dom_good_def)

lemma dom_in_array_place:
  assumes "dom_in d (JArray xs) d1"
  shows "dom_good d1" "dom_place d1 = (\<lambda>x. dom_place d (JArray (xs @ [x])))"
proof -
  have P: "points (dom_ptr d) (dom_place d)" using assms by (simp add: dom_in_def dom_good_def)
  have "handle_value v d1 = (dom_ptr d @ [At_index (length xs)],
      d1\<lparr>dom_root := dom_place d (JArray (xs @ [v]))\<rparr>)" for v
    using assms P by (simp add: handle_value_def dom_in_def points_at points_update)
  note dom_goodI[OF this points_index[OF P]]
  then show "dom_good d1" "dom_place d1 = (\<lambda>x. dom_place d (JArray (xs @ [x])))" by auto
qed

lemma dom_at_key_place:
  assumes "dom_at_key d m k d1"
  shows "dom_good d1" "dom_place d1 = (\<lambda>x. dom_place d (JObject (omap_assign k x m)))"
proof -
  have P: "points (dom_ptr d) (dom_place d)" using assms by (simp add: dom_at_key_def dom_in_def dom_good_def)
  have "handle_value v d1 = (dom_ptr d @ [At_key k],
      d1\<lparr>dom_root := dom_place d (JObject (omap_assign k v m))\<rparr>)" for v
    using assms P
    by (simp add: handle_value_def dom_at_key_def dom_in_def points_at points_update json_update_append
        update_emplace)
  note dom_goodI[OF this points_key[OF P]]
  then show "dom_good d1" "dom_place d1 = (\<lambda>x. dom_place d (JObject (omap_assign k x m)))" by auto
qed

lemma dom_end_built: "dom_in d v d1 \<Longrightarrow> dom_built d v (snd (dom_end d1))"
  by (simp add: dom_in_def dom_built_def dom_end_def)

lemma dom_key_at:
  assumes "dom_in d (JObject m) d1"
  shows "dom_at_key d m k (snd (dom_key k d1))"
proof -
  have P: "points (dom_ptr d) (dom_place d)" using assms by (simp add: dom_in_def dom_good_def)
  show ?thesis using assms P
    by (simp add: dom_key_def dom_in_def dom_at_key_def points_update)
qed

lemma event_ok: "fst r \<Longrightarrow> P (snd r) \<Longrightarrow> \<exists>s1. r = (True, s1) \<and> P s1"
  by (cases r) auto

lemma dom_goes_on [simp]:
  "fst (dom_value v d)" "fst (dom_start v d)" "fst (dom_key k d)" "fst (dom_end d)"
  by (simp_all add: dom_value_def dom_start_def dom_key_def dom_end_def split: prod.split list.split)

lemmas dom_events =
  dom_value_built dom_start_in dom_end_built dom_key_at dom_in_array_place(1) dom_at_key_place(1)

interpretation dom: json_sax "dom_sax allow_exceptions" dom_good dom_built
    "\<lambda>d xs. dom_in d (JArray xs)" "\<lambda>d m. dom_in d (JObject m)" dom_at_key
  for allow_exceptions
proof (unfold_locales, goal_cases)
  case (9 s xs s1 v s2)
  then show ?case using dom_in_array_place[OF 9(1)]
    by (simp add: dom_built_def dom_in_def)
next
  case (14 s m k s1 v s2)
  then show ?case using dom_at_key_place[OF 14(1)]
    by (simp add: dom_built_def dom_in_def dom_at_key_def)
qed (simp_all add: dom_sax_def event_ok dom_events)

subsection \<open>json_sax_acceptor\<close>

definition acceptor_sax :: "unit sax" where
  "acceptor_sax =
     \<lparr>sx_null = Pair True, sx_boolean = (\<lambda>_. Pair True), sx_integer = (\<lambda>_. Pair True),
      sx_unsigned = (\<lambda>_. Pair True), sx_float = (\<lambda>_ _. Pair True), sx_string = (\<lambda>_. Pair True),
      sx_start_object = Pair True, sx_key = (\<lambda>_. Pair True), sx_end_object = Pair True,
      sx_start_array = Pair True, sx_end_array = Pair True,
      sx_parse_error = (\<lambda>_ _ _ s. Inr (False, s))\<rparr>"

interpretation acceptor: json_sax acceptor_sax "\<lambda>_. True" "\<lambda>_ _ _. True" "\<lambda>_ _ _. True"
    "\<lambda>_ _ _. True" "\<lambda>_ _ _ _. True"
  by unfold_locales (simp_all add: acceptor_sax_def)

subsection \<open>parse and accept\<close>

text \<open>
  \<open>parser::parse\<close> without a callback, called by \<open>json::parse\<close>. \<open>None\<close> in the result is the
  discarded value of a failed parse with exceptions switched off.
\<close>

definition json_parse ::
    "(string \<Rightarrow> u64) \<Rightarrow> char \<Rightarrow> bool \<Rightarrow> string \<Rightarrow> (json_exception + json option) option" where
  "json_parse strtod point allow_exceptions t =
     (case sax_parse_internal strtod (dom_sax allow_exceptions) (new_parser strtod point t) new_dom of
        None \<Rightarrow> None
      | Some (Inl e) \<Rightarrow> Some (Inl e)
      | Some (Inr (b, p, d)) \<Rightarrow>
          (let p1 = get_token strtod p
           in case (if last_token p1 \<noteq> T_end_of_input
                    then dom_parse_error allow_exceptions (syntax_error p1 T_end_of_input ''value'') d
                    else Inr (b, d)) of
                Inl e \<Rightarrow> Some (Inl e)
              | Inr (b1, d1) \<Rightarrow> Some (Inr (if dom_errored d1 then None else Some (dom_root d1)))))"

definition json_accept :: "(string \<Rightarrow> u64) \<Rightarrow> char \<Rightarrow> string \<Rightarrow> bool option" where
  "json_accept strtod point t =
     map_option (\<lambda>r. case r of Inl e \<Rightarrow> False | Inr (b, p, s) \<Rightarrow> b)
       (sax_parse_strict strtod acceptor_sax (new_parser strtod point t) ())"

text \<open>The specification of both: a value and nothing after it.\<close>

definition rd_text :: "(string \<Rightarrow> u64) \<Rightarrow> char \<Rightarrow> string \<Rightarrow> json_exception + json" where
  "rd_text strtod point t =
     (case rd_value strtod (new_parser strtod point t) of
        Inl e \<Rightarrow> Inl e
      | Inr (v, p) \<Rightarrow>
          (let p1 = get_token strtod p
           in if last_token p1 = T_end_of_input then Inr v
              else Inl (syntax_error p1 T_end_of_input ''value'')))"

definition is_value :: "json_exception + json \<Rightarrow> bool" where
  "is_value r = (case r of Inl e \<Rightarrow> False | Inr v \<Rightarrow> True)"

lemma sax_error_dom [simp]:
  "sax_error (dom_sax True) p e d = Inl e"
  "sax_error (dom_sax False) p e d = Inr (False, p, d\<lparr>dom_errored := True\<rparr>)"
  by (simp_all add: sax_error_def dom_sax_def dom_parse_error_def)

lemma sax_error_acceptor [simp]: "sax_error acceptor_sax p e s = Inr (False, p, s)"
  by (simp add: sax_error_def acceptor_sax_def)

lemma loop_done: "sax_loop strtod sx True [] p s = Some (Inr (True, p, s))"
  by (simp add: sax_loop.simps[of strtod sx True] sax_round_def state_evaluation_def)

lemma parse_internal_dom:
  "(case rd_value strtod p of
      Inl e \<Rightarrow> \<exists>p1 d1. sax_parse_internal strtod (dom_sax allow) p new_dom = Some (sax_error (dom_sax allow) p1 e d1)
    | Inr (v, p1) \<Rightarrow> \<exists>d1. sax_parse_internal strtod (dom_sax allow) p new_dom = Some (Inr (True, p1, d1))
        \<and> dom_root d1 = v \<and> \<not> dom_errored d1)"
  using dom.loop_descent(1)[OF dom_good_new(1), where states = "[]" and strtod = strtod and p = p
      and allow_exceptions = allow]
  by (auto simp: dom.follows_def sax_parse_internal_def loop_done dom_built_def dom_good_new(2)
      split: sum.splits) (simp add: new_dom_def)

lemma json_parse_throws:
  "json_parse strtod point True t =
     Some (case rd_text strtod point t of Inl e \<Rightarrow> Inl e | Inr v \<Rightarrow> Inr (Some v))"
  using parse_internal_dom[where strtod = strtod and p = "new_parser strtod point t" and allow = True]
  by (auto simp: json_parse_def rd_text_def Let_def dom_parse_error_def split: sum.splits)

lemma json_parse_silent:
  "json_parse strtod point False t =
     Some (Inr (case rd_text strtod point t of Inl e \<Rightarrow> None | Inr v \<Rightarrow> Some v))"
  using parse_internal_dom[where strtod = strtod and p = "new_parser strtod point t" and allow = False]
  by (auto simp: json_parse_def rd_text_def Let_def dom_parse_error_def split: sum.splits)

lemma json_accept_value: "json_accept strtod point t = Some (is_value (rd_text strtod point t))"
proof -
  let ?p = "new_parser strtod point t"
  have F: "acceptor.follows strtod () [] (rd_value strtod ?p) (sax_parse_internal strtod acceptor_sax ?p ())"
    unfolding sax_parse_internal_def by (rule acceptor.loop_descent(1)) simp
  show ?thesis
  proof (cases "rd_value strtod ?p")
    case (Inl e)
    with F obtain p1 where "sax_parse_internal strtod acceptor_sax ?p () = Some (Inr (False, p1, ()))"
      by (auto simp: acceptor.follows_def)
    then show ?thesis
      by (simp add: json_accept_def sax_parse_strict_def rd_text_def is_value_def Inl)
  next
    case (Inr vp)
    obtain v p1 where vp: "vp = (v, p1)" by (cases vp)
    with F Inr have "sax_parse_internal strtod acceptor_sax ?p () = Some (Inr (True, p1, ()))"
      by (auto simp: acceptor.follows_def loop_done)
    then show ?thesis
      by (simp add: json_accept_def sax_parse_strict_def rd_text_def is_value_def Inr vp Let_def)
  qed
qed

subsection \<open>The position of an error\<close>

lemma new_parser_reads: "reads (live (new_parser strtod point t)) (new_lexer point t) (m_lexer (new_parser strtod point t))"
  using get_token_reads[of strtod "\<lparr>last_token = T_uninitialized, m_lexer = new_lexer point t\<rparr>"]
  by (simp add: new_parser_def)

text \<open>
  The bytes counted so far: never more than the input has, plus one once a token has met its end.
\<close>

definition position_within :: "nat \<Rightarrow> json_parser \<Rightarrow> bool" where
  "position_within n p \<longleftrightarrow> lx_span (m_lexer p) \<le> (if live p then n else Suc n)"

lemma within_get_token: "position_within n p \<Longrightarrow> live p \<Longrightarrow> position_within n (get_token strtod p)"
  using get_token_reads[of strtod p] by (auto simp: position_within_def reads_def split: if_splits)

lemma within_new_parser: "position_within (length t) (new_parser strtod point t)"
  using new_parser_reads[of strtod point t]
  by (auto simp: position_within_def reads_def lx_span_def new_lexer_def lx_rest_def split: if_splits)

definition error_within :: "nat \<Rightarrow> json_exception \<Rightarrow> bool" where
  "error_within n e \<longleftrightarrow>
     (case e of Parse_Error i b w \<Rightarrow> i = 101 \<and> b \<le> Suc n | Out_Of_Range i w \<Rightarrow> i = 406 | Type_Error i w \<Rightarrow> False)"

lemma syntax_error_within: "position_within n p \<Longrightarrow> error_within n (syntax_error p t w)"
  by (auto simp: error_within_def syntax_error_def parse_error_at_def position_within_def lx_span_def split: if_splits)

lemma number_overflow_within: "error_within n (number_overflow p)"
  by (simp add: error_within_def number_overflow_def out_of_range_def)

definition descent_within :: "nat \<Rightarrow> json descent \<Rightarrow> bool" where
  "descent_within n d \<longleftrightarrow>
     (case d of Inl e \<Rightarrow> error_within n e | Inr (v, p) \<Rightarrow> position_within n p \<and> live p)"

lemma descent_within_simps [simp]:
  "descent_within n (Inl e) = error_within n e" "descent_within n (Inr (v, p)) \<longleftrightarrow> position_within n p \<and> live p"
  by (simp_all add: descent_within_def)

lemma rd_within:
  "position_within n p \<Longrightarrow> descent_within n (rd_value strtod p)"
  "position_within n p \<Longrightarrow> descent_within n (rd_elements strtod xs p)"
  "position_within n p \<Longrightarrow> descent_within n (rd_members strtod m p)"
proof (induction strtod p and strtod xs p and strtod m p rule: rd_value_rd_elements_rd_members.induct)
  case (1 strtod p)
  have arr: "position_within n (get_token strtod p)" if "last_token p = T_begin_array \<or> last_token p = T_begin_object"
    using within_get_token[OF 1(3)] live_tokens(6,7)[of p] that by blast
  have live: "live (get_token strtod p)" if "last_token (get_token strtod p) = T_end_array \<or>
      last_token (get_token strtod p) = T_end_object"
    using live_tokens(2,3) that by blast
  show ?case
    using 1 arr live
    by (cases "last_token p")
      (auto simp: rd_value.simps Let_def syntax_error_within number_overflow_within, auto simp: live_def)
next
  case (2 strtod xs p)
  show ?case
  proof (cases "rd_value strtod p")
    case (Inl e)
    then show ?thesis using 2 by (simp add: rd_elements.simps)
  next
    case (Inr vp)
    obtain v p1 where vp: "vp = (v, p1)" by (cases vp)
    have p1: "position_within n p1" "live p1" using 2(1)[OF 2(3)] Inr vp by auto
    let ?p2 = "get_token strtod p1"
    have p2: "position_within n ?p2" by (rule within_get_token[OF p1])
    have p3: "last_token ?p2 = T_value_separator \<Longrightarrow> position_within n (get_token strtod ?p2)"
      using within_get_token[OF p2] live_tokens(1) by blast
    show ?thesis
      using 2(2)[OF Inr vp[symmetric] refl _ p3] p2 live_tokens(2)[of ?p2]
      by (auto simp: rd_elements.simps[of strtod xs] Inr vp Let_def syntax_error_within)
  qed
next
  case (3 strtod m p)
  let ?p1 = "get_token strtod p"
  let ?p2 = "get_token strtod ?p1"
  show ?case
  proof (cases "last_token p = T_value_string")
    case False
    then show ?thesis using 3(3) by (simp add: rd_members.simps Let_def syntax_error_within)
  next
    case str: True
    have p1: "position_within n ?p1" using within_get_token[OF 3(3) live_tokens(4)[OF str]] .
    show ?thesis
    proof (cases "last_token ?p1 = T_name_separator")
      case False
      then show ?thesis using p1 str by (simp add: rd_members.simps Let_def syntax_error_within)
    next
      case sep: True
      have p2: "position_within n ?p2" by (rule within_get_token[OF p1 live_tokens(5)[OF sep]])
      note IH = 3(1)[OF refl _ _ p2]
      show ?thesis
      proof (cases "rd_value strtod ?p2")
        case (Inl e)
        then show ?thesis using IH str sep by (simp add: rd_members.simps[of strtod m] Let_def)
      next
        case (Inr vp)
        obtain v p3 where vp: "vp = (v, p3)" by (cases vp)
        have p3: "position_within n p3" "live p3" using IH str sep Inr vp by auto
        let ?p4 = "get_token strtod p3"
        have p4: "position_within n ?p4" by (rule within_get_token[OF p3])
        have p5: "last_token ?p4 = T_value_separator \<Longrightarrow> position_within n (get_token strtod ?p4)"
          using within_get_token[OF p4] live_tokens(1) by blast
        show ?thesis
          using 3(2)[OF refl _ _ Inr vp[symmetric] refl refl _ p5] p4 live_tokens(3)[of ?p4] str sep
          by (auto simp: rd_members.simps[of strtod m] Inr vp Let_def syntax_error_within)
      qed
    qed
  qed
qed

lemma rd_text_within: "rd_text strtod point t = Inl e \<Longrightarrow> error_within (length t) e"
  using rd_within(1)[OF within_new_parser[of t strtod point], of strtod] within_get_token
  by (auto simp: rd_text_def Let_def syntax_error_within split: sum.splits if_splits)
end
