(* ===== verification/Text_Writer.thy ===== *)
theory Text_Writer
  imports Text_Parser Grisu
begin

unbundle bit_operations_syntax

section \<open>JSON text: the serializer\<close>

text \<open>
  Models \<open>detail::serializer\<close> of \<open>src/external/nlohmann/json.h\<close> and \<open>json::dump\<close>: compact and
  indented output, strings escaped while the UTF-8 decoder checks them, with the three error
  handlers, integers written backwards into the number buffer and floating point numbers by
  \<open>to_chars\<close>. The text written so far is part of the state. \<open>Dump_Overrun\<close> is an access past the end
  of the indentation string or of a buffer of the serializer, \<open>Dump_Endless\<close> a conversion that does
  not return.
\<close>

datatype error_handler = Handler_strict | Handler_replace | Handler_ignore

datatype dump_error =
    Dump_Throws json_exception
  | Dump_Overrun
  | Dump_Endless

record serializer =
  sr_out :: string
  sr_number :: string
  sr_indent :: string
  sr_handler :: error_handler

definition new_serializer :: "char \<Rightarrow> error_handler \<Rightarrow> serializer" where
  "new_serializer ichar handler =
     \<lparr>sr_out = [], sr_number = replicate 64 NUL, sr_indent = replicate 512 ichar, sr_handler = handler\<rparr>"

definition type_error :: "nat \<Rightarrow> string \<Rightarrow> json_exception" where
  "type_error i what = Type_Error i (exception_name ''type_error'' i @ what)"

definition write_characters :: "string \<Rightarrow> serializer \<Rightarrow> serializer" where
  "write_characters s sr = sr\<lparr>sr_out := sr_out sr @ s\<rparr>"

subsection \<open>decode: the UTF-8 automaton\<close>

definition utf8d :: "nat list" where
  "utf8d =
     [0, 0, 0, 0, 0, 0, 0, 0, 0, 0, 0, 0, 0, 0, 0, 0, 0, 0, 0, 0, 0, 0, 0, 0, 0, 0, 0, 0, 0, 0, 0, 0,
      0, 0, 0, 0, 0, 0, 0, 0, 0, 0, 0, 0, 0, 0, 0, 0, 0, 0, 0, 0, 0, 0, 0, 0, 0, 0, 0, 0, 0, 0, 0, 0,
      0, 0, 0, 0, 0, 0, 0, 0, 0, 0, 0, 0, 0, 0, 0, 0, 0, 0, 0, 0, 0, 0, 0, 0, 0, 0, 0, 0, 0, 0, 0, 0,
      0, 0, 0, 0, 0, 0, 0, 0, 0, 0, 0, 0, 0, 0, 0, 0, 0, 0, 0, 0, 0, 0, 0, 0, 0, 0, 0, 0, 0, 0, 0, 0,
      1, 1, 1, 1, 1, 1, 1, 1, 1, 1, 1, 1, 1, 1, 1, 1, 9, 9, 9, 9, 9, 9, 9, 9, 9, 9, 9, 9, 9, 9, 9, 9,
      7, 7, 7, 7, 7, 7, 7, 7, 7, 7, 7, 7, 7, 7, 7, 7, 7, 7, 7, 7, 7, 7, 7, 7, 7, 7, 7, 7, 7, 7, 7, 7,
      8, 8, 2, 2, 2, 2, 2, 2, 2, 2, 2, 2, 2, 2, 2, 2, 2, 2, 2, 2, 2, 2, 2, 2, 2, 2, 2, 2, 2, 2, 2, 2,
      10, 3, 3, 3, 3, 3, 3, 3, 3, 3, 3, 3, 3, 4, 3, 3,
      11, 6, 6, 6, 5, 8, 8, 8, 8, 8, 8, 8, 8, 8, 8, 8,
      0, 1, 2, 3, 5, 8, 7, 1, 1, 1, 4, 6, 1, 1, 1, 1,
      1, 1, 1, 1, 1, 1, 1, 1, 1, 1, 1, 1, 1, 1, 1, 1, 1, 0, 1, 1, 1, 1, 1, 0, 1, 0, 1, 1, 1, 1, 1, 1,
      1, 2, 1, 1, 1, 1, 1, 2, 1, 2, 1, 1, 1, 1, 1, 1, 1, 1, 1, 1, 1, 1, 1, 2, 1, 1, 1, 1, 1, 1, 1, 1,
      1, 2, 1, 1, 1, 1, 1, 1, 1, 2, 1, 1, 1, 1, 1, 1, 1, 1, 1, 1, 1, 1, 1, 3, 1, 3, 1, 1, 1, 1, 1, 1,
      1, 3, 1, 1, 1, 1, 1, 3, 1, 3, 1, 1, 1, 1, 1, 1, 1, 3, 1, 1, 1, 1, 1, 1, 1, 1, 1, 1, 1, 1, 1, 1]"

text \<open>The new state and code point.\<close>

definition decode :: "nat \<Rightarrow> u32 \<Rightarrow> nat \<Rightarrow> nat \<times> u32" where
  "decode state codep byte =
     (let type = utf8d ! byte;
          codep1 = (if state \<noteq> 0 then (word_of_nat byte AND 0x3F) OR push_bit 6 codep
                    else drop_bit type 0xFF AND word_of_nat byte)
      in (utf8d ! (256 + state * 16 + type), codep1))"

subsection \<open>dump_escaped\<close>

text \<open>
  The local state: the first \<open>bytes\<close> characters of \<open>string_buffer\<close>, the number of them up to the
  last accepted code point, and what has been written to the output.
\<close>

record escaper =
  es_state :: nat
  es_codepoint :: u32
  es_buffer :: string
  es_accepted :: nat
  es_undumped :: nat
  es_out :: string

text \<open>A write of \<open>room\<close> bytes to the array of 512; \<open>s\<close> is what remains of it in the text.\<close>

definition put_buffer :: "nat \<Rightarrow> string \<Rightarrow> escaper \<Rightarrow> dump_error + escaper" where
  "put_buffer room s es =
     (if length (es_buffer es) + room \<le> 512 then Inr (es\<lparr>es_buffer := es_buffer es @ s\<rparr>)
      else Inl Dump_Overrun)"

definition flush_buffer :: "escaper \<Rightarrow> escaper" where
  "flush_buffer es =
     (if 512 - length (es_buffer es) < 13 then es\<lparr>es_out := es_out es @ es_buffer es, es_buffer := []\<rparr>
      else es)"

definition hex_lower :: "nat \<Rightarrow> char" where
  "hex_lower d = (if d < 10 then char_of (48 + d) else char_of (87 + d))"

text \<open>\<open>%04x\<close> and \<open>%.2X\<close>.\<close>

definition hex4_lower :: "nat \<Rightarrow> string" where
  "hex4_lower n =
     [hex_lower (n div 4096 mod 16), hex_lower (n div 256 mod 16), hex_lower (n div 16 mod 16),
      hex_lower (n mod 16)]"

definition hex2_upper :: "nat \<Rightarrow> string" where
  "hex2_upper n = [hex_upper (n div 16 mod 16), hex_upper (n mod 16)]"

text \<open>The \<open>switch\<close> over an accepted code point: the room the write needs, and its text.\<close>

definition escape_codepoint :: "bool \<Rightarrow> u32 \<Rightarrow> char \<Rightarrow> nat \<times> string" where
  "escape_codepoint ensure_ascii cp c =
     (if cp = 0x08 then (2, [backslash_char, CHR ''b''])
      else if cp = 0x09 then (2, [backslash_char, CHR ''t''])
      else if cp = 0x0A then (2, [backslash_char, CHR ''n''])
      else if cp = 0x0C then (2, [backslash_char, CHR ''f''])
      else if cp = 0x0D then (2, [backslash_char, CHR ''r''])
      else if cp = 0x22 then (2, [backslash_char, CHR 0x22])
      else if cp = 0x5C then (2, [backslash_char, backslash_char])
      else if cp \<le> 0x1F \<or> ensure_ascii \<and> cp \<ge> 0x7F then
        (if cp \<le> 0xFFFF then (7, escape_u @ hex4_lower (unat cp))
         else (13, escape_u @ hex4_lower (unat (0xD7C0 + drop_bit 10 cp))
                   @ escape_u @ hex4_lower (unat (0xDC00 + (cp AND 0x3FF)))))
      else (1, [c]))"

text \<open>The replacement character U+FFFD, one byte after the other.\<close>

definition replacement :: "bool \<Rightarrow> string" where
  "replacement ensure_ascii =
     (if ensure_ascii then escape_u @ ''fffd'' else [CHR 0xEF, CHR 0xBF, CHR 0xBD])"

text \<open>
  The loop over the bytes, \<open>i\<close> the index of the next one. \<open>--i\<close> of a rejected byte that does not
  start its sequence reads that byte again.
\<close>

function escape_loop ::
    "error_handler \<Rightarrow> bool \<Rightarrow> nat \<Rightarrow> string \<Rightarrow> escaper \<Rightarrow> dump_error + escaper" where
  "escape_loop handler ensure_ascii i [] es = Inr es"
| "escape_loop handler ensure_ascii i (c # cs) es =
     (case decode (es_state es) (es_codepoint es) (code c) of (state, cp) \<Rightarrow>
        let es1 = es\<lparr>es_state := state, es_codepoint := cp\<rparr>
        in if state = 0 then
             (case put_buffer (fst (escape_codepoint ensure_ascii cp c))
                     (snd (escape_codepoint ensure_ascii cp c)) es1 of
                Inl e \<Rightarrow> Inl e
              | Inr es2 \<Rightarrow>
                  (let es3 = flush_buffer es2
                   in escape_loop handler ensure_ascii (i + 1) cs
                        (es3\<lparr>es_accepted := length (es_buffer es3), es_undumped := 0\<rparr>)))
           else if state = 1 then
             (if handler = Handler_strict then
                Inl (Dump_Throws (type_error 316
                  (''invalid UTF-8 byte at index '' @ dec_nat i @ '': 0x'' @ hex2_upper (code c))))
              else
                (let again = es_undumped es1 > 0;
                     es2 = es1\<lparr>es_buffer := take (es_accepted es1) (es_buffer es1)\<rparr>
                 in case (if handler = Handler_replace then
                            map_sum id (\<lambda>es3. let es4 = flush_buffer es3
                                         in es4\<lparr>es_accepted := length (es_buffer es4)\<rparr>)
                              (put_buffer (length (replacement ensure_ascii)) (replacement ensure_ascii) es2)
                          else Inr es2) of
                      Inl e \<Rightarrow> Inl e
                    | Inr es3 \<Rightarrow>
                        (let es4 = es3\<lparr>es_undumped := 0, es_state := 0\<rparr>
                         in if again then escape_loop handler ensure_ascii i (c # cs) es4
                            else escape_loop handler ensure_ascii (i + 1) cs es4)))
           else
             (case (if ensure_ascii then Inr es1 else put_buffer 1 [c] es1) of
                Inl e \<Rightarrow> Inl e
              | Inr es2 \<Rightarrow>
                  escape_loop handler ensure_ascii (i + 1) cs
                    (es2\<lparr>es_undumped := es_undumped es2 + 1\<rparr>)))"
  by pat_completeness auto

lemma put_buffer_undumped:
  "put_buffer room s es = Inr es1 \<Longrightarrow> es_undumped es1 = es_undumped es"
  by (auto simp: put_buffer_def split: if_splits)

termination escape_loop
  by (relation "measure (\<lambda>(h, a, i, s, es). 2 * length s + (if es_undumped es > 0 then 1 else 0))")
    (auto simp: Let_def)

definition new_escaper :: escaper where
  "new_escaper =
     \<lparr>es_state = 0, es_codepoint = 0, es_buffer = [], es_accepted = 0, es_undumped = 0, es_out = []\<rparr>"

definition dump_escaped :: "bool \<Rightarrow> string \<Rightarrow> serializer \<Rightarrow> dump_error + serializer" where
  "dump_escaped ensure_ascii s sr =
     (case escape_loop (sr_handler sr) ensure_ascii 0 s new_escaper of
        Inl e \<Rightarrow> Inl e
      | Inr es \<Rightarrow>
          if es_state es = 0 then Inr (write_characters (es_out es @ es_buffer es) sr)
          else
            (case sr_handler sr of
               Handler_strict \<Rightarrow>
                 Inl (Dump_Throws (type_error 316
                   (''incomplete UTF-8 string; last byte: 0x'' @ hex2_upper (code (last s)))))
             | Handler_ignore \<Rightarrow>
                 Inr (write_characters (es_out es @ take (es_accepted es) (es_buffer es)) sr)
             | Handler_replace \<Rightarrow>
                 Inr (write_characters
                   (es_out es @ take (es_accepted es) (es_buffer es) @ replacement ensure_ascii) sr)))"

subsection \<open>dump_integer and dump_float\<close>

function count_digits_from :: "nat \<Rightarrow> nat \<Rightarrow> nat" where
  "count_digits_from n_digits x =
     (if x < 10 then n_digits
      else if x < 100 then n_digits + 1
      else if x < 1000 then n_digits + 2
      else if x < 10000 then n_digits + 3
      else count_digits_from (n_digits + 4) (x div 10000))"
  by pat_completeness auto
termination count_digits_from
  by (relation "measure snd") auto

declare count_digits_from.simps [simp del]

definition count_digits :: "u64 \<Rightarrow> nat" where
  "count_digits x = count_digits_from 1 (unat x)"

text \<open>\<open>*(--buffer_ptr)\<close> for the two digits of a number below 100; \<open>ptr\<close> is the pointer after it.\<close>

definition put_pair :: "nat \<Rightarrow> nat \<Rightarrow> string \<Rightarrow> string" where
  "put_pair x ptr buf = buf[ptr - 1 := digit_char (x mod 10), ptr - 2 := digit_char (x div 10)]"

function fill_digits :: "nat \<Rightarrow> nat \<Rightarrow> string \<Rightarrow> string" where
  "fill_digits x ptr buf =
     (if x \<ge> 100 then fill_digits (x div 100) (ptr - 2) (put_pair (x mod 100) ptr buf)
      else if x \<ge> 10 then put_pair x ptr buf
      else buf[ptr - 1 := digit_char x])"
  by pat_completeness auto
termination fill_digits
  by (relation "measure fst") auto

declare fill_digits.simps [simp del]

text \<open>
  The branches for \<open>number_unsigned_t\<close> and \<open>number_integer_t\<close>. \<open>std::abs\<close> of the least integer
  overflows; the conversion to \<open>number_unsigned_t\<close> of the value two's complement yields is \<open>2 ^ 63\<close>.
\<close>

definition dump_abs :: "bool \<Rightarrow> u64 \<Rightarrow> serializer \<Rightarrow> serializer" where
  "dump_abs is_negative x sr =
     (let buf = (if is_negative then (sr_number sr)[0 := CHR ''-''] else sr_number sr);
          abs_value = (if is_negative then - x else x);
          n_chars = (if is_negative then 1 + count_digits abs_value else count_digits abs_value);
          buf1 = fill_digits (unat abs_value) n_chars buf
      in write_characters (take n_chars buf1) (sr\<lparr>sr_number := buf1\<rparr>))"

definition dump_unsigned :: "u64 \<Rightarrow> serializer \<Rightarrow> serializer" where
  "dump_unsigned x sr = (if x = 0 then write_characters ''0'' sr else dump_abs False x sr)"

definition dump_integer :: "u64 \<Rightarrow> serializer \<Rightarrow> serializer" where
  "dump_integer x sr = (if x = 0 then write_characters ''0'' sr else dump_abs (sint x < 0) x sr)"

text \<open>\<open>to_chars\<close> fills the first characters of the number buffer.\<close>

definition dump_float :: "u64 \<Rightarrow> serializer \<Rightarrow> dump_error + serializer" where
  "dump_float x sr =
     (if \<not> is_finite x then Inr (write_characters ''null'' sr)
      else (case to_chars x of
              None \<Rightarrow> Inl Dump_Endless
            | Some t \<Rightarrow>
                if length t \<le> 64 then
                  Inr (write_characters t (sr\<lparr>sr_number := t @ drop (length t) (sr_number sr)\<rparr>))
                else Inl Dump_Overrun))"

subsection \<open>dump\<close>

text \<open>
  The indentation: \<open>resize\<close> doubles the string once, with spaces. \<open>c_str()\<close> has one more readable
  character, the terminating NUL.
\<close>

definition grow_indent :: "nat \<Rightarrow> serializer \<Rightarrow> serializer" where
  "grow_indent new_indent sr =
     (if length (sr_indent sr) < new_indent
      then sr\<lparr>sr_indent := sr_indent sr @ replicate (length (sr_indent sr)) CHR '' ''\<rparr> else sr)"

definition write_indent :: "nat \<Rightarrow> serializer \<Rightarrow> dump_error + serializer" where
  "write_indent n sr =
     (if n \<le> length (sr_indent sr) + 1 then Inr (write_characters (take n (sr_indent sr @ [NUL])) sr)
      else Inl Dump_Overrun)"

definition and_then :: "('e + 'a) \<Rightarrow> ('a \<Rightarrow> 'e + 'b) \<Rightarrow> 'e + 'b" where
  "and_then r f = (case r of Inl e \<Rightarrow> Inl e | Inr x \<Rightarrow> f x)"

lemma and_then_simps [simp]: "and_then (Inl e) f = Inl e" "and_then (Inr x) f = f x"
  by (simp_all add: and_then_def)

lemma and_then_cong [fundef_cong]:
  "r = r' \<Longrightarrow> (\<And>x. r' = Inr x \<Longrightarrow> f x = g x) \<Longrightarrow> and_then r f = and_then r' g"
  by (cases r') auto

text \<open>The configuration of a call: pretty printing, ASCII output, the step of the indentation.\<close>

record dump_config =
  pretty_print :: bool
  ensure_ascii :: bool
  indent_step :: nat

definition next_indent :: "dump_config \<Rightarrow> nat \<Rightarrow> nat" where
  "next_indent cfg current_indent =
     (if pretty_print cfg then (current_indent + indent_step cfg) mod 2 ^ 32 else current_indent)"

text \<open>What stands before the first element, between two elements and after the last one.\<close>

definition open_text :: "dump_config \<Rightarrow> nat \<Rightarrow> char \<Rightarrow> serializer \<Rightarrow> serializer" where
  "open_text cfg current_indent bracket sr =
     (if pretty_print cfg
      then grow_indent (next_indent cfg current_indent) (write_characters [bracket, newline_char] sr)
      else write_characters [bracket] sr)"

definition element_text :: "dump_config \<Rightarrow> nat \<Rightarrow> serializer \<Rightarrow> dump_error + serializer" where
  "element_text cfg new_indent sr =
     (if pretty_print cfg then write_indent new_indent sr else Inr sr)"

definition separator_text :: "dump_config \<Rightarrow> serializer \<Rightarrow> serializer" where
  "separator_text cfg sr =
     write_characters (if pretty_print cfg then [CHR '','', newline_char] else '','') sr"

definition close_text :: "dump_config \<Rightarrow> nat \<Rightarrow> char \<Rightarrow> serializer \<Rightarrow> dump_error + serializer" where
  "close_text cfg current_indent bracket sr =
     (if pretty_print cfg then
        and_then (write_indent current_indent (write_characters [newline_char] sr))
          (\<lambda>sr1. Inr (write_characters [bracket] sr1))
      else Inr (write_characters [bracket] sr))"

definition key_text :: "dump_config \<Rightarrow> string \<Rightarrow> serializer \<Rightarrow> dump_error + serializer" where
  "key_text cfg k sr =
     and_then (dump_escaped (ensure_ascii cfg) k (write_characters [CHR 0x22] sr))
       (\<lambda>sr1. Inr (write_characters ([CHR 0x22] @ (if pretty_print cfg then '': '' else '':'')) sr1))"

fun dump_value :: "dump_config \<Rightarrow> nat \<Rightarrow> json \<Rightarrow> serializer \<Rightarrow> dump_error + serializer"
  and dump_elements :: "dump_config \<Rightarrow> nat \<Rightarrow> json list \<Rightarrow> serializer \<Rightarrow> dump_error + serializer"
  and dump_members :: "dump_config \<Rightarrow> nat \<Rightarrow> (string \<times> json) list \<Rightarrow> serializer \<Rightarrow> dump_error + serializer" where
  "dump_value cfg cur (JObject m) sr =
     (if m = [] then Inr (write_characters ''{}'' sr)
      else and_then (dump_members cfg (next_indent cfg cur) m (open_text cfg cur CHR ''{'' sr))
             (close_text cfg cur CHR ''}''))"
| "dump_value cfg cur (JArray xs) sr =
     (if xs = [] then Inr (write_characters ''[]'' sr)
      else and_then (dump_elements cfg (next_indent cfg cur) xs (open_text cfg cur CHR ''['' sr))
             (close_text cfg cur CHR '']''))"
| "dump_value cfg cur (JString s) sr =
     and_then (dump_escaped (ensure_ascii cfg) s (write_characters [CHR 0x22] sr))
       (\<lambda>sr1. Inr (write_characters [CHR 0x22] sr1))"
| "dump_value cfg cur (JBoolean b) sr = Inr (write_characters (if b then ''true'' else ''false'') sr)"
| "dump_value cfg cur (JInteger w) sr = Inr (dump_integer w sr)"
| "dump_value cfg cur (JUnsigned w) sr = Inr (dump_unsigned w sr)"
| "dump_value cfg cur (JFloat d) sr = dump_float d sr"
| "dump_value cfg cur JNull sr = Inr (write_characters ''null'' sr)"
| "dump_elements cfg new [] sr = Inr sr"
| "dump_elements cfg new (x # xs) sr =
     and_then (and_then (element_text cfg new sr) (dump_value cfg new x))
       (\<lambda>sr1. if xs = [] then Inr sr1 else dump_elements cfg new xs (separator_text cfg sr1))"
| "dump_members cfg new [] sr = Inr sr"
| "dump_members cfg new ((k, x) # m) sr =
     and_then (and_then (and_then (element_text cfg new sr) (key_text cfg k)) (dump_value cfg new x))
       (\<lambda>sr1. if m = [] then Inr sr1 else dump_members cfg new m (separator_text cfg sr1))"

text \<open>\<open>json::dump\<close>: a negative indentation selects the compact form.\<close>

definition json_dump :: "int \<Rightarrow> char \<Rightarrow> bool \<Rightarrow> error_handler \<Rightarrow> json \<Rightarrow> dump_error + string" where
  "json_dump indent indent_char ascii handler j =
     map_sum id sr_out
       (dump_value \<lparr>pretty_print = indent \<ge> 0, ensure_ascii = ascii,
                    indent_step = (if indent \<ge> 0 then nat indent else 0)\<rparr> 0 j
          (new_serializer indent_char handler))"

end
