(* ===== verification/Utf8.thy ===== *)
theory Utf8
  imports Lexer
begin

unbundle bit_operations_syntax

section \<open>JSON text: strings are UTF-8\<close>

text \<open>
  What a well-formed string is, by the ranges of bytes of \<open>scan_string\<close> in
  \<open>src/external/nlohmann/json.h\<close>, and that every string the lexer scans is one, escapes with
  surrogate pairs included. Code points and their bytes are inverse.
\<close>

definition in_ranges :: "(nat \<times> nat) list \<Rightarrow> string \<Rightarrow> bool" where
  "in_ranges rs cs \<longleftrightarrow> list_all2 (\<lambda>(lo, hi) c. lo \<le> code c \<and> code c \<le> hi) rs cs"

text \<open>One character: an ASCII byte, or a first byte and the bytes its ranges ask for.\<close>

definition utf8_char :: "string \<Rightarrow> bool" where
  "utf8_char u =
     (case u of
        [] \<Rightarrow> False
      | c # cs \<Rightarrow>
          if code c \<le> 0x7F then cs = []
          else (case utf8_ranges (code c) of None \<Rightarrow> False | Some rs \<Rightarrow> in_ranges rs cs))"

definition char_width :: "char \<Rightarrow> nat" where
  "char_width c =
     (case utf8_ranges (code c) of None \<Rightarrow> 1 | Some rs \<Rightarrow> Suc (length rs))"

function utf8_ok :: "string \<Rightarrow> bool" where
  "utf8_ok [] = True"
| "utf8_ok (c # s) \<longleftrightarrow>
     utf8_char (take (char_width c) (c # s)) \<and> utf8_ok (drop (char_width c) (c # s))"
  by pat_completeness auto
termination utf8_ok
  by (relation "measure length") (auto simp: char_width_def split: option.splits)

lemma utf8_ranges_None: "utf8_ranges b \<noteq> None \<longleftrightarrow> 0xC2 \<le> b \<and> b \<le> 0xF4"
  by (auto simp: utf8_ranges_def)

lemma code_less: "code c < 256"
  by (simp add: code_def)

lemma code_char_of [simp]: "n < 256 \<Longrightarrow> code (char_of n) = n"
  by (simp add: code_def)

lemma char_of_code [simp]: "char_of (code c) = c"
  by (simp add: code_def)

lemma code_eq_iff: "code c = code d \<longleftrightarrow> c = d"
  by (metis char_of_code)

lemma utf8_char_width: "utf8_char (c # cs) \<Longrightarrow> char_width c = Suc (length cs)"
  using utf8_ranges_None[of "code c"]
  by (auto simp: utf8_char_def char_width_def in_ranges_def dest: list_all2_lengthD split: if_splits option.splits)

lemma utf8_ok_append_char: "utf8_char u \<Longrightarrow> utf8_ok (u @ s) \<longleftrightarrow> utf8_ok s"
proof (cases u)
  case (Cons c cs)
  assume u: "utf8_char u"
  from u Cons have "char_width c = length u" using utf8_char_width by simp
  then have "utf8_ok (c # (cs @ s)) \<longleftrightarrow> utf8_char u \<and> utf8_ok s" using Cons by simp
  then show ?thesis using Cons u by simp
qed (simp add: utf8_char_def)

lemma utf8_ok_char: "utf8_char u \<Longrightarrow> utf8_ok u"
  using utf8_ok_append_char[of u "[]"] by simp

text \<open>A well-formed string is a sequence of characters.\<close>

lemma utf8_ok_cases:
  assumes "utf8_ok s" "s \<noteq> []"
  obtains u t where "s = u @ t" "utf8_char u" "utf8_ok t"
proof -
  from assms(2) obtain c cs where s: "s = c # cs" by (cases s) auto
  show thesis
    using assms(1) that[of "take (char_width c) s" "drop (char_width c) s"] s by simp
qed

lemma utf8_ok_append: "utf8_ok s \<Longrightarrow> utf8_ok t \<Longrightarrow> utf8_ok (s @ t)"
proof (induction "length s" arbitrary: s rule: less_induct)
  case less
  show ?case
  proof (cases "s = []")
    case False
    with less(2) obtain u v where s: "s = u @ v" "utf8_char u" "utf8_ok v" by (rule utf8_ok_cases)
    have "length v < length s" using s(1,2) by (cases u) (auto simp: utf8_char_def)
    from less(1)[OF this s(3) less(3)] s show ?thesis by (simp add: utf8_ok_append_char)
  qed (simp add: less)
qed

lemma utf8_char_ascii: "code c \<le> 0x7F \<Longrightarrow> utf8_char [c]"
  by (simp add: utf8_char_def)

subsection \<open>The bytes of a code point\<close>

lemma and_low: "(n :: nat) AND mask k = n mod 2 ^ k"
  by (simp only: take_bit_eq_mask[symmetric] take_bit_eq_mod)

lemma and_63: "(n :: nat) AND 0x3F = n mod 64"
  and and_31: "n AND 0x1F = n mod 32"
  and and_15: "n AND 0xF = n mod 16"
  and and_7: "n AND 7 = n mod 8"
  using and_low[of n 6] and_low[of n 5] and_low[of n 4] and_low[of n 3]
  by (simp_all add: mask_eq_exp_minus_1)

lemma or_disjoint:
  fixes n m a :: nat
  assumes "n AND m = n" "a AND m = 0"
  shows "a OR n = a + n"
proof -
  have "a AND n = (a AND m) AND n" using assms(1) by (metis and.assoc and.commute)
  with assms(2) have "a AND n = 0" by simp
  then show ?thesis by (simp add: disjunctive_add_eq_or)
qed

lemma or_bytes:
  "n < 64 \<Longrightarrow> (0x80 :: nat) OR n = 0x80 + n" "n < 32 \<Longrightarrow> (0xC0 :: nat) OR n = 0xC0 + n"
  "n < 16 \<Longrightarrow> (0xE0 :: nat) OR n = 0xE0 + n" "n < 8 \<Longrightarrow> (0xF0 :: nat) OR n = 0xF0 + n"
  using or_disjoint[where n = n and m = 63 and a = "0x80"]
    or_disjoint[where n = n and m = 31 and a = "0xC0"]
    or_disjoint[where n = n and m = 15 and a = "0xE0"]
    or_disjoint[where n = n and m = 7 and a = "0xF0"]
  by (simp_all add: and_63 and_31 and_15 and_7)

lemma div_mod_step: "(n :: nat) div (64 * k) * 64 + n div k mod 64 = n div k" for n k
  by (metis div_mult2_eq div_mult_mod_eq mult.commute)

lemma utf8_bytes_arith:
  assumes "cp \<le> 0x10FFFF"
  shows "utf8_bytes cp =
     (if cp < 0x80 then [char_of cp]
      else if cp \<le> 0x7FF then [char_of (0xC0 + cp div 64), char_of (0x80 + cp mod 64)]
      else if cp \<le> 0xFFFF then
        [char_of (0xE0 + cp div 4096), char_of (0x80 + cp div 64 mod 64), char_of (0x80 + cp mod 64)]
      else
        [char_of (0xF0 + cp div 262144), char_of (0x80 + cp div 4096 mod 64),
         char_of (0x80 + cp div 64 mod 64), char_of (0x80 + cp mod 64)])"
proof -
  have "cp \<le> 0x7FF \<Longrightarrow> cp div 64 < 32" "cp \<le> 0xFFFF \<Longrightarrow> cp div 4096 < 16" "cp div 262144 < 8"
    using assms by linarith+
  then show ?thesis
    by (simp add: utf8_bytes_def drop_bit_eq_div and_63 or_bytes)
qed

definition scalar_value :: "nat \<Rightarrow> bool" where
  "scalar_value cp \<longleftrightarrow> cp \<le> 0x10FFFF \<and> \<not> (0xD800 \<le> cp \<and> cp \<le> 0xDFFF)"

lemma utf8_bytes_char:
  assumes "scalar_value cp"
  shows "utf8_char (utf8_bytes cp)"
proof -
  have cp: "cp \<le> 0x10FFFF" "\<not> (0xD800 \<le> cp \<and> cp \<le> 0xDFFF)"
    using assms by (auto simp: scalar_value_def)
  consider "cp < 0x80" | "0x80 \<le> cp" "cp \<le> 0x7FF" | "0x7FF < cp" "cp \<le> 0xFFFF" | "0xFFFF < cp"
    by linarith
  then show ?thesis
  proof cases
    case 1
    then show ?thesis by (simp add: utf8_bytes_arith[OF cp(1)] utf8_char_def)
  next
    case 2
    let ?a = "cp div 64"
    have "2 \<le> ?a" "?a < 32" using 2 by linarith+
    then show ?thesis using 2
      by (simp add: utf8_bytes_arith[OF cp(1)] utf8_char_def utf8_ranges_def in_ranges_def)
  next
    case 3
    let ?a = "cp div 4096" and ?b = "cp div 64 mod 64"
    have a: "?a < 16" using 3 by linarith
    have b: "cp div 64 = 64 * ?a + ?b" using div_mod_step[of cp 64] by simp
    have b1: "?a = 0 \<Longrightarrow> 32 \<le> ?b" using b 3 by linarith
    have b2: "?a = 13 \<Longrightarrow> ?b < 32" using b cp(2) by linarith
    have b3: "?b < 64" by simp
    show ?thesis using 3 a b1 b2 b3
      by (auto simp: utf8_bytes_arith[OF cp(1)] utf8_char_def utf8_ranges_def in_ranges_def)
  next
    case 4
    let ?a = "cp div 262144" and ?b = "cp div 4096 mod 64"
    have a: "?a \<le> 4" using cp(1) by linarith
    have b: "cp div 4096 = 64 * ?a + ?b" using div_mod_step[of cp 4096] by simp
    have b1: "?a = 0 \<Longrightarrow> 16 \<le> ?b" using b 4 by linarith
    have b2: "?a = 4 \<Longrightarrow> ?b < 16" using b cp(1) by linarith
    have b3: "?b < 64" by simp
    show ?thesis using 4 a b1 b2 b3
      by (auto simp: utf8_bytes_arith[OF cp(1)] utf8_char_def utf8_ranges_def in_ranges_def)
  qed
qed

subsection \<open>scan_string yields UTF-8\<close>

lemma hex_value_less: "hex_value c = Some d \<Longrightarrow> d < 16"
  by (auto simp: hex_value_def code_def less_eq_char_def split: if_splits)

lemma get_codepoint_from_buffer:
  "get_codepoint_from fs n lx = (r, lx1) \<Longrightarrow> lx_buffer lx1 = lx_buffer lx"
  by (induction fs arbitrary: n lx) (auto simp: Let_def split: option.splits)

lemma get_codepoint_buffer: "get_codepoint lx = (r, lx1) \<Longrightarrow> lx_buffer lx1 = lx_buffer lx"
  unfolding get_codepoint_def by (rule get_codepoint_from_buffer)

lemma get_codepoint_bound: "get_codepoint lx = (Some cp, lx1) \<Longrightarrow> cp \<le> 0xFFFF"
  by (auto simp: get_codepoint_def Let_def push_bit_eq_mult bind_eq_Some_conv split: option.splits
      dest!: hex_value_less)

lemma fold_add_buffer: "lx_buffer (fold lx_add s lx) = lx_buffer lx @ s"
  by (induction s arbitrary: lx) (auto simp: lx_add_def)

lemma add_codepoint_buffer: "lx_buffer (add_codepoint cp lx) = lx_buffer lx @ utf8_bytes cp"
  by (simp add: add_codepoint_def fold_add_buffer)

lemma add_buffer [simp]:
  "lx_buffer (lx_add c lx) = lx_buffer lx @ [c]" "lx_buffer (fail_with m lx) = lx_buffer lx"
  by (simp_all add: lx_add_def fail_with_def)

lemma surrogate_pair:
  fixes c1 c2 :: nat
  assumes "0xD800 \<le> c1" "c1 \<le> 0xDBFF" "0xDC00 \<le> c2" "c2 \<le> 0xDFFF"
  shows "push_bit 10 c1 + c2 - 0x35FDC00 = 0x10000 + (c1 - 0xD800) * 1024 + (c2 - 0xDC00)"
    and "scalar_value (push_bit 10 c1 + c2 - 0x35FDC00)"
proof -
  show eq: "push_bit 10 c1 + c2 - 0x35FDC00 = 0x10000 + (c1 - 0xD800) * 1024 + (c2 - 0xDC00)"
    using assms by (simp add: push_bit_eq_mult)
  show "scalar_value (push_bit 10 c1 + c2 - 0x35FDC00)"
    unfolding eq scalar_value_def using assms by auto
qed

lemma scan_unicode_adds:
  assumes "scan_unicode lx = (True, lx1)"
  shows "\<exists>u. utf8_char u \<and> lx_buffer lx1 = lx_buffer lx @ u"
proof -
  obtain r lx2 where g: "get_codepoint lx = (r, lx2)" by (cases "get_codepoint lx")
  obtain r' lx4 where g': "get_codepoint (lx_get (lx_get lx2)) = (r', lx4)"
    by (cases "get_codepoint (lx_get (lx_get lx2))")
  note b = get_codepoint_buffer[OF g] get_codepoint_buffer[OF g']
  from assms g obtain cp where r: "r = Some cp" by (cases r) (auto simp: scan_unicode_def)
  with g have cp: "cp \<le> 0xFFFF" using get_codepoint_bound by blast
  show ?thesis
  proof (cases "0xD800 \<le> cp \<and> cp \<le> 0xDBFF")
    case False
    with assms g r have "\<not> (0xDC00 \<le> cp \<and> cp \<le> 0xDFFF)" "lx1 = add_codepoint cp lx2"
      by (auto simp: scan_unicode_def split: if_splits)
    with False cp b show ?thesis
      by (intro exI[of _ "utf8_bytes cp"]) (auto simp: add_codepoint_buffer scalar_value_def intro!: utf8_bytes_char)
  next
    case True
    with assms g r g' obtain c2 where r': "r' = Some c2" "0xDC00 \<le> c2" "c2 \<le> 0xDFFF"
        "lx1 = add_codepoint (push_bit 10 cp + c2 - 0x35FDC00) lx4"
      by (auto simp: scan_unicode_def Let_def split: if_splits option.splits)
    from True r' have "scalar_value (push_bit 10 cp + c2 - 0x35FDC00)" by (simp only: surrogate_pair(2))
    with b r' show ?thesis by (auto simp: add_codepoint_buffer intro!: utf8_bytes_char)
  qed
qed

lemma scan_escape_adds:
  assumes "scan_escape lx = (True, lx1)"
  shows "\<exists>u. utf8_char u \<and> lx_buffer lx1 = lx_buffer lx @ u"
proof (cases "lx_current (lx_get lx) = Some CHR ''u''")
  case True
  then have "scan_unicode (lx_get lx) = (True, lx1)" using assms by (simp add: scan_escape_def Let_def)
  from scan_unicode_adds[OF this] show ?thesis by simp
next
  case False
  then show ?thesis using assms utf8_char_ascii
    by (auto simp: scan_escape_def Let_def code_def split: if_splits)
qed

lemma bytes_in_ranges_adds:
  "bytes_in_ranges rs lx = (True, lx1) \<Longrightarrow> \<exists>cs. in_ranges rs cs \<and> lx_buffer lx1 = lx_buffer lx @ cs"
proof (induction rs arbitrary: lx)
  case (Cons r rs)
  obtain lo hi where r: "r = (lo, hi)" by (cases r)
  from Cons.prems obtain c where c: "lo \<le> code c" "code c \<le> hi"
      "bytes_in_ranges rs (lx_add c (lx_get lx)) = (True, lx1)"
    by (auto simp: r Let_def split: option.splits if_splits)
  from Cons.IH[OF c(3)] obtain cs where "in_ranges rs cs" "lx_buffer lx1 = lx_buffer lx @ c # cs" by auto
  with c r show ?case by (intro exI[of _ "c # cs"]) (simp add: in_ranges_def)
qed (simp add: in_ranges_def)

lemma scan_char_adds:
  assumes "scan_char c lx = (True, lx1)" "lx_current lx = Some c"
  shows "\<exists>u. utf8_char u \<and> lx_buffer lx1 = lx_buffer lx @ u"
proof (cases "c = backslash_char")
  case True
  then show ?thesis using assms scan_escape_adds by (simp add: scan_char_def)
next
  case ne: False
  show ?thesis
  proof (cases "code c \<le> 0x7F")
    case True
    then show ?thesis using assms ne utf8_char_ascii by (auto simp: scan_char_def split: if_splits)
  next
    case False
    then obtain rs where rs: "utf8_ranges (code c) = Some rs" "bytes_in_ranges rs (lx_add c lx) = (True, lx1)"
      using assms ne by (auto simp: scan_char_def next_byte_in_range_def lx_add_current_def split: option.splits)
    from bytes_in_ranges_adds[OF rs(2)] obtain cs where "in_ranges rs cs" "lx_buffer lx1 = lx_buffer lx @ c # cs"
      by auto
    with rs False show ?thesis by (intro exI[of _ "c # cs"]) (simp add: utf8_char_def)
  qed
qed

lemma scan_string_loop_utf8:
  "scan_string_loop lx = (T_value_string, lx1) \<Longrightarrow> utf8_ok (lx_buffer lx) \<Longrightarrow> utf8_ok (lx_buffer lx1)"
proof (induction lx rule: scan_string_loop.induct)
  case (1 lx)
  show ?case
  proof (cases "lx_current (lx_get lx)")
    case None
    then show ?thesis using 1(2) by (simp add: scan_string_loop.simps[of lx])
  next
    case (Some c)
    show ?thesis
    proof (cases "c = CHR 0x22")
      case True
      then show ?thesis using 1 Some by (auto simp: scan_string_loop.simps[of lx] Let_def)
    next
      case ne: False
      obtain ok lx2 where sc: "scan_char c (lx_get lx) = (ok, lx2)" by (cases "scan_char c (lx_get lx)")
      have ok: ok using 1(2) Some sc ne by (cases ok) (auto simp: scan_string_loop.simps[of lx] Let_def)
      with sc Some obtain u where "utf8_char u" "lx_buffer lx2 = lx_buffer lx @ u"
        using scan_char_adds[of c "lx_get lx" lx2] by auto
      then have "utf8_ok (lx_buffer lx2)" using 1(3) utf8_ok_append utf8_ok_char by simp
      with 1(1)[OF refl Some ne, of True lx2] 1(2) ok sc Some ne show ?thesis
        by (auto simp: scan_string_loop.simps[of lx] Let_def)
    qed
  qed
qed

lemma scan_string_utf8: "scan_string lx = (T_value_string, lx1) \<Longrightarrow> utf8_ok (lx_buffer lx1)"
  using scan_string_loop_utf8[of "lx_reset lx" lx1] by (simp add: scan_string_def lx_reset_def)

end
