(* ===== verification/Decoder.thy ===== *)
theory Decoder
  imports Text_Writer Utf8
begin

unbundle bit_operations_syntax

section \<open>JSON text: the decoder of the serializer\<close>

text \<open>
  The table of \<open>serializer::decode\<close> in \<open>src/external/nlohmann/json.h\<close> against the byte ranges
  \<open>lexer::scan_string\<close> accepts: each state of the automaton stands for the ranges of the bytes that
  may follow, so both agree on what UTF-8 is.
\<close>

subsection \<open>The table\<close>

definition utf8d_transitions :: "nat list" where
  "utf8d_transitions = [0, 1, 2, 3, 5, 8, 7, 1, 1, 1, 4, 6, 1, 1, 1, 1, 1, 1, 1, 1, 1, 1, 1, 1, 1, 1, 1, 1, 1, 1, 1, 1, 1, 0, 1, 1, 1, 1, 1, 0, 1, 0, 1, 1, 1, 1, 1, 1, 1, 2, 1, 1, 1, 1, 1, 2, 1, 2, 1, 1, 1, 1, 1, 1, 1, 1, 1, 1, 1, 1, 1, 2, 1, 1, 1, 1, 1, 1, 1, 1, 1, 2, 1, 1, 1, 1, 1, 1, 1, 2, 1, 1, 1, 1, 1, 1, 1, 1, 1, 1, 1, 1, 1, 3, 1, 3, 1, 1, 1, 1, 1, 1, 1, 3, 1, 1, 1, 1, 1, 3, 1, 3, 1, 1, 1, 1, 1, 1, 1, 3, 1, 1, 1, 1, 1, 1, 1, 1, 1, 1, 1, 1, 1, 1]"

definition byte_class :: "nat \<Rightarrow> nat" where
  "byte_class b =
     (if b \<le> 0x7F then 0 else if b \<le> 0x8F then 1 else if b \<le> 0x9F then 9 else if b \<le> 0xBF then 7
      else if b \<le> 0xC1 then 8 else if b \<le> 0xDF then 2 else if b = 0xE0 then 10
      else if b = 0xED then 4 else if b \<le> 0xEF then 3 else if b = 0xF0 then 11
      else if b \<le> 0xF3 then 6 else if b = 0xF4 then 5 else 8)"

lemma utf8d_map: "utf8d = map byte_class [0..<256] @ utf8d_transitions"
  unfolding utf8d_def utf8d_transitions_def by (simp add: upt_conv_Cons byte_class_def)

lemma utf8d_class: "b < 256 \<Longrightarrow> utf8d ! b = byte_class b"
  unfolding utf8d_map by (simp add: nth_append)

lemma utf8d_transition: "utf8d ! (256 + n) = utf8d_transitions ! n"
  unfolding utf8d_map by (simp add: nth_append)

lemma byte_class_less: "byte_class b < 12"
  by (simp add: byte_class_def)

text \<open>The states in the middle of a character, by the bytes that may follow.\<close>

definition state_ranges :: "nat \<Rightarrow> (nat \<times> nat) list" where
  "state_ranges s =
     (if s = 2 then [(0x80, 0xBF)]
      else if s = 3 then [(0x80, 0xBF), (0x80, 0xBF)]
      else if s = 4 then [(0xA0, 0xBF), (0x80, 0xBF)]
      else if s = 5 then [(0x80, 0x9F), (0x80, 0xBF)]
      else if s = 6 then [(0x90, 0xBF), (0x80, 0xBF), (0x80, 0xBF)]
      else if s = 7 then [(0x80, 0xBF), (0x80, 0xBF), (0x80, 0xBF)]
      else if s = 8 then [(0x80, 0x8F), (0x80, 0xBF), (0x80, 0xBF)]
      else [])"

lemma state_rows:
  "state_ranges 0 = []" "state_ranges 1 = []" "state_ranges (Suc 0) = []"
  "state_ranges 2 = [(0x80, 0xBF)]"
  "state_ranges 3 = [(0x80, 0xBF), (0x80, 0xBF)]"
  "state_ranges 4 = [(0xA0, 0xBF), (0x80, 0xBF)]"
  "state_ranges 5 = [(0x80, 0x9F), (0x80, 0xBF)]"
  "state_ranges 6 = [(0x90, 0xBF), (0x80, 0xBF), (0x80, 0xBF)]"
  "state_ranges 7 = [(0x80, 0xBF), (0x80, 0xBF), (0x80, 0xBF)]"
  "state_ranges 8 = [(0x80, 0x8F), (0x80, 0xBF), (0x80, 0xBF)]"
  by (simp_all add: state_ranges_def)

definition next_state :: "nat \<Rightarrow> nat \<Rightarrow> nat" where
  "next_state s b = utf8d ! (256 + s * 16 + utf8d ! b)"

lemma decode_state: "fst (decode s cp b) = next_state s b"
  by (simp add: decode_def next_state_def Let_def)

lemma next_state_class: "b < 256 \<Longrightarrow> next_state s b = utf8d_transitions ! (s * 16 + byte_class b)"
  by (simp add: next_state_def utf8d_class utf8d_transition add.assoc)

lemma transition_rows:
  "utf8d_transitions ! Suc 0 = 1" "utf8d_transitions ! Suc (Suc 0) = 2"
  "utf8d_transitions ! 0 = 0" "utf8d_transitions ! 1 = 1" "utf8d_transitions ! 2 = 2"
  "utf8d_transitions ! 3 = 3" "utf8d_transitions ! 4 = 5" "utf8d_transitions ! 5 = 8"
  "utf8d_transitions ! 6 = 7" "utf8d_transitions ! 7 = 1" "utf8d_transitions ! 8 = 1"
  "utf8d_transitions ! 9 = 1" "utf8d_transitions ! 10 = 4" "utf8d_transitions ! 11 = 6"
  "utf8d_transitions ! 32 = 1" "utf8d_transitions ! 33 = 0" "utf8d_transitions ! 34 = 1"
  "utf8d_transitions ! 35 = 1" "utf8d_transitions ! 36 = 1" "utf8d_transitions ! 37 = 1"
  "utf8d_transitions ! 38 = 1" "utf8d_transitions ! 39 = 0" "utf8d_transitions ! 40 = 1"
  "utf8d_transitions ! 41 = 0" "utf8d_transitions ! 42 = 1" "utf8d_transitions ! 43 = 1"
  "utf8d_transitions ! 48 = 1" "utf8d_transitions ! 49 = 2" "utf8d_transitions ! 50 = 1"
  "utf8d_transitions ! 51 = 1" "utf8d_transitions ! 52 = 1" "utf8d_transitions ! 53 = 1"
  "utf8d_transitions ! 54 = 1" "utf8d_transitions ! 55 = 2" "utf8d_transitions ! 56 = 1"
  "utf8d_transitions ! 57 = 2" "utf8d_transitions ! 58 = 1" "utf8d_transitions ! 59 = 1"
  "utf8d_transitions ! 64 = 1" "utf8d_transitions ! 65 = 1" "utf8d_transitions ! 66 = 1"
  "utf8d_transitions ! 67 = 1" "utf8d_transitions ! 68 = 1" "utf8d_transitions ! 69 = 1"
  "utf8d_transitions ! 70 = 1" "utf8d_transitions ! 71 = 2" "utf8d_transitions ! 72 = 1"
  "utf8d_transitions ! 73 = 1" "utf8d_transitions ! 74 = 1" "utf8d_transitions ! 75 = 1"
  "utf8d_transitions ! 80 = 1" "utf8d_transitions ! 81 = 2" "utf8d_transitions ! 82 = 1"
  "utf8d_transitions ! 83 = 1" "utf8d_transitions ! 84 = 1" "utf8d_transitions ! 85 = 1"
  "utf8d_transitions ! 86 = 1" "utf8d_transitions ! 87 = 1" "utf8d_transitions ! 88 = 1"
  "utf8d_transitions ! 89 = 2" "utf8d_transitions ! 90 = 1" "utf8d_transitions ! 91 = 1"
  "utf8d_transitions ! 96 = 1" "utf8d_transitions ! 97 = 1" "utf8d_transitions ! 98 = 1"
  "utf8d_transitions ! 99 = 1" "utf8d_transitions ! 100 = 1" "utf8d_transitions ! 101 = 1"
  "utf8d_transitions ! 102 = 1" "utf8d_transitions ! 103 = 3" "utf8d_transitions ! 104 = 1"
  "utf8d_transitions ! 105 = 3" "utf8d_transitions ! 106 = 1" "utf8d_transitions ! 107 = 1"
  "utf8d_transitions ! 112 = 1" "utf8d_transitions ! 113 = 3" "utf8d_transitions ! 114 = 1"
  "utf8d_transitions ! 115 = 1" "utf8d_transitions ! 116 = 1" "utf8d_transitions ! 117 = 1"
  "utf8d_transitions ! 118 = 1" "utf8d_transitions ! 119 = 3" "utf8d_transitions ! 120 = 1"
  "utf8d_transitions ! 121 = 3" "utf8d_transitions ! 122 = 1" "utf8d_transitions ! 123 = 1"
  "utf8d_transitions ! 128 = 1" "utf8d_transitions ! 129 = 3" "utf8d_transitions ! 130 = 1"
  "utf8d_transitions ! 131 = 1" "utf8d_transitions ! 132 = 1" "utf8d_transitions ! 133 = 1"
  "utf8d_transitions ! 134 = 1" "utf8d_transitions ! 135 = 1" "utf8d_transitions ! 136 = 1"
  "utf8d_transitions ! 137 = 1" "utf8d_transitions ! 138 = 1" "utf8d_transitions ! 139 = 1"
  by (simp_all add: utf8d_transitions_def)

lemma byte_class_cases:
  "b \<le> 0x7F \<Longrightarrow> byte_class b = 0" "0x80 \<le> b \<Longrightarrow> b \<le> 0x8F \<Longrightarrow> byte_class b = 1"
  "0x90 \<le> b \<Longrightarrow> b \<le> 0x9F \<Longrightarrow> byte_class b = 9" "0xA0 \<le> b \<Longrightarrow> b \<le> 0xBF \<Longrightarrow> byte_class b = 7"
  "0xC0 \<le> b \<Longrightarrow> b \<le> 0xC1 \<Longrightarrow> byte_class b = 8" "0xC2 \<le> b \<Longrightarrow> b \<le> 0xDF \<Longrightarrow> byte_class b = 2"
  "0xE1 \<le> b \<Longrightarrow> b \<le> 0xEC \<Longrightarrow> byte_class b = 3" "0xF1 \<le> b \<Longrightarrow> b \<le> 0xF3 \<Longrightarrow> byte_class b = 6"
  "0xF5 \<le> b \<Longrightarrow> byte_class b = 8" "byte_class 0xE0 = 10" "byte_class 0xED = 4"
  "byte_class 0xEE = 3" "byte_class 0xEF = 3" "byte_class 0xF0 = 11" "byte_class 0xF4 = 5"
  by (simp_all add: byte_class_def)

lemma byte_class_high: "0xC0 \<le> b \<Longrightarrow> byte_class b \<in> {2, 3, 4, 5, 6, 8, 10, 11}"
  by (simp add: byte_class_def)

lemma utf8_ranges_cases:
  assumes "utf8_ranges b = Some rs"
  obtains "0xC2 \<le> b" "b \<le> 0xDF" "rs = [(0x80, 0xBF)]"
  | "b = 0xE0" "rs = [(0xA0, 0xBF), (0x80, 0xBF)]"
  | "0xE1 \<le> b" "b \<le> 0xEC" "rs = [(0x80, 0xBF), (0x80, 0xBF)]"
  | "b = 0xEE" "rs = [(0x80, 0xBF), (0x80, 0xBF)]"
  | "b = 0xEF" "rs = [(0x80, 0xBF), (0x80, 0xBF)]"
  | "b = 0xED" "rs = [(0x80, 0x9F), (0x80, 0xBF)]"
  | "b = 0xF0" "rs = [(0x90, 0xBF), (0x80, 0xBF), (0x80, 0xBF)]"
  | "0xF1 \<le> b" "b \<le> 0xF3" "rs = [(0x80, 0xBF), (0x80, 0xBF), (0x80, 0xBF)]"
  | "b = 0xF4" "rs = [(0x80, 0x8F), (0x80, 0xBF), (0x80, 0xBF)]"
  using assms unfolding utf8_ranges_def by (auto split: if_splits)

lemma next_state_start:
  assumes "b < 256"
  shows "b \<le> 0x7F \<Longrightarrow> next_state 0 b = 0"
    and "\<not> b \<le> 0x7F \<Longrightarrow> utf8_ranges b = None \<Longrightarrow> next_state 0 b = 1"
    and "utf8_ranges b = Some rs \<Longrightarrow> state_ranges (next_state 0 b) = rs"
proof -
  note N = next_state_class[OF assms, of 0]
  show "b \<le> 0x7F \<Longrightarrow> next_state 0 b = 0"
    by (simp add: N byte_class_cases transition_rows)
  {
    assume "\<not> b \<le> 0x7F" "utf8_ranges b = None"
    then have "0x80 \<le> b \<and> b \<le> 0x8F \<or> 0x90 \<le> b \<and> b \<le> 0x9F \<or> 0xA0 \<le> b \<and> b \<le> 0xBF
        \<or> 0xC0 \<le> b \<and> b \<le> 0xC1 \<or> 0xF5 \<le> b"
      using utf8_ranges_None[of b] by linarith
    then show "next_state 0 b = 1"
      by (elim disjE) (simp_all add: N byte_class_cases transition_rows)
  }
  assume "utf8_ranges b = Some rs"
  then show "state_ranges (next_state 0 b) = rs"
    by (cases rule: utf8_ranges_cases)
      (simp_all add: next_state_class byte_class_cases transition_rows state_rows)
qed

lemma next_state_inside:
  assumes b: "b < 256" and r: "state_ranges s = (lo, hi) # rs"
  shows "(\<not> (lo \<le> b \<and> b \<le> hi) \<longrightarrow> next_state s b = 1) \<and>
      (lo \<le> b \<and> b \<le> hi \<longrightarrow> state_ranges (next_state s b) = rs \<and> (rs = [] \<longrightarrow> next_state s b = 0))"
proof -
  note rows = next_state_class[OF b] transition_rows state_rows
  have s: "s = 2 \<or> s = 3 \<or> s = 4 \<or> s = 5 \<or> s = 6 \<or> s = 7 \<or> s = 8"
    using r by (force simp: state_ranges_def split: if_splits)
  have c: "b \<le> 0x7F \<and> byte_class b = 0 \<or> 0x80 \<le> b \<and> b \<le> 0x8F \<and> byte_class b = 1
    \<or> 0x90 \<le> b \<and> b \<le> 0x9F \<and> byte_class b = 9 \<or> 0xA0 \<le> b \<and> b \<le> 0xBF \<and> byte_class b = 7
    \<or> 0xC0 \<le> b \<and> byte_class b \<in> {2, 3, 4, 5, 6, 8, 10, 11}"
    by (simp add: byte_class_def)
  show ?thesis using s by (elim disjE; use r c in \<open>elim disjE; auto simp: rows\<close>)
qed

lemma next_state_continue:
  assumes "b < 256" and "state_ranges s = (lo, hi) # rs"
  shows "\<not> (lo \<le> b \<and> b \<le> hi) \<Longrightarrow> next_state s b = 1"
    and "lo \<le> b \<and> b \<le> hi \<Longrightarrow> state_ranges (next_state s b) = rs \<and> (rs = [] \<longrightarrow> next_state s b = 0)"
  using next_state_inside[OF assms] by simp_all

lemma state_ranges_nonempty: "state_ranges s \<noteq> [] \<Longrightarrow> s \<noteq> 0 \<and> s \<noteq> 1"
  by (simp add: state_ranges_def split: if_splits)
end
