(* ===== verification/Escaping.thy ===== *)
theory Escaping
  imports Decoder
begin

unbundle bit_operations_syntax

section \<open>JSON text: escaping is safe and exact\<close>

text \<open>
  \<open>serializer::dump_escaped\<close> of \<open>src/external/nlohmann/json.h\<close>: it writes the escaped text of a string
  that is UTF-8, the strict handler throws exactly for the others, and no handler ever writes past
  the string buffer of 512 bytes.
\<close>

subsection \<open>Code points\<close>

definition codepoint_of :: "string \<Rightarrow> nat" where
  "codepoint_of u =
     (case u of
        [a] \<Rightarrow> code a
      | [a, b] \<Rightarrow> (code a - 0xC0) * 64 + (code b - 0x80)
      | [a, b, c] \<Rightarrow> ((code a - 0xE0) * 64 + (code b - 0x80)) * 64 + (code c - 0x80)
      | [a, b, c, d] \<Rightarrow>
          (((code a - 0xF0) * 64 + (code b - 0x80)) * 64 + (code c - 0x80)) * 64 + (code d - 0x80)
      | _ \<Rightarrow> 0)"

definition codepoint_step :: "nat \<Rightarrow> nat \<Rightarrow> nat" where
  "codepoint_step n b = n * 64 + (b - 0x80)"

definition first_bits :: "nat \<Rightarrow> nat" where
  "first_bits b = (if b \<le> 0x7F then b else if b \<le> 0xDF then b - 0xC0 else if b \<le> 0xEF then b - 0xE0 else b - 0xF0)"

lemma codepoint_of_fold:
  "utf8_char (c # cs) \<Longrightarrow> codepoint_of (c # cs) = foldl codepoint_step (first_bits (code c)) (map code cs)"
proof (cases "code c \<le> 0x7F")
  case False
  assume u: "utf8_char (c # cs)"
  with False obtain rs where rs: "utf8_ranges (code c) = Some rs" "in_ranges rs cs"
    by (auto simp: utf8_char_def split: option.splits)
  from rs(1) show ?thesis
    by (cases rule: utf8_ranges_cases)
      (use rs(2) in \<open>auto simp: in_ranges_def list_all2_Cons1 codepoint_of_def codepoint_step_def first_bits_def\<close>)
qed (simp add: utf8_char_def codepoint_of_def first_bits_def)

lemma mod_shift: "k \<le> b \<Longrightarrow> b < k + m \<Longrightarrow> m dvd k \<Longrightarrow> b mod m = b - (k :: nat)"
  by (rule mod_nat_eqI) auto

lemma decode_continue:
  assumes "s \<noteq> 0" "0x80 \<le> b" "b \<le> 0xBF"
  shows "snd (decode s (word_of_nat n) b) = word_of_nat (codepoint_step n b)"
proof -
  have "(word_of_nat b AND 0x3F) OR push_bit 6 (word_of_nat n) = (word_of_nat ((b AND 0x3F) OR push_bit 6 n) :: u32)"
    by (simp add: of_nat_and_eq of_nat_or_eq of_nat_push_bit)
  also have "(b AND 0x3F) OR push_bit 6 n = (n * 64) OR (b mod 64)"
    by (simp add: and_63 push_bit_eq_mult or.commute)
  also have "\<dots> = n * 64 + b mod 64"
    by (rule or_disjoint[where m = 63]) (simp_all add: and_63)
  also have "b mod 64 = b - 0x80"
    using assms(2,3) by (intro mod_shift) simp_all
  finally show ?thesis using assms(1) by (simp add: decode_def Let_def codepoint_step_def)
qed

lemma and_3: "(n :: nat) AND 3 = n mod 4"
  using and_low[of n 2] by (simp add: mask_eq_exp_minus_1)

lemma drop_255: "(drop_bit t 0xFF :: u32) = word_of_nat (drop_bit t 0xFF)"
proof -
  have "(drop_bit t 0xFF :: u32) = word_of_nat (unat (drop_bit t 0xFF :: u32))" by simp
  also have "unat (drop_bit t 0xFF :: u32) = drop_bit t (unat (0xFF :: u32))" by (rule unat_drop_bit_eq)
  finally show ?thesis by simp
qed

lemma decode_start:
  assumes "b < 256" "b \<le> 0x7F \<or> utf8_ranges b \<noteq> None"
  shows "snd (decode 0 cp b) = word_of_nat (first_bits b)"
proof -
  have m: "snd (decode 0 cp b) = word_of_nat (drop_bit (byte_class b) 0xFF AND b)"
    using assms(1) drop_255[of "byte_class b"] by (simp add: decode_def Let_def utf8d_class of_nat_and_eq)
  have "drop_bit (byte_class b) 0xFF AND b = first_bits b"
  proof (cases "b \<le> 0x7F")
    case True
    then have "(0xFF :: nat) AND b = b mod 2 ^ 8" using and_low[of b 8] by (simp add: mask_eq_exp_minus_1 and.commute)
    with True show ?thesis by (simp add: byte_class_cases first_bits_def)
  next
    case False
    with assms(2) obtain rs where "utf8_ranges b = Some rs" by auto
    then show ?thesis
      by (cases rule: utf8_ranges_cases)
        (simp_all add: byte_class_cases first_bits_def drop_bit_eq_div and.commute[of _ b] and_63 and_31 and_3
          mod_shift[of 192 b 64] mod_shift[of 224 b 32] mod_shift[of 240 b 4])
  qed
  with m show ?thesis by simp
qed

subsection \<open>Steps of the loop\<close>

lemma decode_eq: "decode s cp b = (next_state s b, snd (decode s cp b))"
  by (metis decode_state prod.collapse)

definition es_text :: "escaper \<Rightarrow> string" where
  "es_text es = es_out es @ es_buffer es"

text \<open>Between two characters there is room for the longest escape.\<close>

definition es_clean :: "escaper \<Rightarrow> bool" where
  "es_clean es \<longleftrightarrow> es_state es = 0 \<and> length (es_buffer es) \<le> 499"

lemma flush_buffer_text [simp]: "es_text (flush_buffer es) = es_text es"
  and flush_buffer_room: "length (es_buffer es) \<le> 512 \<Longrightarrow> length (es_buffer (flush_buffer es)) \<le> 499"
  and flush_buffer_state [simp]: "es_state (flush_buffer es) = es_state es"
  and flush_buffer_accepted [simp]: "es_accepted (flush_buffer es) = es_accepted es"
  by (auto simp: flush_buffer_def es_text_def)

lemma escape_codepoint_room:
  "fst (escape_codepoint ens cp c) \<le> (if ens then 13 else 7)"
  "length (snd (escape_codepoint ens cp c)) \<le> fst (escape_codepoint ens cp c)"
  by (simp_all add: escape_codepoint_def escape_u_def hex4_lower_def) (simp add: word_le_nat_alt)

text \<open>An accepted code point: its text is in the buffer or already in the output.\<close>

definition accepted :: "bool \<Rightarrow> u32 \<Rightarrow> char \<Rightarrow> escaper \<Rightarrow> escaper \<Rightarrow> bool" where
  "accepted ens cp c es es1 \<longleftrightarrow>
     es_clean es1 \<and> es_accepted es1 = length (es_buffer es1)
     \<and> es_text es1 = es_text es @ snd (escape_codepoint ens cp c)"

lemma escape_accept:
  assumes "decode (es_state es) (es_codepoint es) (code c) = (0, cp)"
    and "length (es_buffer es) \<le> (if ens then 499 else 502)"
  shows "\<exists>es1. escape_loop h ens i (c # s) es = escape_loop h ens (i + 1) s es1 \<and> accepted ens cp c es es1"
proof -
  let ?r = "escape_codepoint ens cp c"
  let ?es2 = "es\<lparr>es_state := 0, es_codepoint := cp, es_buffer := es_buffer es @ snd ?r\<rparr>"
  let ?es3 = "flush_buffer ?es2"
  let ?es4 = "?es3\<lparr>es_accepted := length (es_buffer ?es3), es_undumped := 0\<rparr>"
  have room: "length (es_buffer es) + fst ?r \<le> 512" "length (es_buffer ?es2) \<le> 512"
    using assms(2) escape_codepoint_room[of ens cp c] by (auto split: if_splits)
  have "escape_loop h ens i (c # s) es = escape_loop h ens (i + 1) s ?es4"
    using room(1) assms(1) by (simp add: put_buffer_def Let_def)
  moreover have "es_text ?es4 = es_text es @ snd ?r"
    using flush_buffer_text[of ?es2] by (simp add: es_text_def)
  moreover have "es_clean ?es4" using flush_buffer_room[OF room(2)] by (simp add: es_clean_def)
  ultimately show ?thesis by (intro exI[of _ ?es4]) (simp add: accepted_def)
qed

lemma escape_partial:
  assumes "decode (es_state es) (es_codepoint es) (code c) = (st, cp)" "st \<noteq> 0" "st \<noteq> 1"
    and "length (es_buffer es) \<le> 511"
  shows "\<exists>es1. escape_loop h ens i (c # s) es = escape_loop h ens (i + 1) s es1
    \<and> es_state es1 = st \<and> es_codepoint es1 = cp \<and> es_text es1 = es_text es @ (if ens then [] else [c])
    \<and> length (es_buffer es1) = length (es_buffer es) + (if ens then 0 else 1)
    \<and> es_accepted es1 = es_accepted es"
proof -
  let ?es1 = "es\<lparr>es_state := st, es_codepoint := cp,
      es_buffer := es_buffer es @ (if ens then [] else [c]), es_undumped := es_undumped es + 1\<rparr>"
  have "escape_loop h ens i (c # s) es = escape_loop h ens (i + 1) s ?es1"
    using assms by (simp add: put_buffer_def Let_def)
  then show ?thesis by (intro exI[of _ ?es1]) (simp add: es_text_def)
qed

lemma in_ranges_Cons:
  "in_ranges ((lo, hi) # rs) (c # cs) \<longleftrightarrow> lo \<le> code c \<and> code c \<le> hi \<and> in_ranges rs cs"
  "in_ranges [] cs \<longleftrightarrow> cs = []" "in_ranges (r # rs) [] \<longleftrightarrow> False"
  by (simp_all add: in_ranges_def)

lemma state_ranges_continuation:
  "state_ranges s = (lo, hi) # rs \<Longrightarrow> 0x80 \<le> lo \<and> hi \<le> 0xBF \<and> length rs \<le> 2"
  by (auto simp: state_ranges_def split: if_splits)

text \<open>The bytes after the first one of a character.\<close>

lemma escape_continue:
  "state_ranges (es_state es) = r # rs \<Longrightarrow> in_ranges (r # rs) cs \<Longrightarrow> es_codepoint es = word_of_nat n \<Longrightarrow>
   length (es_buffer es) + (if ens then 0 else length (r # rs)) \<le> (if ens then 499 else 503) \<Longrightarrow>
   \<exists>es1. escape_loop h ens i (cs @ s) es = escape_loop h ens (i + length cs) s es1
     \<and> es_clean es1 \<and> es_accepted es1 = length (es_buffer es1)
     \<and> es_text es1 = es_text es @ (if ens then [] else butlast cs)
         @ snd (escape_codepoint ens (word_of_nat (foldl codepoint_step n (map code cs))) (last cs))"
proof (induction cs arbitrary: es r rs n i)
  case (Cons c cs)
  obtain lo hi where r: "r = (lo, hi)" by (cases r)
  have c: "lo \<le> code c \<and> code c \<le> hi" "in_ranges rs cs" using Cons.prems(2) by (simp_all add: r in_ranges_Cons)
  note cont = state_ranges_continuation[OF Cons.prems(1)[unfolded r]]
  note st = next_state_continue(2)[OF code_less Cons.prems(1)[unfolded r] c(1)]
  have ne: "es_state es \<noteq> 0" using Cons.prems(1) state_ranges_nonempty[of "es_state es"] by simp
  have dec: "decode (es_state es) (es_codepoint es) (code c)
      = (next_state (es_state es) (code c), word_of_nat (codepoint_step n (code c)))"
    using decode_eq[of "es_state es" "es_codepoint es" "code c"] Cons.prems(3)
      decode_continue[OF ne, of "code c" n] c(1) cont by auto
  show ?case
  proof (cases rs)
    case Nil
    then have cs: "cs = []" using c(2) by (simp add: in_ranges_Cons)
    have len: "length (es_buffer es) \<le> (if ens then 499 else 502)"
      using Cons.prems(4) Nil by (simp split: if_splits)
    from escape_accept[OF _ len, of c "word_of_nat (codepoint_step n (code c))" h i s] dec st Nil
    show ?thesis by (auto simp: accepted_def cs)
  next
    case (Cons r' rs')
    have st': "next_state (es_state es) (code c) \<noteq> 0" "next_state (es_state es) (code c) \<noteq> 1"
      using st Cons state_ranges_nonempty[of "next_state (es_state es) (code c)"] by auto
    have len: "length (es_buffer es) \<le> 511"
      using Cons.prems(4) by (simp split: if_splits)
    from escape_partial[OF dec st' len, of h ens i "cs @ s"] obtain es1 where es1:
        "escape_loop h ens i (c # cs @ s) es = escape_loop h ens (i + 1) (cs @ s) es1"
        "es_state es1 = next_state (es_state es) (code c)"
        "es_codepoint es1 = word_of_nat (codepoint_step n (code c))"
        "es_text es1 = es_text es @ (if ens then [] else [c])"
        "length (es_buffer es1) = length (es_buffer es) + (if ens then 0 else 1)" by blast
    have cs: "cs \<noteq> []" using c(2) Cons by (auto simp: in_ranges_Cons)
    have pre: "state_ranges (es_state es1) = r' # rs'" using st es1(2) Cons by simp
    have len1: "length (es_buffer es1) + (if ens then 0 else length (r' # rs')) \<le> (if ens then 499 else 503)"
      using Cons.prems(4) es1(5) Cons by (simp split: if_splits)
    from Cons.IH[OF pre c(2)[unfolded Cons] es1(3) len1, of "i + 1"] es1(1,4) cs
    show ?thesis by (auto split: if_splits)
  qed
qed (simp add: in_ranges_Cons)

text \<open>The text of one character.\<close>

definition escaped_char :: "bool \<Rightarrow> string \<Rightarrow> string" where
  "escaped_char ens u =
     (if ens then [] else butlast u) @ snd (escape_codepoint ens (word_of_nat (codepoint_of u)) (last u))"

lemma escape_char:
  assumes u: "utf8_char u" and es: "es_clean es"
  shows "\<exists>es1. escape_loop h ens i (u @ s) es = escape_loop h ens (i + length u) s es1
     \<and> es_clean es1 \<and> es_accepted es1 = length (es_buffer es1) \<and> es_text es1 = es_text es @ escaped_char ens u"
proof -
  obtain c cs where c: "u = c # cs" using u by (cases u) (auto simp: utf8_char_def)
  have dec: "decode (es_state es) (es_codepoint es) (code c) = (next_state 0 (code c), word_of_nat (first_bits (code c)))"
    if "code c \<le> 0x7F \<or> utf8_ranges (code c) \<noteq> None"
    using decode_eq[of 0 "es_codepoint es" "code c"] decode_start[OF code_less that] es
    by (simp add: es_clean_def)
  show ?thesis
  proof (cases "code c \<le> 0x7F")
    case True
    then have cs: "cs = []" using u c by (simp add: utf8_char_def)
    have len: "length (es_buffer es) \<le> (if ens then 499 else 502)" using es by (simp add: es_clean_def)
    from escape_accept[OF _ len, of c "word_of_nat (first_bits (code c))" h i s] dec True next_state_start(1)[OF code_less True]
    show ?thesis
      by (auto simp: accepted_def c cs escaped_char_def codepoint_of_def first_bits_def)
  next
    case False
    then obtain rs where rs: "utf8_ranges (code c) = Some rs" "in_ranges rs cs"
      using u c by (auto simp: utf8_char_def split: option.splits)
    note st = next_state_start(3)[OF code_less rs(1)]
    obtain r rs' where rs': "rs = r # rs'" using rs(1) by (cases rule: utf8_ranges_cases) auto
    have ne: "next_state 0 (code c) \<noteq> 0" "next_state 0 (code c) \<noteq> 1"
      using state_ranges_nonempty[of "next_state 0 (code c)"] st rs' by auto
    have "length rs \<le> 3" using rs(1) by (cases rule: utf8_ranges_cases) simp_all
    with es have len: "length (es_buffer es) \<le> 511" "length (es_buffer es) + 1 + length rs \<le> 503"
      by (simp_all add: es_clean_def)
    from escape_partial[OF dec ne len(1), of h ens i "cs @ s"] rs(1) obtain es1 where es1:
        "escape_loop h ens i (c # cs @ s) es = escape_loop h ens (i + 1) (cs @ s) es1"
        "es_state es1 = next_state 0 (code c)" "es_codepoint es1 = word_of_nat (first_bits (code c))"
        "es_text es1 = es_text es @ (if ens then [] else [c])"
        "length (es_buffer es1) = length (es_buffer es) + (if ens then 0 else 1)" by auto
    have pre: "state_ranges (es_state es1) = r # rs'" using st es1(2) rs' by simp
    have len1: "length (es_buffer es1) + (if ens then 0 else length (r # rs')) \<le> (if ens then 499 else 503)"
      using len(2) es1(5) es rs' by (simp add: es_clean_def)
    have cs: "cs \<noteq> []" using rs(2) rs' by (auto simp: in_ranges_Cons)
    from escape_continue[OF pre rs(2)[unfolded rs'] es1(3) len1, of h "i + 1" s] es1(1,4) cs
    show ?thesis
      using codepoint_of_fold[of c cs] u c by (auto simp: escaped_char_def split: if_splits)
  qed
qed
subsection \<open>Whole strings\<close>

lemma utf8_induct [consumes 1, case_names Nil char]:
  assumes "utf8_ok s" and "P []" and "\<And>u t. utf8_char u \<Longrightarrow> utf8_ok t \<Longrightarrow> P t \<Longrightarrow> P (u @ t)"
  shows "P s"
  using assms(1)
proof (induction "length s" arbitrary: s rule: less_induct)
  case less
  show ?case
  proof (cases "s = []")
    case False
    with less(2) obtain u t where s: "s = u @ t" "utf8_char u" "utf8_ok t" by (rule utf8_ok_cases)
    have "length t < length s" using s(1,2) by (cases u) (auto simp: utf8_char_def)
    with less(1) s assms(3) show ?thesis by blast
  qed (simp add: assms(2))
qed

function escaped_text :: "bool \<Rightarrow> string \<Rightarrow> string" where
  "escaped_text ens [] = []"
| "escaped_text ens (c # s) =
     escaped_char ens (take (char_width c) (c # s)) @ escaped_text ens (drop (char_width c) (c # s))"
  by pat_completeness auto
termination escaped_text
  by (relation "measure (length \<circ> snd)") (auto simp: char_width_def split: option.splits)

lemma escaped_text_char: "utf8_char u \<Longrightarrow> escaped_text ens (u @ s) = escaped_char ens u @ escaped_text ens s"
proof (cases u)
  case (Cons c cs)
  assume "utf8_char u"
  with Cons have "char_width c = length u" using utf8_char_width by simp
  then have "escaped_text ens (c # (cs @ s)) = escaped_char ens u @ escaped_text ens s" using Cons by simp
  then show ?thesis using Cons by simp
qed (simp add: utf8_char_def)

declare escaped_text.simps(2) [simp del]

lemma escape_utf8:
  "utf8_ok s \<Longrightarrow> es_clean es \<Longrightarrow>
     \<exists>es1. escape_loop h ens i (s @ t) es = escape_loop h ens (i + length s) t es1 \<and> es_clean es1
       \<and> es_text es1 = es_text es @ escaped_text ens s"
proof (induction s arbitrary: es i rule: utf8_induct)
  case Nil
  then show ?case by auto
next
  case (char u v)
  from escape_char[OF char(1,4), of h ens i "v @ t"] obtain es1 where es1:
      "escape_loop h ens i (u @ v @ t) es = escape_loop h ens (i + length u) (v @ t) es1" "es_clean es1"
      "es_text es1 = es_text es @ escaped_char ens u" by blast
  from char(3)[OF es1(2), of "i + length u"] es1 show ?case
    by (auto simp: escaped_text_char[OF char(1)] add.assoc)
qed

text \<open>The strict handler on bytes that are no character.\<close>

definition stuck :: "dump_error + escaper \<Rightarrow> bool" where
  "stuck r \<longleftrightarrow>
     (case r of
        Inl (Dump_Throws (Type_Error i w)) \<Rightarrow> i = 316
      | Inl _ \<Rightarrow> False
      | Inr es \<Rightarrow> es_state es \<noteq> 0)"

lemma escape_reject:
  "decode (es_state es) (es_codepoint es) (code c) = (1, cp) \<Longrightarrow>
     stuck (escape_loop Handler_strict ens i (c # s) es)"
  by (simp add: stuck_def type_error_def Let_def)

lemma escape_broken:
  "state_ranges (es_state es) = rs \<Longrightarrow> rs \<noteq> [] \<Longrightarrow> \<not> in_ranges rs (take (length rs) s) \<Longrightarrow>
   length (es_buffer es) + (if ens then 0 else length rs) \<le> (if ens then 499 else 503) \<Longrightarrow>
   stuck (escape_loop Handler_strict ens i s es)"
proof (induction s arbitrary: es rs i)
  case Nil
  then show ?case using state_ranges_nonempty[of "es_state es"] by (simp add: stuck_def)
next
  case (Cons c s)
  obtain lo hi rs' where rs: "rs = (lo, hi) # rs'" using Cons.prems(2) by (cases rs) auto
  note dec = decode_eq[of "es_state es" "es_codepoint es" "code c"]
  show ?case
  proof (cases "lo \<le> code c \<and> code c \<le> hi")
    case False
    with dec next_state_continue(1)[OF code_less Cons.prems(1)[unfolded rs] False] show ?thesis
      by (intro escape_reject) simp
  next
    case True
    note st = next_state_continue(2)[OF code_less Cons.prems(1)[unfolded rs] True]
    have rest: "rs' \<noteq> []" "\<not> in_ranges rs' (take (length rs') s)"
      using Cons.prems(3) True by (auto simp: rs in_ranges_Cons)
    have ne: "next_state (es_state es) (code c) \<noteq> 0" "next_state (es_state es) (code c) \<noteq> 1"
      using st rest(1) state_ranges_nonempty[of "next_state (es_state es) (code c)"] by auto
    have len: "length (es_buffer es) \<le> 511" using Cons.prems(4) by (simp split: if_splits)
    from escape_partial[OF dec ne len, of Handler_strict ens i s] obtain es1 where es1:
        "escape_loop Handler_strict ens i (c # s) es = escape_loop Handler_strict ens (i + 1) s es1"
        "es_state es1 = next_state (es_state es) (code c)"
        "length (es_buffer es1) = length (es_buffer es) + (if ens then 0 else 1)" by blast
    have "length (es_buffer es1) + (if ens then 0 else length rs') \<le> (if ens then 499 else 503)"
      using Cons.prems(4) es1(3) by (simp add: rs split: if_splits)
    from Cons.IH[of es1 rs', OF _ rest this, of "i + 1"] st es1(1,2) show ?thesis by simp
  qed
qed

lemma escape_not_char:
  assumes "s \<noteq> []" and "\<not> utf8_char (take (char_width (hd s)) s)" and es: "es_clean es"
  shows "stuck (escape_loop Handler_strict ens i s es)"
proof -
  obtain c t where s: "s = c # t" using assms(1) by (cases s) auto
  have dec: "decode (es_state es) (es_codepoint es) (code c) = (next_state 0 (code c), snd (decode 0 (es_codepoint es) (code c)))"
    using decode_eq[of 0 "es_codepoint es" "code c"] es by (simp add: es_clean_def)
  have big: "\<not> code c \<le> 0x7F"
  proof
    assume "code c \<le> 0x7F"
    moreover from this have "utf8_ranges (code c) = None" using utf8_ranges_None[of "code c"] by auto
    ultimately show False using assms(2) s by (simp add: char_width_def utf8_char_def)
  qed
  show ?thesis
  proof (cases "utf8_ranges (code c)")
    case None
    with dec next_state_start(2)[OF code_less big None] show ?thesis
      unfolding s by (intro escape_reject) simp
  next
    case (Some rs)
    note st = next_state_start(3)[OF code_less Some]
    have rs: "rs \<noteq> []" "length rs \<le> 3" using Some by (cases rule: utf8_ranges_cases; simp)+
    have broken: "\<not> in_ranges rs (take (length rs) t)"
      using assms(2) big Some by (simp add: s char_width_def utf8_char_def)
    have ne: "next_state 0 (code c) \<noteq> 0" "next_state 0 (code c) \<noteq> 1"
      using st rs(1) state_ranges_nonempty[of "next_state 0 (code c)"] by auto
    have len: "length (es_buffer es) \<le> 511" using es by (simp add: es_clean_def)
    from escape_partial[OF dec ne len, of Handler_strict ens i t] obtain es1 where es1:
        "escape_loop Handler_strict ens i (c # t) es = escape_loop Handler_strict ens (i + 1) t es1"
        "es_state es1 = next_state 0 (code c)"
        "length (es_buffer es1) = length (es_buffer es) + (if ens then 0 else 1)" by blast
    have "length (es_buffer es1) + (if ens then 0 else length rs) \<le> (if ens then 499 else 503)"
      using es es1(3) rs(2) by (simp add: es_clean_def split: if_splits)
    from escape_broken[of es1 rs, OF _ rs(1) broken this, of "i + 1"] st es1(1,2) show ?thesis
      by (simp add: s)
  qed
qed

lemma escape_not_utf8: "\<not> utf8_ok s \<Longrightarrow> es_clean es \<Longrightarrow> stuck (escape_loop Handler_strict ens i s es)"
proof (induction s arbitrary: es i rule: utf8_ok.induct)
  case 1
  then show ?case by simp
next
  case (2 c s)
  show ?case
  proof (cases "utf8_char (take (char_width c) (c # s))")
    case False
    with escape_not_char[of "c # s"] 2(3) show ?thesis by simp
  next
    case True
    with 2(2) have bad: "\<not> utf8_ok (drop (char_width c) (c # s))" by simp
    from escape_char[OF True 2(3), of Handler_strict ens i "drop (char_width c) (c # s)"]
    obtain i' es1 where es1: "es_clean es1"
        "escape_loop Handler_strict ens i (take (char_width c) (c # s) @ drop (char_width c) (c # s)) es
          = escape_loop Handler_strict ens i' (drop (char_width c) (c # s)) es1" by blast
    from 2(1)[OF bad es1(1)] es1(2) show ?thesis by simp
  qed
qed

lemma new_escaper_clean: "es_clean new_escaper" "es_text new_escaper = []"
  by (simp_all add: es_clean_def new_escaper_def es_text_def)

lemma dump_escaped_utf8:
  assumes "utf8_ok s"
  shows "dump_escaped ens s sr = Inr (write_characters (escaped_text ens s) sr)"
proof -
  from escape_utf8[OF assms new_escaper_clean(1), of "sr_handler sr" ens 0 "[]"]
  show ?thesis
    by (auto simp: dump_escaped_def es_clean_def es_text_def new_escaper_def)
qed

lemma dump_escaped_strict:
  assumes "sr_handler sr = Handler_strict" and "\<not> utf8_ok s"
  shows "\<exists>w. dump_escaped ens s sr = Inl (Dump_Throws (Type_Error 316 w))"
  using escape_not_utf8[OF assms(2) new_escaper_clean(1), of ens 0] assms(1)
  by (auto simp: dump_escaped_def stuck_def type_error_def
      split: sum.splits dump_error.splits json_exception.splits)
subsection \<open>No handler overruns the string buffer\<close>

definition es_room :: "bool \<Rightarrow> escaper \<Rightarrow> bool" where
  "es_room ens es \<longleftrightarrow>
     es_accepted es \<le> 499 \<and>
     (es_state es = 0 \<and> length (es_buffer es) \<le> 499
      \<or> state_ranges (es_state es) \<noteq> []
         \<and> length (es_buffer es) + (if ens then 0 else length (state_ranges (es_state es)))
             \<le> (if ens then 499 else 503))"

definition no_overrun :: "error_handler \<Rightarrow> dump_error + 'a \<Rightarrow> bool" where
  "no_overrun h r \<longleftrightarrow>
     (case r of Inl (Dump_Throws e) \<Rightarrow> h = Handler_strict | Inl _ \<Rightarrow> False | Inr es \<Rightarrow> True)"

lemma es_room_decode:
  assumes "es_room ens es" "b < 256"
  obtains "next_state (es_state es) b = 0" "length (es_buffer es) \<le> (if ens then 499 else 502)"
  | "next_state (es_state es) b = 1"
  | r rs where "state_ranges (next_state (es_state es) b) = r # rs"
      "length (es_buffer es) + (if ens then 0 else 1 + length (r # rs)) \<le> (if ens then 499 else 503)"
proof (cases "es_state es = 0")
  case True
  with assms(1) have len: "length (es_buffer es) \<le> 499" by (auto simp: es_room_def state_rows)
  show thesis
  proof (cases "b \<le> 0x7F")
    case True
    then show thesis using that(1) next_state_start(1)[OF assms(2)] \<open>es_state es = 0\<close> len by simp
  next
    case False
    show thesis
    proof (cases "utf8_ranges b")
      case None
      then show thesis using that(2) next_state_start(2)[OF assms(2) False] \<open>es_state es = 0\<close> by simp
    next
      case (Some rs)
      then obtain r rs' where "rs = r # rs'" "length rs \<le> 3" by (cases rule: utf8_ranges_cases) auto
      then show thesis using that(3)[of r rs'] next_state_start(3)[OF assms(2) Some] \<open>es_state es = 0\<close> len by simp
    qed
  qed
next
  case False
  with assms(1) obtain lo hi rs where r: "state_ranges (es_state es) = (lo, hi) # rs"
      "length (es_buffer es) + (if ens then 0 else Suc (length rs)) \<le> (if ens then 499 else 503)"
    by (cases "state_ranges (es_state es)") (auto simp: es_room_def split: if_splits)
  show thesis
  proof (cases "lo \<le> b \<and> b \<le> hi")
    case False
    then show thesis using that(2) next_state_continue(1)[OF assms(2) r(1)] by simp
  next
    case True
    note st = next_state_continue(2)[OF assms(2) r(1) True]
    show thesis
    proof (cases rs)
      case Nil
      then show thesis using that(1) st r(2) by (simp split: if_splits)
    next
      case (Cons r' rs')
      then show thesis using that(3)[of r' rs'] st r(2) by (simp split: if_splits)
    qed
  qed
qed

lemma escape_loop_room: "es_room ens es \<Longrightarrow> no_overrun h (escape_loop h ens i s es)"
proof (induction "2 * length s + (if es_undumped es > 0 then 1 else 0)" arbitrary: i s es rule: less_induct)
  case less
  show ?case
  proof (cases s)
    case Nil
    then show ?thesis by (simp add: no_overrun_def)
  next
    case (Cons c t)
    have shorter: "no_overrun h (escape_loop h ens (i + 1) t es1)" if "es_room ens es1" for es1
      using less(1)[of t es1 "i + 1"] that by (simp add: Cons)
    obtain st cp where d: "decode (es_state es) (es_codepoint es) (code c) = (st, cp)"
      by (cases "decode (es_state es) (es_codepoint es) (code c)")
    then have st: "st = next_state (es_state es) (code c)" using decode_state by (metis fst_conv)
    have acc: "es_accepted es \<le> 499" using less(2) by (simp add: es_room_def)
    from less(2) code_less[of c] show ?thesis
    proof (cases rule: es_room_decode)
      case 1
      then obtain es1 where "escape_loop h ens i (c # t) es = escape_loop h ens (i + 1) t es1" "accepted ens cp c es es1"
        using escape_accept[of es c cp ens h i t] d st by auto
      then show ?thesis using shorter[of es1] by (simp add: Cons accepted_def es_clean_def es_room_def)
    next
      case 2
      then have st1: "st = 1" by (simp add: st)
      show ?thesis
      proof (cases "h = Handler_strict")
        case True
        then show ?thesis by (simp add: Cons d st1 no_overrun_def Let_def)
      next
        case False
        let ?es2 = "es\<lparr>es_state := 1, es_codepoint := cp, es_buffer := take (es_accepted es) (es_buffer es)\<rparr>"
        have len2: "length (es_buffer ?es2) \<le> 499" using acc by simp
        let ?p = "replacement ens"
        let ?es3 = "?es2\<lparr>es_buffer := es_buffer ?es2 @ ?p\<rparr>"
        have rep: "put_buffer (length ?p) ?p ?es2 = Inr ?es3" "length (es_buffer ?es3) \<le> 512"
          using len2 by (simp_all add: put_buffer_def replacement_def escape_u_def)
        define r where "r = (if h = Handler_replace
            then map_sum id (\<lambda>es3. let es4 = flush_buffer es3 in es4\<lparr>es_accepted := length (es_buffer es4)\<rparr>)
              (put_buffer (length ?p) ?p ?es2) else Inr ?es2)"
        have "\<exists>es3. r = Inr es3 \<and> length (es_buffer es3) \<le> 499 \<and> es_accepted es3 \<le> 499"
          unfolding r_def rep(1) using flush_buffer_room[OF rep(2)] len2 acc by (simp add: Let_def)
        then obtain es3 where es3: "r = Inr es3" "length (es_buffer es3) \<le> 499" "es_accepted es3 \<le> 499" by blast
        let ?es4 = "es3\<lparr>es_undumped := 0, es_state := 0\<rparr>"
        have room: "es_room ens ?es4" using es3 by (simp add: es_room_def)
        have loop: "escape_loop h ens i (c # t) es =
            (if es_undumped es > 0 then escape_loop h ens i (c # t) ?es4 else escape_loop h ens (i + 1) t ?es4)"
          by (subst escape_loop.simps(2))
            (use es3(1) False in \<open>simp add: d st1 r_def Let_def del: escape_loop.simps One_nat_def\<close>)
        have "es_undumped es > 0 \<Longrightarrow> no_overrun h (escape_loop h ens i (c # t) ?es4)"
          by (rule less(1)) (use room in \<open>simp_all add: Cons\<close>)
        with loop shorter[OF room] show ?thesis by (simp add: Cons del: escape_loop.simps)
      qed
    next
      case (3 r rs)
      have ne: "st \<noteq> 0" "st \<noteq> 1" using 3(1) state_ranges_nonempty[of st] by (auto simp: st)
      have len: "length (es_buffer es) \<le> 511" using 3(2) by (simp split: if_splits)
      from escape_partial[OF d ne len, of h ens i t] obtain es1 where es1:
          "escape_loop h ens i (c # t) es = escape_loop h ens (i + 1) t es1" "es_state es1 = st"
          "length (es_buffer es1) = length (es_buffer es) + (if ens then 0 else 1)"
          "es_accepted es1 = es_accepted es" by blast
      have "es_room ens es1" using 3 es1 acc by (auto simp: es_room_def st)
      from shorter[OF this] es1(1) show ?thesis by (simp add: Cons del: escape_loop.simps)
    qed
  qed
qed

lemma dump_escaped_safe: "dump_escaped ens s sr \<noteq> Inl Dump_Overrun" "dump_escaped ens s sr \<noteq> Inl Dump_Endless"
proof -
  have "es_room ens new_escaper" by (simp add: es_room_def new_escaper_def)
  from escape_loop_room[OF this, of "sr_handler sr" 0 s]
  have "dump_escaped ens s sr \<noteq> Inl Dump_Overrun \<and> dump_escaped ens s sr \<noteq> Inl Dump_Endless"
    by (auto simp: dump_escaped_def no_overrun_def split: sum.splits dump_error.splits error_handler.splits)
  then show "dump_escaped ens s sr \<noteq> Inl Dump_Overrun" "dump_escaped ens s sr \<noteq> Inl Dump_Endless"
    by simp_all
qed

lemma dump_escaped_lenient:
  assumes "sr_handler sr \<noteq> Handler_strict"
  shows "\<exists>t. dump_escaped ens s sr = Inr (write_characters t sr)"
proof -
  have "es_room ens new_escaper" by (simp add: es_room_def new_escaper_def)
  from escape_loop_room[OF this, of "sr_handler sr" 0 s] assms show ?thesis
    by (auto simp: dump_escaped_def no_overrun_def split: sum.splits dump_error.splits error_handler.splits)
qed

end
