(* ===== verification/Number_Text.thy ===== *)
theory Number_Text
  imports Text_Writer MsgPack
begin

section \<open>JSON text: integers\<close>

text \<open>
  \<open>serializer::dump_integer\<close> of \<open>src/external/nlohmann/json.h\<close>: the digits counted are the digits
  written, two at a time from the end of the number, whatever the buffer held before; the text is the
  decimal representation for every signed and unsigned 64 bit value, the least one included.
\<close>

lemma dec_nat_small: "n < 10 \<Longrightarrow> dec_nat n = [digit_char n]"
  by (simp add: dec_nat.simps)

lemma dec_nat_step: "10 \<le> n \<Longrightarrow> dec_nat n = dec_nat (n div 10) @ [digit_char (n mod 10)]"
  by (subst dec_nat.simps) simp

lemma dec_nat_two: "10 \<le> n \<Longrightarrow> n < 100 \<Longrightarrow> dec_nat n = [digit_char (n div 10), digit_char (n mod 10)]"
  by (simp add: dec_nat_step dec_nat_small)

lemma dec_nat_hundred:
  assumes "100 \<le> n"
  shows "dec_nat n = dec_nat (n div 100) @ [digit_char (n mod 100 div 10), digit_char (n mod 100 mod 10)]"
proof -
  have "n mod 100 = 10 * (n div 10 mod 10) + n mod 10" using mod_mult2_eq[of n 10 10] by simp
  then have "n div 10 mod 10 = n mod 100 div 10" "n mod 100 mod 10 = n mod 10" by simp_all
  then show ?thesis
    using assms dec_nat_step[of n] dec_nat_step[of "n div 10"] by (simp add: div_mult2_eq[symmetric])
qed

lemma length_dec_nat_10000: "10000 \<le> n \<Longrightarrow> length (dec_nat n) = length (dec_nat (n div 10000)) + 4"
  using dec_nat_hundred[of n] dec_nat_hundred[of "n div 100"] by (simp add: div_mult2_eq[symmetric])

lemma length_dec_nat_pos: "0 < length (dec_nat n)"
  by (subst dec_nat.simps) simp

lemma count_digits_from_length: "0 < k \<Longrightarrow> count_digits_from k x = k - 1 + length (dec_nat x)"
proof (induction k x rule: count_digits_from.induct)
  case (1 k x)
  show ?case
  proof (cases "x < 10000")
    case True
    then show ?thesis
      using 1(2) dec_nat_hundred[of x] by (simp add: count_digits_from.simps[of k x] dec_nat_small dec_nat_two)
  next
    case False
    then have "count_digits_from k x = count_digits_from (k + 4) (x div 10000)"
      by (simp add: count_digits_from.simps[of k x])
    with 1(1) False show ?thesis using length_dec_nat_10000[of x] length_dec_nat_pos[of "x div 10000"] 1(2)
      by simp
  qed
qed

lemma count_digits_length: "count_digits x = length (dec_nat (unat x))"
  by (simp add: count_digits_def count_digits_from_length)

lemma put_pair_replaces:
  "p + 2 \<le> length buf \<Longrightarrow>
     put_pair x (p + 2) buf = take p buf @ [digit_char (x div 10), digit_char (x mod 10)] @ drop (p + 2) buf"
  by (rule nth_equalityI)
    (auto simp: put_pair_def nth_append nth_list_update nth_Cons' intro!: arg_cong[where f = "nth buf"])

lemma fill_digits_replaces:
  "p + length (dec_nat x) \<le> length buf \<Longrightarrow>
     fill_digits x (p + length (dec_nat x)) buf
       = take p buf @ dec_nat x @ drop (p + length (dec_nat x)) buf"
proof (induction x "p + length (dec_nat x)" buf arbitrary: p rule: fill_digits.induct)
  case (1 x buf)
  show ?case
  proof (cases "100 \<le> x")
    case False
    then show ?thesis
    proof (cases "10 \<le> x")
      case True
      with False 1(2) put_pair_replaces[of p buf x] show ?thesis
        by (simp add: fill_digits.simps[of x] dec_nat_two)
    next
      case False
      then have d: "dec_nat x = [digit_char x]" by (simp add: dec_nat_small)
      have "buf[p := digit_char x] = take p buf @ digit_char x # drop (Suc p) buf"
        using 1(2) d by (intro upd_conv_take_nth_drop) simp
      with False show ?thesis by (simp add: fill_digits.simps[of x] d)
    qed
  next
    case True
    note h = dec_nat_hundred[OF True]
    let ?q = "p + length (dec_nat (x div 100))"
    let ?buf = "put_pair (x mod 100) (?q + 2) buf"
    have q: "p + length (dec_nat x) = ?q + 2" by (simp add: h)
    have buf: "?buf = take ?q buf @ [digit_char (x mod 100 div 10), digit_char (x mod 100 mod 10)] @ drop (?q + 2) buf"
      using 1(2) q by (intro put_pair_replaces) simp
    have len: "length ?buf = length buf" by (simp add: put_pair_def)
    have step: "fill_digits x (p + length (dec_nat x)) buf = fill_digits (x div 100) ?q ?buf"
      unfolding q using True by (simp add: fill_digits.simps[of x])
    have IH: "fill_digits (x div 100) ?q ?buf = take p ?buf @ dec_nat (x div 100) @ drop ?q ?buf"
      using 1(1)[of p] True q len 1(2) by (simp add: q)
    have "take p ?buf = take p buf"
        "drop ?q ?buf = [digit_char (x mod 100 div 10), digit_char (x mod 100 mod 10)] @ drop (?q + 2) buf"
      unfolding buf using 1(2) q by simp_all
    then show ?thesis unfolding step IH unfolding q by (simp add: h)
  qed
qed

lemma length_dec_nat: "n < 10 ^ k \<Longrightarrow> 0 < k \<Longrightarrow> length (dec_nat n) \<le> k"
proof (induction k arbitrary: n)
  case (Suc k)
  show ?case
  proof (cases "n < 10")
    case False
    with Suc.prems have "n div 10 < 10 ^ k" "0 < k" by (auto intro!: Nat.gr0I)
    with Suc.IH False show ?thesis by (simp add: dec_nat_step)
  qed (simp add: dec_nat_small)
qed simp

lemma length_dec_u64: "length (dec_nat (unat (w :: u64))) \<le> 20"
proof (rule length_dec_nat)
  have "unat w < 2 ^ 64" using unsigned_less[of w] by simp
  then show "unat w < 10 ^ 20" by simp
qed simp

lemma dump_abs_text:
  assumes "length (sr_number sr) = 64"
  shows "sr_out (dump_abs neg x sr) = sr_out sr @
      (if neg then CHR ''-'' # dec_nat (unat (- x)) else dec_nat (unat x))"
    and "length (sr_number (dump_abs neg x sr)) = 64"
    and "sr_indent (dump_abs neg x sr) = sr_indent sr"
    and "sr_handler (dump_abs neg x sr) = sr_handler sr"
proof -
  define v where "v = unat (if neg then - x else x)"
  define p where "p = (if neg then 1 else 0 :: nat)"
  define buf where "buf = (if neg then (sr_number sr)[0 := CHR ''-''] else sr_number sr)"
  have v: "p + length (dec_nat v) \<le> length buf"
    using length_dec_u64[of "- x"] length_dec_u64[of x] assms
    by (cases neg) (simp_all add: v_def p_def buf_def)
  have n: "(if neg then 1 + count_digits (if neg then - x else x) else count_digits (if neg then - x else x))
      = p + length (dec_nat v)"
    by (cases neg) (simp_all add: count_digits_length v_def p_def)
  have d: "dump_abs neg x sr =
      write_characters (take (p + length (dec_nat v)) (fill_digits v (p + length (dec_nat v)) buf))
        (sr\<lparr>sr_number := fill_digits v (p + length (dec_nat v)) buf\<rparr>)"
    unfolding dump_abs_def Let_def n buf_def[symmetric] v_def[symmetric] ..
  have p: "take p buf = (if neg then ''-'' else [])"
    using assms by (cases "sr_number sr") (simp_all add: p_def buf_def)
  note f = fill_digits_replaces[OF v]
  have t: "take (p + length (dec_nat v)) (fill_digits v (p + length (dec_nat v)) buf) = take p buf @ dec_nat v"
    using v by (simp add: f)
  show "sr_out (dump_abs neg x sr) = sr_out sr @
      (if neg then CHR ''-'' # dec_nat (unat (- x)) else dec_nat (unat x))"
    unfolding d t p write_characters_def by (simp add: v_def)
  show "length (sr_number (dump_abs neg x sr)) = 64"
    using v assms by (simp add: d f write_characters_def) (simp add: buf_def)
  show "sr_indent (dump_abs neg x sr) = sr_indent sr" "sr_handler (dump_abs neg x sr) = sr_handler sr"
    by (simp_all add: d write_characters_def)
qed

lemma dec_zero: "dec_nat 0 = ''0''"
  by code_simp

lemma dump_unsigned_text:
  assumes "length (sr_number sr) = 64"
  shows "sr_out (dump_unsigned x sr) = sr_out sr @ dec_nat (unat x)"
    and "length (sr_number (dump_unsigned x sr)) = 64"
    and "sr_indent (dump_unsigned x sr) = sr_indent sr"
    and "sr_handler (dump_unsigned x sr) = sr_handler sr"
  using dump_abs_text[OF assms, of False x] assms
  by (auto simp: dump_unsigned_def write_characters_def dec_zero)

lemma unat_minus_negative: "sint (x :: u64) < 0 \<Longrightarrow> unat (- x) = nat (- sint x)"
proof -
  assume neg: "sint x < 0"
  have "- (2 ^ 63) \<le> sint x" using sint_greater_eq[of x] by simp
  then have "- sint x mod 2 ^ 64 = - sint x" using neg by simp
  moreover have "uint (- x) = (- sint x) mod 2 ^ 64"
    using uint_word_of_int[of "- sint x", where 'a = 64] by simp
  ultimately show ?thesis by (metis unat_eq_nat_uint)
qed

lemma unat_nonnegative: "\<not> sint (x :: u64) < 0 \<Longrightarrow> unat x = nat (sint x)"
proof -
  assume "\<not> sint x < 0"
  moreover have "sint x < 2 ^ 63" using sint_less[of x] by simp
  ultimately have "sint x mod 2 ^ 64 = sint x" by simp
  moreover have "uint x = sint x mod 2 ^ 64"
    using uint_word_of_int[of "sint x", where 'a = 64] by simp
  ultimately show ?thesis by (metis unat_eq_nat_uint)
qed

lemma dump_integer_text:
  assumes "length (sr_number sr) = 64"
  shows "sr_out (dump_integer x sr) = sr_out sr @ dec_int (sint x)"
    and "length (sr_number (dump_integer x sr)) = 64"
    and "sr_indent (dump_integer x sr) = sr_indent sr"
    and "sr_handler (dump_integer x sr) = sr_handler sr"
proof -
  show "sr_out (dump_integer x sr) = sr_out sr @ dec_int (sint x)"
    using dump_abs_text(1)[OF assms, of "sint x < 0" x] unat_minus_negative[of x] unat_nonnegative[of x]
    by (auto simp: dump_integer_def write_characters_def dec_int_def dec_zero)
  show "length (sr_number (dump_integer x sr)) = 64" "sr_indent (dump_integer x sr) = sr_indent sr"
    "sr_handler (dump_integer x sr) = sr_handler sr"
    using dump_abs_text(2-4)[OF assms, of "sint x < 0" x] assms
    by (auto simp: dump_integer_def write_characters_def)
qed
end
