(* ===== verification/Text_Reading.thy ===== *)
theory Text_Reading
  imports Text_Parser Escaping Number_Text
begin

unbundle bit_operations_syntax

section \<open>JSON text: reading back what was written\<close>

text \<open>
  What the lexer of \<open>src/external/nlohmann/json.h\<close> makes of the texts the serializer writes: white
  space, punctuation, literals, the digits of an integer and the escaped text of a string, whatever
  follows them.
\<close>

subsection \<open>The characters to come\<close>

lemma lx_get_rest [simp]: "lx_ok lx \<Longrightarrow> lx_rest (lx_get lx) = tl (lx_rest lx)"
  by (auto simp: lx_ok_def lx_rest_def lx_input_get split: option.splits)

lemma lx_get_current [simp]:
  "lx_ok lx \<Longrightarrow> lx_current (lx_get lx) = (case lx_rest lx of [] \<Rightarrow> None | c # s \<Rightarrow> Some c)"
  by (auto simp: lx_ok_def lx_rest_def lx_current_get split: option.splits list.splits)

lemma lx_ok_get [simp]: "lx_ok (lx_get lx)"
  by (simp add: lx_ok_def)

lemma lx_ok_unget [simp]: "lx_ok lx \<Longrightarrow> lx_ok (lx_unget_char (lx_get lx))"
  by (auto simp: lx_ok_def lx_current_get lx_input_get split: list.splits)

lemma lx_ok_update [simp]:
  "lx_ok (lx_add c lx) = lx_ok lx" "lx_ok (lx_add_current lx) = lx_ok lx"
  "lx_ok (lx_reset lx) = lx_ok lx" "lx_ok (fail_with m lx) = lx_ok lx"
  "lx_ok (fold lx_add s lx) = lx_ok lx" "lx_ok (add_codepoint cp lx) = lx_ok lx"
  "lx_ok (lx\<lparr>lx_float := x\<rparr>) = lx_ok lx" "lx_ok (lx\<lparr>lx_integer := x\<rparr>) = lx_ok lx"
  "lx_ok (lx\<lparr>lx_unsigned := x\<rparr>) = lx_ok lx"
  by (simp_all add: lx_ok_def add_codepoint_def)

lemma add_codepoint_rest [simp]: "lx_rest (add_codepoint cp lx) = lx_rest lx"
  by (simp add: add_codepoint_def)

declare add_codepoint_buffer [simp]

lemma lx_add_fields [simp]:
  "lx_point (lx_add c lx) = lx_point lx" "lx_point (lx_add_current lx) = lx_point lx"
  "lx_point (lx_reset lx) = lx_point lx" "lx_buffer (lx_reset lx) = []"
  by (simp_all add: lx_add_def lx_add_current_def lx_reset_def split: option.split)

lemma unget_point [simp]: "lx_point (lx_unget_char lx) = lx_point lx"
  by (simp add: lx_unget_char_def Let_def)

subsection \<open>Strings\<close>

text \<open>The string loop goes from one lexer to the next, reading \<open>t\<close> and adding \<open>u\<close> to the buffer.\<close>

definition string_step :: "lexer \<Rightarrow> string \<Rightarrow> string \<Rightarrow> lexer \<Rightarrow> bool" where
  "string_step lx s u lx1 \<longleftrightarrow>
     lx_ok lx1 \<and> lx_rest lx1 = s \<and> lx_buffer lx1 = lx_buffer lx @ u
     \<and> scan_string_loop lx = scan_string_loop lx1"

lemma string_stepI:
  assumes "lx_ok lx" "lx_rest lx = c # t" "c \<noteq> CHR 0x22" "scan_char c (lx_get lx) = (True, lx1)"
    and "lx_ok lx1" "lx_rest lx1 = s" "lx_buffer lx1 = lx_buffer lx @ u"
  shows "string_step lx s u lx1"
  using assms by (simp add: string_step_def scan_string_loop.simps[of lx] Let_def)

lemma bytes_read_back:
  "in_ranges rs cs \<Longrightarrow> lx_ok lx \<Longrightarrow> lx_rest lx = cs @ s \<Longrightarrow>
     \<exists>lx1. bytes_in_ranges rs lx = (True, lx1) \<and> lx_ok lx1 \<and> lx_rest lx1 = s \<and> lx_buffer lx1 = lx_buffer lx @ cs"
proof (induction rs arbitrary: cs lx)
  case (Cons r rs)
  obtain lo hi where r: "r = (lo, hi)" by (cases r)
  obtain c cs' where cs: "cs = c # cs'" using Cons.prems(1) by (cases cs) (auto simp: r in_ranges_Cons)
  have c: "lo \<le> code c \<and> code c \<le> hi" "in_ranges rs cs'"
    using Cons.prems(1) by (simp_all add: r cs in_ranges_Cons)
  from Cons.IH[OF c(2), of "lx_add c (lx_get lx)"] Cons.prems(2,3) c(1) show ?case
    by (simp add: r cs Let_def)
qed (simp add: in_ranges_Cons)

lemma hex_read_back: "d < 16 \<Longrightarrow> hex_value (hex_lower d) = Some d"
proof -
  have "\<forall>d \<in> set [0..<16]. hex_value (hex_lower d) = Some d" by code_simp
  then show "d < 16 \<Longrightarrow> ?thesis" by simp
qed

lemma hex4_sum:
  fixes n :: nat
  assumes "n \<le> 0xFFFF"
  shows "n div 4096 * 4096 + (n div 256 mod 16 * 256 + (n div 16 mod 16 * 16 + n mod 16)) = n"
proof -
  have "n div 4096 * 16 + n div 256 mod 16 = n div 256" "n div 256 * 16 + n div 16 mod 16 = n div 16"
    using div_mult_mod_eq[of "n div 256" 16] div_mult_mod_eq[of "n div 16" 16]
    by (simp_all add: div_mult2_eq[symmetric])
  then show ?thesis using div_mult_mod_eq[of n 16] by linarith
qed

lemma codepoint_read_back:
  assumes "n \<le> 0xFFFF" "lx_ok lx" "lx_rest lx = hex4_lower n @ s"
  shows "\<exists>lx1. get_codepoint lx = (Some n, lx1) \<and> lx_ok lx1 \<and> lx_rest lx1 = s \<and> lx_buffer lx1 = lx_buffer lx"
proof -
  have "n div 4096 < 16" using assms(1) by linarith
  then show ?thesis
    using assms(2,3) hex4_sum[OF assms(1)]
    by (simp add: get_codepoint_def hex4_lower_def hex_read_back Let_def push_bit_eq_mult add.assoc)
qed

subsection \<open>Code points and bytes\<close>

lemma block:
  fixes a b :: nat
  assumes "b < 64"
  shows "(a * 64 + b) div 64 = a" "(a * 64 + b) mod 64 = b" "(a * 64 + b) div 4096 = a div 64"
    "(a * 64 + b) div 262144 = a div 4096"
  using assms by (simp_all add: div_mult2_eq[of _ 64 64, simplified] div_mult2_eq[of _ 64 4096, simplified])

lemma utf8_char_cases:
  assumes "utf8_char u"
  obtains a where "u = [a]" "code a \<le> 0x7F"
  | a b where "u = [a, b]" "0xC2 \<le> code a" "code a \<le> 0xDF" "0x80 \<le> code b" "code b \<le> 0xBF"
  | a b c where "u = [a, b, c]" "0xE0 \<le> code a" "code a \<le> 0xEF" "0x80 \<le> code b" "code b \<le> 0xBF"
      "0x80 \<le> code c" "code c \<le> 0xBF" "code a = 0xE0 \<Longrightarrow> 0xA0 \<le> code b" "code a = 0xED \<Longrightarrow> code b \<le> 0x9F"
  | a b c d where "u = [a, b, c, d]" "0xF0 \<le> code a" "code a \<le> 0xF4" "0x80 \<le> code b" "code b \<le> 0xBF"
      "0x80 \<le> code c" "code c \<le> 0xBF" "0x80 \<le> code d" "code d \<le> 0xBF"
      "code a = 0xF0 \<Longrightarrow> 0x90 \<le> code b" "code a = 0xF4 \<Longrightarrow> code b \<le> 0x8F"
proof -
  obtain a cs where u: "u = a # cs" using assms by (cases u) (auto simp: utf8_char_def)
  show thesis
  proof (cases "code a \<le> 0x7F")
    case True
    then show thesis using that(1) assms by (simp add: u utf8_char_def)
  next
    case False
    then obtain rs where rs: "utf8_ranges (code a) = Some rs" "in_ranges rs cs"
      using assms by (auto simp: u utf8_char_def split: option.splits)
    from rs(1) show thesis
      by (cases rule: utf8_ranges_cases)
        (use rs(2) in \<open>auto simp: u in_ranges_def list_all2_Cons1 intro: that\<close>)
  qed
qed

lemma utf8_bytes_codepoint:
  assumes "utf8_char u"
  shows "utf8_bytes (codepoint_of u) = u \<and> scalar_value (codepoint_of u)"
  using assms
proof (cases rule: utf8_char_cases)
  case (1 a)
  then show ?thesis by (simp add: codepoint_of_def utf8_bytes_def scalar_value_def)
next
  case (2 a b)
  define A B where "A = code a - 0xC0" "B = code b - 0x80"
  have ab: "2 \<le> A" "A < 32" "B < 64" "code a = 0xC0 + A" "code b = 0x80 + B" using 2 by (auto simp: A_B_def)
  have cp: "codepoint_of u = A * 64 + B" by (simp add: codepoint_of_def 2 A_B_def)
  have lo: "0x80 \<le> A * 64 + B" and hi: "A * 64 + B \<le> 0x7FF" using ab by linarith+
  have "utf8_bytes (A * 64 + B) = [char_of (code a), char_of (code b)]"
    using lo hi by (simp add: utf8_bytes_arith block ab)
  with hi show ?thesis unfolding cp by (simp add: 2 scalar_value_def)
next
  case (3 a b c)
  define A B C where "A = code a - 0xE0" "B = code b - 0x80" "C = code c - 0x80"
  have ab: "A < 16" "B < 64" "C < 64" "code a = 0xE0 + A" "code b = 0x80 + B" "code c = 0x80 + C"
    using 3 by (auto simp: A_B_C_def)
  have lim: "32 \<le> B" if "A = 0" using 3(8) that ab by simp
  have lim': "B < 32" if "A = 13" using 3(9) that ab by simp
  define n where "n = (A * 64 + B) * 64 + C"
  have cp: "codepoint_of u = n" by (simp only: codepoint_of_def 3(1) A_B_C_def n_def list.case)
  have lo: "0x7FF < n" unfolding n_def using ab lim by (cases "A = 0") auto
  have hi: "n \<le> 0xFFFF" unfolding n_def using ab by auto
  have sc: "\<not> (0xD800 \<le> n \<and> n \<le> 0xDFFF)" unfolding n_def using ab lim' by (cases "A = 13") auto
  have dv: "n mod 64 = C" "n div 64 mod 64 = B" "n div 4096 = A" unfolding n_def by (simp_all only: block ab)
  have "utf8_bytes n = [char_of (code a), char_of (code b), char_of (code c)]"
    using lo hi by (simp add: utf8_bytes_arith dv ab)
  with sc hi show ?thesis unfolding cp by (simp add: 3 scalar_value_def)
next
  case (4 a b c d)
  define A B C D where "A = code a - 0xF0" "B = code b - 0x80" "C = code c - 0x80" "D = code d - 0x80"
  have ab: "A \<le> 4" "B < 64" "C < 64" "D < 64" "code a = 0xF0 + A" "code b = 0x80 + B" "code c = 0x80 + C"
    "code d = 0x80 + D"
    using 4 by (auto simp: A_B_C_D_def)
  have lim: "16 \<le> B" if "A = 0" using 4(10) that ab by simp
  have lim': "B < 16" if "A = 4" using 4(11) that ab by simp
  define n where "n = ((A * 64 + B) * 64 + C) * 64 + D"
  have cp: "codepoint_of u = n" by (simp only: codepoint_of_def 4(1) A_B_C_D_def n_def list.case)
  have lo: "0xFFFF < n" unfolding n_def using ab lim by (cases "A = 0") auto
  have hi: "n \<le> 0x10FFFF" unfolding n_def using ab lim' by (cases "A = 4") auto
  have dv: "n mod 64 = D" "n div 64 mod 64 = C" "n div 4096 mod 64 = B" "n div 262144 = A"
    unfolding n_def by (simp_all only: block ab)
  have "utf8_bytes n = [char_of (code a), char_of (code b), char_of (code c), char_of (code d)]"
    using lo by (simp add: utf8_bytes_arith[OF hi] dv ab)
  with lo hi show ?thesis unfolding cp by (simp add: 4 scalar_value_def)
qed

subsection \<open>An escaped character is read back\<close>

text \<open>The text of an escape by the number of the code point.\<close>

definition escape_of :: "bool \<Rightarrow> nat \<Rightarrow> char \<Rightarrow> string" where
  "escape_of ens n c =
     (if n = 0x08 then [backslash_char, CHR ''b'']
      else if n = 0x09 then [backslash_char, CHR ''t'']
      else if n = 0x0A then [backslash_char, CHR ''n'']
      else if n = 0x0C then [backslash_char, CHR ''f'']
      else if n = 0x0D then [backslash_char, CHR ''r'']
      else if n = 0x22 then [backslash_char, CHR 0x22]
      else if n = 0x5C then [backslash_char, backslash_char]
      else if n \<le> 0x1F \<or> ens \<and> n \<ge> 0x7F then
        (if n \<le> 0xFFFF then escape_u @ hex4_lower n
         else escape_u @ hex4_lower (0xD7C0 + n div 1024) @ escape_u @ hex4_lower (0xDC00 + n mod 1024))
      else [c])"

lemma unat_u32: "n \<le> 0x10FFFF \<Longrightarrow> unat (word_of_nat n :: u32) = n"
  by (simp add: unat_of_nat)

lemma u32_numeral:
  assumes "n \<le> 0x10FFFF" "m \<le> 0x10FFFF"
  shows "(word_of_nat n :: u32) = word_of_nat m \<longleftrightarrow> n = m"
    and "(word_of_nat n :: u32) \<le> word_of_nat m \<longleftrightarrow> n \<le> m"
  using assms unat_u32 by (auto simp: word_le_nat_alt) (metis unat_u32)

lemma surrogate_units:
  assumes "n \<le> 0x10FFFF"
  shows "unat (0xD7C0 + drop_bit 10 (word_of_nat n) :: u32) = 0xD7C0 + n div 1024"
    and "unat (0xDC00 + (word_of_nat n AND 0x3FF) :: u32) = 0xDC00 + n mod 1024"
proof -
  have d: "unat (drop_bit 10 (word_of_nat n) :: u32) = n div 1024"
    by (simp only: unat_drop_bit_eq unat_u32[OF assms]) (simp add: drop_bit_eq_div)
  have "(word_of_nat n AND 0x3FF :: u32) = word_of_nat (n AND 0x3FF)"
    by (simp add: of_nat_and_eq)
  moreover have "n AND 0x3FF = n mod 1024" using and_low[of n 10] by (simp add: mask_eq_exp_minus_1)
  ultimately have m: "unat (word_of_nat n AND 0x3FF :: u32) = n mod 1024" by (simp add: unat_u32)
  have "n div 1024 \<le> 0x43F" using assms by linarith
  with d show "unat (0xD7C0 + drop_bit 10 (word_of_nat n) :: u32) = 0xD7C0 + n div 1024"
    by (simp add: unat_word_ariths)
  have "n mod 1024 < 1024" by simp
  then have "(0xDC00 + n mod 1024) mod 4294967296 = 0xDC00 + n mod 1024" by (intro mod_less) linarith
  with m show "unat (0xDC00 + (word_of_nat n AND 0x3FF) :: u32) = 0xDC00 + n mod 1024"
    by (simp add: unat_word_ariths)
qed

lemma escape_codepoint_of:
  assumes "n \<le> 0x10FFFF"
  shows "snd (escape_codepoint ens (word_of_nat n) c) = escape_of ens n c"
  using u32_numeral[OF assms, of "0x08"] u32_numeral[OF assms, of "0x09"] u32_numeral[OF assms, of "0x0A"]
    u32_numeral[OF assms, of "0x0C"] u32_numeral[OF assms, of "0x0D"] u32_numeral[OF assms, of "0x22"]
    u32_numeral[OF assms, of "0x5C"] u32_numeral[OF assms, of "0x1F"] u32_numeral[OF assms, of "0x7F"]
    u32_numeral[OF _ assms, of "0x7F"] u32_numeral[OF assms, of "0xFFFF"]
  by (simp add: escape_codepoint_def escape_of_def surrogate_units[OF assms] unat_u32[OF assms])
lemma raw_read_back:
  assumes u: "utf8_char u" "code (hd u) > 0x1F" "hd u \<noteq> CHR 0x22" "hd u \<noteq> backslash_char"
    and lx: "lx_ok lx" "lx_rest lx = u @ s"
  shows "\<exists>lx1. string_step lx s u lx1"
proof -
  obtain c cs where c: "u = c # cs" using u(1) by (cases u) (auto simp: utf8_char_def)
  let ?lx = "lx_add c (lx_get lx)"
  show ?thesis
  proof (cases "code c \<le> 0x7F")
    case True
    then have "cs = []" using u(1) by (simp add: c utf8_char_def)
    then have "string_step lx s u ?lx"
      using u lx c True by (intro string_stepI[of lx c s]) (simp_all add: scan_char_def)
    then show ?thesis ..
  next
    case False
    then obtain rs where rs: "utf8_ranges (code c) = Some rs" "in_ranges rs cs"
      using u(1) by (auto simp: c utf8_char_def split: option.splits)
    from bytes_read_back[OF rs(2), of ?lx s] lx obtain lx1 where lx1:
      "bytes_in_ranges rs ?lx = (True, lx1)" "lx_ok lx1" "lx_rest lx1 = s" "lx_buffer lx1 = lx_buffer lx @ u"
      by (auto simp: c)
    have "string_step lx s u lx1"
      using u lx lx1 c False rs(1)
      by (intro string_stepI[of lx c "cs @ s"]) (simp_all add: scan_char_def next_byte_in_range_def lx_add_current_def)
    then show ?thesis ..
  qed
qed

lemma escape_scanned:
  assumes "lx_ok lx" "lx_rest lx = backslash_char # t" "scan_escape (lx_get lx) = (True, lx1)"
    and "lx_ok lx1" "lx_rest lx1 = s" "lx_buffer lx1 = lx_buffer lx @ u"
  shows "\<exists>lx1. string_step lx s u lx1"
  using string_stepI[OF assms(1,2), of lx1 s u] assms(3-6) by (auto simp: scan_char_def)

lemma short_read_back:
  assumes "(e, c) \<in> set [(CHR ''b'', CHR 0x08), (CHR ''t'', CHR 0x09), (CHR ''n'', CHR 0x0A),
      (CHR ''f'', CHR 0x0C), (CHR ''r'', CHR 0x0D), (CHR 0x22, CHR 0x22), (backslash_char, backslash_char)]"
    and "lx_ok lx" "lx_rest lx = [backslash_char, e] @ s"
  shows "\<exists>lx1. string_step lx s [c] lx1"
proof (rule escape_scanned[OF assms(2)])
  show "lx_rest lx = backslash_char # e # s" using assms(3) by simp
  show "scan_escape (lx_get lx) = (True, lx_add c (lx_get (lx_get lx)))"
    using assms by (auto simp: scan_escape_def Let_def)
qed (use assms in simp_all)

lemma unicode_scanned:
  assumes "lx_ok lx" "lx_rest lx = escape_u @ t"
  shows "scan_escape (lx_get lx) = scan_unicode (lx_get (lx_get lx))"
    and "lx_rest lx = backslash_char # CHR ''u'' # t"
  using assms by (simp_all add: scan_escape_def Let_def escape_u_def)

lemma unicode_read_back:
  assumes n: "n \<le> 0xFFFF" "scalar_value n" and lx: "lx_ok lx" "lx_rest lx = escape_u @ hex4_lower n @ s"
  shows "\<exists>lx1. string_step lx s (utf8_bytes n) lx1"
proof -
  note u = unicode_scanned[OF lx]
  from codepoint_read_back[OF n(1), of "lx_get (lx_get lx)" s] lx(1) u(2) obtain lx1 where lx1:
    "get_codepoint (lx_get (lx_get lx)) = (Some n, lx1)" "lx_ok lx1" "lx_rest lx1 = s" "lx_buffer lx1 = lx_buffer lx"
    by auto
  then have "scan_escape (lx_get lx) = (True, add_codepoint n lx1)"
    using n(2) u(1) by (auto simp: scan_unicode_def scalar_value_def)
  from escape_scanned[OF lx(1) u(2) this] lx1 show ?thesis by simp
qed

lemma pair_read_back:
  assumes n: "0xFFFF < n" "n \<le> 0x10FFFF"
    and lx: "lx_ok lx"
      "lx_rest lx = escape_u @ hex4_lower (0xD7C0 + n div 1024) @ escape_u @ hex4_lower (0xDC00 + n mod 1024) @ s"
  shows "\<exists>lx1. string_step lx s (utf8_bytes n) lx1"
proof -
  let ?hi = "0xD7C0 + n div 1024" and ?lo = "0xDC00 + n mod 1024"
  have hi: "0xD800 \<le> ?hi" "?hi \<le> 0xDBFF" using n by linarith+
  have "n mod 1024 < 1024" by simp
  then have lo: "0xDC00 \<le> ?lo" "?lo \<le> 0xDFFF" by linarith+
  have "push_bit 10 ?hi + ?lo - 0x35FDC00 = 0x10000 + (?hi - 0xD800) * 1024 + (?lo - 0xDC00)"
    by (rule surrogate_pair(1)[OF hi lo])
  also have "\<dots> = n"
    using n div_mult_mod_eq[of n 1024] hi(1) by (simp add: diff_mult_distrib)
  finally have sum: "push_bit 10 ?hi + ?lo - 0x35FDC00 = n" .
  note u = unicode_scanned[OF lx]
  have "?hi \<le> 0xFFFF" "?lo \<le> 0xFFFF" using hi lo by linarith+
  note limits = this
  let ?s1 = "escape_u @ hex4_lower ?lo @ s"
  from codepoint_read_back[OF limits(1), of "lx_get (lx_get lx)" ?s1] lx(1) u(2)
  obtain lx1 where lx1: "get_codepoint (lx_get (lx_get lx)) = (Some ?hi, lx1)" "lx_ok lx1" "lx_rest lx1 = ?s1"
      "lx_buffer lx1 = lx_buffer lx" by auto
  from codepoint_read_back[OF limits(2), of "lx_get (lx_get lx1)" s] lx1
  obtain lx2 where lx2: "get_codepoint (lx_get (lx_get lx1)) = (Some ?lo, lx2)" "lx_ok lx2" "lx_rest lx2 = s"
      "lx_buffer lx2 = lx_buffer lx" by (auto simp: escape_u_def)
  have cur: "lx_current (lx_get lx1) = Some backslash_char" "lx_current (lx_get (lx_get lx1)) = Some CHR ''u''"
    using lx1 by (simp_all add: escape_u_def)
  have "scan_unicode (lx_get (lx_get lx)) = (True, add_codepoint n lx2)"
    unfolding scan_unicode_def using hi lo
    by (simp only: lx1(1) lx2(1) cur prod.case option.case Let_def sum if_True if_False simp_thms)
  with u(1) have "scan_escape (lx_get lx) = (True, add_codepoint n lx2)" by simp
  from escape_scanned[OF lx(1) u(2) this] lx2 show ?thesis by simp
qed
lemma ascii_char: "utf8_char u \<Longrightarrow> codepoint_of u \<le> 0x7F \<Longrightarrow> u = [char_of (codepoint_of u)]"
  using utf8_bytes_codepoint[of u] by (simp add: utf8_bytes_def)

lemma char_head:
  assumes "utf8_char u"
  shows "code (hd u) = codepoint_of u \<and> length u = 1 \<or> code (hd u) \<ge> 0x80"
  using assms by (cases rule: utf8_char_cases) (auto simp: codepoint_of_def)

lemma char_of_quote: "char_of (34 :: nat) = CHR 0x22" "char_of (92 :: nat) = backslash_char"
  by code_simp+

lemma plain_head:
  assumes "utf8_char u" "\<not> codepoint_of u \<le> 0x1F" "codepoint_of u \<noteq> 0x22" "codepoint_of u \<noteq> 0x5C"
  shows "code (hd u) > 0x1F" "hd u \<noteq> CHR 0x22" "hd u \<noteq> backslash_char"
  using char_head[OF assms(1)] assms(2-) by (auto simp: code_def)

lemma short_escapes:
  "n \<in> {0x08, 0x09, 0x0A, 0x0C, 0x0D, 0x22, 0x5C} \<Longrightarrow>
     \<exists>e. escape_of ens n c = [backslash_char, e]
       \<and> (e, char_of n) \<in> set [(CHR ''b'', CHR 0x08), (CHR ''t'', CHR 0x09), (CHR ''n'', CHR 0x0A),
            (CHR ''f'', CHR 0x0C), (CHR ''r'', CHR 0x0D), (CHR 0x22, CHR 0x22), (backslash_char, backslash_char)]"
proof -
  have "char_of (8 :: nat) = CHR 0x08" "char_of (9 :: nat) = CHR 0x09" "char_of (10 :: nat) = CHR 0x0A"
    "char_of (12 :: nat) = CHR 0x0C" "char_of (13 :: nat) = CHR 0x0D" by code_simp+
  note chars = this char_of_quote
  show "n \<in> {0x08, 0x09, 0x0A, 0x0C, 0x0D, 0x22, 0x5C} \<Longrightarrow> ?thesis"
    by (elim insertE) (simp_all add: escape_of_def chars)
qed

lemma escaped_read_back:
  assumes u: "utf8_char u" and lx: "lx_ok lx" "lx_rest lx = escaped_char ens u @ s"
  shows "\<exists>lx1. string_step lx s u lx1"
proof -
  define n where "n = codepoint_of u"
  have n: "utf8_bytes n = u" "scalar_value n" "n \<le> 0x10FFFF"
    using utf8_bytes_codepoint[OF u] by (auto simp: n_def scalar_value_def)
  have e: "escaped_char ens u = (if ens then [] else butlast u) @ escape_of ens n (last u)"
    using escape_codepoint_of[OF n(3)] by (simp add: escaped_char_def n_def)
  have small: "u = [char_of n]" if "n \<le> 0x7F"
    using ascii_char[OF u] that by (simp add: n_def)
  then have no_lead: "butlast u = []" if "n \<le> 0x7F" using that by (metis butlast.simps(2))
  consider "n \<in> {0x08, 0x09, 0x0A, 0x0C, 0x0D, 0x22, 0x5C}"
    | "n \<notin> {0x08, 0x09, 0x0A, 0x0C, 0x0D, 0x22, 0x5C}" "n \<le> 0x1F \<or> ens \<and> n \<ge> 0x7F"
    | "n \<notin> {0x08, 0x09, 0x0A, 0x0C, 0x0D, 0x22, 0x5C}" "\<not> (n \<le> 0x1F \<or> ens \<and> n \<ge> 0x7F)" by blast
  then show ?thesis
  proof cases
    case 1
    then have "n \<le> 0x7F" by auto
    note us = small[OF this] and pre = no_lead[OF this]
    obtain x where x: "escape_of ens n (last u) = [backslash_char, x]"
        "(x, char_of n) \<in> set [(CHR ''b'', CHR 0x08), (CHR ''t'', CHR 0x09), (CHR ''n'', CHR 0x0A),
            (CHR ''f'', CHR 0x0C), (CHR ''r'', CHR 0x0D), (CHR 0x22, CHR 0x22), (backslash_char, backslash_char)]"
      using short_escapes[OF 1] by blast
    have "lx_rest lx = [backslash_char, x] @ s" using lx(2) by (simp add: e pre x(1))
    from short_read_back[OF x(2) lx(1) this] show ?thesis by (subst us)
  next
    case 2
    have pre: "(if ens then [] else butlast u) = []" using no_lead 2(2) by (cases ens) auto
    show ?thesis
    proof (cases "n \<le> 0xFFFF")
      case True
      then have "escape_of ens n (last u) = escape_u @ hex4_lower n" using 2 by (simp add: escape_of_def)
      with unicode_read_back[OF True n(2) lx(1), of s] lx(2) show ?thesis by (simp add: e pre n(1))
    next
      case False
      then have "escape_of ens n (last u) =
          escape_u @ hex4_lower (0xD7C0 + n div 1024) @ escape_u @ hex4_lower (0xDC00 + n mod 1024)"
        using 2 by (simp add: escape_of_def)
      with pair_read_back[OF _ n(3) lx(1), of s] False lx(2) show ?thesis by (simp add: e pre n(1))
    qed
  next
    case 3
    have ne: "u \<noteq> []" using u by (auto simp: utf8_char_def)
    have "(if ens then [] else butlast u) = butlast u" using 3(2) no_lead by (cases ens) auto
    moreover have "escape_of ens n (last u) = [last u]" using 3 by (auto simp: escape_of_def)
    ultimately have "escaped_char ens u = u" using ne by (simp add: e)
    with plain_head[OF u] 3 raw_read_back[OF u _ _ _ lx(1), of s] lx(2) show ?thesis by (auto simp: n_def)
  qed
qed

lemma string_loop_read_back:
  "utf8_ok u \<Longrightarrow> lx_ok lx \<Longrightarrow> lx_rest lx = escaped_text ens u @ CHR 0x22 # s \<Longrightarrow>
     \<exists>lx1. scan_string_loop lx = (T_value_string, lx1) \<and> lx_ok lx1 \<and> lx_rest lx1 = s
       \<and> lx_buffer lx1 = lx_buffer lx @ u"
proof (induction u arbitrary: lx rule: utf8_induct)
  case Nil
  then show ?case by (simp add: scan_string_loop.simps[of lx] Let_def)
next
  case (char u v)
  from char(5) have "lx_rest lx = escaped_char ens u @ escaped_text ens v @ CHR 0x22 # s"
    by (simp add: escaped_text_char[OF char(1)])
  from escaped_read_back[OF char(1,4) this] obtain lx1 where
    "string_step lx (escaped_text ens v @ CHR 0x22 # s) u lx1" ..
  with char(3)[of lx1] show ?case by (auto simp: string_step_def)
qed

lemma string_read_back:
  assumes "utf8_ok u" "lx_ok lx" "lx_rest lx = escaped_text ens u @ CHR 0x22 # s"
  shows "\<exists>lx1. scan_string lx = (T_value_string, lx1) \<and> lx_ok lx1 \<and> lx_rest lx1 = s \<and> lx_buffer lx1 = u"
  using string_loop_read_back[OF assms(1), of "lx_reset lx"] assms(2,3) by (simp add: scan_string_def)
end
