(* ===== verification/Text_Tokens.thy ===== *)
theory Text_Tokens
  imports Text_Reading
begin

section \<open>JSON text: the tokens of written text\<close>

text \<open>
  What \<open>lexer::scan\<close> of \<open>src/external/nlohmann/json.h\<close> returns at each piece of text the serializer
  writes, with white space before it and anything that cannot continue it behind it.
\<close>

subsection \<open>Numbers\<close>

text \<open>The states the scanner of numbers goes through on a text it consumes.\<close>

fun number_run :: "number_state \<Rightarrow> token_type \<Rightarrow> string \<Rightarrow> (number_state \<times> token_type) option" where
  "number_run st t [] = Some (st, t)"
| "number_run st t (c # cs) =
     (case number_step st (Some c) of
        N_goto st1 \<Rightarrow> number_run st1 (number_type_at st t) cs
      | _ \<Rightarrow> None)"

lemma number_run_append:
  "number_run st t (u @ v) = Option.bind (number_run st t u) (\<lambda>(st1, t1). number_run st1 t1 v)"
  by (induction u arbitrary: st t) (auto split: number_action.splits)

lemma number_type_ok: "t \<noteq> T_parse_error \<Longrightarrow> number_type_at st t \<noteq> T_parse_error"
  by (cases st) simp_all

lemma number_run_type:
  "number_run st t cs = Some (st1, t1) \<Longrightarrow> t \<noteq> T_parse_error \<Longrightarrow> t1 \<noteq> T_parse_error"
  by (induction st t cs rule: number_run.induct) (auto simp: number_type_ok split: number_action.splits)

definition number_start :: "char \<Rightarrow> number_state" where
  "number_start c = (if c = CHR ''-'' then N_minus else if c = CHR ''0'' then N_zero else N_any1)"

text \<open>A text the scanner takes as a number of kind \<open>t\<close>, and what may follow it.\<close>

definition number_reads :: "string \<Rightarrow> token_type \<Rightarrow> bool" where
  "number_reads u t \<longleftrightarrow>
     u \<noteq> [] \<and> (hd u = CHR ''-'' \<or> is_digit (Some (hd u))) \<and>
     (case number_run (number_start (hd u)) T_value_unsigned (tl u) of
        None \<Rightarrow> False
      | Some (st, t1) \<Rightarrow> number_type_at st t1 = t \<and> st \<in> {N_zero, N_any1, N_decimal2, N_any2})"

definition number_ends :: "string \<Rightarrow> bool" where
  "number_ends s \<longleftrightarrow>
     (case s of [] \<Rightarrow> True | c # s1 \<Rightarrow> \<not> is_digit (Some c) \<and> c \<noteq> CHR ''.'' \<and> c \<noteq> CHR ''e'' \<and> c \<noteq> CHR ''E'')"

definition localized :: "char \<Rightarrow> string \<Rightarrow> string" where
  "localized point s = map (\<lambda>c. if c = CHR ''.'' then point else c) s"

lemma number_step_ends:
  "number_ends s \<Longrightarrow> st \<in> {N_zero, N_any1, N_decimal2, N_any2} \<Longrightarrow>
     number_step st (case s of [] \<Rightarrow> None | c # s1 \<Rightarrow> Some c) = N_done"
  by (cases s) (auto simp: number_ends_def is_exponent_def is_digit_def)

lemma scan_number_from_reads_back:
  "number_run st t cs = Some (st1, t1) \<Longrightarrow> st1 \<in> {N_zero, N_any1, N_decimal2, N_any2} \<Longrightarrow>
   number_ends s \<Longrightarrow> lx_ok lx \<Longrightarrow> lx_rest lx = cs @ s \<Longrightarrow>
     \<exists>lx1. scan_number_from st t lx = (number_type_at st1 t1, lx_get lx1) \<and> lx_ok lx1 \<and> lx_rest lx1 = s
       \<and> lx_buffer lx1 = lx_buffer lx @ localized (lx_point lx) cs \<and> lx_point lx1 = lx_point lx"
proof (induction st t cs arbitrary: lx rule: number_run.induct)
  case (1 st t)
  then show ?case
    by (intro exI[of _ lx])
      (auto simp: scan_number_from.simps[of _ _ lx] number_step_ends localized_def Let_def)
next
  case (2 st t c cs)
  obtain st2 where st2: "number_step st (Some c) = N_goto st2"
    using 2(2) by (auto split: number_action.splits)
  let ?lx = "add_number_char (lx_get lx)"
  have lx: "lx_ok ?lx" "lx_rest ?lx = cs @ s" "lx_point ?lx = lx_point lx"
      "lx_buffer ?lx = lx_buffer lx @ localized (lx_point lx) [c]"
    using 2(5,6) by (simp_all add: add_number_char_def lx_add_current_def localized_def)
  have "scan_number_from st t lx = scan_number_from st2 (number_type_at st t) ?lx"
    using 2(5,6) st2 by (simp add: scan_number_from.simps[of st t lx] Let_def)
  with 2(1)[OF st2 _ 2(3,4) lx(1,2)] 2(2) st2 lx(3,4) show ?case
    by (auto simp: localized_def)
qed

text \<open>What the scanned number is.\<close>

definition number_value :: "(string \<Rightarrow> u64) \<Rightarrow> token_type \<Rightarrow> string \<Rightarrow> token_type \<times> lexer \<Rightarrow> bool" where
  "number_value strtod t u r \<longleftrightarrow>
     (if t = T_value_unsigned \<and> dec_val u < 2 ^ 64 then
        fst r = T_value_unsigned \<and> lx_unsigned (snd r) = word_of_nat (dec_val u)
      else if t = T_value_integer \<and> dec_val (tl u) \<le> 2 ^ 63 then
        fst r = T_value_integer \<and> lx_integer (snd r) = word_of_int (- int (dec_val (tl u)))
      else fst r = T_value_float \<and> lx_float (snd r) = strtod u)"

lemma number_read_back:
  assumes "number_reads u t" "number_ends s" "lx_ok lx" "lx_current lx = Some (hd u)" "lx_rest lx = tl u @ s"
  shows "lx_ok (snd (scan_number strtod lx)) \<and> lx_rest (snd (scan_number strtod lx)) = s
    \<and> number_value strtod t (localized (lx_point lx) u) (scan_number strtod lx)"
proof -
  obtain c cs where u: "u = c # cs" using assms(1) by (cases u) (auto simp: number_reads_def)
  obtain st1 t1 where run: "number_run (number_start c) T_value_unsigned cs = Some (st1, t1)"
      "number_type_at st1 t1 = t" "st1 \<in> {N_zero, N_any1, N_decimal2, N_any2}"
    using assms(1) by (auto simp: u number_reads_def split: option.splits)
  have dot: "c \<noteq> CHR ''.''" using assms(1) by (auto simp: u number_reads_def is_digit_def)
  let ?lx = "lx_add_current (lx_reset lx)"
  have lx: "lx_ok ?lx" "lx_rest ?lx = cs @ s" "lx_point ?lx = lx_point lx" "lx_buffer ?lx = [c]"
    using assms(3-5) by (simp_all add: u lx_add_current_def)
  from scan_number_from_reads_back[OF run(1,3) assms(2) lx(1,2)] lx(3,4) run(2) dot
  obtain lx1 where lx1: "scan_number_from (number_start c) T_value_unsigned ?lx = (t, lx_get lx1)"
      "lx_ok lx1" "lx_rest lx1 = s" "lx_buffer lx1 = localized (lx_point lx) u"
    by (auto simp: u localized_def)
  have err: "t \<noteq> T_parse_error"
    using number_type_ok[OF number_run_type[OF run(1)], of st1] run(2) by simp
  have "scan_number strtod lx = scan_number_done strtod t (lx_get lx1)"
  proof -
    have start: "(if lx_current lx = Some CHR ''-'' then N_minus
        else if lx_current lx = Some CHR ''0'' then N_zero else N_any1) = number_start c"
      using assms(4) by (simp add: number_start_def u)
    show ?thesis unfolding scan_number_def Let_def start lx1(1) using err by simp
  qed
  then show ?thesis
    using lx1
    by (auto simp: scan_number_done_def number_value_def strtoull_def strtoll_def Let_def unget_get)
qed

lemma digit_chars:
  "d < 10 \<Longrightarrow> is_digit (Some (digit_char d))" "d < 10 \<Longrightarrow> digit_char d \<noteq> CHR ''.''"
  "0 < d \<Longrightarrow> d < 10 \<Longrightarrow> is_digit19 (Some (digit_char d))" "d < 10 \<Longrightarrow> digit_char d \<noteq> CHR ''-''"
  "0 < d \<Longrightarrow> d < 10 \<Longrightarrow> digit_char d \<noteq> CHR ''0''" "digit_char 0 = CHR ''0''"
proof -
  have "\<forall>d \<in> set [0..<10]. is_digit (Some (digit_char d)) \<and> digit_char d \<noteq> CHR ''.''
      \<and> digit_char d \<noteq> CHR ''-''
      \<and> (d > 0 \<longrightarrow> is_digit19 (Some (digit_char d)) \<and> digit_char d \<noteq> CHR ''0'')" by code_simp
  then show "d < 10 \<Longrightarrow> is_digit (Some (digit_char d))" "d < 10 \<Longrightarrow> digit_char d \<noteq> CHR ''.''"
    "0 < d \<Longrightarrow> d < 10 \<Longrightarrow> is_digit19 (Some (digit_char d))" "d < 10 \<Longrightarrow> digit_char d \<noteq> CHR ''-''"
    "0 < d \<Longrightarrow> d < 10 \<Longrightarrow> digit_char d \<noteq> CHR ''0''" by simp_all
  show "digit_char 0 = CHR ''0''" by code_simp
qed

definition all_digits :: "string \<Rightarrow> bool" where
  "all_digits s \<longleftrightarrow> list_all (\<lambda>c. is_digit (Some c)) s"

lemma all_digits_run:
  "all_digits s \<Longrightarrow> number_run N_any1 t s = Some (N_any1, t)"
  "all_digits s \<Longrightarrow> number_run N_decimal2 t s = Some (N_decimal2, t)"
  "all_digits s \<Longrightarrow> number_run N_any2 t s = Some (N_any2, t)"
  by (induction s) (auto simp: all_digits_def)

lemma dec_nat_head:
  "\<exists>d s. dec_nat n = digit_char d # s \<and> d < 10 \<and> all_digits s \<and> (0 < n \<longrightarrow> 0 < d) \<and> (n = 0 \<longrightarrow> d = 0 \<and> s = [])"
proof (induction n rule: dec_nat.induct)
  case (1 n)
  show ?case
  proof (cases "n < 10")
    case True
    then show ?thesis by (intro exI[of _ n] exI[of _ "[]"]) (simp add: dec_nat_small all_digits_def)
  next
    case False
    with 1 obtain d s where "dec_nat (n div 10) = digit_char d # s" "d < 10" "all_digits s" "0 < d"
      by auto
    with False show ?thesis
      by (intro exI[of _ d] exI[of _ "s @ [digit_char (n mod 10)]"])
        (simp add: dec_nat_step all_digits_def digit_chars)
  qed
qed

lemma number_reads_nat: "number_reads (dec_nat n) T_value_unsigned"
proof -
  from dec_nat_head[of n] obtain d s where d: "dec_nat n = digit_char d # s" "d < 10" "all_digits s"
      "0 < n \<longrightarrow> 0 < d" "n = 0 \<longrightarrow> d = 0 \<and> s = []" by blast
  then show ?thesis
    using digit_chars(1)[of 0]
    by (cases "n = 0") (simp_all add: number_reads_def digit_chars number_start_def all_digits_run)
qed

lemma number_reads_negative: "0 < n \<Longrightarrow> number_reads (CHR ''-'' # dec_nat n) T_value_integer"
proof -
  from dec_nat_head[of n] obtain d s where d: "dec_nat n = digit_char d # s" "d < 10" "all_digits s"
      "0 < n \<longrightarrow> 0 < d" by blast
  assume "0 < n"
  with d show ?thesis
    by (simp add: number_reads_def digit_chars number_start_def all_digits_run)
qed

lemma localized_digits: "all_digits s \<Longrightarrow> localized p s = s"
  by (induction s) (auto simp: localized_def all_digits_def is_digit_def)

lemma localized_dec: "localized p (dec_nat n) = dec_nat n" "localized p (CHR ''-'' # s) = CHR ''-'' # localized p s"
proof -
  from dec_nat_head[of n] obtain d s where "dec_nat n = digit_char d # s" "d < 10" "all_digits s" by blast
  then show "localized p (dec_nat n) = dec_nat n"
    using localized_digits[of "dec_nat n"] by (simp add: all_digits_def digit_chars)
qed (simp add: localized_def)
subsection \<open>The decimal point stays\<close>

lemma get_codepoint_from_point: "lx_point (snd (get_codepoint_from fs n lx)) = lx_point lx"
  by (induction fs arbitrary: n lx) (auto simp: Let_def split: option.split)

lemma fail_point [simp]: "lx_point (fail_with m lx) = lx_point lx"
  by (simp add: fail_with_def)

lemma fold_add_point [simp]: "lx_point (fold lx_add s lx) = lx_point lx"
  by (induction s arbitrary: lx) auto

lemma bytes_in_ranges_point: "lx_point (snd (bytes_in_ranges rs lx)) = lx_point lx"
  by (induction rs lx rule: bytes_in_ranges.induct) (auto simp: Let_def split: option.split)

lemma scan_unicode_point: "lx_point (snd (scan_unicode lx)) = lx_point lx"
proof -
  obtain r lx1 where g: "get_codepoint lx = (r, lx1)" by (cases "get_codepoint lx")
  obtain r' lx2 where g': "get_codepoint (lx_get (lx_get lx1)) = (r', lx2)"
    by (cases "get_codepoint (lx_get (lx_get lx1))")
  have "lx_point lx1 = lx_point lx" "lx_point lx2 = lx_point lx1"
    using get_codepoint_from_point[of "[12, 8, 4, 0]" 0 lx]
      get_codepoint_from_point[of "[12, 8, 4, 0]" 0 "lx_get (lx_get lx1)"] g g'
    by (simp_all add: get_codepoint_def)
  then show ?thesis by (simp add: scan_unicode_def g g' Let_def add_codepoint_def split: option.split)
qed

lemma scan_escape_point: "lx_point (snd (scan_escape lx)) = lx_point lx"
  by (simp add: scan_escape_def Let_def scan_unicode_point)

lemma scan_char_point: "lx_point (snd (scan_char c lx)) = lx_point lx"
  by (simp add: scan_char_def scan_escape_point next_byte_in_range_def bytes_in_ranges_point split: option.split)

lemma scan_string_loop_point: "lx_point (snd (scan_string_loop lx)) = lx_point lx"
proof (induction lx rule: scan_string_loop.induct)
  case (1 lx)
  show ?case
  proof (cases "lx_current (lx_get lx)")
    case None
    then show ?thesis by (simp add: scan_string_loop.simps[of lx] del: lx_get_current)
  next
    case (Some c)
    obtain ok lx2 where sc: "scan_char c (lx_get lx) = (ok, lx2)" by (cases "scan_char c (lx_get lx)")
    then have "lx_point lx2 = lx_point lx" using scan_char_point[of c "lx_get lx"] by simp
    then show ?thesis
      using 1[OF refl Some, of ok lx2] sc Some
      by (cases ok) (simp_all add: scan_string_loop.simps[of lx] Let_def del: lx_get_current)
  qed
qed

lemma scan_string_point: "lx_point (snd (scan_string lx)) = lx_point lx"
  by (simp add: scan_string_def scan_string_loop_point)

lemma scan_number_from_point: "lx_point (snd (scan_number_from st t lx)) = lx_point lx"
proof (induction st t lx rule: scan_number_from.induct)
  case (1 st t lx)
  then show ?case
    by (subst scan_number_from.simps)
      (auto simp: Let_def add_number_char_def split: number_action.split)
qed

lemma scan_number_point: "lx_point (snd (scan_number strtod lx)) = lx_point lx"
proof -
  let ?st = "if lx_current lx = Some CHR ''-'' then N_minus
                else if lx_current lx = Some CHR ''0'' then N_zero else N_any1"
  obtain t1 lx1 where f: "scan_number_from ?st T_value_unsigned (lx_add_current (lx_reset lx)) = (t1, lx1)"
    by (cases "scan_number_from ?st T_value_unsigned (lx_add_current (lx_reset lx))")
  with scan_number_from_point[of ?st T_value_unsigned "lx_add_current (lx_reset lx)"]
  have "lx_point lx1 = lx_point lx" by simp
  then show ?thesis
    unfolding scan_number_def Let_def f by (simp add: scan_number_done_def Let_def split: option.split)
qed

subsection \<open>White space and tokens\<close>

definition white :: "string \<Rightarrow> bool" where
  "white s \<longleftrightarrow> list_all (\<lambda>c. is_whitespace (Some c)) s"

lemma white_append [simp]: "white (s @ t) \<longleftrightarrow> white s \<and> white t" "white []"
  by (simp_all add: white_def)

definition first_char :: "string \<Rightarrow> char option" where
  "first_char s = (case s of [] \<Rightarrow> None | c # s1 \<Rightarrow> Some c)"

lemma first_char_simps [simp]: "first_char [] = None" "first_char (c # s) = Some c"
  by (simp_all add: first_char_def)

text \<open>A lexer in front of \<open>s\<close>; at the beginning of the input \<open>s\<close> does not begin like a byte order mark.\<close>

definition text_at :: "char \<Rightarrow> lexer \<Rightarrow> string \<Rightarrow> bool" where
  "text_at point lx s \<longleftrightarrow>
     lx_ok lx \<and> lx_rest lx = s \<and> lx_point lx = point \<and> (lx_total lx = 0 \<longrightarrow> first_char s \<noteq> Some CHR 0xEF)"

lemma skip_whitespace_back:
  "white w \<Longrightarrow> lx_ok lx \<Longrightarrow> lx_rest lx = w @ s \<Longrightarrow> \<not> is_whitespace (first_char s) \<Longrightarrow>
     lx_ok (skip_whitespace lx) \<and> lx_current (skip_whitespace lx) = first_char s
     \<and> lx_rest (skip_whitespace lx) = tl s \<and> lx_point (skip_whitespace lx) = lx_point lx"
proof (induction w arbitrary: lx)
  case Nil
  then show ?case
    by (simp add: skip_whitespace.simps[of lx] first_char_def Let_def)
next
  case (Cons c w)
  then have "skip_whitespace lx = skip_whitespace (lx_get lx)"
    by (simp add: skip_whitespace.simps[of lx] white_def Let_def)
  with Cons show ?case by (simp add: white_def)
qed

lemma scan_at:
  assumes "text_at point lx (w @ s)" "white w" "\<not> is_whitespace (first_char s)" "first_char s \<noteq> Some CHR 0xEF"
  shows "\<exists>lx1. scan strtod lx = scan_token strtod lx1 \<and> lx_ok lx1 \<and> lx_current lx1 = first_char s
    \<and> lx_rest lx1 = tl s \<and> lx_point lx1 = point"
proof -
  define lx0 where "lx0 = (if lx_total lx = 0 then lx_unget_char (lx_get lx) else lx)"
  have cur: "lx_total lx = 0 \<Longrightarrow> lx_current (lx_get lx) \<noteq> Some CHR 0xEF"
    using assms(1) by (auto simp: text_at_def first_char_def split: list.splits)
  have scan: "scan strtod lx = scan_token strtod (skip_whitespace lx0)"
    using cur by (simp add: scan_def skip_bom_def Let_def lx0_def)
  have "lx_ok lx0" "lx_rest lx0 = w @ s" "lx_point lx0 = point"
    using assms(1) by (simp_all add: lx0_def text_at_def unget_get)
  with skip_whitespace_back[OF assms(2), of lx0 s] assms(3) scan show ?thesis by auto
qed

definition token_at :: "(string \<Rightarrow> u64) \<Rightarrow> char \<Rightarrow> lexer \<Rightarrow> token_type \<Rightarrow> string \<Rightarrow> lexer \<Rightarrow> bool" where
  "token_at strtod point lx t s lx1 \<longleftrightarrow> scan strtod lx = (t, lx1) \<and> text_at point lx1 s"

lemma token_atI:
  assumes "scan strtod lx = (t, lx1)" "t \<noteq> T_end_of_input" "t \<noteq> T_parse_error"
    and "lx_ok lx1" "lx_rest lx1 = s" "lx_point lx1 = point"
  shows "token_at strtod point lx t s lx1"
proof -
  have "reads True lx lx1" "length (lx_rest lx1) < length (lx_rest lx)"
    using scan_reads[OF assms(1)] assms(2,3) by auto
  then have "lx_total lx1 > 0" by (auto simp: reads_def lx_span_def)
  with assms show ?thesis by (simp add: token_at_def text_at_def)
qed
lemma scan_token_punctuation:
  "lx_current lx = Some CHR ''['' \<Longrightarrow> scan_token strtod lx = (T_begin_array, lx)"
  "lx_current lx = Some CHR '']'' \<Longrightarrow> scan_token strtod lx = (T_end_array, lx)"
  "lx_current lx = Some CHR ''{'' \<Longrightarrow> scan_token strtod lx = (T_begin_object, lx)"
  "lx_current lx = Some CHR ''}'' \<Longrightarrow> scan_token strtod lx = (T_end_object, lx)"
  "lx_current lx = Some CHR '':'' \<Longrightarrow> scan_token strtod lx = (T_name_separator, lx)"
  "lx_current lx = Some CHR '','' \<Longrightarrow> scan_token strtod lx = (T_value_separator, lx)"
  by (simp_all add: scan_token_def)

lemma token_punctuation:
  assumes "(c, t) \<in> set [(CHR ''['', T_begin_array), (CHR '']'', T_end_array), (CHR ''{'', T_begin_object),
      (CHR ''}'', T_end_object), (CHR '':'', T_name_separator), (CHR '','', T_value_separator)]"
    and "text_at point lx (w @ c # s)" "white w"
  shows "\<exists>lx1. token_at strtod point lx t s lx1"
proof -
  have "\<not> is_whitespace (first_char (c # s))" "first_char (c # s) \<noteq> Some CHR 0xEF"
    using assms(1) by (auto simp: is_whitespace_def)
  from scan_at[OF assms(2,3) this] obtain lx1 where lx1: "scan strtod lx = scan_token strtod lx1"
    "lx_ok lx1" "lx_current lx1 = Some c" "lx_rest lx1 = s" "lx_point lx1 = point" by auto
  have "scan_token strtod lx1 = (t, lx1)" using assms(1) lx1(3) scan_token_punctuation[of lx1 strtod] by auto
  with lx1 assms(1) have "token_at strtod point lx t s lx1" by (intro token_atI) auto
  then show ?thesis ..
qed

lemma token_end:
  assumes "text_at point lx w" "white w"
  shows "\<exists>lx1. scan strtod lx = (T_end_of_input, lx1)"
proof -
  from scan_at[of point lx w "[]"] assms show ?thesis by (fastforce simp: is_whitespace_def scan_token_def)
qed

lemma literal_chars_back:
  "lx_ok lx \<Longrightarrow> lx_rest lx = cs @ s \<Longrightarrow>
     \<exists>lx1. scan_literal_chars cs t lx = (t, lx1) \<and> lx_ok lx1 \<and> lx_rest lx1 = s \<and> lx_point lx1 = lx_point lx"
proof (induction cs arbitrary: lx)
  case (Cons c cs)
  from Cons.IH[of "lx_get lx"] Cons.prems show ?case by (simp add: Let_def)
qed simp

lemma token_literal:
  assumes "(u, t) \<in> set [(''true'', T_literal_true), (''false'', T_literal_false), (''null'', T_literal_null)]"
    and "text_at point lx (w @ u @ s)" "white w"
  shows "\<exists>lx1. token_at strtod point lx t s lx1"
proof -
  have "\<not> is_whitespace (first_char (u @ s))" "first_char (u @ s) \<noteq> Some CHR 0xEF"
    using assms(1) by (auto simp: is_whitespace_def)
  from scan_at[OF assms(2,3) this] obtain lx1 where lx1: "scan strtod lx = scan_token strtod lx1"
    "lx_ok lx1" "lx_current lx1 = first_char (u @ s)" "lx_rest lx1 = tl (u @ s)" "lx_point lx1 = point" by blast
  have rest: "lx_rest lx1 = tl u @ s" and tok: "scan_token strtod lx1 = scan_literal_chars (tl u) t lx1"
    using assms(1) lx1 by (auto simp: scan_token_def scan_literal_def)
  from literal_chars_back[OF lx1(2) rest, of t] obtain lx2 where lx2:
    "scan_literal_chars (tl u) t lx1 = (t, lx2)" "lx_ok lx2" "lx_rest lx2 = s" "lx_point lx2 = point"
    using lx1(5) by auto
  have "token_at strtod point lx t s lx2"
    using lx1(1) lx2 tok assms(1) by (intro token_atI) auto
  then show ?thesis ..
qed

lemma token_string:
  assumes "text_at point lx (w @ CHR 0x22 # escaped_text ens u @ CHR 0x22 # s)" "white w" "utf8_ok u"
  shows "\<exists>lx1. token_at strtod point lx T_value_string s lx1 \<and> lx_buffer lx1 = u"
proof -
  from scan_at[OF assms(1,2)] obtain lx1 where lx1: "scan strtod lx = scan_token strtod lx1"
    "lx_ok lx1" "lx_current lx1 = Some CHR 0x22" "lx_rest lx1 = escaped_text ens u @ CHR 0x22 # s"
    "lx_point lx1 = point" by (auto simp: is_whitespace_def)
  from string_read_back[OF assms(3) lx1(2,4)] obtain lx2 where lx2:
    "scan_string lx1 = (T_value_string, lx2)" "lx_ok lx2" "lx_rest lx2 = s" "lx_buffer lx2 = u" by blast
  have "scan_token strtod lx1 = scan_string lx1" using lx1(3) by (simp add: scan_token_def)
  moreover have "lx_point lx2 = point" using scan_string_point[of lx1] lx1(5) lx2(1) by simp
  ultimately have "token_at strtod point lx T_value_string s lx2"
    using lx1(1) lx2 by (intro token_atI) auto
  with lx2(4) show ?thesis by blast
qed

lemma number_head:
  assumes "number_reads u t"
  shows "\<not> is_whitespace (first_char (u @ s))" "first_char (u @ s) \<noteq> Some CHR 0xEF"
    "lx_current lx = first_char (u @ s) \<Longrightarrow> scan_token strtod lx = scan_number strtod lx"
    "first_char (u @ s) = Some (hd u)" "tl (u @ s) = tl u @ s"
proof -
  obtain c cs where u: "u = c # cs" using assms by (cases u) (auto simp: number_reads_def)
  have c: "c = CHR ''-'' \<or> CHR ''0'' \<le> c \<and> c \<le> CHR ''9''"
    using assms by (auto simp: u number_reads_def is_digit_def)
  show "\<not> is_whitespace (first_char (u @ s))" "first_char (u @ s) \<noteq> Some CHR 0xEF"
    using c by (auto simp: u is_whitespace_def)
  have "c \<noteq> CHR ''[''" "c \<noteq> CHR '']''" "c \<noteq> CHR ''{''" "c \<noteq> CHR ''}''" "c \<noteq> CHR '':''" "c \<noteq> CHR '',''"
    "c \<noteq> CHR ''t''" "c \<noteq> CHR ''f''" "c \<noteq> CHR ''n''" "c \<noteq> CHR 0x22" "c = CHR ''-'' \<or> is_digit (Some c)"
    using c by (auto simp: is_digit_def)
  then show "scan_token strtod lx = scan_number strtod lx" if "lx_current lx = first_char (u @ s)"
    unfolding scan_token_def using that by (simp add: u del: de_Morgan_conj)
  show "first_char (u @ s) = Some (hd u)" "tl (u @ s) = tl u @ s" by (simp_all add: u)
qed

lemma token_number:
  assumes "text_at point lx (w @ u @ s)" "white w" "number_reads u t" "number_ends s"
  shows "\<exists>t1 lx1. token_at strtod point lx t1 s lx1 \<and> number_value strtod t (localized point u) (t1, lx1)"
proof -
  note h = number_head[OF assms(3)]
  from scan_at[OF assms(1,2) h(1,2)] obtain lx1 where lx1: "scan strtod lx = scan_token strtod lx1"
    "lx_ok lx1" "lx_current lx1 = first_char (u @ s)" "lx_rest lx1 = tl (u @ s)" "lx_point lx1 = point" by blast
  obtain t1 lx2 where sn: "scan_number strtod lx1 = (t1, lx2)" by (cases "scan_number strtod lx1")
  from number_read_back[OF assms(3,4) lx1(2), of strtod] lx1(3-5) h(4,5) sn
  have r: "lx_ok lx2" "lx_rest lx2 = s" "number_value strtod t (localized point u) (t1, lx2)" by auto
  have "lx_point lx2 = point" using scan_number_point[of strtod lx1] lx1(5) sn by simp
  moreover have "t1 \<noteq> T_end_of_input" "t1 \<noteq> T_parse_error" using r(3) by (auto simp: number_value_def split: if_splits)
  ultimately have "token_at strtod point lx t1 s lx2"
    using lx1(1) h(3)[OF lx1(3)] sn r by (intro token_atI) auto
  with r(3) show ?thesis by blast
qed
end
