(* ===== verification/Grisu_Generation.thy ===== *)
theory Grisu_Generation
  imports Grisu_Scaling Text_Tokens
begin

unbundle bit_operations_syntax

section \<open>JSON text: digit generation\<close>

text \<open>
  \<open>grisu2_digit_gen\<close> and \<open>grisu2_round\<close> of \<open>src/external/nlohmann/json.h\<close>: the loops end, nothing wraps
  around, the digits neither begin nor end with a zero, there are 17 at most, and the number they
  stand for is between the two scaled boundaries.
\<close>

subsection \<open>Rounding the last digit\<close>

lemma digit_of_word_char: "unat d < 10 \<Longrightarrow> digit_of_word d = digit_char (unat d)"
  by (simp add: digit_of_word_def digit_char_def)

lemma decrement_digit: "0 < x \<Longrightarrow> x < 10 \<Longrightarrow> decrement_last (b @ [digit_char x]) = b @ [digit_char (x - 1)]"
proof -
  assume x: "0 < x" "x < 10"
  have "(48 + x + 255) mod 256 = 48 + (x - 1)"
  proof -
    have "48 + x + 255 = 48 + (x - 1) + 1 * 256" using x by simp
    then show ?thesis using x by (simp only: mod_mult_self1) simp
  qed
  then show ?thesis using x by (simp add: decrement_last_def digit_char_def)
qed

lemma grisu2_round_digit:
  assumes "unat rest \<le> unat delta" "unat delta < unat rest + x * unat ten_k" "x < 10"
  shows "\<exists>y. grisu2_round (b @ [digit_char x]) dst delta rest ten_k = Some (b @ [digit_char y])
    \<and> 0 < y \<and> y \<le> x \<and> unat rest + (x - y) * unat ten_k \<le> unat delta"
  using assms
proof (induction x arbitrary: rest)
  case 0
  then show ?case by simp
next
  case (Suc x)
  let ?go = "rest < dst \<and> delta - rest \<ge> ten_k \<and> (rest + ten_k < dst \<or> dst - rest > rest + ten_k - dst)"
  show ?case
  proof (cases ?go)
    case False
    then have "grisu2_round (b @ [digit_char (Suc x)]) dst delta rest ten_k = Some (b @ [digit_char (Suc x)])"
      by (simp only: grisu2_round.simps[of "b @ [digit_char (Suc x)]"] if_False)
    then show ?thesis using Suc.prems(1) by (intro exI[of _ "Suc x"]) simp
  next
    case True
    then have "unat ten_k \<le> unat (delta - rest)" by (simp add: word_le_nat_alt)
    then have t: "unat rest + unat ten_k \<le> unat delta" using unat_sub_small[OF Suc.prems(1)] Suc.prems(1) by simp
    then have r: "unat (rest + ten_k) = unat rest + unat ten_k"
      using unat_u64_less[of delta] by (intro unat_add_small) simp
    have "unat (rest + ten_k) \<le> unat delta" "unat delta < unat (rest + ten_k) + x * unat ten_k" "x < 10"
      using Suc.prems t r by simp_all
    from Suc.IH[OF this] obtain y where y: "grisu2_round (b @ [digit_char x]) dst delta (rest + ten_k) ten_k
        = Some (b @ [digit_char y])" "0 < y" "y \<le> x" "unat (rest + ten_k) + (x - y) * unat ten_k \<le> unat delta"
      by blast
    have "grisu2_round (b @ [digit_char (Suc x)]) dst delta rest ten_k = Some (b @ [digit_char y])"
      using True y(1) decrement_digit[of "Suc x" b] Suc.prems(3)
      by (simp only: grisu2_round.simps[of "b @ [digit_char (Suc x)]"] if_True) simp
    moreover have "unat rest + (Suc x - y) * unat ten_k \<le> unat delta"
      using y(3,4) r by (simp add: Suc_diff_le)
    ultimately show ?thesis using y(2,3) by (intro exI[of _ y]) simp
  qed
qed

text \<open>A buffer of digits that does not begin with a zero.\<close>

definition digits_ok :: "string \<Rightarrow> bool" where
  "digits_ok buf \<longleftrightarrow> all_digits buf \<and> (buf \<noteq> [] \<longrightarrow> hd buf \<noteq> CHR ''0'')"

lemma digits_ok_snoc:
  "digits_ok buf \<Longrightarrow> x < 10 \<Longrightarrow> buf = [] \<Longrightarrow> 0 < x \<Longrightarrow> digits_ok (buf @ [digit_char x])"
  "digits_ok buf \<Longrightarrow> x < 10 \<Longrightarrow> buf \<noteq> [] \<Longrightarrow> digits_ok (buf @ [digit_char x])"
  by (auto simp: digits_ok_def all_digits_def digit_chars hd_append)

text \<open>The digits \<open>buf\<close>, counted in units of \<open>u\<close>, stand for a number between \<open>t - d\<close> and \<open>t\<close>.\<close>

definition digits_between :: "string \<Rightarrow> nat \<Rightarrow> nat \<Rightarrow> nat \<Rightarrow> bool" where
  "digits_between buf u d t \<longleftrightarrow>
     digits_ok buf \<and> buf \<noteq> [] \<and> last buf \<noteq> CHR ''0'' \<and> dec_val buf * u \<le> t \<and> t \<le> dec_val buf * u + d"

lemma round_between:
  assumes "unat rest \<le> unat delta" "unat delta < unat rest + x * unat ten_k" "x < 10"
    and "digits_ok b" "dec_val b * 10 * unat ten_k + x * unat ten_k + unat rest = t"
  shows "\<exists>b1. grisu2_round (b @ [digit_char x]) dst delta rest ten_k = Some b1
    \<and> digits_between b1 (unat ten_k) (unat delta) t \<and> length b1 = Suc (length b)"
proof -
  obtain y where y: "grisu2_round (b @ [digit_char x]) dst delta rest ten_k = Some (b @ [digit_char y])"
      "0 < y" "y \<le> x" "unat rest + (x - y) * unat ten_k \<le> unat delta"
    using grisu2_round_digit[OF assms(1-3)] by blast
  have "digits_ok (b @ [digit_char y])" using digits_ok_snoc[OF assms(4)] y assms(3) by (cases "b = []") simp_all
  moreover have "digit_char y \<noteq> CHR ''0''" using y assms(3) by (simp add: digit_chars)
  moreover obtain z where z: "x = y + z" using y(3) le_Suc_ex by blast
  ultimately have "digits_between (b @ [digit_char y]) (unat ten_k) (unat delta) t"
    using y assms(3,5) by (auto simp: digits_between_def algebra_simps)
  with y(1) show ?thesis by auto
qed

subsection \<open>The digits of the integral part\<close>

lemma find_largest_pow10_bounds:
  assumes "0 < unat n"
  shows "\<exists>k p. find_largest_pow10 n = (Suc k, p) \<and> k < 10 \<and> unat p = 10 ^ k \<and> 10 ^ k \<le> unat n \<and> unat n < 10 ^ Suc k"
proof -
  have "unat n < 2 ^ 32" using unsigned_less[of n] by simp
  with assms show ?thesis
    by (simp add: find_largest_pow10_def word_le_nat_alt)
qed

lemma unat_push_ucast:
  "unat (r :: u32) * 2 ^ s < 2 ^ 64 \<Longrightarrow> unat (push_bit s (ucast r :: u64)) = unat r * 2 ^ s"
proof -
  assume a: "unat r * 2 ^ s < 2 ^ 64"
  have "unat r < 2 ^ 32" using unsigned_less[of r] by simp
  then have u: "unat (ucast r :: u64) = unat r"
    by (simp only: unsigned_ucast_eq) (simp add: take_bit_nat_eq_self)
  show ?thesis using unat_push_small[of "ucast r" s] a unfolding u by blast
qed

lemma integral_digits_between:
  assumes "unat p1 < 10 ^ n" "n = 0 \<or> unat pow10 = 10 ^ (n - 1)"
    and "unat delta < unat p1 * 2 ^ s + unat p2" "(dec_val buf * 10 ^ n + unat p1) * 2 ^ s + unat p2 = t" "t < 2 ^ 64"
    and "digits_ok buf" "buf = [] \<longrightarrow> 0 < n \<and> 10 ^ (n - 1) \<le> unat p1"
  shows "case integral_digits n p1 pow10 p2 s delta dst buf of
      None \<Rightarrow> False
    | Some (Inl (b, i)) \<Rightarrow> \<exists>m. i = int m \<and> m < n \<and> digits_between b (10 ^ m * 2 ^ s) (unat delta) t
        \<and> length b + m = length buf + n
    | Some (Inr b) \<Rightarrow> digits_ok b \<and> b \<noteq> [] \<and> length b = length buf + n
        \<and> dec_val b * 2 ^ s + unat p2 = t \<and> unat delta < unat p2"
  using assms
proof (induction n p1 pow10 p2 s delta dst buf rule: integral_digits.induct)
  case (1 p1 pow10 p2 s delta dst buf)
  then show ?case by simp
next
  case (2 n p1 pow10 p2 s delta dst buf)
  define d r where dr: "d = p1 div pow10" "r = p1 mod pow10"
  have pow: "unat pow10 = 10 ^ n" using 2(3) by simp
  have d: "unat d = unat p1 div 10 ^ n" and r: "unat r = unat p1 mod 10 ^ n"
    by (simp_all add: dr unat_div unat_mod pow)
  have p1: "unat p1 = unat d * 10 ^ n + unat r" unfolding d r by (rule div_mult_mod_eq[symmetric])
  have d10: "unat d < 10" using 2(2) by (simp add: d less_mult_imp_div_less)
  have r10: "unat r < 10 ^ n" by (simp add: r)
  have first: "buf = [] \<longrightarrow> 0 < unat d" using 2(8) by (simp add: d div_greater_zero_iff)
  let ?b = "buf @ [digit_of_word d]" and ?rest = "push_bit s (ucast r) + p2"
  have b: "?b = buf @ [digit_char (unat d)]" using digit_of_word_char[OF d10] by simp
  have ok: "digits_ok ?b" using digits_ok_snoc[OF 2(7) d10] first unfolding b by (cases "buf = []") simp_all
  have rt: "unat r * 2 ^ s + unat p2 + unat d * 10 ^ n * 2 ^ s + dec_val buf * 10 ^ Suc n * 2 ^ s = t"
    using 2(5) by (simp add: p1 algebra_simps)
  then have "unat (push_bit s (ucast r :: u64)) = unat r * 2 ^ s" using 2(6) by (intro unat_push_ucast) simp
  then have rest: "unat ?rest = unat r * 2 ^ s + unat p2"
    using rt 2(6) unat_add_small[of "push_bit s (ucast r)" p2] by simp
  show ?case
  proof (cases "?rest \<le> delta")
    case True
    let ?ten = "push_bit s (ucast pow10) :: u64"
    have le: "unat ?rest \<le> unat delta" using True by (simp add: word_le_nat_alt)
    have lt: "unat delta < unat ?rest + unat d * (10 ^ n * 2 ^ s)" using 2(4) unfolding p1 rest by (simp add: algebra_simps)
    then have "0 < unat d" using le by (cases "unat d") simp_all
    then have "1 * (10 ^ n * 2 ^ s) \<le> unat d * (10 ^ n * 2 ^ s)" by (intro mult_le_mono1) simp
    also have "\<dots> \<le> t" unfolding rt[symmetric] by (simp add: mult.assoc)
    also note 2(6)
    finally have "unat pow10 * 2 ^ s < 2 ^ 64" unfolding pow by simp
    from unat_push_ucast[OF this] have ten: "unat ?ten = 10 ^ n * 2 ^ s" unfolding pow .
    have "dec_val buf * 10 * unat ?ten + unat d * unat ?ten + unat ?rest = t" using rt unfolding ten rest by (simp add: algebra_simps)
    from round_between[OF le _ d10 2(7) this, unfolded ten, OF lt, of dst] True
    show ?thesis unfolding b[symmetric] by (auto simp: dr Let_def)
  next
    case False
    have "n = 0 \<or> unat (pow10 div 10) = 10 ^ (n - 1)"
      by (cases n) (simp_all add: unat_div pow)
    moreover have "unat delta < unat r * 2 ^ s + unat p2" using False rest by (simp add: word_le_nat_alt)
    moreover have "(dec_val ?b * 10 ^ n + unat r) * 2 ^ s + unat p2 = t"
      using rt d10 unfolding b by (simp add: algebra_simps)
    ultimately have "case integral_digits n r (pow10 div 10) p2 s delta dst ?b of
      None \<Rightarrow> False
    | Some (Inl (b, i)) \<Rightarrow> \<exists>m. i = int m \<and> m < n \<and> digits_between b (10 ^ m * 2 ^ s) (unat delta) t
        \<and> length b + m = length ?b + n
    | Some (Inr b) \<Rightarrow> digits_ok b \<and> b \<noteq> [] \<and> length b = length ?b + n
        \<and> dec_val b * 2 ^ s + unat p2 = t \<and> unat delta < unat p2"
      using 2(1)[OF dr refl refl] False r10 2(6) ok by simp
    with False show ?thesis by (auto simp: dr Let_def split: option.splits sum.splits prod.splits)
  qed
qed

subsection \<open>The digits of the fractional part\<close>

lemma and_one_minus: "unat (w AND (push_bit s 1 - 1) :: u64) = unat w mod 2 ^ s"
proof -
  have "push_bit s 1 - 1 = (mask s :: u64)" by (simp add: mask_eq_exp_minus_1 push_bit_eq_mult)
  then have "w AND (push_bit s 1 - 1) = take_bit s w" by (simp only: take_bit_eq_mask)
  then show ?thesis by (simp only: unsigned_take_bit_eq) (simp add: take_bit_eq_mod)
qed

lemma unat_drop_div: "unat (drop_bit s w :: u64) = unat w div 2 ^ s"
  by (simp only: unat_drop_bit_eq) (simp add: drop_bit_eq_div)

lemma unat_one_push: "s < 64 \<Longrightarrow> unat (push_bit s 1 :: u64) = 2 ^ s"
  using unat_push_small[of 1 s] power_strict_increasing[of s 64 "2 :: nat"] by simp

lemma unat_times_ten: "unat (w :: u64) < 2 ^ 60 \<Longrightarrow> unat (w * 10) = unat w * 10"
  using unat_mult_small[of w 10] by simp

lemma fractional_digits_between:
  assumes "s \<le> 60" "unat p2 < 2 ^ s" "unat delta < unat p2" "0 < unat delta" "digits_ok buf" "buf \<noteq> []"
  shows "\<exists>b j. fractional_digits p2 (push_bit s 1) s delta dst m buf = Some (b, - (m + 1 + int j))
    \<and> digits_between b (2 ^ s) (unat delta * 10 ^ Suc j) ((dec_val buf * 2 ^ s + unat p2) * 10 ^ Suc j)
    \<and> length b = length buf + Suc j \<and> unat delta * 10 ^ j < 2 ^ s"
  using assms(2-)
proof (induction "2 ^ 64 - unat delta" arbitrary: p2 delta dst m buf rule: less_induct)
  case less
  have lim: "(2 :: nat) ^ s \<le> 2 ^ 60" using assms(1) by (intro power_increasing) simp_all
  have ten: "unat (p2 * 10) = unat p2 * 10" "unat (delta * 10) = unat delta * 10"
    using less(2,3) lim by (simp_all add: unat_times_ten)
  define d r where dr: "d = drop_bit s (p2 * 10)" "r = (p2 * 10) AND (push_bit s 1 - 1)"
  have d: "unat d = unat p2 * 10 div 2 ^ s" and r: "unat r = unat p2 * 10 mod 2 ^ s"
    by (simp_all only: dr unat_drop_div and_one_minus ten)
  have p2: "unat p2 * 10 = unat d * 2 ^ s + unat r" unfolding d r by (rule div_mult_mod_eq[symmetric])
  have d10: "unat d < 10" unfolding d using less(2) by (simp add: less_mult_imp_div_less)
  let ?b = "buf @ [digit_of_word d]"
  have b: "?b = buf @ [digit_char (unat d)]" using digit_of_word_char[OF d10] by simp
  have f: "fractional_digits p2 (push_bit s 1) s delta dst m buf =
      (if r \<le> delta * 10 then map_option (\<lambda>b. (b, - (m + 1))) (grisu2_round ?b (dst * 10) (delta * 10) r (push_bit s 1))
       else fractional_digits r (push_bit s 1) s (delta * 10) (dst * 10) (m + 1) ?b)"
    by (simp only: fractional_digits.simps[of p2] dr Let_def)
  show ?case
  proof (cases "r \<le> delta * 10")
    case True
    have one: "unat (push_bit s 1 :: u64) = 2 ^ s" by (rule unat_one_push) (use assms(1) in simp)
    have le: "unat r \<le> unat (delta * 10)" using True by (simp add: word_le_nat_alt)
    have lt: "unat (delta * 10) < unat r + unat d * unat (push_bit s 1 :: u64)"
      unfolding one ten using less(3) p2 by simp
    have "dec_val buf * 10 * unat (push_bit s 1 :: u64) + unat d * unat (push_bit s 1 :: u64) + unat r
        = (dec_val buf * 2 ^ s + unat p2) * 10" unfolding one using p2 by simp
    from round_between[OF le lt d10 less(5) this, of "dst * 10", unfolded one ten, folded b] obtain c where
      c: "grisu2_round ?b (dst * 10) (delta * 10) r (push_bit s 1) = Some c"
        "digits_between c (2 ^ s) (unat delta * 10) ((dec_val buf * 2 ^ s + unat p2) * 10)"
        "length c = Suc (length buf)" by blast
    have "fractional_digits p2 (push_bit s 1) s delta dst m buf = Some (c, - (m + 1 + int 0))"
      unfolding f using c(1) True by simp
    with c(2,3) less(2,3) show ?thesis by (intro exI[of _ c] exI[of _ 0]) simp
  next
    case False
    have rl: "unat (delta * 10) < unat r" using False by (simp add: word_le_nat_alt)
    have m: "2 ^ 64 - unat (delta * 10) < 2 ^ 64 - unat delta"
      using less(4) unat_u64_less[of "delta * 10"] unfolding ten by simp
    have rs: "unat r < 2 ^ s" unfolding r by simp
    have pos: "0 < unat (delta * 10)" unfolding ten using less(4) by simp
    have "digits_ok ?b" using digits_ok_snoc(2)[OF less(5) d10 less(6)] unfolding b .
    from less(1)[OF m rs rl pos this, of "dst * 10" "m + 1"] obtain c j where
      c: "fractional_digits r (push_bit s 1) s (delta * 10) (dst * 10) (m + 1) ?b = Some (c, - (m + 1 + 1 + int j))"
        "digits_between c (2 ^ s) (unat (delta * 10) * 10 ^ Suc j) ((dec_val ?b * 2 ^ s + unat r) * 10 ^ Suc j)"
        "length c = length ?b + Suc j" "unat (delta * 10) * 10 ^ j < 2 ^ s" by auto
    have v: "(dec_val ?b * 2 ^ s + unat r) * 10 ^ Suc j = (dec_val buf * 2 ^ s + unat p2) * 10 ^ Suc (Suc j)"
    proof -
      have "dec_val ?b * 2 ^ s + unat r = (dec_val buf * 2 ^ s + unat p2) * 10"
        using p2 d10 unfolding b by (simp add: distrib_right)
      then show ?thesis by (simp only: power_Suc mult.assoc)
    qed
    have "fractional_digits p2 (push_bit s 1) s delta dst m buf = Some (c, - (m + 1 + int (Suc j)))"
      unfolding f using c(1) False by simp
    with c(2-4) show ?thesis unfolding v ten
      by (intro exI[of _ c] exI[of _ "Suc j"]) (simp add: mult.assoc)
  qed
qed

subsection \<open>Digit generation\<close>

text \<open>The real the digits and the exponent stand for.\<close>

definition decimal_real :: "string \<Rightarrow> int \<Rightarrow> real" where
  "decimal_real buf e = real (dec_val buf) * 10 powi e"

lemma digits_between_reals:
  assumes "digits_between buf u d t"
  shows "real (dec_val buf) * real u \<le> real t" "real t - real d \<le> real (dec_val buf) * real u"
proof -
  have "real (dec_val buf * u) \<le> real t" "real t \<le> real (dec_val buf * u + d)"
    using assms by (simp_all only: digits_between_def of_nat_le_iff)
  then show "real (dec_val buf) * real u \<le> real t" "real t - real d \<le> real (dec_val buf) * real u" by simp_all
qed

lemma unat_small_ucast: "unat (w :: u64) < 2 ^ 32 \<Longrightarrow> unat (ucast w :: u32) = unat w"
  by (simp only: unsigned_ucast_eq) (simp add: take_bit_nat_eq_self)

definition shortest_digits :: "string \<Rightarrow> bool" where
  "shortest_digits buf \<longleftrightarrow> digits_ok buf \<and> buf \<noteq> [] \<and> last buf \<noteq> CHR ''0'' \<and> length buf \<le> 17"

lemma digit_gen_between:
  assumes "digit_window M_minus w M_plus"
  shows "\<exists>buf e. grisu2_digit_gen M_minus w M_plus = Some (buf, e) \<and> shortest_digits buf \<and> - 16 \<le> e \<and> e \<le> 9
    \<and> real (unat (df M_minus)) * 2 powi de M_plus \<le> decimal_real buf e
    \<and> decimal_real buf e \<le> real (unat (df M_plus)) * 2 powi de M_plus"
proof -
  define s where "s = nat (- de M_plus)"
  define M where "M = unat (df M_plus)"
  define delta where "delta = df (diyfp_sub M_plus M_minus)"
  define p1 p2 where p: "p1 = (ucast (drop_bit s (df M_plus)) :: u32)" "p2 = df M_plus AND (push_bit s 1 - 1)"
  note win = assms[unfolded digit_window_def, folded M_def]
  have s: "32 \<le> s" "s \<le> 60" "de M_plus = - int s" using win by (simp_all add: s_def le_nat_iff nat_le_iff)
  have M: "M < 2 ^ 64" unfolding M_def by (rule unat_u64_less)
  have m: "unat (df M_minus) + 765 \<le> M" using win by (elim conjE)
  then have "unat delta = M - unat (df M_minus)"
    using unat_sub_small[of "df M_minus" "df M_plus"] by (simp add: delta_def diyfp_sub_def mk_diyfp_def M_def)
  moreover have "765 \<le> M - unat (df M_minus)" using m by linarith
  moreover have "M < 10 ^ 16 * (M - unat (df M_minus))" using win by (elim conjE)
  ultimately have delta: "unat delta = M - unat (df M_minus)" "765 \<le> unat delta" "unat delta \<le> M"
      "M < 10 ^ 16 * unat delta"
    by (simp_all only: diff_le_self)
  have div: "M div 2 ^ s < 2 ^ 32"
  proof -
    have "(2 :: nat) ^ 32 * 2 ^ 32 \<le> 2 ^ 32 * 2 ^ s" using s by (intro mult_le_mono2 power_increasing) simp_all
    moreover have "M < 2 ^ 32 * 2 ^ 32" using M by simp
    ultimately have "M < 2 ^ 32 * 2 ^ s" by (rule less_le_trans[rotated])
    then show ?thesis by (simp add: less_mult_imp_div_less)
  qed
  have u1: "unat p1 = M div 2 ^ s" and u2: "unat p2 = M mod 2 ^ s"
    using unat_small_ucast[of "drop_bit s (df M_plus)"] div
    unfolding p unat_drop_div and_one_minus M_def by simp_all
  have t: "unat p1 * 2 ^ s + unat p2 = M" unfolding u1 u2 by (rule div_mult_mod_eq)
  have "(2 :: nat) ^ s \<le> 2 ^ 60" using s by (intro power_increasing) simp_all
  then have "2 ^ s \<le> M" using win by simp
  then have "0 < unat p1" unfolding u1 by (simp add: div_greater_zero_iff)
  from find_largest_pow10_bounds[OF this] obtain k q where
    k: "find_largest_pow10 p1 = (Suc k, q)" "k < 10" "unat q = 10 ^ k" "10 ^ k \<le> unat p1" "unat p1 < 10 ^ Suc k"
    by blast
  have gen: "grisu2_digit_gen M_minus w M_plus =
     (case integral_digits (Suc k) p1 q p2 s delta (df (diyfp_sub M_plus w)) [] of
           None \<Rightarrow> None
         | Some (Inl r) \<Rightarrow> Some r
         | Some (Inr buf) \<Rightarrow> fractional_digits p2 (push_bit s 1) s delta (df (diyfp_sub M_plus w)) 0 buf)"
    unfolding grisu2_digit_gen_def Let_def s_def[symmetric] delta_def[symmetric] p[symmetric] k(1) by simp
  have scale: "real X * 2 powi de M_plus = real X / 2 ^ s" for X by (simp add: s(3) power_int_minus field_simps)
  have "real (unat (df M_minus)) = real M - real (unat delta)" unfolding delta(1) using m by (simp add: of_nat_diff)
  then have low: "real (unat (df M_minus)) * 2 powi de M_plus = real M / 2 ^ s - real (unat delta) / 2 ^ s"
    by (simp only: scale[symmetric] left_diff_distrib)
  have pre: "unat delta < unat p1 * 2 ^ s + unat p2" unfolding t delta(1) using win by (elim conjE) simp
  have start: "Suc k = 0 \<or> unat q = 10 ^ (Suc k - 1)" "digits_ok []"
    "(dec_val [] * 10 ^ Suc k + unat p1) * 2 ^ s + unat p2 = M"
    "[] = [] \<longrightarrow> 0 < Suc k \<and> 10 ^ (Suc k - 1) \<le> unat p1"
    using k(3,4) t by (simp_all add: dec_val_def digits_ok_def all_digits_def)
  note int = integral_digits_between[OF k(5) start(1) pre start(3) M start(2,4), of "df (diyfp_sub M_plus w)"]
  have int: "case integral_digits (Suc k) p1 q p2 s delta (df (diyfp_sub M_plus w)) [] of
      None \<Rightarrow> False
    | Some (Inl (b, i)) \<Rightarrow> \<exists>m. i = int m \<and> m < Suc k \<and> digits_between b (10 ^ m * 2 ^ s) (unat delta) M
        \<and> length b + m = Suc k
    | Some (Inr b) \<Rightarrow> digits_ok b \<and> b \<noteq> [] \<and> length b = Suc k
        \<and> dec_val b * 2 ^ s + unat p2 = M \<and> unat delta < unat p2"
    using int by (simp only: list.size add_0_left)
  show ?thesis
  proof (cases "integral_digits (Suc k) p1 q p2 s delta (df (diyfp_sub M_plus w)) []")
    case None
    then show ?thesis using int by simp
  next
    case (Some r)
    show ?thesis
    proof (cases r)
      case (Inl bi)
      then obtain b m where b: "bi = (b, int m)" "m < Suc k" "digits_between b (10 ^ m * 2 ^ s) (unat delta) M"
          "length b + m = Suc k" using int Some by (cases bi) auto
      have "real (dec_val b) * 10 ^ m * 2 ^ s \<le> real M" "real M - real (unat delta) \<le> real (dec_val b) * 10 ^ m * 2 ^ s"
        using digits_between_reals[OF b(3)] by (simp_all add: mult.assoc)
      then have "real M / 2 ^ s - real (unat delta) / 2 ^ s \<le> decimal_real b (int m)"
        "decimal_real b (int m) \<le> real M / 2 ^ s"
        by (simp_all add: decimal_real_def field_simps)
      with b k(2) Some Inl show ?thesis unfolding gen low M_def[symmetric] scale[of M]
        by (intro exI[of _ b] exI[of _ "int m"]) (auto simp: shortest_digits_def digits_between_def simp del: integral_digits.simps)
    next
      case (Inr b)
      have b: "digits_ok b" "b \<noteq> []" "length b = Suc k" "dec_val b * 2 ^ s + unat p2 = M" "unat delta < unat p2"
        using int Some Inr by simp_all
      have "unat p2 < 2 ^ s" unfolding u2 by simp
      from fractional_digits_between[OF s(2) this b(5) _ b(1,2), of "df (diyfp_sub M_plus w)" 0] delta(2) obtain c j where
        c: "fractional_digits p2 (push_bit s 1) s delta (df (diyfp_sub M_plus w)) 0 b = Some (c, - (1 + int j))"
          "digits_between c (2 ^ s) (unat delta * 10 ^ Suc j) (M * 10 ^ Suc j)"
          "length c = Suc k + Suc j" "unat delta * 10 ^ j < 2 ^ s"
        unfolding b(3,4) by auto
      have len: "k + j < 16"
      proof -
        have "10 ^ (k + j) * unat delta = 10 ^ k * (unat delta * 10 ^ j)" by (simp add: power_add)
        also have "\<dots> \<le> 10 ^ k * 2 ^ s" using c(4) by (intro mult_le_mono2) simp
        also have "\<dots> \<le> unat p1 * 2 ^ s" using k(4) by (rule mult_le_mono1)
        also have "\<dots> \<le> M" using t by simp
        also note delta(4)
        finally have "(10 :: nat) ^ (k + j) < 10 ^ 16" by simp
        then show ?thesis by (rule power_less_imp_less_exp[rotated]) simp
      qed
      have "real (dec_val c) * 2 ^ s \<le> real M * 10 ^ Suc j"
        "real M * 10 ^ Suc j - real (unat delta) * 10 ^ Suc j \<le> real (dec_val c) * 2 ^ s"
        using digits_between_reals[OF c(2)] by simp_all
      then have "real M / 2 ^ s - real (unat delta) / 2 ^ s \<le> decimal_real c (- (1 + int j))"
        "decimal_real c (- (1 + int j)) \<le> real M / 2 ^ s"
        by (simp_all add: decimal_real_def power_int_diff power_int_minus field_simps)
      with b k(2) Some Inr c len show ?thesis unfolding gen low M_def[symmetric] scale[of M]
        by (intro exI[of _ c] exI[of _ "- (1 + int j)"])
          (auto simp: shortest_digits_def digits_between_def simp del: integral_digits.simps)
    qed
  qed
qed

text \<open>\<open>grisu2\<close>: the digits stand for a real that rounds to the double, whatever way ties are broken.\<close>

lemma grisu2_correct:
  assumes "positive_double d"
  shows "\<exists>buf e. grisu2 d = Some (buf, e) \<and> shortest_digits buf \<and> - 340 \<le> e \<and> e \<le> 309
    \<and> lower_boundary d < decimal_real buf e \<and> decimal_real buf e < upper_boundary d"
proof -
  obtain M_minus w M_plus ck where
    g: "grisu2 d = map_option (\<lambda>(buf, e). (buf, - ck + e)) (grisu2_digit_gen M_minus w M_plus)"
      "digit_window M_minus w M_plus" "- 300 \<le> ck" "ck \<le> 324"
      "lower_boundary d * 10 powi ck < real (unat (df M_minus)) * 2 powi de M_plus"
      "real (unat (df M_plus)) * 2 powi de M_plus < upper_boundary d * 10 powi ck"
    by (rule grisu2_window[OF assms])
  from digit_gen_between[OF g(2)] obtain buf e where
    b: "grisu2_digit_gen M_minus w M_plus = Some (buf, e)" "shortest_digits buf" "- 16 \<le> e" "e \<le> 9"
      "real (unat (df M_minus)) * 2 powi de M_plus \<le> decimal_real buf e"
      "decimal_real buf e \<le> real (unat (df M_plus)) * 2 powi de M_plus" by blast
  have s: "decimal_real buf e = decimal_real buf (- ck + e) * 10 powi ck"
    using power_int_add[of "10 :: real" "- ck + e" ck] by (simp add: decimal_real_def)
  have pos: "0 < (10 :: real) powi ck" by simp
  have "lower_boundary d * 10 powi ck < decimal_real buf (- ck + e) * 10 powi ck"
    "decimal_real buf (- ck + e) * 10 powi ck < upper_boundary d * 10 powi ck"
    using g(5,6) b(5,6) unfolding s by linarith+
  then have "lower_boundary d < decimal_real buf (- ck + e)" "decimal_real buf (- ck + e) < upper_boundary d"
    using pos by (simp_all only: mult_less_cancel_right_pos)
  with g(1,3,4) b(1-4) show ?thesis by (intro exI[of _ buf] exI[of _ "- ck + e"]) simp
qed
end
