(* ===== verification/Text_Printing.thy ===== *)
theory Text_Printing
  imports Text_Tokens
begin

section \<open>JSON text: what dump writes\<close>

text \<open>
  The text of a value, by recursion over the value, and the proof that \<open>serializer::dump\<close> of
  \<open>src/external/nlohmann/json.h\<close> writes exactly it: compact or indented, with either escaping, for every
  value whose strings are UTF-8. The indentation string is long enough as long as one step is at
  most 512 characters wide, because each level doubles it when it is too short.
\<close>

subsection \<open>The text of a value\<close>

text \<open>The string of 512 indentation characters grows by spaces.\<close>

definition indent_text :: "char \<Rightarrow> nat \<Rightarrow> string" where
  "indent_text ichar n = replicate (min n 512) ichar @ replicate (n - 512) CHR '' ''"

definition break_text :: "dump_config \<Rightarrow> char \<Rightarrow> nat \<Rightarrow> string" where
  "break_text cfg ichar n = (if pretty_print cfg then newline_char # indent_text ichar n else [])"

definition float_text :: "u64 \<Rightarrow> string" where
  "float_text d = (if is_finite d then (case to_chars d of None \<Rightarrow> [] | Some t \<Rightarrow> t) else ''null'')"

definition quoted :: "bool \<Rightarrow> string \<Rightarrow> string" where
  "quoted ascii s = CHR 0x22 # escaped_text ascii s @ [CHR 0x22]"

definition colon :: "dump_config \<Rightarrow> string" where
  "colon cfg = (if pretty_print cfg then '': '' else '':'')"

fun value_text :: "dump_config \<Rightarrow> char \<Rightarrow> nat \<Rightarrow> json \<Rightarrow> string"
  and elements_text :: "dump_config \<Rightarrow> char \<Rightarrow> nat \<Rightarrow> json list \<Rightarrow> string"
  and members_text :: "dump_config \<Rightarrow> char \<Rightarrow> nat \<Rightarrow> (string \<times> json) list \<Rightarrow> string" where
  "value_text cfg ichar cur (JObject m) =
     (if m = [] then ''{}''
      else ''{'' @ members_text cfg ichar (next_indent cfg cur) m @ break_text cfg ichar cur @ ''}'')"
| "value_text cfg ichar cur (JArray xs) =
     (if xs = [] then ''[]''
      else ''['' @ elements_text cfg ichar (next_indent cfg cur) xs @ break_text cfg ichar cur @ '']'')"
| "value_text cfg ichar cur (JString s) = quoted (ensure_ascii cfg) s"
| "value_text cfg ichar cur (JBoolean b) = (if b then ''true'' else ''false'')"
| "value_text cfg ichar cur (JInteger w) = dec_int (sint w)"
| "value_text cfg ichar cur (JUnsigned w) = dec_nat (unat w)"
| "value_text cfg ichar cur (JFloat d) = float_text d"
| "value_text cfg ichar cur JNull = ''null''"
| "elements_text cfg ichar new [] = []"
| "elements_text cfg ichar new (x # xs) =
     break_text cfg ichar new @ value_text cfg ichar new x
       @ (if xs = [] then [] else CHR '','' # elements_text cfg ichar new xs)"
| "members_text cfg ichar new [] = []"
| "members_text cfg ichar new ((k, x) # m) =
     break_text cfg ichar new @ quoted (ensure_ascii cfg) k @ colon cfg @ value_text cfg ichar new x
       @ (if m = [] then [] else CHR '','' # members_text cfg ichar new m)"

text \<open>The values with a text: every string and key is UTF-8, every float prints.\<close>

fun all_strings :: "(string \<Rightarrow> bool) \<Rightarrow> json \<Rightarrow> bool" where
  "all_strings P (JObject m) = list_all (\<lambda>(k, x). P k \<and> all_strings P x) m"
| "all_strings P (JArray xs) = list_all (all_strings P) xs"
| "all_strings P (JString s) = P s"
| "all_strings P j = True"

fun all_floats :: "(u64 \<Rightarrow> bool) \<Rightarrow> json \<Rightarrow> bool" where
  "all_floats P (JObject m) = list_all (\<lambda>(k, x). all_floats P x) m"
| "all_floats P (JArray xs) = list_all (all_floats P) xs"
| "all_floats P (JFloat d) = P d"
| "all_floats P j = True"

definition float_prints :: "u64 \<Rightarrow> bool" where
  "float_prints d \<longleftrightarrow> is_finite d \<longrightarrow> (\<exists>t. to_chars d = Some t \<and> length t \<le> 64)"

subsection \<open>The serializer between two pieces of text\<close>

definition sr_good :: "error_handler \<Rightarrow> char \<Rightarrow> nat \<Rightarrow> serializer \<Rightarrow> bool" where
  "sr_good h ichar cur sr \<longleftrightarrow>
     sr_handler sr = h \<and> length (sr_number sr) = 64 \<and> cur \<le> length (sr_indent sr)
     \<and> (\<exists>m. sr_indent sr = replicate 512 ichar @ replicate m CHR '' '')"

text \<open>\<open>sr1\<close> is \<open>sr\<close> after writing \<open>t\<close>; its indentation string has not become shorter.\<close>

definition wrote :: "error_handler \<Rightarrow> char \<Rightarrow> serializer \<Rightarrow> string \<Rightarrow> serializer \<Rightarrow> bool" where
  "wrote h ichar sr t sr1 \<longleftrightarrow>
     (\<forall>n. sr_good h ichar n sr \<longrightarrow> sr_good h ichar n sr1) \<and> sr_out sr1 = sr_out sr @ t"

lemma wrote_trans: "wrote h ichar sr t sr1 \<Longrightarrow> wrote h ichar sr1 u sr2 \<Longrightarrow> wrote h ichar sr (t @ u) sr2"
  by (simp add: wrote_def)

lemma wrote_good: "wrote h ichar sr t sr1 \<Longrightarrow> sr_good h ichar n sr \<Longrightarrow> sr_good h ichar n sr1"
  by (simp add: wrote_def)

lemma sr_good_write [simp]: "sr_good h ichar cur (write_characters s sr) = sr_good h ichar cur sr"
  by (simp add: sr_good_def write_characters_def)

lemma write_out [simp]: "sr_out (write_characters s sr) = sr_out sr @ s"
  by (simp add: write_characters_def)

lemma wrote_write [simp]: "wrote h ichar sr s (write_characters s sr)"
  by (simp add: wrote_def)

lemma take_indent:
  "n \<le> 512 + m \<Longrightarrow> take n (replicate 512 ichar @ replicate m CHR '' '' @ s) = indent_text ichar n"
  by (cases "n \<le> 512") (auto simp: indent_text_def)

lemma write_indent_good:
  assumes "sr_good h ichar cur sr"
  shows "write_indent cur sr = Inr (write_characters (indent_text ichar cur) sr)"
  using assms take_indent[of cur] by (auto simp: write_indent_def sr_good_def)

lemma next_indent_less: "indent_step cfg \<le> 512 \<Longrightarrow> next_indent cfg cur \<le> cur + 512"
  using mod_less_eq_dividend[of "cur + indent_step cfg" "2 ^ 32"]
  by (cases "pretty_print cfg") (simp_all add: next_indent_def)

lemma grow_indent_shape:
  assumes "sr_indent sr = replicate 512 ichar @ replicate m CHR '' ''"
  shows "\<exists>k. sr_indent (grow_indent n sr) = replicate 512 ichar @ replicate k CHR '' ''
    \<and> length (sr_indent sr) \<le> 512 + k \<and> (n \<le> 2 * length (sr_indent sr) \<longrightarrow> n \<le> 512 + k)"
proof (cases "length (sr_indent sr) < n")
  case True
  have "sr_indent (grow_indent n sr)
      = (replicate 512 ichar @ replicate m CHR '' '') @ replicate (512 + m) CHR '' ''"
    using True assms by (simp add: grow_indent_def)
  also have "\<dots> = replicate 512 ichar @ replicate (m + (512 + m)) CHR '' ''"
    by (simp only: replicate_add append_assoc)
  finally show ?thesis using assms by (intro exI[of _ "m + (512 + m)"]) simp
next
  case False
  then show ?thesis using assms by (intro exI[of _ m]) (simp add: grow_indent_def)
qed

lemma grow_indent_good:
  assumes "sr_good h ichar cur sr"
  shows "sr_good h ichar cur (grow_indent n sr)"
    and "n \<le> cur + 512 \<Longrightarrow> sr_good h ichar n (grow_indent n sr)"
proof -
  obtain m where m: "sr_indent sr = replicate 512 ichar @ replicate m CHR '' ''"
    using assms(1) by (auto simp: sr_good_def)
  obtain k where k: "sr_indent (grow_indent n sr) = replicate 512 ichar @ replicate k CHR '' ''"
    "length (sr_indent sr) \<le> 512 + k" "n \<le> 2 * length (sr_indent sr) \<longrightarrow> n \<le> 512 + k"
    using grow_indent_shape[OF m, of n] by blast
  have "length (sr_number (grow_indent n sr)) = 64 \<and> sr_handler (grow_indent n sr) = h"
    using assms(1) by (simp add: grow_indent_def sr_good_def)
  with k assms m show "sr_good h ichar cur (grow_indent n sr)"
    "n \<le> cur + 512 \<Longrightarrow> sr_good h ichar n (grow_indent n sr)" by (auto simp: sr_good_def)
qed

lemma grow_indent_out [simp]: "sr_out (grow_indent n sr) = sr_out sr"
  by (simp add: grow_indent_def)

subsection \<open>Scalars, brackets and indentation\<close>

definition break_char :: "dump_config \<Rightarrow> string" where
  "break_char cfg = (if pretty_print cfg then [newline_char] else [])"

lemma element_text_wrote:
  assumes "sr_good h ichar new sr" "sr_out sr = out @ break_char cfg"
  shows "\<exists>sr1. element_text cfg new sr = Inr sr1 \<and> sr_good h ichar new sr1
    \<and> sr_out sr1 = out @ break_text cfg ichar new \<and> (\<forall>n. sr_good h ichar n sr \<longrightarrow> sr_good h ichar n sr1)"
  using assms write_indent_good[OF assms(1)]
  by (simp add: element_text_def break_char_def break_text_def)

lemma open_text_good:
  assumes "sr_good h ichar cur sr" "indent_step cfg \<le> 512"
  shows "sr_good h ichar (next_indent cfg cur) (open_text cfg cur b sr)"
    and "sr_out (open_text cfg cur b sr) = (sr_out sr @ [b]) @ break_char cfg"
    and "sr_good h ichar n sr \<Longrightarrow> sr_good h ichar n (open_text cfg cur b sr)"
proof -
  have good: "sr_good h ichar cur (write_characters [b, newline_char] sr)" using assms(1) by simp
  show "sr_good h ichar (next_indent cfg cur) (open_text cfg cur b sr)"
    using grow_indent_good(2)[OF good next_indent_less[OF assms(2)]] assms(1)
    by (auto simp: open_text_def next_indent_def)
  show "sr_out (open_text cfg cur b sr) = (sr_out sr @ [b]) @ break_char cfg"
    by (simp add: open_text_def break_char_def)
  show "sr_good h ichar n sr \<Longrightarrow> sr_good h ichar n (open_text cfg cur b sr)"
    using grow_indent_good(1)[of h ichar n "write_characters [b, newline_char] sr"]
    by (simp add: open_text_def)
qed

lemma close_text_wrote:
  assumes "sr_good h ichar cur sr"
  shows "\<exists>sr1. close_text cfg cur b sr = Inr sr1 \<and> wrote h ichar sr (break_text cfg ichar cur @ [b]) sr1"
  using write_indent_good[of h ichar cur "write_characters [newline_char] sr"] assms
  by (simp add: close_text_def break_text_def wrote_def)

lemma separator_text_out [simp]:
  "sr_out (separator_text cfg sr) = (sr_out sr @ [CHR '','']) @ break_char cfg"
  "sr_good h ichar n (separator_text cfg sr) = sr_good h ichar n sr"
  by (simp_all add: separator_text_def break_char_def)

lemma key_text_wrote:
  assumes "utf8_ok k"
  shows "\<exists>sr1. key_text cfg k sr = Inr sr1 \<and> wrote h ichar sr (quoted (ensure_ascii cfg) k @ colon cfg) sr1"
  by (auto simp: key_text_def dump_escaped_utf8[OF assms] wrote_def quoted_def colon_def)

lemma dump_number_wrote:
  "length (sr_number sr) = 64 \<Longrightarrow> wrote h ichar sr (dec_int (sint w)) (dump_integer w sr)"
  "length (sr_number sr) = 64 \<Longrightarrow> wrote h ichar sr (dec_nat (unat w)) (dump_unsigned w sr)"
  using dump_integer_text[of sr w] dump_unsigned_text[of sr w] by (simp_all add: wrote_def sr_good_def)

lemma dump_float_wrote:
  assumes "float_prints d"
  shows "\<exists>sr1. dump_float d sr = Inr sr1 \<and> wrote h ichar sr (float_text d) sr1"
proof (cases "is_finite d")
  case False
  then show ?thesis by (auto simp: dump_float_def float_text_def wrote_def)
next
  case True
  then obtain t where "to_chars d = Some t" "length t \<le> 64" using assms by (auto simp: float_prints_def)
  then show ?thesis
    using True by (auto simp: dump_float_def float_text_def wrote_def sr_good_def write_characters_def)
qed

subsection \<open>The serializer writes the text of a value\<close>

lemma dump_text:
  "indent_step cfg \<le> 512 \<Longrightarrow> all_strings utf8_ok j \<Longrightarrow> all_floats float_prints j \<Longrightarrow> sr_good h ichar cur sr \<Longrightarrow>
     \<exists>sr1. dump_value cfg cur j sr = Inr sr1 \<and> wrote h ichar sr (value_text cfg ichar cur j) sr1"
  "indent_step cfg \<le> 512 \<Longrightarrow> list_all (all_strings utf8_ok) xs \<Longrightarrow> list_all (all_floats float_prints) xs \<Longrightarrow>
     sr_good h ichar new sr \<Longrightarrow> sr_out sr = out @ break_char cfg \<Longrightarrow> xs \<noteq> [] \<Longrightarrow>
     \<exists>sr1. dump_elements cfg new xs sr = Inr sr1 \<and> sr_out sr1 = out @ elements_text cfg ichar new xs
       \<and> (\<forall>n. sr_good h ichar n sr \<longrightarrow> sr_good h ichar n sr1)"
  "indent_step cfg \<le> 512 \<Longrightarrow> list_all (\<lambda>(k, x). utf8_ok k \<and> all_strings utf8_ok x) m \<Longrightarrow>
     list_all (\<lambda>(k, x). all_floats float_prints x) m \<Longrightarrow>
     sr_good h ichar new sr \<Longrightarrow> sr_out sr = out @ break_char cfg \<Longrightarrow> m \<noteq> [] \<Longrightarrow>
     \<exists>sr1. dump_members cfg new m sr = Inr sr1 \<and> sr_out sr1 = out @ members_text cfg ichar new m
       \<and> (\<forall>n. sr_good h ichar n sr \<longrightarrow> sr_good h ichar n sr1)"
proof (induction cfg cur j sr and cfg new xs sr and cfg new m sr arbitrary: and out and out
    rule: dump_value_dump_elements_dump_members.induct)
  case (1 cfg cur m sr)
  show ?case
  proof (cases "m = []")
    case False
    note op = open_text_good[OF 1(5) 1(2), where b = "CHR ''{''"]
    from 1(1)[OF False 1(2) _ _ op(1) op(2) False] 1(3,4) obtain sr1 where sr1:
      "dump_members cfg (next_indent cfg cur) m (open_text cfg cur CHR ''{'' sr) = Inr sr1"
      "sr_out sr1 = (sr_out sr @ ''{'') @ members_text cfg ichar (next_indent cfg cur) m"
      "\<forall>n. sr_good h ichar n (open_text cfg cur CHR ''{'' sr) \<longrightarrow> sr_good h ichar n sr1" by auto
    have keeps: "sr_good h ichar n sr \<Longrightarrow> sr_good h ichar n sr1" for n
      using sr1(3) open_text_good(3)[OF 1(5) 1(2)] by blast
    from close_text_wrote[OF keeps[OF 1(5)], of cfg "CHR ''}''"] sr1 keeps False show ?thesis
      by (auto simp: wrote_def)
  qed simp
next
  case (2 cfg cur xs sr)
  show ?case
  proof (cases "xs = []")
    case False
    note op = open_text_good[OF 2(5) 2(2), where b = "CHR ''[''"]
    from 2(1)[OF False 2(2) _ _ op(1) op(2) False] 2(3,4) obtain sr1 where sr1:
      "dump_elements cfg (next_indent cfg cur) xs (open_text cfg cur CHR ''['' sr) = Inr sr1"
      "sr_out sr1 = (sr_out sr @ ''['') @ elements_text cfg ichar (next_indent cfg cur) xs"
      "\<forall>n. sr_good h ichar n (open_text cfg cur CHR ''['' sr) \<longrightarrow> sr_good h ichar n sr1" by auto
    have keeps: "sr_good h ichar n sr \<Longrightarrow> sr_good h ichar n sr1" for n
      using sr1(3) open_text_good(3)[OF 2(5) 2(2)] by blast
    from close_text_wrote[OF keeps[OF 2(5)], of cfg "CHR '']''"] sr1 keeps False show ?thesis
      by (auto simp: wrote_def)
  qed simp
next
  case (3 cfg cur s sr)
  then show ?case by (auto simp: dump_escaped_utf8 wrote_def quoted_def)
next
  case (5 cfg cur w sr)
  then show ?case using dump_number_wrote(1)[of sr h ichar w] by (simp add: sr_good_def)
next
  case (6 cfg cur w sr)
  then show ?case using dump_number_wrote(2)[of sr h ichar w] by (simp add: sr_good_def)
next
  case (7 cfg cur d sr)
  then show ?case using dump_float_wrote by simp
next
  case (10 cfg new x xs sr)
  from element_text_wrote[OF 10(6,7)] obtain sr1 where sr1: "element_text cfg new sr = Inr sr1"
    "sr_good h ichar new sr1" "sr_out sr1 = out @ break_text cfg ichar new"
    "\<forall>n. sr_good h ichar n sr \<longrightarrow> sr_good h ichar n sr1" by blast
  from 10(1)[OF sr1(1) 10(3) _ _ sr1(2)] 10(4,5) obtain sr2 where sr2: "dump_value cfg new x sr1 = Inr sr2"
    "wrote h ichar sr1 (value_text cfg ichar new x) sr2" by auto
  have good2: "sr_good h ichar n sr \<Longrightarrow> sr_good h ichar n sr2" for n using sr1(4) sr2(2) by (simp add: wrote_def)
  show ?case
  proof (cases "xs = []")
    case True
    then show ?thesis using sr1 sr2 good2 by (simp add: wrote_def)
  next
    case False
    have "and_then (element_text cfg new sr) (dump_value cfg new x) = Inr sr2" by (simp add: sr1 sr2)
    from 10(2)[OF this False 10(3) _ _ _ _ False, of "sr_out sr2 @ '',''"] 10(4,5) good2[OF 10(6)]
    obtain sr3 where "dump_elements cfg new xs (separator_text cfg sr2) = Inr sr3"
      "sr_out sr3 = (sr_out sr2 @ '','') @ elements_text cfg ichar new xs"
      "\<forall>n. sr_good h ichar n sr2 \<longrightarrow> sr_good h ichar n sr3" by auto
    then show ?thesis using sr1 sr2 good2 False by (simp add: wrote_def)
  qed
next
  case (12 cfg new k x m sr)
  from element_text_wrote[OF 12(6,7)] obtain sr1 where sr1: "element_text cfg new sr = Inr sr1"
    "sr_good h ichar new sr1" "sr_out sr1 = out @ break_text cfg ichar new"
    "\<forall>n. sr_good h ichar n sr \<longrightarrow> sr_good h ichar n sr1" by blast
  have k: "utf8_ok k" using 12(4) by simp
  from key_text_wrote[OF k, of cfg sr1 h ichar] obtain sr1' where key: "key_text cfg k sr1 = Inr sr1'"
    "wrote h ichar sr1 (quoted (ensure_ascii cfg) k @ colon cfg) sr1'" by blast
  from 12(1)[OF _ 12(3) _ _ wrote_good[OF key(2) sr1(2)]] sr1(1) key(1) 12(4,5) obtain sr2 where
    sr2: "dump_value cfg new x sr1' = Inr sr2" "wrote h ichar sr1' (value_text cfg ichar new x) sr2" by auto
  have good2: "sr_good h ichar n sr \<Longrightarrow> sr_good h ichar n sr2" for n
    using sr1(4) key(2) sr2(2) by (simp add: wrote_def)
  show ?case
  proof (cases "m = []")
    case True
    then show ?thesis using sr1 key sr2 good2 by (simp add: wrote_def)
  next
    case False
    have "and_then (and_then (element_text cfg new sr) (key_text cfg k)) (dump_value cfg new x) = Inr sr2"
      by (simp add: sr1 key sr2)
    from 12(2)[OF this False 12(3) _ _ _ _ False, of "sr_out sr2 @ '',''"] 12(4,5) good2[OF 12(6)]
    obtain sr3 where "dump_members cfg new m (separator_text cfg sr2) = Inr sr3"
      "sr_out sr3 = (sr_out sr2 @ '','') @ members_text cfg ichar new m"
      "\<forall>n. sr_good h ichar n sr2 \<longrightarrow> sr_good h ichar n sr3" by auto
    then show ?thesis using sr1 key sr2 good2 False by (simp add: wrote_def)
  qed
qed (auto simp: wrote_def)


lemma new_serializer_good: "sr_good handler ichar 0 (new_serializer ichar handler)" "sr_out (new_serializer ichar handler) = []"
  by (simp_all add: sr_good_def new_serializer_def exI[of _ 0])

definition dump_configuration :: "int \<Rightarrow> bool \<Rightarrow> dump_config" where
  "dump_configuration indent ascii =
     \<lparr>pretty_print = indent \<ge> 0, ensure_ascii = ascii, indent_step = (if indent \<ge> 0 then nat indent else 0)\<rparr>"

lemma json_dump_text:
  assumes "indent \<le> 512" "all_strings utf8_ok j" "all_floats float_prints j"
  shows "json_dump indent ichar ascii handler j = Inr (value_text (dump_configuration indent ascii) ichar 0 j)"
proof -
  have "indent_step (dump_configuration indent ascii) \<le> 512" using assms(1) by (simp add: dump_configuration_def nat_le_iff)
  from dump_text(1)[OF this assms(2,3) new_serializer_good(1)[of handler ichar]]
  show ?thesis by (auto simp: json_dump_def dump_configuration_def wrote_def new_serializer_good(2))
qed

subsection \<open>Values that are not UTF-8\<close>

definition throws_316 :: "dump_error + 'a \<Rightarrow> bool" where
  "throws_316 r \<longleftrightarrow> (\<exists>w. r = Inl (Dump_Throws (Type_Error 316 w)))"

lemma throws_316_simps [simp]:
  "throws_316 (Inl (Dump_Throws (Type_Error 316 w)))" "\<not> throws_316 (Inr x)"
  by (simp_all add: throws_316_def)

lemma throws_then [intro]: "throws_316 r \<Longrightarrow> throws_316 (and_then r f)"
  by (auto simp: throws_316_def)

lemma escaped_throws: "\<not> utf8_ok s \<Longrightarrow> sr_good Handler_strict ichar n sr \<Longrightarrow> throws_316 (dump_escaped ens s sr)"
  using dump_escaped_strict[of sr s ens] by (auto simp: throws_316_def sr_good_def)

lemma key_throws:
  "\<not> utf8_ok k \<Longrightarrow> sr_good Handler_strict ichar n sr \<Longrightarrow> throws_316 (key_text cfg k sr)"
  unfolding key_text_def by (intro throws_then escaped_throws) auto

lemma open_text_strict:
  "sr_good h ichar cur sr \<Longrightarrow> indent_step cfg \<le> 512 \<Longrightarrow>
     \<exists>out. sr_good h ichar (next_indent cfg cur) (open_text cfg cur b sr)
       \<and> sr_out (open_text cfg cur b sr) = out @ break_char cfg"
  using open_text_good(1,2) by blast

text \<open>The member of a list that is not UTF-8 is reached: what stands before it is written.\<close>

lemma member_throws:
  assumes "throws_316 (dump_value cfg new x sr1)" "element_text cfg new sr = Inr sr1"
  shows "throws_316 (dump_elements cfg new (x # xs) sr)"
  using assms by (auto simp: throws_316_def)

lemma dump_throws:
  "indent_step cfg \<le> 512 \<Longrightarrow> \<not> all_strings utf8_ok j \<Longrightarrow> all_floats float_prints j \<Longrightarrow>
     sr_good Handler_strict ichar cur sr \<Longrightarrow> throws_316 (dump_value cfg cur j sr)"
  "indent_step cfg \<le> 512 \<Longrightarrow> \<not> list_all (all_strings utf8_ok) xs \<Longrightarrow> list_all (all_floats float_prints) xs \<Longrightarrow>
     sr_good Handler_strict ichar new sr \<Longrightarrow> sr_out sr = out @ break_char cfg \<Longrightarrow>
     throws_316 (dump_elements cfg new xs sr)"
  "indent_step cfg \<le> 512 \<Longrightarrow> \<not> list_all (\<lambda>(k, x). utf8_ok k \<and> all_strings utf8_ok x) m \<Longrightarrow>
     list_all (\<lambda>(k, x). all_floats float_prints x) m \<Longrightarrow>
     sr_good Handler_strict ichar new sr \<Longrightarrow> sr_out sr = out @ break_char cfg \<Longrightarrow>
     throws_316 (dump_members cfg new m sr)"
proof (induction cfg cur j sr and cfg new xs sr and cfg new m sr arbitrary: and out and out
    rule: dump_value_dump_elements_dump_members.induct)
  case (1 cfg cur m sr)
  then have ne: "m \<noteq> []" by auto
  from open_text_strict[OF 1(5,2), of "CHR ''{''"] 1(1)[OF ne 1(2)] 1(3,4) ne show ?case by auto
next
  case (2 cfg cur xs sr)
  then have ne: "xs \<noteq> []" by auto
  from open_text_strict[OF 2(5,2), of "CHR ''[''"] 2(1)[OF ne 2(2)] 2(3,4) ne show ?case by auto
next
  case (3 cfg cur s sr)
  then show ?case by (auto intro!: escaped_throws)
next
  case (10 cfg new x xs sr)
  from element_text_wrote[OF 10(6,7)] obtain sr1 where sr1: "element_text cfg new sr = Inr sr1"
    "sr_good Handler_strict ichar new sr1" by blast
  show ?case
  proof (cases "all_strings utf8_ok x")
    case False
    with 10(1)[OF sr1(1) 10(3) _ _ sr1(2)] 10(5) sr1(1) show ?thesis by (auto intro: member_throws)
  next
    case True
    with dump_text(1)[OF 10(3) _ _ sr1(2)] 10(5) obtain sr2 where sr2: "dump_value cfg new x sr1 = Inr sr2"
      "wrote Handler_strict ichar sr1 (value_text cfg ichar new x) sr2" by auto
    have ne: "xs \<noteq> []" using 10(4) True by auto
    have r: "and_then (element_text cfg new sr) (dump_value cfg new x) = Inr sr2" by (simp add: sr1 sr2)
    from 10(2)[OF r ne 10(3), of "sr_out sr2 @ '',''"] True 10(4,5) wrote_good[OF sr2(2) sr1(2)]
    show ?thesis by (simp add: ne sr1 sr2)
  qed
next
  case (12 cfg new k x m sr)
  from element_text_wrote[OF 12(6,7)] obtain sr1 where sr1: "element_text cfg new sr = Inr sr1"
    "sr_good Handler_strict ichar new sr1" by blast
  show ?case
  proof (cases "utf8_ok k")
    case False
    have "throws_316 (and_then (and_then (and_then (element_text cfg new sr) (key_text cfg k)) f) g)" for f g
      using key_throws[OF False sr1(2)] by (auto simp: sr1(1))
    then show ?thesis by simp
  next
    case k: True
    from key_text_wrote[OF k, of cfg sr1 Handler_strict ichar] obtain sr1' where key:
      "key_text cfg k sr1 = Inr sr1'" "wrote Handler_strict ichar sr1 (quoted (ensure_ascii cfg) k @ colon cfg) sr1'"
      by blast
    note good1 = wrote_good[OF key(2) sr1(2)]
    show ?thesis
    proof (cases "all_strings utf8_ok x")
      case False
      with 12(1)[OF _ 12(3) _ _ good1] sr1(1) key(1) 12(5) show ?thesis by auto
    next
      case True
      with dump_text(1)[OF 12(3) _ _ good1] 12(5) obtain sr2 where sr2: "dump_value cfg new x sr1' = Inr sr2"
        "wrote Handler_strict ichar sr1' (value_text cfg ichar new x) sr2" by auto
      have ne: "m \<noteq> []" using 12(4) True k by auto
      have r: "and_then (and_then (element_text cfg new sr) (key_text cfg k)) (dump_value cfg new x) = Inr sr2"
        by (simp add: sr1 key sr2)
      from 12(2)[OF r ne 12(3), of "sr_out sr2 @ '',''"] True k 12(4,5) wrote_good[OF sr2(2) good1]
      show ?thesis by (simp add: ne sr1 key sr2)
    qed
  qed
qed auto

lemma json_dump_throws:
  assumes "indent \<le> 512" "\<not> all_strings utf8_ok j" "all_floats float_prints j"
  shows "throws_316 (json_dump indent ichar ascii Handler_strict j)"
proof -
  have "indent_step (dump_configuration indent ascii) \<le> 512"
    using assms(1) by (simp add: dump_configuration_def nat_le_iff)
  from dump_throws(1)[OF this assms(2,3) new_serializer_good(1)[of Handler_strict ichar]]
  show ?thesis by (auto simp: json_dump_def dump_configuration_def throws_316_def)
qed
end
