(* ===== verification/Text_Round_Trip.thy ===== *)
theory Text_Round_Trip
  imports Text_Printing
begin

section \<open>JSON text: dump and parse\<close>

text \<open>
  \<open>json::parse\<close> on the text of \<open>json::dump\<close> (\<open>src/external/nlohmann/json.h\<close>): the same value comes
  back, an integer that is not negative as an unsigned one and a float that is not finite as null.
\<close>

fun read_back :: "json \<Rightarrow> json" where
  "read_back (JObject m) = JObject (map (\<lambda>(k, x). (k, read_back x)) m)"
| "read_back (JArray xs) = JArray (map read_back xs)"
| "read_back (JInteger w) = (if sint w \<ge> 0 then JUnsigned w else JInteger w)"
| "read_back (JFloat d) = (if is_finite d then JFloat d else JNull)"
| "read_back j = j"

text \<open>Every object of the value is in order.\<close>

fun ordered :: "json \<Rightarrow> bool" where
  "ordered (JObject m) \<longleftrightarrow> omap_ok m \<and> list_all (\<lambda>(k, x). ordered x) m"
| "ordered (JArray xs) \<longleftrightarrow> list_all ordered xs"
| "ordered j \<longleftrightarrow> True"

text \<open>A float whose text the scanner takes as a float and \<open>strtod\<close> reads back.\<close>

definition float_returns :: "(string \<Rightarrow> u64) \<Rightarrow> char \<Rightarrow> u64 \<Rightarrow> bool" where
  "float_returns strtod point d \<longleftrightarrow> is_finite d \<longrightarrow>
     (\<exists>t. to_chars d = Some t \<and> number_reads t T_value_float \<and> strtod (localized point t) = d)"

lemma get_token_at:
  "token_at strtod point (m_lexer p) t s lx1 \<Longrightarrow>
     last_token (get_token strtod p) = t \<and> m_lexer (get_token strtod p) = lx1 \<and> text_at point lx1 s"
  by (simp add: token_at_def get_token_def)

lemma number_ends_simps [simp]:
  "number_ends []" "number_ends (CHR '','' # s)" "number_ends (CHR '']'' # s)" "number_ends (CHR ''}'' # s)"
  by (simp_all add: number_ends_def is_digit_def)

lemma number_ends_white: "white w \<Longrightarrow> number_ends s \<Longrightarrow> number_ends (w @ s)"
  by (cases w) (auto simp: white_def number_ends_def is_whitespace_def is_digit_def)

lemma rd_scalar:
  assumes "scan strtod (m_lexer p) = (t, lx1)"
  shows "t = T_literal_null \<Longrightarrow> rd_value strtod (get_token strtod p) = Inr (JNull, get_token strtod p)"
    "t = T_literal_true \<Longrightarrow> rd_value strtod (get_token strtod p) = Inr (JBoolean True, get_token strtod p)"
    "t = T_literal_false \<Longrightarrow> rd_value strtod (get_token strtod p) = Inr (JBoolean False, get_token strtod p)"
    "t = T_value_string \<Longrightarrow> rd_value strtod (get_token strtod p) = Inr (JString (lx_buffer lx1), get_token strtod p)"
    "t = T_value_integer \<Longrightarrow> rd_value strtod (get_token strtod p) = Inr (JInteger (lx_integer lx1), get_token strtod p)"
    "t = T_value_unsigned \<Longrightarrow> rd_value strtod (get_token strtod p) = Inr (JUnsigned (lx_unsigned lx1), get_token strtod p)"
    "t = T_value_float \<Longrightarrow> is_finite (lx_float lx1) \<Longrightarrow>
       rd_value strtod (get_token strtod p) = Inr (JFloat (lx_float lx1), get_token strtod p)"
    "m_lexer (get_token strtod p) = lx1"
  using assms by (simp_all add: get_token_def rd_value.simps)

lemma rd_elements_first: "rd_elements strtod xs p = Inr r \<Longrightarrow> last_token p \<noteq> T_end_array"
  by (auto simp: rd_elements.simps[of strtod xs p] rd_value.simps[of strtod p])

lemma rd_members_first: "rd_members strtod m p = Inr r \<Longrightarrow> last_token p \<noteq> T_end_object"
  by (auto simp: rd_members.simps[of strtod m p] Let_def split: if_splits)

text \<open>The parser has read a value whose text was in front of it.\<close>

definition reads_value ::
    "(string \<Rightarrow> u64) \<Rightarrow> char \<Rightarrow> json descent \<Rightarrow> json \<Rightarrow> string \<Rightarrow> bool" where
  "reads_value strtod point r v s \<longleftrightarrow> (\<exists>p1. r = Inr (v, p1) \<and> text_at point (m_lexer p1) s)"

lemma reads_number:
  assumes "text_at point (m_lexer p) (w @ u @ s)" "white w" "number_reads u t" "number_ends s"
  shows "\<exists>t1 lx1. scan strtod (m_lexer p) = (t1, lx1) \<and> text_at point lx1 s
    \<and> number_value strtod t (localized point u) (t1, lx1)"
  using token_number[OF assms, of strtod] by (auto simp: token_at_def)

lemma reads_unsigned:
  assumes "text_at point (m_lexer p) (w @ dec_nat (unat x) @ s)" "white w" "number_ends s"
  shows "reads_value strtod point (rd_value strtod (get_token strtod p)) (JUnsigned (x :: u64)) s"
proof -
  from reads_number[OF assms(1,2) number_reads_nat assms(3), of strtod] obtain t1 lx1 where
    r: "scan strtod (m_lexer p) = (t1, lx1)" "text_at point lx1 s"
      "number_value strtod T_value_unsigned (dec_nat (unat x)) (t1, lx1)"
    by (auto simp: localized_dec)
  have "unat x < 2 ^ 64" using unsigned_less[of x] by simp
  with r(3) have "t1 = T_value_unsigned" "lx_unsigned lx1 = x" by (simp_all add: number_value_def)
  with r rd_scalar[OF r(1)] show ?thesis by (simp add: reads_value_def)
qed

lemma reads_negative:
  assumes "text_at point (m_lexer p) (w @ dec_int (sint x) @ s)" "white w" "number_ends s" "sint x < 0"
  shows "reads_value strtod point (rd_value strtod (get_token strtod p)) (JInteger (x :: u64)) s"
proof -
  let ?n = "nat (- sint x)"
  have n: "dec_int (sint x) = CHR ''-'' # dec_nat ?n" "0 < ?n" using assms(4) by (simp_all add: dec_int_def)
  from reads_number[OF assms(1)[unfolded n(1)] assms(2) number_reads_negative[OF n(2)] assms(3), of strtod] obtain t1 lx1 where
    r: "scan strtod (m_lexer p) = (t1, lx1)" "text_at point lx1 s"
      "number_value strtod T_value_integer (CHR ''-'' # dec_nat ?n) (t1, lx1)"
    by (auto simp: localized_dec)
  have "- (2 ^ 63) \<le> sint x" using sint_greater_eq[of x] by simp
  then have "?n \<le> 2 ^ 63" by simp
  with r(3) n(2) have "t1 = T_value_integer" "lx_integer lx1 = x" by (simp_all add: number_value_def)
  with r rd_scalar[OF r(1)] show ?thesis by (simp add: reads_value_def)
qed

lemma reads_literal:
  assumes "(u, v, t) \<in> set [(''true'', JBoolean True, T_literal_true), (''false'', JBoolean False, T_literal_false),
      (''null'', JNull, T_literal_null)]"
    and "text_at point (m_lexer p) (w @ u @ s)" "white w"
  shows "reads_value strtod point (rd_value strtod (get_token strtod p)) v s"
proof -
  have "(u, t) \<in> set [(''true'', T_literal_true), (''false'', T_literal_false), (''null'', T_literal_null)]"
    using assms(1) by auto
  from token_literal[OF this assms(2,3), of strtod] obtain lx1 where
    r: "scan strtod (m_lexer p) = (t, lx1)" "text_at point lx1 s" by (auto simp: token_at_def)
  with rd_scalar[OF r(1)] assms(1) show ?thesis by (auto simp: reads_value_def)
qed

lemma reads_string:
  assumes "text_at point (m_lexer p) (w @ quoted ascii u @ s)" "white w" "utf8_ok u"
  shows "\<exists>lx1. scan strtod (m_lexer p) = (T_value_string, lx1) \<and> text_at point lx1 s \<and> lx_buffer lx1 = u"
  using token_string[OF _ assms(2,3), of point "m_lexer p" ascii s] assms(1)
  by (fastforce simp: quoted_def token_at_def)

lemma reads_float:
  assumes "text_at point (m_lexer p) (w @ float_text d @ s)" "white w" "number_ends s"
    "float_returns strtod point d"
  shows "reads_value strtod point (rd_value strtod (get_token strtod p)) (if is_finite d then JFloat d else JNull) s"
proof (cases "is_finite d")
  case False
  then show ?thesis using reads_literal[of "''null''" JNull T_literal_null point p w s strtod] assms(1,2)
    by (simp add: float_text_def)
next
  case True
  with assms(4) obtain t where t: "to_chars d = Some t" "number_reads t T_value_float" "strtod (localized point t) = d"
    by (auto simp: float_returns_def)
  from reads_number[OF _ assms(2) t(2) assms(3), of point p strtod] assms(1) True t(1) obtain t1 lx1 where
    r: "scan strtod (m_lexer p) = (t1, lx1)" "text_at point lx1 s"
      "number_value strtod T_value_float (localized point t) (t1, lx1)"
    by (auto simp: float_text_def)
  then have "t1 = T_value_float" "lx_float lx1 = d" by (simp_all add: number_value_def t(3))
  with r rd_scalar[OF r(1)] True show ?thesis by (simp add: reads_value_def)
qed

subsection \<open>Values, elements and members\<close>

lemma get_token_mark:
  assumes "(c, t) \<in> set [(CHR ''['', T_begin_array), (CHR '']'', T_end_array), (CHR ''{'', T_begin_object),
      (CHR ''}'', T_end_object), (CHR '':'', T_name_separator), (CHR '','', T_value_separator)]"
    and "text_at point (m_lexer p) (w @ c # s)" "white w"
  shows "last_token (get_token strtod p) = t" "text_at point (m_lexer (get_token strtod p)) s"
  using token_punctuation[OF assms, of strtod] get_token_at by blast+

definition blank_indent :: "dump_config \<Rightarrow> char \<Rightarrow> bool" where
  "blank_indent cfg ichar \<longleftrightarrow> is_whitespace (Some ichar) \<or> \<not> pretty_print cfg"

lemma white_break: "blank_indent cfg ichar \<Longrightarrow> white (break_text cfg ichar n)"
  by (auto simp: blank_indent_def white_def break_text_def indent_text_def is_whitespace_def list_all_def)

lemma white_space: "white '' ''"
  by (simp add: white_def is_whitespace_def)

lemma value_read_back:
  shows "blank_indent cfg ichar \<Longrightarrow> ordered j \<Longrightarrow> all_strings utf8_ok j \<Longrightarrow> all_floats (float_returns strtod point) j \<Longrightarrow>
      text_at point (m_lexer p) (w @ value_text cfg ichar cur j @ s) \<Longrightarrow> white w \<Longrightarrow> number_ends s \<Longrightarrow>
      reads_value strtod point (rd_value strtod (get_token strtod p)) (read_back j) s"
    and "blank_indent cfg ichar \<Longrightarrow> list_all ordered xs \<Longrightarrow> list_all (all_strings utf8_ok) xs \<Longrightarrow>
      list_all (all_floats (float_returns strtod point)) xs \<Longrightarrow> xs \<noteq> [] \<Longrightarrow>
      text_at point (m_lexer p) (elements_text cfg ichar new xs @ w @ CHR '']'' # s) \<Longrightarrow> white w \<Longrightarrow>
      reads_value strtod point (rd_elements strtod ys (get_token strtod p)) (JArray (ys @ map read_back xs)) s"
    and "blank_indent cfg ichar \<Longrightarrow> list_all (\<lambda>(k, x). ordered x) m \<Longrightarrow> list_all (\<lambda>(k, x). utf8_ok k \<and> all_strings utf8_ok x) m \<Longrightarrow>
      list_all (\<lambda>(k, x). all_floats (float_returns strtod point) x) m \<Longrightarrow> m \<noteq> [] \<Longrightarrow>
      omap_ok (m0 @ map (\<lambda>(k, x). (k, read_back x)) m) \<Longrightarrow>
      text_at point (m_lexer p) (members_text cfg ichar new m @ w @ CHR ''}'' # s) \<Longrightarrow> white w \<Longrightarrow>
      reads_value strtod point (rd_members strtod m0 (get_token strtod p))
        (JObject (m0 @ map (\<lambda>(k, x). (k, read_back x)) m)) s"
proof (induction cfg ichar cur j and cfg ichar new xs and cfg ichar new m arbitrary: p w s and p w s ys and p w s m0
    rule: value_text_elements_text_members_text.induct)
  case (1 cfg ichar cur m)
  show ?case
  proof (cases "m = []")
    case True
    with 1(6) have t: "text_at point (m_lexer p) (w @ CHR ''{'' # CHR ''}'' # s)" by simp
    note a = get_token_mark[OF _ t 1(7), of T_begin_object strtod]
    have "text_at point (m_lexer (get_token strtod p)) ([] @ CHR ''}'' # s)" using a by simp
    note b = get_token_mark[OF _ this, of T_end_object strtod]
    show ?thesis using a b True by (simp add: rd_value.simps[of strtod "get_token strtod p"] reads_value_def)
  next
    case False
    let ?new = "next_indent cfg cur" and ?w = "break_text cfg ichar cur"
    from False 1(6) have t: "text_at point (m_lexer p)
        (w @ CHR ''{'' # (members_text cfg ichar ?new m @ ?w @ CHR ''}'' # s))" by simp
    note a = get_token_mark[OF _ t 1(7), of T_begin_object strtod]
    have ok: "omap_ok ([] @ map (\<lambda>(k, x). (k, read_back x)) m)"
      using 1(3) by (simp add: omap_ok_def comp_def case_prod_beta)
    have "reads_value strtod point (rd_members strtod [] (get_token strtod (get_token strtod p)))
        (JObject ([] @ map (\<lambda>(k, x). (k, read_back x)) m)) s"
      using 1(1)[OF False 1(2) _ _ _ False ok _ white_break[OF 1(2)], of "get_token strtod p"] 1(3-5) a(2) by simp
    then show ?thesis
      using a rd_members_first
      by (fastforce simp: rd_value.simps[of strtod "get_token strtod p"] reads_value_def Let_def)
  qed
next
  case (2 cfg ichar cur xs)
  show ?case
  proof (cases "xs = []")
    case True
    with 2(6) have t: "text_at point (m_lexer p) (w @ CHR ''['' # CHR '']'' # s)" by simp
    note a = get_token_mark[OF _ t 2(7), of T_begin_array strtod]
    have "text_at point (m_lexer (get_token strtod p)) ([] @ CHR '']'' # s)" using a by simp
    note b = get_token_mark[OF _ this, of T_end_array strtod]
    show ?thesis using a b True by (simp add: rd_value.simps[of strtod "get_token strtod p"] reads_value_def)
  next
    case False
    let ?new = "next_indent cfg cur" and ?w = "break_text cfg ichar cur"
    from False 2(6) have t: "text_at point (m_lexer p)
        (w @ CHR ''['' # (elements_text cfg ichar ?new xs @ ?w @ CHR '']'' # s))" by simp
    note a = get_token_mark[OF _ t 2(7), of T_begin_array strtod]
    have "reads_value strtod point (rd_elements strtod [] (get_token strtod (get_token strtod p)))
        (JArray ([] @ map read_back xs)) s"
      using 2(1)[OF False 2(2) _ _ _ False _ white_break[OF 2(2)], of "get_token strtod p" cur s "[]"] 2(3-5) a(2) by simp
    then show ?thesis
      using a rd_elements_first
      by (fastforce simp: rd_value.simps[of strtod "get_token strtod p"] reads_value_def Let_def)
  qed
next
  case (3 cfg ichar cur u)
  from reads_string[of point p w "ensure_ascii cfg" u s strtod] 3 obtain lx1 where
    r: "scan strtod (m_lexer p) = (T_value_string, lx1)" "text_at point lx1 s" "lx_buffer lx1 = u" by auto
  with rd_scalar[OF r(1)] show ?case by (simp add: reads_value_def)
next
  case (4 cfg ichar cur b)
  then show ?case
    using reads_literal[of "if b then ''true'' else ''false''" "JBoolean b"
        "if b then T_literal_true else T_literal_false" point p w s strtod] by (cases b) simp_all
next
  case (5 cfg ichar cur x)
  show ?case
  proof (cases "sint x < 0")
    case True
    then show ?thesis using reads_negative[of point p w x s strtod] 5 by simp
  next
    case False
    then have "dec_int (sint x) = dec_nat (unat x)" using unat_nonnegative[of x] by (simp add: dec_int_def)
    then show ?thesis using reads_unsigned[of point p w x s strtod] 5 False by simp
  qed
next
  case (6 cfg ichar cur x)
  then show ?case using reads_unsigned[of point p w x s strtod] by simp
next
  case (7 cfg ichar cur d)
  then show ?case using reads_float[of point p w d s strtod] by simp
next
  case (8 cfg ichar cur)
  then show ?case using reads_literal[of "''null''" JNull T_literal_null point p w s strtod] by simp
next
  case (10 cfg ichar new x xs)
  let ?b = "break_text cfg ichar new"
  let ?tail = "(if xs = [] then [] else CHR '','' # elements_text cfg ichar new xs) @ w @ CHR '']'' # s"
  have t: "text_at point (m_lexer p) (?b @ value_text cfg ichar new x @ ?tail)" using 10(8) by simp
  have ends: "number_ends ?tail" using 10(9) by (auto intro: number_ends_white)
  from 10(1)[OF 10(3) _ _ _ t white_break[OF 10(3)] ends] 10(4-6) obtain p1 where
    p1: "rd_value strtod (get_token strtod p) = Inr (read_back x, p1)" "text_at point (m_lexer p1) ?tail"
    by (auto simp: reads_value_def)
  show ?case
  proof (cases "xs = []")
    case True
    with p1(2) have "text_at point (m_lexer p1) (w @ CHR '']'' # s)" by simp
    note a = get_token_mark[OF _ this 10(9), of T_end_array strtod]
    show ?thesis
      using a p1(1) True by (simp add: rd_elements.simps[of strtod ys] reads_value_def Let_def)
  next
    case False
    with p1(2) have "text_at point (m_lexer p1) ([] @ CHR '','' # (elements_text cfg ichar new xs @ w @ CHR '']'' # s))"
      by simp
    note a = get_token_mark[OF _ this, of T_value_separator strtod]
    have "reads_value strtod point (rd_elements strtod (ys @ [read_back x]) (get_token strtod (get_token strtod p1)))
        (JArray ((ys @ [read_back x]) @ map read_back xs)) s"
      using 10(2)[OF False 10(3) _ _ _ False _ 10(9), of "get_token strtod p1" s "ys @ [read_back x]"] 10(4-6) a(2) by simp
    then show ?thesis
      using a(1) p1(1) by (simp add: rd_elements.simps[of strtod ys] reads_value_def Let_def)
  qed
next
  case (12 cfg ichar new k x m)
  let ?b = "break_text cfg ichar new" and ?sp = "if pretty_print cfg then '' '' else []"
  let ?tail = "(if m = [] then [] else CHR '','' # members_text cfg ichar new m) @ w @ CHR ''}'' # s"
  let ?after = "?sp @ value_text cfg ichar new x @ ?tail"
  have t: "text_at point (m_lexer p) (?b @ quoted (ensure_ascii cfg) k @ CHR '':'' # ?after)"
    using 12(9) by (cases "m = []"; cases "pretty_print cfg") (simp_all add: colon_def)
  from reads_string[OF t white_break[OF 12(3)], of strtod] 12(5) obtain lx1 where
    key: "last_token (get_token strtod p) = T_value_string" "lx_buffer (m_lexer (get_token strtod p)) = k"
      "text_at point (m_lexer (get_token strtod p)) ([] @ CHR '':'' # ?after)"
    by (auto simp: get_token_def)
  let ?p1 = "get_token strtod (get_token strtod p)"
  have colon: "last_token ?p1 = T_name_separator" "text_at point (m_lexer ?p1) ?after"
    using get_token_mark[OF _ key(3), of T_name_separator strtod] by simp_all
  have ends: "number_ends ?tail" using 12(10) by (auto intro: number_ends_white)
  have sp: "white ?sp" using white_space by simp
  from 12(1)[OF 12(3) _ _ _ colon(2) sp ends] 12(4-6) obtain p2 where
    p2: "rd_value strtod (get_token strtod ?p1) = Inr (read_back x, p2)" "text_at point (m_lexer p2) ?tail"
    by (auto simp: reads_value_def)
  have assign: "omap_assign k (read_back x) m0 = m0 @ [(k, read_back x)]"
    using 12(8) by (intro omap_assign_greatest) (auto simp: omap_ok_append)
  show ?case
  proof (cases "m = []")
    case True
    with p2(2) have "text_at point (m_lexer p2) (w @ CHR ''}'' # s)" by simp
    note a = get_token_mark[OF _ this 12(10), of T_end_object strtod]
    show ?thesis
      using a p2(1) True key colon(1) assign
      by (simp add: rd_members.simps[of strtod m0] reads_value_def Let_def)
  next
    case False
    with p2(2) have "text_at point (m_lexer p2) ([] @ CHR '','' # (members_text cfg ichar new m @ w @ CHR ''}'' # s))"
      by simp
    note a = get_token_mark[OF _ this, of T_value_separator strtod]
    have "reads_value strtod point
        (rd_members strtod (m0 @ [(k, read_back x)]) (get_token strtod (get_token strtod p2)))
        (JObject ((m0 @ [(k, read_back x)]) @ map (\<lambda>(k, x). (k, read_back x)) m)) s"
      using 12(2)[OF False 12(3) _ _ _ False _ _ 12(10), of "m0 @ [(k, read_back x)]" "get_token strtod p2" s]
        12(4-6,8) a(2) by simp
    then show ?thesis
      using a(1) p2(1) key colon(1) assign
      by (simp add: rd_members.simps[of strtod m0] reads_value_def Let_def)
  qed
qed simp_all

lemma quote_first: "first_char (quoted ascii u @ s) = Some CHR 0x22"
  by (simp add: quoted_def)

lemma value_text_first:
  assumes "all_floats (float_returns strtod point) j"
  shows "first_char (value_text cfg ichar cur j @ s) \<noteq> Some CHR 0xEF"
proof (cases j)
  case (JInteger w)
  have "\<exists>u t. dec_int (sint w) = u \<and> number_reads u t"
    using number_reads_nat number_reads_negative[of "nat (- sint w)"] by (auto simp: dec_int_def)
  then show ?thesis using number_head(2) JInteger by auto
next
  case (JUnsigned w)
  then show ?thesis using number_head(2)[OF number_reads_nat] by simp
next
  case (JFloat d)
  then show ?thesis using assms number_head(2) by (auto simp: float_text_def float_returns_def)
qed (simp_all add: quote_first)

lemma value_text_parsed:
  assumes "ordered j" "all_strings utf8_ok j" "all_floats (float_returns strtod point) j" "blank_indent cfg ichar"
  shows "rd_text strtod point (value_text cfg ichar 0 j) = Inr (read_back j)"
proof -
  let ?t = "value_text cfg ichar 0 j"
  let ?p = "\<lparr>last_token = T_uninitialized, m_lexer = new_lexer point ?t\<rparr>"
  have "text_at point (m_lexer ?p) ([] @ ?t @ [])"
    using value_text_first[OF assms(3), of cfg ichar 0 "[]"]
    by (simp add: text_at_def lx_ok_def lx_rest_def new_lexer_def)
  from value_read_back(1)[OF assms(4,1-3) this] obtain p1 where
    p1: "rd_value strtod (get_token strtod ?p) = Inr (read_back j, p1)" "text_at point (m_lexer p1) []"
    by (auto simp: reads_value_def)
  from token_end[OF p1(2), of strtod] have "last_token (get_token strtod p1) = T_end_of_input"
    by (auto simp: get_token_def)
  with p1(1) show ?thesis by (simp add: rd_text_def new_parser_def Let_def)
qed

lemma dump_parsed:
  assumes "ordered j" "all_strings utf8_ok j" "all_floats float_prints j" "all_floats (float_returns strtod point) j"
    and "indent \<le> 512" "indent < 0 \<or> is_whitespace (Some ichar)"
  shows "\<exists>t. json_dump indent ichar ascii handler j = Inr t \<and> rd_text strtod point t = Inr (read_back j)"
  using json_dump_text[OF assms(5,2,3)] value_text_parsed[OF assms(1,2,4), of "dump_configuration indent ascii" ichar]
    assms(6)
  by (auto simp: blank_indent_def dump_configuration_def)

subsection \<open>The values parse returns\<close>

text \<open>What the type \<open>json\<close> leaves open holds for them: order, UTF-8, finite floats.\<close>

fun parsed_value :: "json \<Rightarrow> bool" where
  "parsed_value (JObject m) \<longleftrightarrow> omap_ok m \<and> list_all (\<lambda>(k, x). utf8_ok k \<and> parsed_value x) m"
| "parsed_value (JArray xs) \<longleftrightarrow> list_all parsed_value xs"
| "parsed_value (JString s) \<longleftrightarrow> utf8_ok s"
| "parsed_value (JFloat d) \<longleftrightarrow> is_finite d"
| "parsed_value j \<longleftrightarrow> True"

lemma scan_literal_token: "scan_literal_chars cs t lx = (T_value_string, lx1) \<Longrightarrow> t = T_value_string"
  by (induction cs arbitrary: lx) (auto simp: Let_def split: if_splits)

lemma scan_number_token: "scan_number strtod lx \<noteq> (T_value_string, lx1)"
  using scan_number_reads[of strtod lx T_value_string lx1] by auto

lemma scan_token_string: "scan_token strtod lx = (T_value_string, lx1) \<Longrightarrow> scan_string lx = (T_value_string, lx1)"
  by (auto simp: scan_token_def scan_literal_def scan_number_token simp del: scan_literal_chars.simps
      split: option.splits if_split_asm dest: scan_literal_token)

lemma scan_string_token: "scan strtod lx = (T_value_string, lx1) \<Longrightarrow> utf8_ok (lx_buffer lx1)"
  by (auto simp: scan_def Let_def split: prod.splits if_splits dest!: scan_token_string scan_string_utf8)

definition token_utf8 :: "json_parser \<Rightarrow> bool" where
  "token_utf8 p \<longleftrightarrow> last_token p = T_value_string \<longrightarrow> utf8_ok (lx_buffer (m_lexer p))"

lemma token_utf8_get [simp]: "token_utf8 (get_token strtod p)"
  using scan_string_token[of strtod "m_lexer p"] by (auto simp: token_utf8_def get_token_def split: prod.split)

definition parses_to :: "(json \<Rightarrow> bool) \<Rightarrow> json descent \<Rightarrow> bool" where
  "parses_to P r \<longleftrightarrow> (case r of Inl e \<Rightarrow> True | Inr (v, p) \<Rightarrow> P v)"

lemma parses_to_simps [simp]: "parses_to P (Inl e)" "parses_to P (Inr (v, p)) \<longleftrightarrow> P v"
  by (simp_all add: parses_to_def)

lemma list_all_assign:
  "list_all P m \<Longrightarrow> P (k, v) \<Longrightarrow> list_all P (omap_assign k v m)"
  by (induction m) auto

lemma rd_parsed:
  "token_utf8 p \<Longrightarrow> parses_to parsed_value (rd_value strtod p)"
  "token_utf8 p \<Longrightarrow> list_all parsed_value xs \<Longrightarrow> parses_to parsed_value (rd_elements strtod xs p)"
  "token_utf8 p \<Longrightarrow> parsed_value (JObject m) \<Longrightarrow> parses_to parsed_value (rd_members strtod m p)"
proof (induction strtod p and strtod xs p and strtod m p rule: rd_value_rd_elements_rd_members.induct)
  case (1 strtod p)
  show ?case
  proof (cases "last_token p")
    case T_value_string
    then show ?thesis using 1(3) by (simp add: rd_value.simps[of strtod p] token_utf8_def)
  qed (use 1 in \<open>simp_all add: rd_value.simps[of strtod p] Let_def omap_ok_def\<close>)
next
  case (2 strtod xs p)
  show ?case
  proof (cases "rd_value strtod p")
    case (Inl e)
    then show ?thesis by (simp add: rd_elements.simps[of strtod xs p])
  next
    case (Inr vp)
    obtain v p1 where vp: "vp = (v, p1)" by (cases vp)
    have v: "parsed_value v" using 2(1)[OF 2(3)] Inr vp by simp
    show ?thesis using 2(2)[OF Inr vp[symmetric] refl] v 2(4)
      by (simp add: rd_elements.simps[of strtod xs p] Inr vp Let_def)
  qed
next
  case (3 strtod m p)
  let ?p1 = "get_token strtod p"
  show ?case
  proof (cases "last_token p = T_value_string \<and> last_token ?p1 = T_name_separator")
    case False
    then show ?thesis by (auto simp: rd_members.simps[of strtod m p] Let_def)
  next
    case True
    then have t: "\<not> last_token p \<noteq> T_value_string" "\<not> last_token ?p1 \<noteq> T_name_separator" by simp_all
    have k: "utf8_ok (lx_buffer (m_lexer p))" using 3(3) True by (simp add: token_utf8_def)
    show ?thesis
    proof (cases "rd_value strtod (get_token strtod ?p1)")
      case (Inl e)
      then show ?thesis by (simp add: rd_members.simps[of strtod m p] Let_def)
    next
      case (Inr vp)
      obtain v p2 where vp: "vp = (v, p2)" by (cases vp)
      have v: "parsed_value v" using 3(1)[OF refl t] Inr vp by simp
      then have "parsed_value (JObject (omap_assign (lx_buffer (m_lexer p)) v m))"
        using 3(4) k by (simp add: omap_ok_assign list_all_assign)
      then show ?thesis using 3(2)[OF refl t Inr vp[symmetric] refl refl] True
        by (simp add: rd_members.simps[of strtod m p] Inr vp Let_def)
    qed
  qed
qed

lemma rd_text_parsed: "rd_text strtod point t = Inr v \<Longrightarrow> parsed_value v"
  using rd_parsed(1)[of "new_parser strtod point t" strtod]
  by (auto simp: rd_text_def new_parser_def Let_def split: sum.splits if_splits)

lemma parsed_value_parts:
  "parsed_value j \<Longrightarrow> ordered j \<and> all_strings utf8_ok j \<and> all_floats is_finite j"
proof (induction j)
  case (JObject m)
  then show ?case by (fastforce simp: list_all_iff)
next
  case (JArray xs)
  then show ?case by (auto simp: list_all_iff)
qed simp_all
end
