(* ===== verification/Float_Text.thy ===== *)
theory Float_Text
  imports Grisu_Generation Text_Round_Trip
begin

section \<open>JSON text: the text of a double\<close>

text \<open>
  \<open>format_buffer\<close>, \<open>append_exponent\<close> and \<open>to_chars\<close> of \<open>src/external/nlohmann/json.h\<close>: the text of every
  finite double is a JSON number of at most 24 characters that the scanner takes as a float, and the
  real it denotes lies inside the interval of the reals that round to the double.
\<close>

subsection \<open>The real a number denotes\<close>

lemma dec_val_append: "dec_val (a @ b) = dec_val a * 10 ^ length b + dec_val b"
proof (induction b rule: rev_induct)
  case Nil
  then show ?case by (simp add: dec_val_def)
next
  case (snoc c b)
  then show ?case using dec_val_snoc[of "a @ b" c] by (simp add: algebra_simps)
qed

lemma dec_val_zeros [simp]: "dec_val (replicate n CHR ''0'') = 0"
proof (induction n)
  case 0
  then show ?case by (simp add: dec_val_def)
next
  case (Suc n)
  then show ?case
    using dec_val_append[of "''0''" "replicate n CHR ''0''"] by (simp add: dec_val_def digit_val_def)
qed

text \<open>A JSON number without its minus sign: digits, a fraction, an exponent.\<close>

definition is_e :: "char \<Rightarrow> bool" where
  "is_e c \<longleftrightarrow> c = CHR ''e'' \<or> c = CHR ''E''"

definition exponent_value :: "string \<Rightarrow> int" where
  "exponent_value x =
     (case x of
        [] \<Rightarrow> 0
      | c # s \<Rightarrow>
          if s \<noteq> [] \<and> hd s = CHR ''-'' then - int (dec_val (tl s))
          else if s \<noteq> [] \<and> hd s = CHR ''+'' then int (dec_val (tl s))
          else int (dec_val s))"

definition magnitude_real :: "string \<Rightarrow> real" where
  "magnitude_real u =
     (let m = takeWhile (\<lambda>c. \<not> is_e c) u; x = dropWhile (\<lambda>c. \<not> is_e c) u;
          i = takeWhile (\<lambda>c. c \<noteq> CHR ''.'') m; f = drop 1 (dropWhile (\<lambda>c. c \<noteq> CHR ''.'') m)
      in decimal_real (i @ f) (exponent_value x - int (length f)))"

text \<open>The three parts of a number, put together.\<close>

definition number_text :: "string \<Rightarrow> string \<Rightarrow> (char \<times> string) option \<Rightarrow> string" where
  "number_text i f x =
     i @ (if f = [] then [] else CHR ''.'' # f) @ (case x of None \<Rightarrow> [] | Some (c, ds) \<Rightarrow> CHR ''e'' # c # ds)"

definition number_parts :: "string \<Rightarrow> string \<Rightarrow> (char \<times> string) option \<Rightarrow> bool" where
  "number_parts i f x \<longleftrightarrow>
     all_digits i \<and> i \<noteq> [] \<and> (hd i = CHR ''0'' \<longrightarrow> i = ''0'') \<and> all_digits f
     \<and> (case x of None \<Rightarrow> f \<noteq> [] | Some (c, ds) \<Rightarrow> (c = CHR ''+'' \<or> c = CHR ''-'') \<and> ds \<noteq> [] \<and> all_digits ds)"

lemma digits_plain:
  "all_digits s \<Longrightarrow> c \<in> set s \<Longrightarrow> \<not> is_e c \<and> c \<noteq> CHR ''.''"
  by (auto simp: all_digits_def list_all_iff is_digit_def is_e_def)

lemma number_text_real:
  assumes "number_parts i f x"
  shows "magnitude_real (number_text i f x) = decimal_real (i @ f)
    ((case x of None \<Rightarrow> 0 | Some (c, ds) \<Rightarrow> if c = CHR ''-'' then - int (dec_val ds) else int (dec_val ds)) - int (length f))"
proof -
  have i: "\<forall>c \<in> set i. \<not> is_e c" "\<forall>c \<in> set i. c \<noteq> CHR ''.''" and f: "\<forall>c \<in> set f. \<not> is_e c"
    using assms digits_plain by (auto simp: number_parts_def)
  let ?x = "case x of None \<Rightarrow> [] | Some (c, ds) \<Rightarrow> CHR ''e'' # c # ds" and ?p = "if f = [] then [] else CHR ''.'' # f"
  have x: "takeWhile (\<lambda>c. \<not> is_e c) ?x = []" "dropWhile (\<lambda>c. \<not> is_e c) ?x = ?x"
    by (auto simp: is_e_def split: option.split)
  have p: "\<forall>c \<in> set (i @ ?p). \<not> is_e c" using i(1) f by (auto simp: is_e_def)
  have "takeWhile (\<lambda>c. \<not> is_e c) ((i @ ?p) @ ?x) = (i @ ?p) @ takeWhile (\<lambda>c. \<not> is_e c) ?x"
    by (rule takeWhile_append2) (use p in blast)
  moreover have "dropWhile (\<lambda>c. \<not> is_e c) ((i @ ?p) @ ?x) = dropWhile (\<lambda>c. \<not> is_e c) ?x"
    by (rule dropWhile_append2) (use p in blast)
  ultimately have m: "takeWhile (\<lambda>c. \<not> is_e c) ((i @ ?p) @ ?x) = i @ ?p" "dropWhile (\<lambda>c. \<not> is_e c) ((i @ ?p) @ ?x) = ?x"
    unfolding x by simp_all
  have q: "takeWhile (\<lambda>c. c \<noteq> CHR ''.'') (i @ ?p) = i" "drop 1 (dropWhile (\<lambda>c. c \<noteq> CHR ''.'') (i @ ?p)) = f"
    using i(2) by (auto simp: takeWhile_append2 dropWhile_append2)
  have e: "exponent_value ?x = (case x of None \<Rightarrow> 0
      | Some (c, ds) \<Rightarrow> if c = CHR ''-'' then - int (dec_val ds) else int (dec_val ds))"
    using assms by (auto simp: exponent_value_def number_parts_def split: option.splits)
  show ?thesis
    unfolding number_text_def append_assoc[symmetric] magnitude_real_def Let_def m q e ..
qed

subsection \<open>The scanner reads it as a float\<close>

lemma run_fraction:
  assumes "st \<in> {N_zero, N_any1}" "all_digits f" "f \<noteq> []"
  shows "number_run st t (CHR ''.'' # f) = Some (N_decimal2, T_value_float)"
proof -
  obtain c s where f: "f = c # s" using assms(3) by (cases f) auto
  have "is_digit (Some c)" "all_digits s" using assms(2) by (auto simp: f all_digits_def)
  with assms(1) show ?thesis by (auto simp: f all_digits_run is_digit_def is_exponent_def)
qed

lemma run_exponent:
  assumes "st \<in> {N_zero, N_any1, N_decimal2}" "c = CHR ''+'' \<or> c = CHR ''-''" "all_digits ds" "ds \<noteq> []"
  shows "number_run st t (CHR ''e'' # c # ds) = Some (N_any2, T_value_float)"
proof -
  obtain d s where ds: "ds = d # s" using assms(4) by (cases ds) auto
  have "is_digit (Some d)" "all_digits s" using assms(3) by (auto simp: ds all_digits_def)
  with assms(1,2) show ?thesis
    by (auto simp: ds all_digits_run is_exponent_def) (auto simp: is_digit_def is_exponent_def)
qed

lemma run_start:
  assumes "number_parts i f x"
  shows "\<exists>st \<in> {N_zero, N_any1}. number_run (number_start (hd i)) t (tl i) = Some (st, t)"
    "number_run N_minus t i = number_run (number_start (hd i)) T_value_integer (tl i)"
    "is_digit (Some (hd i))" "hd i \<noteq> CHR ''-''"
proof -
  obtain c cs where i: "i = c # cs" using assms by (cases i) (auto simp: number_parts_def)
  have c: "is_digit (Some c)" "all_digits cs" "c = CHR ''0'' \<longrightarrow> cs = []"
    using assms by (auto simp: i number_parts_def all_digits_def)
  then have m: "c \<noteq> CHR ''-''" by (auto simp: is_digit_def)
  show "is_digit (Some (hd i))" "hd i \<noteq> CHR ''-''" using c m by (simp_all add: i)
  show "\<exists>st \<in> {N_zero, N_any1}. number_run (number_start (hd i)) t (tl i) = Some (st, t)"
    using c m by (auto simp: i number_start_def all_digits_run)
  have "is_digit19 (Some c)" if "c \<noteq> CHR ''0''"
  proof -
    have "of_char c \<noteq> (of_char CHR ''0'' :: nat)" using that by (simp only: of_char_eq_iff not_False_eq_True)
    then show ?thesis using c(1) by (simp add: is_digit_def is_digit19_def less_eq_char_def)
  qed
  then show "number_run N_minus t i = number_run (number_start (hd i)) T_value_integer (tl i)"
    using m by (auto simp: i number_start_def)
qed

lemma run_rest:
  assumes "number_parts i f x" "st \<in> {N_zero, N_any1}"
  shows "\<exists>st1 \<in> {N_decimal2, N_any2}. number_run st t
    ((if f = [] then [] else CHR ''.'' # f) @ (case x of None \<Rightarrow> [] | Some (c, ds) \<Rightarrow> CHR ''e'' # c # ds))
    = Some (st1, T_value_float)"
proof (cases x)
  case None
  then show ?thesis using assms run_fraction[of st f t] by (auto simp: number_parts_def simp del: number_run.simps)
next
  case (Some cd)
  obtain c ds where cd: "cd = (c, ds)" by (cases cd)
  show ?thesis
  proof (cases "f = []")
    case True
    then show ?thesis using assms run_exponent[of st c ds t] by (auto simp: Some cd number_parts_def simp del: number_run.simps)
  next
    case False
    then show ?thesis using assms run_fraction[of st f t] run_exponent[of N_decimal2 c ds T_value_float]
      by (auto simp: Some cd number_parts_def number_run_append simp del: number_run.simps append_Cons)
  qed
qed

lemma number_parts_read:
  assumes "number_parts i f x"
  shows "number_reads (number_text i f x) T_value_float" "number_reads (CHR ''-'' # number_text i f x) T_value_float"
proof -
  obtain c cs where i: "i = c # cs" using assms by (cases i) (auto simp: number_parts_def)
  let ?r = "(if f = [] then [] else CHR ''.'' # f) @ (case x of None \<Rightarrow> [] | Some (c, ds) \<Rightarrow> CHR ''e'' # c # ds)"
  have run: "\<exists>st1 \<in> {N_decimal2, N_any2}. number_run (number_start c) t (cs @ ?r) = Some (st1, T_value_float)" for t
  proof -
    obtain st where st: "st \<in> {N_zero, N_any1}" "number_run (number_start c) t cs = Some (st, t)"
      using run_start(1)[OF assms, of t] by (auto simp: i)
    from run_rest[OF assms st(1), of t] show ?thesis unfolding number_run_append st(2) by simp
  qed
  have minus: "number_run N_minus t (c # cs @ ?r) = number_run (number_start c) T_value_integer (cs @ ?r)" for t
    using run_start(2)[OF assms, of t] number_run_append[of N_minus t "c # cs" ?r]
      number_run_append[of "number_start c" T_value_integer cs ?r] by (simp add: i del: number_run.simps)
  show "number_reads (number_text i f x) T_value_float"
    using run[of T_value_unsigned] run_start(3)[OF assms]
    by (auto simp: number_reads_def number_text_def i simp del: number_run.simps)
  show "number_reads (CHR ''-'' # number_text i f x) T_value_float"
    using run[of T_value_integer] minus[of T_value_unsigned]
    by (auto simp: number_reads_def number_text_def i number_start_def simp del: number_run.simps)
qed

subsection \<open>format\_buffer\<close>

lemma digit_zero: "is_digit (Some CHR ''0'')" "digit_val CHR ''0'' = 0"
  by (simp_all add: is_digit_def digit_val_def)

lemma append_exponent_parts:
  assumes "\<bar>m\<bar> < 1000"
  shows "\<exists>ds. append_exponent m = (if m < 0 then CHR ''-'' else CHR ''+'') # ds
    \<and> ds \<noteq> [] \<and> all_digits ds \<and> length ds \<le> 3 \<and> int (dec_val ds) = \<bar>m\<bar>"
proof -
  define k where "k = nat \<bar>m\<bar>"
  have k: "k < 1000" "int k = \<bar>m\<bar>" using assms by (simp_all add: k_def)
  have d: "k div 100 < 10" using k(1) by (simp add: less_mult_imp_div_less)
  have sum: "k div 100 * 100 + k mod 100 div 10 * 10 + k mod 100 mod 10 = k"
    using div_mult_mod_eq[of k 100] div_mult_mod_eq[of "k mod 100" 10] by linarith
  have m10: "k mod 100 div 10 < 10" by (simp add: less_mult_imp_div_less)
  show ?thesis
  proof (cases "k < 10")
    case True
    then show ?thesis using k(2)
      by (intro exI[of _ "[CHR ''0'', digit_char k]"])
        (simp add: append_exponent_def k_def[symmetric] all_digits_def digit_chars digit_zero dec_val_def)
  next
    case ten: False
    show ?thesis
    proof (cases "k < 100")
      case True
      then have "k div 10 < 10" by (simp add: less_mult_imp_div_less)
      then show ?thesis using k(2) ten True
        by (intro exI[of _ "[digit_char (k div 10), digit_char (k mod 10)]"])
          (simp add: append_exponent_def k_def[symmetric] all_digits_def digit_chars dec_val_def mult.commute[of 10])
    next
      case False
      then show ?thesis using k(2) ten d m10 sum
        by (intro exI[of _ "[digit_char (k div 100), digit_char (k mod 100 div 10), digit_char (k mod 100 mod 10)]"])
          (simp add: append_exponent_def k_def[symmetric] all_digits_def digit_chars dec_val_def)
    qed
  qed
qed

lemma all_digits_parts:
  "all_digits (a @ b) \<longleftrightarrow> all_digits a \<and> all_digits b" "all_digits (replicate n CHR ''0'')"
  "all_digits s \<Longrightarrow> all_digits (take n s)" "all_digits s \<Longrightarrow> all_digits (drop n s)" "all_digits []" "all_digits ''0''"
  by (auto simp: all_digits_def is_digit_def list_all_iff dest: in_set_takeD in_set_dropD)

lemma decimal_real_shift: "decimal_real a e = decimal_real b e1" if "dec_val a = dec_val b * 10 ^ j" "e1 = e + int j"
  using that power_int_add[of "10 :: real" e "int j"] by (simp add: decimal_real_def)

lemma format_buffer_parts:
  assumes "shortest_digits buf" "- 340 \<le> e" "e \<le> 309"
  shows "\<exists>i f x. format_buffer buf e (- 4) 15 = number_text i f x \<and> number_parts i f x
    \<and> magnitude_real (number_text i f x) = decimal_real buf e \<and> length (number_text i f x) \<le> 23"
proof -
  let ?k = "int (length buf)" and ?n = "int (length buf) + e"
  have buf: "all_digits buf" "buf \<noteq> []" "hd buf \<noteq> CHR ''0''" "length buf \<le> 17"
    using assms(1) by (simp_all add: shortest_digits_def digits_ok_def)
  consider (whole) "0 \<le> e" "?n \<le> 15" | (inside) "e < 0" "0 < ?n" "?n \<le> 15" | (zeros) "- 4 < ?n" "?n \<le> 0"
    | (exponent) "\<not> (0 \<le> e \<and> ?n \<le> 15)" "\<not> (0 < ?n \<and> ?n \<le> 15)" "\<not> (- 4 < ?n \<and> ?n \<le> 0)"
    by linarith
  then show ?thesis
  proof cases
    case whole
    let ?i = "buf @ replicate (nat e) CHR ''0''"
    have t: "format_buffer buf e (- 4) 15 = number_text ?i ''0'' None"
      using whole by (simp add: format_buffer_def number_text_def Let_def)
    have p: "number_parts ?i ''0'' None" using buf by (simp add: number_parts_def all_digits_parts)
    have "dec_val (?i @ ''0'') = dec_val buf * 10 ^ Suc (nat e)"
      by (simp only: dec_val_append dec_val_zeros) (simp add: dec_val_def digit_val_def)
    then have "magnitude_real (number_text ?i ''0'' None) = decimal_real buf e"
      unfolding number_text_real[OF p] using whole by (intro decimal_real_shift[of _ _ "Suc (nat e)"]) simp_all
    with t p whole buf show ?thesis by (intro exI conjI) (auto simp: number_text_def)
  next
    case inside
    let ?i = "take (nat ?n) buf" and ?f = "drop (nat ?n) buf"
    have l: "nat ?n < length buf" "0 < nat ?n" using inside by simp_all
    have t: "format_buffer buf e (- 4) 15 = number_text ?i ?f None"
      using inside l by (simp add: format_buffer_def number_text_def Let_def)
    have p: "number_parts ?i ?f None" using buf l by (simp add: number_parts_def all_digits_parts hd_take)
    have "magnitude_real (number_text ?i ?f None) = decimal_real buf e"
      unfolding number_text_real[OF p] using l inside by (simp add: of_nat_diff)
    with t p buf show ?thesis by (intro exI conjI) (auto simp: number_text_def)
  next
    case zeros
    let ?f = "replicate (nat (- ?n)) CHR ''0'' @ buf"
    have t: "format_buffer buf e (- 4) 15 = number_text ''0'' ?f None"
      using zeros buf by (cases buf) (simp_all add: format_buffer_def number_text_def Let_def)
    have p: "number_parts ''0'' ?f None" using buf by (simp add: number_parts_def all_digits_parts)
    have "dec_val (''0'' @ ?f) = dec_val buf"
      by (simp only: dec_val_append dec_val_zeros) (simp add: dec_val_def digit_val_def)
    then have "magnitude_real (number_text ''0'' ?f None) = decimal_real buf e"
      unfolding number_text_real[OF p] using zeros by (simp add: decimal_real_def)
    with t p zeros buf show ?thesis by (intro exI conjI) (auto simp: number_text_def)
  next
    case exponent
    let ?c = "if ?n - 1 < 0 then CHR ''-'' else CHR ''+''"
    have "\<bar>?n - 1\<bar> < 1000" using assms(2,3) buf(4) by simp
    from append_exponent_parts[OF this] obtain ds where
      ds: "append_exponent (?n - 1) = ?c # ds" "ds \<noteq> []" "all_digits ds" "length ds \<le> 3"
        "int (dec_val ds) = \<bar>?n - 1\<bar>" by blast
    let ?i = "take 1 buf" and ?f = "drop 1 buf"
    have t: "format_buffer buf e (- 4) 15 = number_text ?i ?f (Some (?c, ds))"
    proof -
      have "\<not> (?k \<le> ?n \<and> ?n \<le> 15)" using exponent(1) by simp
      with exponent(2,3) have "format_buffer buf e (- 4) 15 =
          (if ?k = 1 then buf @ ''e'' @ ?c # ds else take 1 buf @ ''.'' @ drop 1 buf @ ''e'' @ ?c # ds)"
        unfolding format_buffer_def Let_def ds(1) by (simp only: if_False)
      then show ?thesis using buf(2) by (cases buf) (auto simp: number_text_def)
    qed
    have p: "number_parts ?i ?f (Some (?c, ds))" using buf ds by (simp add: number_parts_def all_digits_parts hd_take)
    have x: "(if ?c = CHR ''-'' then - int (dec_val ds) else int (dec_val ds)) - int (length ?f) = e"
      using ds(5) buf(2) by (cases buf) auto
    have "magnitude_real (number_text ?i ?f (Some (?c, ds))) = decimal_real buf e"
      unfolding number_text_real[OF p] option.case prod.case x by simp
    with t p buf ds(4) show ?thesis by (intro exI conjI) (auto simp: number_text_def)
  qed
qed

subsection \<open>to\_chars\<close>

definition magnitude :: "u64 \<Rightarrow> u64" where
  "magnitude d = (if sign_bit d then clear_sign d else d)"

lemma magnitude_mod: "unat (magnitude d) = unat d mod 2 ^ 63"
proof (cases "sign_bit d")
  case True
  have "(0x7FFFFFFFFFFFFFFF :: u64) = mask 63" by (simp add: mask_eq_exp_minus_1)
  then have "clear_sign d = take_bit 63 d" by (simp add: clear_sign_def take_bit_eq_mask)
  moreover have "unat (take_bit 63 d) = unat d mod 2 ^ 63"
    by (simp only: unsigned_take_bit_eq) (simp add: take_bit_eq_mod)
  ultimately show ?thesis using True by (simp add: magnitude_def)
next
  case False
  then have "unat d < 2 ^ 63" by (simp add: sign_bit_def top_bit)
  then show ?thesis using False by (simp add: magnitude_def)
qed

lemma finite_magnitude:
  assumes "is_finite d" "magnitude d \<noteq> 0"
  shows "positive_double (magnitude d)"
proof -
  let ?E = "unat (magnitude d) div 2 ^ 52"
  have "(0x7FF :: u64) = mask 11" by (simp add: mask_eq_exp_minus_1)
  then have "drop_bit 52 d AND 0x7FF = take_bit 11 (drop_bit 52 d)" by (simp add: take_bit_eq_mask)
  moreover have "unat (take_bit 11 (drop_bit 52 d)) = unat d div 2 ^ 52 mod 2 ^ 11"
    by (simp only: unsigned_take_bit_eq unat_drop_bit_eq) (simp add: take_bit_eq_mod drop_bit_eq_div)
  ultimately have "unat (drop_bit 52 d AND 0x7FF) = unat d div 2 ^ 52 mod 2 ^ 11" by (simp only:)
  moreover have "unat (drop_bit 52 d AND 0x7FF) \<noteq> 2047"
  proof
    assume "unat (drop_bit 52 d AND 0x7FF) = 2047"
    then have "unat (drop_bit 52 d AND 0x7FF) = unat (0x7FF :: u64)" by simp
    then have "drop_bit 52 d AND 0x7FF = 0x7FF" by (rule unsigned_word_eqI)
    then show False using assms(1) by (simp only: is_finite_def not_True_eq_False simp_thms)
  qed
  moreover have "unat d mod 2 ^ 63 div 2 ^ 52 = unat d div 2 ^ 52 mod 2 ^ 11"
    using mod_mult2_eq[of "unat d" "2 ^ 52" "2 ^ 11"] by simp
  ultimately have "?E \<noteq> 2047" "?E < 2 ^ 11" unfolding magnitude_mod by simp_all
  then have "?E < 2047" by simp
  then have "unat (magnitude d) < 2047 * 2 ^ 52" by (simp add: div_less_iff_less_mult)
  moreover have "0 < unat (magnitude d)" using assms(2) by (simp add: unat_gt_0)
  ultimately show ?thesis by (simp add: positive_double_def)
qed

text \<open>The text denotes a real that rounds to the double, with the sign of the double.\<close>

definition text_denotes :: "string \<Rightarrow> u64 \<Rightarrow> bool" where
  "text_denotes t d \<longleftrightarrow>
     (let v = magnitude d; u = (if sign_bit d then drop 1 t else t)
      in (sign_bit d \<longleftrightarrow> take 1 t = ''-'')
         \<and> (if v = 0 then magnitude_real u = 0
            else lower_boundary v < magnitude_real u \<and> magnitude_real u < upper_boundary v))"

lemma number_text_unsigned: "number_parts i f x \<Longrightarrow> take 1 (number_text i f x) \<noteq> ''-''"
  by (cases i) (auto simp: number_parts_def number_text_def all_digits_def is_digit_def)

lemma to_chars_denotes:
  assumes "is_finite d"
  shows "\<exists>t. to_chars d = Some t \<and> number_reads t T_value_float \<and> text_denotes t d \<and> length t \<le> 24"
proof -
  have "\<exists>i f x. (case magnitude d = 0 of True \<Rightarrow> Some ''0.0''
        | False \<Rightarrow> map_option (\<lambda>(buf, e). format_buffer buf e (- 4) 15) (grisu2 (magnitude d))) = Some (number_text i f x)
      \<and> number_parts i f x \<and> length (number_text i f x) \<le> 23
      \<and> (if magnitude d = 0 then magnitude_real (number_text i f x) = 0
         else lower_boundary (magnitude d) < magnitude_real (number_text i f x)
           \<and> magnitude_real (number_text i f x) < upper_boundary (magnitude d))"
  proof (cases "magnitude d = 0")
    case True
    have p: "number_parts ''0'' ''0'' None" by (simp add: number_parts_def all_digits_parts)
    have "magnitude_real (number_text ''0'' ''0'' None) = 0"
      unfolding number_text_real[OF p] by (simp add: decimal_real_def dec_val_def digit_val_def)
    with p True show ?thesis
      by (intro exI[of _ "''0''"] exI[of _ "''0''"] exI[of _ None]) (simp add: number_text_def)
  next
    case False
    from grisu2_correct[OF finite_magnitude[OF assms False]] obtain buf e where
      g: "grisu2 (magnitude d) = Some (buf, e)" "shortest_digits buf" "- 340 \<le> e" "e \<le> 309"
        "lower_boundary (magnitude d) < decimal_real buf e" "decimal_real buf e < upper_boundary (magnitude d)" by blast
    from format_buffer_parts[OF g(2-4)] obtain i f x where
      "format_buffer buf e (- 4) 15 = number_text i f x" "number_parts i f x"
      "magnitude_real (number_text i f x) = decimal_real buf e" "length (number_text i f x) \<le> 23" by blast
    with g False show ?thesis by (intro exI[of _ i] exI[of _ f] exI[of _ x]) simp
  qed
  then obtain i f x where t: "to_chars d = Some ((if sign_bit d then ''-'' else []) @ number_text i f x)"
      "number_parts i f x" "length (number_text i f x) \<le> 23"
      "if magnitude d = 0 then magnitude_real (number_text i f x) = 0
         else lower_boundary (magnitude d) < magnitude_real (number_text i f x)
           \<and> magnitude_real (number_text i f x) < upper_boundary (magnitude d)"
    by (cases "magnitude d = 0") (auto simp: to_chars_def magnitude_def[symmetric] Let_def)
  then show ?thesis using number_parts_read[OF t(2)] number_text_unsigned[OF t(2)]
    by (cases "sign_bit d") (simp_all add: text_denotes_def Let_def)
qed

lemma float_prints_always: "float_prints d"
  using to_chars_denotes[of d] by (auto simp: float_prints_def)

lemma all_floats_always: "(\<And>d. P d) \<Longrightarrow> all_floats P j"
  by (induction j) (auto simp: list_all_iff)

end
