(* ===== verification/Json_Text.thy ===== *)
theory Json_Text
  imports Float_Text "HOL-Library.Code_Target_Nat"
begin

section \<open>JSON text: what parse and dump promise\<close>

text \<open>
  The properties of \<open>json::parse\<close>, \<open>json::accept\<close> and \<open>json::dump\<close> (\<open>src/external/nlohmann/json.h\<close>)
  that follow from the theories of the lexer, the parser and the serializer.
\<close>

subsection \<open>Reading\<close>

text \<open>
  C33: \<open>json::parse\<close>, with its stack of states and a value built through pointers, computes what the
  recursive descent \<open>rd_text\<close> computes, on every input: the same value, the same exception, or a
  discarded value when exceptions are switched off. In particular it returns.
\<close>

theorem parse_is_recursive_descent:
  "json_parse strtod point allow_exceptions t =
     Some (case rd_text strtod point t of
             Inr v \<Rightarrow> Inr (Some v)
           | Inl e \<Rightarrow> if allow_exceptions then Inl e else Inr None)"
  using json_parse_throws[of strtod point t] json_parse_silent[of strtod point t]
  by (cases allow_exceptions) (auto split: sum.splits)

text \<open>
  C34: The loop of \<open>sax_parse_internal\<close> ends for every consumer of its events, one that stops it and
  one whose \<open>parse_error\<close> throws included, from every state of the parser.
\<close>

theorem parser_loop_ends: "\<exists>r. sax_parse_strict strtod sx p s = Some r"
  using sax_loop_ends[of strtod sx False "[]" p s]
  by (auto simp: sax_parse_strict_def sax_parse_internal_def Let_def split: sum.split bool.split prod.split)

text \<open>\<open>accept\<close> answers whether \<open>parse\<close> would return a value, without building one.\<close>

theorem accept_iff_parse:
  "json_accept strtod point t = Some b \<longleftrightarrow>
     b = (\<exists>v. json_parse strtod point True t = Some (Inr (Some v)))"
  using json_accept_value[of strtod point t] json_parse_throws[of strtod point t]
  by (auto simp: is_value_def split: sum.splits)

text \<open>
  The exceptions of \<open>parse\<close> are parse error 101, with a byte between the first of the input and
  the one after its end, and out of range 406 for a number that is too large.
\<close>

theorem parse_error_position:
  assumes "json_parse strtod point True t = Some (Inl e)"
  shows "(\<exists>byte w. e = Parse_Error 101 byte w \<and> byte \<le> length t + 1) \<or> (\<exists>w. e = Out_Of_Range 406 w)"
proof -
  have "rd_text strtod point t = Inl e"
    using assms json_parse_throws[of strtod point t] by (auto split: sum.splits)
  from rd_text_within[OF this] show ?thesis
    by (auto simp: error_within_def split: json_exception.splits)
qed

theorem parse_error_position_witness:
  "\<exists>e. json_parse (\<lambda>_. 0) CHR ''.'' True ''[1,'' = Some (Inl e)
     \<and> ((\<exists>byte w. e = Parse_Error 101 byte w \<and> byte \<le> length ''[1,'' + 1) \<or> (\<exists>w. e = Out_Of_Range 406 w))"
proof -
  have "case json_parse (\<lambda>_. 0) CHR ''.'' True ''[1,'' of Some (Inl e) \<Rightarrow> True | _ \<Rightarrow> False" by code_simp
  then obtain e where "json_parse (\<lambda>_. 0) CHR ''.'' True ''[1,'' = Some (Inl e)"
    by (auto split: option.splits sum.splits)
  from this parse_error_position[OF this] show ?thesis by blast
qed

text \<open>
  UTF-8 as the Unicode Standard has it (table 3-6), without the tables of the scanner: a text is
  well formed if it is the encoding of some sequence of scalar values, that is of code points up to
  10FFFF other than surrogates. The ranges of \<open>scan_string\<close> accept exactly these texts.
\<close>

definition utf8_encode :: "nat \<Rightarrow> string" where
  "utf8_encode cp =
     map char_of
       (if cp < 0x80 then [cp]
        else if cp < 0x800 then [0xC0 + cp div 64, 0x80 + cp mod 64]
        else if cp < 0x10000 then [0xE0 + cp div 4096, 0x80 + cp div 64 mod 64, 0x80 + cp mod 64]
        else [0xF0 + cp div 262144, 0x80 + cp div 4096 mod 64, 0x80 + cp div 64 mod 64, 0x80 + cp mod 64])"

definition unicode_text :: "string \<Rightarrow> bool" where
  "unicode_text s \<longleftrightarrow> (\<exists>cps. (\<forall>cp \<in> set cps. cp \<le> 0x10FFFF \<and> (cp < 0xD800 \<or> 0xDFFF < cp)) \<and> s = concat (map utf8_encode cps))"

lemma utf8_encode_bytes: "scalar_value cp \<Longrightarrow> utf8_encode cp = utf8_bytes cp"
  by (simp add: scalar_value_def utf8_encode_def utf8_bytes_arith le_imp_less_Suc less_Suc_eq_le[symmetric])

theorem utf8_ok_unicode: "utf8_ok s \<longleftrightarrow> unicode_text s"
proof
  assume "utf8_ok s"
  then show "unicode_text s"
  proof (induction "length s" arbitrary: s rule: less_induct)
    case less
    show ?case
    proof (cases "s = []")
      case False
      with less(2) obtain u t where s: "s = u @ t" "utf8_char u" "utf8_ok t" by (rule utf8_ok_cases)
      have "length t < length s" using s(1,2) by (cases u) (auto simp: utf8_char_def)
      from less(1)[OF this s(3)] obtain cps where
        cps: "\<forall>cp \<in> set cps. cp \<le> 0x10FFFF \<and> (cp < 0xD800 \<or> 0xDFFF < cp)" "t = concat (map utf8_encode cps)"
        by (auto simp: unicode_text_def)
      have cp: "utf8_bytes (codepoint_of u) = u" "scalar_value (codepoint_of u)"
        using utf8_bytes_codepoint[OF s(2)] by simp_all
      then have "u = utf8_encode (codepoint_of u)" by (simp add: utf8_encode_bytes)
      with cps cp(2) s(1) show ?thesis
        unfolding unicode_text_def by (intro exI[of _ "codepoint_of u # cps"]) (auto simp: scalar_value_def)
    qed (auto simp: unicode_text_def intro: exI[of _ "[]"])
  qed
next
  have "\<forall>cp \<in> set cps. cp \<le> 0x10FFFF \<and> (cp < 0xD800 \<or> 0xDFFF < cp) \<Longrightarrow> utf8_ok (concat (map utf8_encode cps))" for cps
  proof (induction cps)
    case (Cons cp cps)
    then have sc: "scalar_value cp" by (auto simp: scalar_value_def)
    from Cons utf8_ok_append[OF utf8_ok_char[OF utf8_bytes_char[OF sc]]] show ?case
      by (simp add: utf8_encode_bytes[OF sc])
  qed simp
  then show "unicode_text s \<Longrightarrow> utf8_ok s" by (auto simp: unicode_text_def)
qed

text \<open>
  C35: Every value \<open>parse\<close> returns has its objects in ascending order of the keys without duplicates,
  UTF-8 in every string and key, whatever bytes and escapes the text had, by the ranges of the
  scanner and by the definition of the Unicode Standard, and no infinite number.
\<close>

theorem parsed_values_well_formed:
  assumes "json_parse strtod point allow_exceptions t = Some (Inr (Some v))"
  shows "ordered v \<and> all_strings utf8_ok v \<and> all_strings unicode_text v \<and> all_floats is_finite v"
proof -
  have "rd_text strtod point t = Inr v"
    using assms json_parse_throws[of strtod point t] json_parse_silent[of strtod point t]
    by (cases allow_exceptions) (auto split: sum.splits)
  from parsed_value_parts[OF rd_text_parsed[OF this]] show ?thesis
    by (simp add: utf8_ok_unicode[abs_def, symmetric])
qed

theorem parsed_values_well_formed_witness:
  "json_parse (\<lambda>_. 0) CHR ''.'' True
     (''{'' @ [CHR 0x22, CHR ''b'', CHR 0x22] @ '':1,'' @ [CHR 0x22, CHR ''a'', CHR 0x22] @ '':[2.5]}'')
   = Some (Inr (Some (JObject [(''a'', JArray [JFloat 0]), (''b'', JUnsigned 1)])))
   \<and> ordered (JObject [(''a'', JArray [JFloat 0]), (''b'', JUnsigned 1)])"
proof -
  have "json_parse (\<lambda>_. 0) CHR ''.'' True
     (''{'' @ [CHR 0x22, CHR ''b'', CHR 0x22] @ '':1,'' @ [CHR 0x22, CHR ''a'', CHR 0x22] @ '':[2.5]}'')
   = Some (Inr (Some (JObject [(''a'', JArray [JFloat 0]), (''b'', JUnsigned 1)])))" by code_simp
  from this parsed_values_well_formed[OF this] show ?thesis by simp
qed

subsection \<open>Writing\<close>

text \<open>
  C36: \<open>dump_escaped\<close> never writes past its buffer of 512 bytes, for any string of any bytes and any
  of the three error handlers, and always ends; only the strict handler throws.
\<close>

theorem escaping_never_overruns:
  "(\<exists>u. dump_escaped ascii s sr = Inr (write_characters u sr))
   \<or> sr_handler sr = Handler_strict \<and> \<not> utf8_ok s
     \<and> (\<exists>w. dump_escaped ascii s sr = Inl (Dump_Throws (Type_Error 316 w)))"
  using dump_escaped_utf8[of s ascii sr] dump_escaped_strict[of sr s ascii] dump_escaped_lenient[of sr ascii s]
  by blast

text \<open>
  \<open>dump_integer\<close> writes the decimal text of every signed 64 bit value, the least one included, and
  every unsigned one, whatever the number buffer of 64 characters held before.
\<close>

theorem dump_integer_decimal:
  assumes "length (sr_number sr) = 64"
  shows "sr_out (dump_integer w sr) = sr_out sr @ dec_int (sint w)
    \<and> sr_out (dump_unsigned w sr) = sr_out sr @ dec_nat (unat w)
    \<and> length (sr_number (dump_integer w sr)) = 64 \<and> length (sr_number (dump_unsigned w sr)) = 64"
  using dump_integer_text[OF assms, of w] dump_unsigned_text[OF assms, of w] by simp

theorem dump_integer_decimal_witness:
  "sr_out (dump_integer 0x8000000000000000 (new_serializer CHR '' '' Handler_strict)) = dec_int (- (2 ^ 63))"
proof -
  have "length (sr_number (new_serializer CHR '' '' Handler_strict)) = 64" by (simp add: new_serializer_def)
  from dump_integer_decimal[OF this, of "0x8000000000000000"] show ?thesis
    by (simp add: new_serializer_def)
qed

text \<open>
  An indentation of 1026 or more makes the first element read past the end of the indentation
  string, which is doubled only once, whatever the array holds.
\<close>

lemma wide_indentation_overruns:
  assumes "1026 \<le> indent" "indent < 2 ^ 31"
  shows "json_dump indent ichar ascii handler (JArray (x # xs)) = Inl Dump_Overrun"
proof -
  have "1026 \<le> nat indent" "nat indent < 2 ^ 32" "0 \<le> indent" using assms by simp_all
  moreover from this have "512 < nat indent" "\<not> nat indent \<le> 1025" by simp_all
  ultimately show ?thesis
    by (simp add: json_dump_def new_serializer_def open_text_def grow_indent_def next_indent_def
        element_text_def write_indent_def write_characters_def)
qed

subsection \<open>Floating point numbers\<close>

text \<open>
  \<open>diyfp::mul\<close>, computed from four 32 bit halves, is the exact 128 bit product divided by
  \<open>2 ^ 64\<close> and rounded, ties up: nothing wraps around on the way.
\<close>

theorem mul_is_rounded_product:
  "unat (df (diyfp_mul x y)) = (unat (df x) * unat (df y) + 2 ^ 63) div 2 ^ 64
   \<and> de (diyfp_mul x y) = de x + de y + 64"
  by (simp only: diyfp_mul_rounds) (simp add: diyfp_mul_def mk_diyfp_def Let_def)

text \<open>
  C32: \<open>grisu2\<close> ends for every positive finite double, subnormal ones included, with 17 digits at most
  (\<open>max_digits10\<close>, the size its callers must provide) of which neither the first nor the last is a zero, an
  exponent that \<open>append_exponent\<close> can print, and a number strictly between the boundaries of the
  double, so that any conversion that rounds to nearest returns the double, however it breaks ties.
\<close>

theorem grisu2_digits_round_back:
  assumes "positive_double d"
  shows "\<exists>buf e. grisu2 d = Some (buf, e) \<and> shortest_digits buf \<and> - 340 \<le> e \<and> e \<le> 309
    \<and> lower_boundary d < decimal_real buf e \<and> decimal_real buf e < upper_boundary d"
  using assms by (rule grisu2_correct)

theorem grisu2_digits_round_back_witness:
  "\<exists>buf e. grisu2 1 = Some (buf, e) \<and> shortest_digits buf
    \<and> 1 / 2 * 2 powi (- 1074) < decimal_real buf e \<and> decimal_real buf e < 3 / 2 * 2 powi (- 1074)"
proof -
  have d: "positive_double 1" by (simp add: positive_double_def)
  have b: "lower_boundary 1 = 1 / 2 * 2 powi (- 1074)" "upper_boundary 1 = 3 / 2 * 2 powi (- 1074)"
    by (simp_all add: lower_boundary_def upper_boundary_def double_f_def double_e_def lower_closer_def)
  from grisu2_digits_round_back[OF d, unfolded b] show ?thesis by (elim exE conjE, intro exI conjI)
qed

text \<open>
  C31: \<open>to_chars\<close> writes every finite double, of either sign, zeros included, as a JSON number of at
  most 24 characters, which the number buffer of 64 holds, with a fraction or an exponent so that it
  is read as a float, and the real it denotes rounds to the double.
\<close>

theorem to_chars_rounds_back:
  assumes "is_finite d"
  shows "\<exists>t. to_chars d = Some t \<and> number_reads t T_value_float \<and> text_denotes t d \<and> length t \<le> 24"
  using assms by (rule to_chars_denotes)

theorem to_chars_rounds_back_witness:
  "\<exists>t. to_chars 0xBFF8000000000000 = Some t \<and> take 1 t = ''-'' \<and> length t \<le> 24
     \<and> 3 / 2 - 2 powi (- 53) < magnitude_real (drop 1 t) \<and> magnitude_real (drop 1 t) < 3 / 2 + 2 powi (- 53)"
proof -
  let ?d = "0xBFF8000000000000 :: u64"
  have f: "is_finite ?d" by code_simp
  have m: "magnitude ?d = 0x3FF8000000000000" "sign_bit ?d" by code_simp+
  have b: "lower_boundary 0x3FF8000000000000 = 3 / 2 - 2 powi (- 53)"
    "upper_boundary 0x3FF8000000000000 = 3 / 2 + 2 powi (- 53)"
    by (simp_all add: lower_boundary_def upper_boundary_def double_f_def double_e_def lower_closer_def
        power_int_minus)
  from to_chars_rounds_back[OF f] show ?thesis by (auto simp: text_denotes_def Let_def m b)
qed

subsection \<open>Both ways\<close>

text \<open>
  What the C library promises of \<open>strtod\<close>: a text that denotes a real strictly inside the interval of
  the reals that round to a finite double is converted to that double.
\<close>

definition correctly_rounds :: "(string \<Rightarrow> u64) \<Rightarrow> char \<Rightarrow> u64 \<Rightarrow> bool" where
  "correctly_rounds strtod point d \<longleftrightarrow> is_finite d \<longrightarrow>
     (\<forall>t. number_reads t T_value_float \<and> text_denotes t d \<longrightarrow> strtod (localized point t) = d)"

lemma correctly_rounds_returns: "correctly_rounds strtod point d \<Longrightarrow> float_returns strtod point d"
  using to_chars_denotes[of d] by (auto simp: correctly_rounds_def float_returns_def)

lemma all_floats_mono: "all_floats P j \<Longrightarrow> (\<And>d. P d \<Longrightarrow> Q d) \<Longrightarrow> all_floats Q j"
  by (induction j) (auto simp: list_all_iff)

text \<open>
  C30: What \<open>dump\<close> writes, \<open>parse\<close> reads back: the same value, bit for bit in its floats, with integers
  that are not negative as unsigned ones and numbers that are not finite as null, for every value
  whose objects are ordered and whose strings are UTF-8. It holds compact and indented by up to 512,
  with or without escaping to ASCII, with every error handler and every decimal point of the locale.
\<close>

theorem dump_parse_round_trip:
  assumes "ordered j" "all_strings utf8_ok j" "all_floats (correctly_rounds strtod point) j"
    and "indent \<le> 512" "indent < 0 \<or> is_whitespace (Some ichar)"
  shows "\<exists>t. json_dump indent ichar ascii handler j = Inr t
    \<and> json_parse strtod point allow_exceptions t = Some (Inr (Some (read_back j)))"
proof -
  have "all_floats (float_returns strtod point) j"
    using all_floats_mono[OF assms(3)] correctly_rounds_returns by blast
  from dump_parsed[OF assms(1,2) all_floats_always[OF float_prints_always] this assms(4,5), of ascii handler]
  show ?thesis using json_parse_throws[of strtod point] json_parse_silent[of strtod point]
    by (cases allow_exceptions) fastforce+
qed

theorem dump_parse_round_trip_witness:
  "\<exists>t. json_dump 4 CHR '' '' True Handler_strict
       (JObject [(''a'', JArray [JNull, JInteger (- 5), JString ''b'', JFloat 0x3FE0000000000000])]) = Inr t
    \<and> json_parse (\<lambda>_. 0x3FE0000000000000) CHR '','' True t
      = Some (Inr (Some (JObject [(''a'', JArray [JNull, JInteger (- 5), JString ''b'', JFloat 0x3FE0000000000000])])))"
proof -
  let ?j = "JObject [(''a'', JArray [JNull, JInteger (- 5), JString ''b'', JFloat 0x3FE0000000000000])]"
  let ?strtod = "\<lambda>_. 0x3FE0000000000000 :: u64"
  have "is_finite 0x3FE0000000000000" by code_simp
  then have "ordered ?j" "read_back ?j = ?j" by (simp_all add: omap_ok_def)
  moreover have "all_strings utf8_ok ?j" by code_simp
  moreover have "all_floats (correctly_rounds ?strtod CHR '','') ?j" by (simp add: correctly_rounds_def)
  ultimately show ?thesis
    using dump_parse_round_trip[of ?j ?strtod "CHR '',''" 4 "CHR '' ''" True Handler_strict True]
    by (simp add: is_whitespace_def)
qed

text \<open>
  C37: With the strict handler \<open>dump\<close> throws type error 316 exactly for the values with a string or a
  key that is not UTF-8; for the others it returns the text.
\<close>

theorem dump_throws_iff_not_utf8:
  assumes "indent \<le> 512"
  shows "case json_dump indent ichar ascii Handler_strict j of
      Inl e \<Rightarrow> \<not> all_strings utf8_ok j \<and> (\<exists>w. e = Dump_Throws (Type_Error 316 w))
    | Inr t \<Rightarrow> all_strings utf8_ok j"
  using json_dump_text[OF assms _ all_floats_always[OF float_prints_always], of j ichar ascii Handler_strict]
    json_dump_throws[OF assms _ all_floats_always[OF float_prints_always], of j ichar ascii]
  by (cases "all_strings utf8_ok j") (auto simp: throws_316_def split: sum.split)

theorem dump_throws_iff_not_utf8_witness:
  "\<exists>w. json_dump (- 1) CHR '' '' False Handler_strict (JArray [JString [CHR 0xC3]]) = Inl (Dump_Throws (Type_Error 316 w))"
proof -
  let ?j = "JArray [JString [CHR 0xC3]]"
  have "\<not> all_strings utf8_ok ?j" by code_simp
  then show ?thesis
    using dump_throws_iff_not_utf8[where indent = "- 1" and j = ?j and ichar = "CHR '' ''" and ascii = False] by (auto split: sum.splits)
qed
end
