(* ===== verification/Json_Access.thy ===== *)
theory Json_Access
  imports Text_Writer Address
begin

unbundle bit_operations_syntax

section \<open>JSON values: comparison and access to elements\<close>

text \<open>
  Models of \<open>src/external/nlohmann/json.h\<close> \<open>operator==\<close> on values and the access to elements that JSON
  pointers and patches use: \<open>at\<close>, \<open>operator[]\<close>, \<open>push_back\<close>, \<open>insert\<close> and \<open>erase\<close>. A reference to an
  element is the path to it (\<open>json_at\<close>, \<open>json_update\<close>); an access that creates elements returns the
  changed value with the path.
\<close>

subsection \<open>How an access ends\<close>

text \<open>
  An exception of the library, one of \<open>std::stoi\<close> that nothing catches, \<open>std::length_error\<close> of a
  vector, an assertion that fails, or an access outside a container.
\<close>

datatype access_error =
    Throws json_exception
  | Throws_other_error nat string
  | Throws_stoi stoi_exception
  | Throws_length_error
  | Assertion_fails
  | Out_of_bounds
  | Dump_fails dump_error

definition parse_error_byte :: "nat \<Rightarrow> nat \<Rightarrow> string \<Rightarrow> access_error" where
  "parse_error_byte i byte what =
     Throws (Parse_Error i byte
       (exception_name ''parse_error'' i @ ''parse error''
         @ (if byte \<noteq> 0 then '' at byte '' @ dec_nat byte else []) @ '': '' @ what))"

definition throw_range :: "nat \<Rightarrow> string \<Rightarrow> access_error" where
  "throw_range i what = Throws (out_of_range i what)"

definition throw_type :: "nat \<Rightarrow> string \<Rightarrow> access_error" where
  "throw_type i what = Throws (type_error i what)"

definition quote :: "string \<Rightarrow> string" where
  "quote s = [CHR 0x27] @ s @ [CHR 0x27]"

fun type_name :: "json \<Rightarrow> string" where
  "type_name JNull = ''null''"
| "type_name (JObject m) = ''object''"
| "type_name (JArray xs) = ''array''"
| "type_name (JString s) = ''string''"
| "type_name (JBoolean b) = ''boolean''"
| "type_name j = ''number''"

text \<open>\<open>result.and_then(f)\<close>: go on unless something was thrown.\<close>

definition go_on :: "'e + 'a \<Rightarrow> ('a \<Rightarrow> 'e + 'b) \<Rightarrow> 'e + 'b" where
  "go_on r f = (case r of Inl e \<Rightarrow> Inl e | Inr x \<Rightarrow> f x)"

lemma go_on_simps [simp]: "go_on (Inl e) f = Inl e" "go_on (Inr x) f = f x"
  by (simp_all add: go_on_def)

subsection \<open>operator==\<close>

text \<open>
  \<open>static_cast<double>\<close> of an integer rounds to nearest, ties to even; the fields of the double are
  added, so that a carry out of the fraction goes to the exponent.
\<close>

fun bit_count :: "nat \<Rightarrow> nat" where
  "bit_count n = (if n = 0 then 0 else Suc (bit_count (n div 2)))"

declare bit_count.simps [simp del]

definition double_of_nat :: "nat \<Rightarrow> u64" where
  "double_of_nat n =
     (if n = 0 then 0
      else
        (let k = bit_count n - 1; s = k - 52; q = n div 2 ^ s; r = n mod 2 ^ s;
             up = s \<noteq> 0 \<and> (r > 2 ^ (s - 1) \<or> r = 2 ^ (s - 1) \<and> odd q);
             f = (if k \<le> 52 then n * 2 ^ (52 - k) else if up then q + 1 else q)
         in word_of_nat ((k + 1023) * 2 ^ 52 + (f - 2 ^ 52))))"

definition double_of_int :: "int \<Rightarrow> u64" where
  "double_of_int i =
     (if i < 0 then double_of_nat (nat (- i)) OR 0x8000000000000000 else double_of_nat (nat i))"

definition is_nan :: "u64 \<Rightarrow> bool" where
  "is_nan d \<longleftrightarrow> drop_bit 52 d AND 0x7FF = 0x7FF \<and> d AND 0xFFFFFFFFFFFFF \<noteq> 0"

definition double_eq :: "u64 \<Rightarrow> u64 \<Rightarrow> bool" where
  "double_eq a b \<longleftrightarrow>
     \<not> is_nan a \<and> \<not> is_nan b
     \<and> (a = b \<or> a AND 0x7FFFFFFFFFFFFFFF = 0 \<and> b AND 0x7FFFFFFFFFFFFFFF = 0)"

text \<open>
  Arrays are equal if their elements are, pairwise; objects, maps of the same order, if their pairs
  of key and value are. A conversion between the two integer types keeps the bits.
\<close>

definition scalar_eq :: "json \<Rightarrow> json \<Rightarrow> bool" where
  "scalar_eq i j =
     (case i of
        JNull \<Rightarrow> j = JNull
      | JString s \<Rightarrow> j = JString s
      | JBoolean b \<Rightarrow> j = JBoolean b
      | JInteger v \<Rightarrow>
          (case j of
             JInteger w \<Rightarrow> v = w
           | JUnsigned w \<Rightarrow> v = w
           | JFloat w \<Rightarrow> double_eq (double_of_int (sint v)) w
           | _ \<Rightarrow> False)
      | JUnsigned v \<Rightarrow>
          (case j of
             JUnsigned w \<Rightarrow> v = w
           | JInteger w \<Rightarrow> v = w
           | JFloat w \<Rightarrow> double_eq (double_of_nat (unat v)) w
           | _ \<Rightarrow> False)
      | JFloat v \<Rightarrow>
          (case j of
             JFloat w \<Rightarrow> double_eq v w
           | JInteger w \<Rightarrow> double_eq v (double_of_int (sint w))
           | JUnsigned w \<Rightarrow> double_eq v (double_of_nat (unat w))
           | _ \<Rightarrow> False)
      | _ \<Rightarrow> False)"

fun json_eq :: "json \<Rightarrow> json \<Rightarrow> bool"
  and elements_eq :: "json list \<Rightarrow> json list \<Rightarrow> bool"
  and members_eq :: "(string \<times> json) list \<Rightarrow> (string \<times> json) list \<Rightarrow> bool" where
  "json_eq (JArray xs) j = (case j of JArray ys \<Rightarrow> elements_eq xs ys | _ \<Rightarrow> False)"
| "json_eq (JObject m) j = (case j of JObject n \<Rightarrow> members_eq m n | _ \<Rightarrow> False)"
| "json_eq i j = scalar_eq i j"
| "elements_eq [] ys = (ys = [])"
| "elements_eq (x # xs) ys = (case ys of [] \<Rightarrow> False | y # ys1 \<Rightarrow> json_eq x y \<and> elements_eq xs ys1)"
| "members_eq [] n = (n = [])"
| "members_eq ((k, x) # m) n =
     (case n of [] \<Rightarrow> False | (l, y) # n1 \<Rightarrow> k = l \<and> json_eq x y \<and> members_eq m n1)"

text \<open>A value without a NaN equals itself.\<close>

fun no_nan :: "json \<Rightarrow> bool" where
  "no_nan (JObject m) = list_all (\<lambda>(k, x). no_nan x) m"
| "no_nan (JArray xs) = list_all no_nan xs"
| "no_nan (JFloat d) = (\<not> is_nan d)"
| "no_nan j = True"

lemma json_eq_refl: "no_nan j \<Longrightarrow> json_eq j j"
proof (induction j)
  case (JObject m)
  have "list_all (\<lambda>(k, x). json_eq x x) n \<Longrightarrow> members_eq n n" for n
    by (induction n) auto
  then show ?case using JObject by (fastforce simp: list_all_iff)
next
  case (JArray xs)
  have "list_all (\<lambda>x. json_eq x x) ys \<Longrightarrow> elements_eq ys ys" for ys
    by (induction ys) auto
  then show ?case using JArray by (auto simp: list_all_iff)
qed (auto simp: scalar_eq_def double_eq_def)

subsection \<open>Elements\<close>

text \<open>\<open>static_cast<size_type>\<close> of an \<open>int\<close>.\<close>

definition size_of_int :: "int \<Rightarrow> nat" where
  "size_of_int i = nat (i mod 2 ^ 64)"

definition index_text :: "nat \<Rightarrow> string" where
  "index_text i = ''array index '' @ dec_nat i @ '' is out of range''"

definition at_index :: "nat \<Rightarrow> json \<Rightarrow> access_error + json" where
  "at_index i j =
     (case j of
        JArray xs \<Rightarrow> if i < length xs then Inr (xs ! i) else Inl (throw_range 401 (index_text i))
      | _ \<Rightarrow> Inl (throw_type 304 (''cannot use at() with '' @ type_name j)))"

definition at_key :: "string \<Rightarrow> json \<Rightarrow> access_error + json" where
  "at_key k j =
     (case j of
        JObject m \<Rightarrow>
          (case map_of m k of
             Some x \<Rightarrow> Inr x
           | None \<Rightarrow> Inl (throw_range 403 (''key '' @ quote k @ '' not found'')))
      | _ \<Rightarrow> Inl (throw_type 304 (''cannot use at() with '' @ type_name j)))"

text \<open>
  The changing \<open>operator[]\<close> fills an array with nulls up to the index, the memory for at most
  \<open>max_size()\<close> elements being there. The number of nulls is computed modulo \<open>2 ^ 64\<close> and is zero for
  the index \<open>2 ^ 64 - 1\<close> of an empty array, whose element is then read all the same. Returns the
  elements afterwards.
\<close>

definition fill_to :: "nat \<Rightarrow> json list \<Rightarrow> access_error + json list" where
  "fill_to i xs =
     (if i < length xs then Inr xs
      else
        (let n = (i - length xs + 1) mod 2 ^ 64
         in if n = 0 then Inl Out_of_bounds
            else if length xs + n \<ge> 2 ^ 59 then Inl Throws_length_error
            else Inr (xs @ replicate n JNull)))"

definition subscript_index :: "nat \<Rightarrow> json \<Rightarrow> access_error + json list" where
  "subscript_index i j =
     (case j of
        JNull \<Rightarrow> fill_to i []
      | JArray xs \<Rightarrow> fill_to i xs
      | _ \<Rightarrow> Inl (throw_type 305 (''cannot use operator[] with a numeric argument with '' @ type_name j)))"

text \<open>The changing \<open>operator[]\<close> with a key creates the element; returns the members afterwards.\<close>

definition subscript_key :: "string \<Rightarrow> json \<Rightarrow> access_error + (string \<times> json) list" where
  "subscript_key k j =
     (case j of
        JNull \<Rightarrow> Inr [(k, JNull)]
      | JObject m \<Rightarrow> Inr (omap_emplace k JNull m)
      | _ \<Rightarrow> Inl (throw_type 305 (''cannot use operator[] with a string argument with '' @ type_name j)))"

definition omap_erase :: "string \<Rightarrow> (string \<times> 'v) list \<Rightarrow> (string \<times> 'v) list" where
  "omap_erase k m = filter (\<lambda>p. fst p \<noteq> k) m"

definition erase_key :: "string \<Rightarrow> json \<Rightarrow> access_error + json" where
  "erase_key k j =
     (case j of
        JObject m \<Rightarrow> Inr (JObject (omap_erase k m))
      | _ \<Rightarrow> Inl (throw_type 307 (''cannot use erase() with '' @ type_name j)))"

definition erase_index :: "nat \<Rightarrow> json \<Rightarrow> access_error + json" where
  "erase_index i j =
     (case j of
        JArray xs \<Rightarrow>
          if i \<ge> length xs then Inl (throw_range 401 (index_text i))
          else Inr (JArray (take i xs @ drop (Suc i) xs))
      | _ \<Rightarrow> Inl (throw_type 307 (''cannot use erase() with '' @ type_name j)))"

definition json_push_back :: "json \<Rightarrow> json \<Rightarrow> access_error + json" where
  "json_push_back v j =
     (case j of
        JNull \<Rightarrow> Inr (JArray [v])
      | JArray xs \<Rightarrow> Inr (JArray (xs @ [v]))
      | _ \<Rightarrow> Inl (throw_type 308 (''cannot use push_back() with '' @ type_name j)))"

text \<open>\<open>insert\<close> before the element \<open>i\<close>, at most one past the end.\<close>

definition json_insert :: "nat \<Rightarrow> json \<Rightarrow> json \<Rightarrow> access_error + json" where
  "json_insert i v j =
     (case j of
        JArray xs \<Rightarrow> Inr (JArray (take i xs @ v # drop i xs))
      | _ \<Rightarrow> Inl (throw_type 309 (''cannot use insert() with '' @ type_name j)))"

end
