(* ===== verification/Json_Pointer.thy ===== *)
theory Json_Pointer
  imports Json_Access
begin

section \<open>JSON pointers\<close>

text \<open>
  Models \<open>json_pointer\<close> of \<open>src/external/nlohmann/json.h\<close>: the list of its reference tokens, parsing and
  printing with the escapes \<open>~0\<close> and \<open>~1\<close>, and the four ways it is followed into a value. The
  reference a pointer leads to is the path to it; \<open>get_unchecked\<close> and \<open>get_and_create\<close> create what is
  missing and return the changed value too.
\<close>

type_synonym json_pointer = "string list"

subsection \<open>Parsing and printing\<close>

text \<open>\<open>f\<close> must not be empty, which the code asserts; the search goes on behind the replacement.\<close>

function replace_substring :: "string \<Rightarrow> string \<Rightarrow> string \<Rightarrow> string" where
  "replace_substring s f t =
     (if s = [] \<or> f = [] then s
      else if take (length f) s = f then t @ replace_substring (drop (length f) s) f t
      else hd s # replace_substring (tl s) f t)"
  by pat_completeness auto
termination replace_substring
  by (relation "measure (\<lambda>(s, f, t). length s)") auto

declare replace_substring.simps [simp del]

definition escape_token :: "string \<Rightarrow> string" where
  "escape_token s = replace_substring (replace_substring s ''~'' ''~0'') ''/'' ''~1''"

definition unescape_token :: "string \<Rightarrow> string" where
  "unescape_token s = replace_substring (replace_substring s ''~1'' ''/'') ''~0'' ''~''"

fun tildes_ok :: "string \<Rightarrow> bool" where
  "tildes_ok [] = True"
| "tildes_ok (c # s) =
     ((c = CHR ''~'' \<longrightarrow> s \<noteq> [] \<and> (hd s = CHR ''0'' \<or> hd s = CHR ''1'')) \<and> tildes_ok s)"

text \<open>The texts between the slashes.\<close>

function between_slashes :: "string \<Rightarrow> string list" where
  "between_slashes s =
     (let rest = dropWhile (\<lambda>c. c \<noteq> CHR ''/'') s
      in takeWhile (\<lambda>c. c \<noteq> CHR ''/'') s # (if rest = [] then [] else between_slashes (tl rest)))"
  by pat_completeness auto
termination between_slashes
proof (relation "measure length")
  fix s x :: string
  assume "x = dropWhile (\<lambda>c. c \<noteq> CHR ''/'') s" "x \<noteq> []"
  then have "length (tl x) < length x" "length x \<le> length s" by (simp_all add: length_dropWhile_le)
  then show "(tl x, s) \<in> measure length" by simp
qed simp

declare between_slashes.simps [simp del]

definition split_pointer :: "string \<Rightarrow> access_error + json_pointer" where
  "split_pointer s =
     (if s = [] then Inr []
      else if hd s \<noteq> CHR ''/''
      then Inl (parse_error_byte 107 1 (''JSON pointer must be empty or begin with '' @ quote ''/'' @ '' - was: '' @ quote s))
      else if list_all tildes_ok (between_slashes (tl s))
      then Inr (map unescape_token (between_slashes (tl s)))
      else Inl (parse_error_byte 108 0
        (''escape character '' @ quote ''~'' @ '' must be followed with '' @ quote ''0'' @ '' or '' @ quote ''1'')))"

definition pointer_to_string :: "json_pointer \<Rightarrow> string" where
  "pointer_to_string ts = foldl (\<lambda>a b. a @ ''/'' @ escape_token b) [] ts"

subsection \<open>Tokens\<close>

definition append_pointer :: "json_pointer \<Rightarrow> json_pointer \<Rightarrow> json_pointer" where
  "append_pointer p q = p @ q"

definition append_token :: "json_pointer \<Rightarrow> string \<Rightarrow> json_pointer" where
  "append_token p t = p @ [t]"

definition append_index :: "json_pointer \<Rightarrow> nat \<Rightarrow> json_pointer" where
  "append_index p i = append_token p (dec_nat i)"

definition no_parent :: access_error where
  "no_parent = throw_range 405 ''JSON pointer has no parent''"

definition pop_back :: "json_pointer \<Rightarrow> access_error + json_pointer" where
  "pop_back p = (if p = [] then Inl no_parent else Inr (butlast p))"

definition pointer_back :: "json_pointer \<Rightarrow> access_error + string" where
  "pointer_back p = (if p = [] then Inl no_parent else Inr (last p))"

definition parent_pointer :: "json_pointer \<Rightarrow> access_error + json_pointer" where
  "parent_pointer p = (if p = [] then Inr p else pop_back p)"

definition top_pointer :: "json_pointer \<Rightarrow> access_error + json_pointer" where
  "top_pointer p = (if p = [] then Inl no_parent else Inr [hd p])"

text \<open>\<open>std::stoi\<close> with base 10, and how many characters it has consumed.\<close>

definition stoi_decimal :: "string \<Rightarrow> stoi_exception + int \<times> nat" where
  "stoi_decimal s =
     (let blanks = takeWhile is_space s; t = dropWhile is_space s;
          signed = t \<noteq> [] \<and> (hd t = CHR ''-'' \<or> hd t = CHR ''+'');
          ds = takeWhile (is_digit_of 10) (if signed then tl t else t);
          v = (if signed \<and> hd t = CHR ''-'' then - int (digits_value 10 ds) else int (digits_value 10 ds))
      in if ds = [] then Inl Stoi_invalid_argument
         else if v < INT_MIN \<or> INT_MAX < v then Inl Stoi_out_of_range
         else Inr (v, length blanks + (if signed then 1 else 0) + length ds))"

definition unresolved :: "string \<Rightarrow> access_error" where
  "unresolved t = throw_range 404 (''unresolved reference token '' @ quote t)"

definition array_index :: "string \<Rightarrow> access_error + int" where
  "array_index s =
     (case stoi_decimal s of
        Inl e \<Rightarrow> Inl (Throws_stoi e)
      | Inr (res, processed_chars) \<Rightarrow> if processed_chars \<noteq> length s then Inl (unresolved s) else Inr res)"

text \<open>The call of \<open>array_index\<close> in a try block that catches \<open>std::invalid_argument\<close>.\<close>

definition caught_index :: "string \<Rightarrow> access_error + nat" where
  "caught_index t =
     (case array_index t of
        Inl e \<Rightarrow>
          if e = Throws_stoi Stoi_invalid_argument
          then Inl (parse_error_byte 109 0 (''array index '' @ quote t @ '' is not a number''))
          else Inl e
      | Inr i \<Rightarrow> Inr (size_of_int i))"

definition leading_zero :: "string \<Rightarrow> bool" where
  "leading_zero t \<longleftrightarrow> length t > 1 \<and> hd t = CHR ''0''"

definition leading_zero_error :: "string \<Rightarrow> access_error" where
  "leading_zero_error t = parse_error_byte 106 0 (''array index '' @ quote t @ '' must not begin with '' @ quote ''0'')"

definition dash_error :: "json list \<Rightarrow> access_error" where
  "dash_error xs = throw_range 402 (''array index '' @ quote ''-'' @ '' ('' @ dec_nat (length xs) @ '') is out of range'')"

subsection \<open>Following a pointer\<close>

text \<open>\<open>get_checked\<close>, which both \<open>at\<close> functions call.\<close>

fun get_checked :: "json_pointer \<Rightarrow> json \<Rightarrow> access_error + path" where
  "get_checked [] j = Inr []"
| "get_checked (t # ts) j =
     (case j of
        JObject m \<Rightarrow>
          go_on (at_key t j) (\<lambda>x.
          go_on (get_checked ts x) (\<lambda>p. Inr (At_key t # p)))
      | JArray xs \<Rightarrow>
          if t = ''-'' then Inl (dash_error xs)
          else if leading_zero t then Inl (leading_zero_error t)
          else
            go_on (caught_index t) (\<lambda>i.
            go_on (at_index i j) (\<lambda>x.
            go_on (get_checked ts x) (\<lambda>p. Inr (At_index i # p))))
      | _ \<Rightarrow> Inl (unresolved t))"

text \<open>
  The constant \<open>get_unchecked\<close>: a key that is missing fails the assertion of the constant
  \<open>operator[]\<close>, an index outside of the array is read all the same.
\<close>

fun get_unchecked_const :: "json_pointer \<Rightarrow> json \<Rightarrow> access_error + path" where
  "get_unchecked_const [] j = Inr []"
| "get_unchecked_const (t # ts) j =
     (case j of
        JObject m \<Rightarrow>
          (case map_of m t of
             None \<Rightarrow> Inl Assertion_fails
           | Some x \<Rightarrow> go_on (get_unchecked_const ts x) (\<lambda>p. Inr (At_key t # p)))
      | JArray xs \<Rightarrow>
          if t = ''-'' then Inl (dash_error xs)
          else if leading_zero t then Inl (leading_zero_error t)
          else
            go_on (caught_index t) (\<lambda>i.
              if i < length xs then go_on (get_unchecked_const ts (xs ! i)) (\<lambda>p. Inr (At_index i # p))
              else Inl Out_of_bounds)
      | _ \<Rightarrow> Inl (unresolved t))"

text \<open>A null becomes an array if the token can be an index, else an object.\<close>

definition null_container :: "string \<Rightarrow> json" where
  "null_container t =
     (if list_all (\<lambda>c. CHR ''0'' \<le> c \<and> c \<le> CHR ''9'') t \<or> t = ''-'' then JArray [] else JObject [])"

fun get_unchecked :: "json_pointer \<Rightarrow> json \<Rightarrow> access_error + json \<times> path" where
  "get_unchecked [] j = Inr (j, [])"
| "get_unchecked (t # ts) j =
     (let j1 = (if j = JNull then null_container t else j)
      in case j1 of
           JObject m \<Rightarrow>
             go_on (subscript_key t j1) (\<lambda>m1.
             go_on (get_unchecked ts (the (map_of m1 t))) (\<lambda>(x, p).
               Inr (JObject (omap_assign t x m1), At_key t # p)))
         | JArray xs \<Rightarrow>
             if leading_zero t then Inl (leading_zero_error t)
             else
               go_on (if t = ''-'' then Inr (length xs) else caught_index t) (\<lambda>i.
               go_on (subscript_index i j1) (\<lambda>xs1.
               go_on (get_unchecked ts (xs1 ! i)) (\<lambda>(x, p).
                 Inr (JArray (xs1[i := x]), At_index i # p))))
         | _ \<Rightarrow> Inl (unresolved t))"

fun get_and_create :: "json_pointer \<Rightarrow> json \<Rightarrow> access_error + json \<times> path" where
  "get_and_create [] j = Inr (j, [])"
| "get_and_create (t # ts) j =
     (let with_key = go_on (subscript_key t j) (\<lambda>m1.
            go_on (get_and_create ts (the (map_of m1 t))) (\<lambda>(x, p).
              Inr (JObject (omap_assign t x m1), At_key t # p)));
          with_index = (\<lambda>i. go_on (subscript_index i j) (\<lambda>xs1.
            go_on (get_and_create ts (xs1 ! i)) (\<lambda>(x, p).
              Inr (JArray (xs1[i := x]), At_index i # p))))
      in case j of
           JNull \<Rightarrow> if t = ''0'' then with_index 0 else with_key
         | JObject m \<Rightarrow> with_key
         | JArray xs \<Rightarrow> go_on (caught_index t) with_index
         | _ \<Rightarrow> Inl (throw_type 313 ''invalid value to unflatten''))"

end
