(* ===== verification/Json_Patch.thy ===== *)
theory Json_Patch
  imports Json_Pointer
begin

section \<open>JSON patches\<close>

text \<open>
  Models \<open>patch\<close>, \<open>diff\<close>, \<open>merge_patch\<close>, \<open>flatten\<close> and \<open>unflatten\<close> of \<open>src/external/nlohmann/json.h\<close>. A
  patch is a JSON value, an array of operations; \<open>diff\<close> is compared with its documented invariant in
  \<open>Json_Patch_Laws\<close>.
\<close>

subsection \<open>patch\<close>

datatype patch_operations =
    Op_add | Op_remove | Op_replace | Op_move | Op_copy | Op_test | Op_invalid

definition get_op :: "string \<Rightarrow> patch_operations" where
  "get_op op =
     (if op = ''add'' then Op_add
      else if op = ''remove'' then Op_remove
      else if op = ''replace'' then Op_replace
      else if op = ''move'' then Op_move
      else if op = ''copy'' then Op_copy
      else if op = ''test'' then Op_test
      else Op_invalid)"

text \<open>The new value of the parent of the element that is added.\<close>

definition add_child :: "string \<Rightarrow> json \<Rightarrow> json \<Rightarrow> access_error + json" where
  "add_child last_path val parent =
     (case parent of
        JNull \<Rightarrow> go_on (subscript_key last_path parent) (\<lambda>m. Inr (JObject (omap_assign last_path val m)))
      | JObject n \<Rightarrow> go_on (subscript_key last_path parent) (\<lambda>m. Inr (JObject (omap_assign last_path val m)))
      | JArray xs \<Rightarrow>
          if last_path = ''-'' then json_push_back val parent
          else
            go_on (array_index last_path) (\<lambda>idx.
              if size_of_int idx > length xs
              then Inl (throw_range 401 (''array index '' @ dec_int idx @ '' is out of range''))
              else json_insert (size_of_int idx) val parent)
      | _ \<Rightarrow> Inl Assertion_fails)"

definition operation_add :: "json_pointer \<Rightarrow> json \<Rightarrow> json \<Rightarrow> access_error + json" where
  "operation_add ptr val result =
     (if ptr = [] then Inr val
      else
        go_on (top_pointer ptr) (\<lambda>top.
        go_on (if top \<noteq> ptr then get_checked top result else Inr []) (\<lambda>_.
        go_on (pointer_back ptr) (\<lambda>last_path.
        go_on (pop_back ptr) (\<lambda>ptr1.
        go_on (get_unchecked ptr1 result) (\<lambda>(result1, p).
        go_on (add_child last_path val (the (json_at p result1))) (\<lambda>parent.
          Inr (json_update p (\<lambda>_. parent) result1))))))))"

definition remove_child :: "string \<Rightarrow> json \<Rightarrow> access_error + json" where
  "remove_child last_path parent =
     (case parent of
        JObject m \<Rightarrow>
          (case map_of m last_path of
             Some x \<Rightarrow> erase_key last_path parent
           | None \<Rightarrow> Inl (throw_range 403 (''key '' @ quote last_path @ '' not found'')))
      | JArray xs \<Rightarrow> go_on (array_index last_path) (\<lambda>idx. erase_index (size_of_int idx) parent)
      | _ \<Rightarrow> Inr parent)"

definition operation_remove :: "json_pointer \<Rightarrow> json \<Rightarrow> access_error + json" where
  "operation_remove ptr result =
     go_on (pointer_back ptr) (\<lambda>last_path.
     go_on (pop_back ptr) (\<lambda>ptr1.
     go_on (get_checked ptr1 result) (\<lambda>p.
     go_on (remove_child last_path (the (json_at p result))) (\<lambda>parent.
       Inr (json_update p (\<lambda>_. parent) result)))))"

definition json_is_string :: "json \<Rightarrow> bool" where
  "json_is_string j = (case j of JString s \<Rightarrow> True | _ \<Rightarrow> False)"

definition get_value :: "(string \<times> json) list \<Rightarrow> string \<Rightarrow> string \<Rightarrow> bool \<Rightarrow> access_error + json" where
  "get_value val op member string_type =
     (let error_msg = (if op = ''op'' then ''operation'' else ''operation '' @ quote op)
      in case map_of val member of
           None \<Rightarrow> Inl (parse_error_byte 105 0 (error_msg @ '' must have member '' @ quote member))
         | Some x \<Rightarrow>
             if string_type \<and> \<not> json_is_string x
             then Inl (parse_error_byte 105 0 (error_msg @ '' must have string member '' @ quote member))
             else Inr x)"

text \<open>The conversion to \<open>std::string\<close> of a value \<open>get_value\<close> has found to be a string.\<close>

definition string_value :: "json \<Rightarrow> string" where
  "string_value j = (case j of JString s \<Rightarrow> s | _ \<Rightarrow> [])"

text \<open>
  One operation. The right side of the assignment is evaluated before its left side; the order of
  the two sides of \<open>==\<close> is not specified, here the left one is evaluated first. The exception of a
  test that fails holds the text of the operation, so that \<open>dump\<close> may throw before it is made.
\<close>

definition operation_test :: "json \<Rightarrow> (string \<times> json) list \<Rightarrow> json_pointer \<Rightarrow> access_error + json" where
  "operation_test result val ptr =
     go_on
       (case get_checked ptr result of
          Inl e \<Rightarrow> (case e of Throws (Out_Of_Range i w) \<Rightarrow> Inr False | _ \<Rightarrow> Inl e)
        | Inr p \<Rightarrow>
            go_on (get_value val ''test'' ''value'' False) (\<lambda>v. Inr (json_eq (the (json_at p result)) v)))
       (\<lambda>success.
          if success then Inr result
          else
            (case json_dump (- 1) CHR '' '' False Handler_strict (JObject val) of
               Inl e \<Rightarrow> Inl (Dump_fails e)
             | Inr text \<Rightarrow>
                 Inl (Throws_other_error 501 (exception_name ''other_error'' 501 @ ''unsuccessful: '' @ text))))"

definition patch_operation :: "(string \<times> json) list \<Rightarrow> json \<Rightarrow> access_error + json" where
  "patch_operation val result =
     go_on (get_value val ''op'' ''op'' True) (\<lambda>op_value.
     go_on (get_value val (string_value op_value) ''path'' True) (\<lambda>path_value.
     go_on (split_pointer (string_value path_value)) (\<lambda>ptr.
       (case get_op (string_value op_value) of
          Op_add \<Rightarrow> go_on (get_value val ''add'' ''value'' False) (\<lambda>v. operation_add ptr v result)
        | Op_remove \<Rightarrow> operation_remove ptr result
        | Op_replace \<Rightarrow>
            go_on (get_value val ''replace'' ''value'' False) (\<lambda>v.
            go_on (get_checked ptr result) (\<lambda>p. Inr (json_update p (\<lambda>_. v) result)))
        | Op_move \<Rightarrow>
            go_on (get_value val ''move'' ''from'' True) (\<lambda>from_value.
            go_on (split_pointer (string_value from_value)) (\<lambda>from_ptr.
            go_on (get_checked from_ptr result) (\<lambda>p.
            go_on (operation_remove from_ptr result) (\<lambda>result1.
              operation_add ptr (the (json_at p result)) result1))))
        | Op_copy \<Rightarrow>
            go_on (get_value val ''copy'' ''from'' True) (\<lambda>from_value.
            go_on (split_pointer (string_value from_value)) (\<lambda>from_ptr.
            go_on (get_checked from_ptr result) (\<lambda>p.
              operation_add ptr (the (json_at p result)) result)))
        | Op_test \<Rightarrow> operation_test result val ptr
        | Op_invalid \<Rightarrow>
            Inl (parse_error_byte 105 0 (''operation value '' @ quote (string_value op_value) @ '' is invalid''))))))"

definition not_a_patch :: access_error where
  "not_a_patch = parse_error_byte 104 0 ''JSON patch must be an array of objects''"

fun patch_loop :: "json list \<Rightarrow> json \<Rightarrow> access_error + json" where
  "patch_loop [] result = Inr result"
| "patch_loop (v # vs) result =
     go_on (case v of JObject val \<Rightarrow> patch_operation val result | _ \<Rightarrow> Inl not_a_patch) (patch_loop vs)"

definition patch :: "json \<Rightarrow> json \<Rightarrow> access_error + json" where
  "patch j json_patch = (case json_patch of JArray vs \<Rightarrow> patch_loop vs j | _ \<Rightarrow> Inl not_a_patch)"

subsection \<open>diff\<close>

text \<open>The operations, objects with their keys in order, built from initializer lists.\<close>

definition remove_op :: "string \<Rightarrow> json" where
  "remove_op path = json_init [JArray [JString ''op'', JString ''remove''], JArray [JString ''path'', JString path]]"

definition value_op :: "string \<Rightarrow> string \<Rightarrow> json \<Rightarrow> json" where
  "value_op op path v =
     json_init [JArray [JString ''op'', JString op], JArray [JString ''path'', JString path], JArray [JString ''value'', v]]"

text \<open>The paths of the elements \<open>i\<close>, \<open>i + 1\<close> and so on of the array at \<open>path\<close>.\<close>

definition index_path :: "string \<Rightarrow> nat \<Rightarrow> string" where
  "index_path path i = path @ ''/'' @ dec_nat i"

definition key_path :: "string \<Rightarrow> string \<Rightarrow> string" where
  "key_path path k = path @ ''/'' @ escape_token k"

text \<open>
  The operations of \<open>diff\<close>. What is left of the source array is removed from the end, what is left of
  the target array is added in order; only one of the two is not empty. Values of different types, and
  scalars that are not equal, are replaced.
\<close>

fun diff_ops :: "string \<Rightarrow> json \<Rightarrow> json \<Rightarrow> json list"
  and diff_elements :: "string \<Rightarrow> nat \<Rightarrow> json list \<Rightarrow> json list \<Rightarrow> json list"
  and diff_members :: "string \<Rightarrow> (string \<times> json) list \<Rightarrow> (string \<times> json) list \<Rightarrow> json list" where
  "diff_ops path (JArray xs) target =
     (if json_eq (JArray xs) target then []
      else case target of
        JArray ys \<Rightarrow> diff_elements path 0 xs ys
      | _ \<Rightarrow> [value_op ''replace'' path target])"
| "diff_ops path (JObject m) target =
     (if json_eq (JObject m) target then []
      else case target of
        JObject n \<Rightarrow>
          diff_members path m n
          @ map (\<lambda>(k, y). value_op ''add'' (key_path path k) y) (filter (\<lambda>(k, y). map_of m k = None) n)
      | _ \<Rightarrow> [value_op ''replace'' path target])"
| "diff_ops path source target = (if json_eq source target then [] else [value_op ''replace'' path target])"
| "diff_elements path i [] ys = map (\<lambda>(k, y). value_op ''add'' (index_path path k) y) (enumerate i ys)"
| "diff_elements path i (x # xs) ys =
     (case ys of
        [] \<Rightarrow> rev (map (\<lambda>k. remove_op (index_path path k)) [i..<i + Suc (length xs)])
      | y # ys1 \<Rightarrow> diff_ops (index_path path i) x y @ diff_elements path (Suc i) xs ys1)"
| "diff_members path [] n = []"
| "diff_members path ((k, x) # m) n =
     (case map_of n k of
        Some y \<Rightarrow> diff_ops (key_path path k) x y
      | None \<Rightarrow> [remove_op (key_path path k)]) @ diff_members path m n"

definition diff :: "json \<Rightarrow> json \<Rightarrow> json" where
  "diff source target = JArray (diff_ops [] source target)"

subsection \<open>merge\_patch\<close>

text \<open>The patch is the first argument, the value it is applied to the second.\<close>

fun merge_patch :: "json \<Rightarrow> json \<Rightarrow> json"
  and merge_members :: "(string \<times> json) list \<Rightarrow> (string \<times> json) list \<Rightarrow> (string \<times> json) list" where
  "merge_patch (JObject p) target =
     JObject (merge_members p (case target of JObject m \<Rightarrow> m | _ \<Rightarrow> []))"
| "merge_patch p target = p"
| "merge_members [] m = m"
| "merge_members ((k, v) # p) m =
     merge_members p
       (if v = JNull then omap_erase k m
        else omap_assign k (merge_patch v (case map_of m k of Some x \<Rightarrow> x | None \<Rightarrow> JNull)) m)"

subsection \<open>flatten and unflatten\<close>

fun flatten_into :: "string \<Rightarrow> json \<Rightarrow> (string \<times> json) list \<Rightarrow> (string \<times> json) list"
  and flatten_elements :: "string \<Rightarrow> nat \<Rightarrow> json list \<Rightarrow> (string \<times> json) list \<Rightarrow> (string \<times> json) list"
  and flatten_members :: "string \<Rightarrow> (string \<times> json) list \<Rightarrow> (string \<times> json) list \<Rightarrow> (string \<times> json) list" where
  "flatten_into r (JArray xs) result =
     (if xs = [] then omap_assign r JNull result else flatten_elements r 0 xs result)"
| "flatten_into r (JObject m) result =
     (if m = [] then omap_assign r JNull result else flatten_members r m result)"
| "flatten_into r value result = omap_assign r value result"
| "flatten_elements r i [] result = result"
| "flatten_elements r i (x # xs) result =
     flatten_elements r (Suc i) xs (flatten_into (index_path r i) x result)"
| "flatten_members r [] result = result"
| "flatten_members r ((k, x) # m) result = flatten_members r m (flatten_into (key_path r k) x result)"

definition json_flatten :: "json \<Rightarrow> json" where
  "json_flatten j = JObject (flatten_into [] j [])"

definition is_primitive :: "json \<Rightarrow> bool" where
  "is_primitive j = (case j of JArray xs \<Rightarrow> False | JObject m \<Rightarrow> False | _ \<Rightarrow> True)"

fun unflatten_loop :: "(string \<times> json) list \<Rightarrow> json \<Rightarrow> access_error + json" where
  "unflatten_loop [] result = Inr result"
| "unflatten_loop ((k, v) # m) result =
     (if \<not> is_primitive v then Inl (throw_type 315 ''values in object must be primitive'')
      else
        go_on (split_pointer k) (\<lambda>ptr.
        go_on (get_and_create ptr result) (\<lambda>(result1, p).
          unflatten_loop m (json_update p (\<lambda>_. v) result1))))"

definition json_unflatten :: "json \<Rightarrow> access_error + json" where
  "json_unflatten j =
     (case j of
        JObject m \<Rightarrow> unflatten_loop m JNull
      | _ \<Rightarrow> Inl (throw_type 314 ''only objects can be unflattened''))"

end
