(* ===== verification/Json_Patch_Laws.thy ===== *)
theory Json_Patch_Laws
  imports Json_Patch Text_Round_Trip
begin

section \<open>What JSON pointers and patches promise\<close>

text \<open>
  The documented invariants of \<open>json_pointer\<close>, \<open>diff\<close> and \<open>merge_patch\<close> of
  \<open>src/external/nlohmann/json.h\<close>: a pointer is read back from its text, the patch \<open>diff\<close> makes turns
  the source into a value equal to the target, a merge patch does what RFC 7396 says. The place an
  operation changes is a \<open>hole\<close>, a path with the value around it.
\<close>

subsection \<open>Pointers and their text\<close>

definition escape_char :: "char \<Rightarrow> string" where
  "escape_char c = (if c = CHR ''~'' then ''~0'' else if c = CHR ''/'' then ''~1'' else [c])"

lemma replace_nil [simp]: "replace_substring [] f t = []"
  by (simp add: replace_substring.simps)

lemma replace_single [simp]:
  "replace_substring (c # s) [a] t = (if c = a then t @ replace_substring s [a] t else c # replace_substring s [a] t)"
  by (subst replace_substring.simps) simp

lemma replace_pair:
  "c \<noteq> a \<Longrightarrow> replace_substring (c # s) [a, b] t = c # replace_substring s [a, b] t"
  "replace_substring (a # b # s) [a, b] t = t @ replace_substring s [a, b] t"
  "d \<noteq> b \<Longrightarrow> replace_substring (a # d # s) [a, b] t = a # replace_substring (d # s) [a, b] t"
  by (subst replace_substring.simps; simp)+

lemma replace_char: "replace_substring s [c] t = concat (map (\<lambda>d. if d = c then t else [d]) s)"
  by (induction s) simp_all

lemma escape_token_chars: "escape_token s = concat (map escape_char s)"
proof -
  have "concat (map (\<lambda>d. if d = CHR ''/'' then ''~1'' else [d])
      (concat (map (\<lambda>d. if d = CHR ''~'' then ''~0'' else [d]) s))) = concat (map escape_char s)"
    by (induction s) (simp_all add: escape_char_def)
  then show ?thesis by (simp add: escape_token_def replace_char)
qed

lemma unescape_slashes:
  "replace_substring (concat (map escape_char s)) ''~1'' ''/''
   = concat (map (\<lambda>d. if d = CHR ''~'' then ''~0'' else [d]) s)"
  by (induction s) (simp_all add: replace_pair escape_char_def)

lemma unescape_tildes:
  "replace_substring (concat (map (\<lambda>d. if d = CHR ''~'' then ''~0'' else [d]) s)) ''~0'' ''~'' = s"
  by (induction s) (simp_all add: replace_pair)

lemma unescape_escape: "unescape_token (escape_token s) = s"
  by (simp only: unescape_token_def escape_token_chars unescape_slashes unescape_tildes)

lemma escape_token_ok: "tildes_ok (escape_token s)" "CHR ''/'' \<notin> set (escape_token s)"
proof -
  show "tildes_ok (escape_token s)"
    unfolding escape_token_chars by (induction s) (simp_all add: escape_char_def)
  show "CHR ''/'' \<notin> set (escape_token s)"
    unfolding escape_token_chars by (auto simp: escape_char_def split: if_splits)
qed

lemma between_slashes_concat:
  assumes "CHR ''/'' \<notin> set a" "\<forall>b \<in> set bs. CHR ''/'' \<notin> set b"
  shows "between_slashes (a @ concat (map (\<lambda>b. CHR ''/'' # b) bs)) = a # bs"
  using assms
proof (induction bs arbitrary: a)
  case Nil
  then have "takeWhile (\<lambda>c. c \<noteq> CHR ''/'') a = a" "dropWhile (\<lambda>c. c \<noteq> CHR ''/'') a = []"
    by (auto simp: takeWhile_eq_all_conv dropWhile_eq_Nil_conv)
  then show ?case by (simp add: between_slashes.simps[of a])
next
  case (Cons b bs)
  let ?s = "a @ CHR ''/'' # b @ concat (map (\<lambda>b. CHR ''/'' # b) bs)"
  have "takeWhile (\<lambda>c. c \<noteq> CHR ''/'') ?s = a"
    "dropWhile (\<lambda>c. c \<noteq> CHR ''/'') ?s = CHR ''/'' # b @ concat (map (\<lambda>b. CHR ''/'' # b) bs)"
    using Cons.prems(1) by (auto simp: takeWhile_append dropWhile_append)
  then show ?case using Cons by (simp add: between_slashes.simps[of ?s] Let_def)
qed

lemma pointer_to_string_concat: "pointer_to_string ts = concat (map (\<lambda>t. CHR ''/'' # escape_token t) ts)"
proof -
  have "foldl (\<lambda>a b. a @ ''/'' @ escape_token b) r ts = r @ concat (map (\<lambda>t. CHR ''/'' # escape_token t) ts)" for r
    by (induction ts arbitrary: r) simp_all
  then show ?thesis by (simp add: pointer_to_string_def)
qed

text \<open>The documented invariant of \<open>to_string\<close>: a pointer is read back from its text.\<close>

lemma split_pointer_to_string: "split_pointer (pointer_to_string ts) = Inr ts"
proof (cases ts)
  case Nil
  then show ?thesis by (simp add: split_pointer_def pointer_to_string_def)
next
  case (Cons t us)
  have "between_slashes (escape_token t @ concat (map (\<lambda>b. CHR ''/'' # b) (map escape_token us)))
      = escape_token t # map escape_token us"
    by (rule between_slashes_concat) (auto simp: escape_token_ok)
  then have s: "between_slashes (tl (pointer_to_string ts)) = map escape_token ts"
    by (simp add: Cons pointer_to_string_concat comp_def)
  have "list_all tildes_ok (map escape_token ts)" by (auto simp: list_all_iff escape_token_ok)
  moreover have "map unescape_token (map escape_token ts) = ts" by (simp add: comp_def unescape_escape)
  moreover have "pointer_to_string ts \<noteq> []" "hd (pointer_to_string ts) = CHR ''/''"
    by (simp_all add: Cons pointer_to_string_concat)
  ultimately show ?thesis unfolding split_pointer_def s by simp
qed

subsection \<open>Indices\<close>

lemma stoi_decimal_dec_nat: "int n \<le> INT_MAX \<Longrightarrow> stoi_decimal (dec_nat n) = Inr (int n, length (dec_nat n))"
proof -
  assume n: "int n \<le> INT_MAX"
  let ?t = "dec_nat n"
  have hd: "hd ?t \<in> set ''0123456789''"
    using set_dec_nat[of n] dec_nat_nonempty[of n] hd_in_set by blast
  have blank: "takeWhile is_space ?t = []" "dropWhile is_space ?t = ?t"
    using digits_facts(1)[OF hd] by (cases ?t; simp)+
  have digits: "takeWhile (is_digit_of 10) ?t = ?t"
    using set_dec_nat[of n] digits_facts(8) by (intro takeWhile_eq_all_conv[THEN iffD2]) blast
  have unsigned: "(?t \<noteq> [] \<and> (hd ?t = CHR ''-'' \<or> hd ?t = CHR ''+'')) = False"
    using digits_facts(2,3)[OF hd] by simp
  show ?thesis
    unfolding stoi_decimal_def Let_def blank unsigned if_False digits simp_thms digits_value_dec_nat
    using n by (simp add: INT_MIN_def)
qed

lemma array_index_dec_nat: "int n \<le> INT_MAX \<Longrightarrow> array_index (dec_nat n) = Inr (int n)"
  by (simp add: array_index_def stoi_decimal_dec_nat)

lemma size_of_index: "int n \<le> INT_MAX \<Longrightarrow> size_of_int (int n) = n"
  by (simp add: size_of_int_def INT_MAX_def)

lemma caught_index_dec_nat: "int n \<le> INT_MAX \<Longrightarrow> caught_index (dec_nat n) = Inr n"
  by (simp add: caught_index_def array_index_dec_nat size_of_index)

lemma dec_nat_token: "\<not> leading_zero (dec_nat n)" "dec_nat n \<noteq> ''-''"
proof -
  show "\<not> leading_zero (dec_nat n)"
    using hd_dec_nat[of n] by (cases "n = 0") (auto simp: leading_zero_def dec_nat.simps[of 0])
  show "dec_nat n \<noteq> ''-''" using set_dec_nat[of n] by auto
qed

subsection \<open>Ordered maps\<close>

lemma omap_emplace_present: "omap_ok m \<Longrightarrow> map_of m k = Some x \<Longrightarrow> omap_emplace k v m = m"
proof (induction m)
  case (Cons p m)
  obtain j w where p: "p = (j, w)" by (cases p)
  from Cons.prems(1) have m: "omap_ok m" "\<forall>l \<in> fst ` set m. j < l" by (auto simp: omap_ok_def p)
  show ?case
  proof (cases "j = k")
    case False
    then have "map_of m k = Some x" using Cons.prems(2) by (simp add: p)
    moreover from this have "j < k" using m(2) by (force dest: map_of_SomeD)
    ultimately show ?thesis using Cons.IH m(1) False by (auto simp: p)
  qed (simp add: p)
qed simp

lemma omap_assign_present: "omap_ok m \<Longrightarrow> map_of m k = Some x \<Longrightarrow> omap_assign k x m = m"
proof (induction m)
  case (Cons p m)
  obtain j w where p: "p = (j, w)" by (cases p)
  from Cons.prems(1) have m: "omap_ok m" "\<forall>l \<in> fst ` set m. j < l" by (auto simp: omap_ok_def p)
  show ?case
  proof (cases "j = k")
    case False
    then have "map_of m k = Some x" using Cons.prems(2) by (simp add: p)
    moreover from this have "j < k" using m(2) by (force dest: map_of_SomeD)
    ultimately show ?thesis using Cons.IH m(1) False by (auto simp: p)
  qed (use Cons.prems(2) in \<open>simp add: p\<close>)
qed simp

lemma omap_assign_emplace: "omap_assign k x (omap_emplace k v m) = omap_assign k x m"
  by (induction m) auto

lemma omap_assign_twice: "omap_assign k x (omap_assign k y m) = omap_assign k x m"
  by (induction m) auto

lemma omap_erase_ok: "omap_ok m \<Longrightarrow> omap_ok (omap_erase k m)"
  by (induction m) (auto simp: omap_ok_def omap_erase_def)

lemma map_of_omap_erase: "map_of (omap_erase k m) = (map_of m)(k := None)"
  by (induction m) (auto simp: omap_erase_def)

lemma list_all_omap_assign: "list_all P m \<Longrightarrow> P (k, v) \<Longrightarrow> list_all P (omap_assign k v m)"
  by (induction m) auto

lemma list_all_omap_erase: "list_all P m \<Longrightarrow> list_all P (omap_erase k m)"
  by (auto simp: list_all_iff omap_erase_def)

text \<open>Ordered maps with equal elements at equal keys are equal.\<close>

lemma omap_keys:
  assumes "omap_ok m" "omap_ok n" "dom (map_of m) = dom (map_of n)"
  shows "map fst m = map fst n"
proof -
  have "set (map fst m) = set (map fst n)" using assms(3) by (simp add: dom_map_of_conv_image_fst)
  moreover have "sorted_wrt (<) (map fst m)" "sorted_wrt (<) (map fst n)" using assms(1,2) by (simp_all add: omap_ok_def)
  ultimately show ?thesis by (intro strict_sorted_equal) simp_all
qed

lemma members_eq_pointwise:
  assumes "omap_ok m" "omap_ok n" "dom (map_of m) = dom (map_of n)"
    and "\<And>k x y. map_of m k = Some x \<Longrightarrow> map_of n k = Some y \<Longrightarrow> json_eq x y"
  shows "members_eq m n"
proof -
  have keys: "map fst m = map fst n" using assms(1-3) by (rule omap_keys)
  have "distinct (map fst m)" "distinct (map fst n)"
    using assms(1,2) by (simp_all add: omap_ok_def strict_sorted_iff)
  then have "(k, x) \<in> set m \<Longrightarrow> (k, y) \<in> set n \<Longrightarrow> json_eq x y" for k x y
    using assms(4) by simp
  with keys show ?thesis
  proof (induction m arbitrary: n)
    case (Cons p m)
    obtain k x where p: "p = (k, x)" by (cases p)
    from Cons.prems(1) obtain y n1 where n: "n = (k, y) # n1" "map fst m = map fst n1"
      by (cases n) (auto simp: p)
    show ?case using Cons.IH[OF n(2)] Cons.prems(2) by (auto simp: p n(1))
  qed simp
qed

subsection \<open>Pointers to an element that is there\<close>

fun step_token :: "path_step \<Rightarrow> string" where
  "step_token (At_index i) = dec_nat i"
| "step_token (At_key k) = k"

text \<open>The indices \<open>std::stoi\<close> can return.\<close>

fun small_step :: "path_step \<Rightarrow> bool" where
  "small_step (At_index i) \<longleftrightarrow> int i \<le> INT_MAX"
| "small_step (At_key k) \<longleftrightarrow> True"

lemma get_checked_present:
  "json_at p j = Some x \<Longrightarrow> list_all small_step p \<Longrightarrow> get_checked (map step_token p) j = Inr p"
proof (induction p j rule: json_at.induct)
  case (2 i p xs)
  then show ?case by (auto simp: dec_nat_token caught_index_dec_nat at_index_def split: if_splits)
next
  case (3 k p m)
  then show ?case by (cases "map_of m k") (auto simp: at_key_def)
qed auto

lemma get_unchecked_present:
  "json_at p j = Some x \<Longrightarrow> list_all small_step p \<Longrightarrow> ordered j \<Longrightarrow>
     get_unchecked (map step_token p) j = Inr (j, p)"
proof (induction p j rule: json_at.induct)
  case (2 i p xs)
  then have i: "i < length xs" "json_at p (xs ! i) = Some x" by (auto split: if_splits)
  then have "ordered (xs ! i)" using 2(4) by (simp add: list_all_iff)
  with 2 i show ?case by (simp add: dec_nat_token caught_index_dec_nat subscript_index_def fill_to_def Let_def)
next
  case (3 k p m)
  then obtain y where y: "map_of m k = Some y" "json_at p y = Some x" by (cases "map_of m k") auto
  then have "ordered y" using 3(4) by (auto simp: list_all_iff dest: map_of_SomeD)
  with 3 y show ?case by (simp add: subscript_key_def omap_emplace_present omap_assign_present Let_def)
qed auto

text \<open>A place in an ordered value: the path to it and the value around it.\<close>

definition hole :: "path \<Rightarrow> (json \<Rightarrow> json) \<Rightarrow> bool" where
  "hole p C \<longleftrightarrow> points p C \<and> list_all small_step p \<and> (\<forall>x. ordered x \<longrightarrow> ordered (C x))"

lemma hole_root: "hole [] (\<lambda>x. x)"
  by (simp add: hole_def points_root)

lemma hole_index:
  "hole p C \<Longrightarrow> list_all ordered (zs @ xs) \<Longrightarrow> int (length zs) \<le> INT_MAX \<Longrightarrow>
     hole (p @ [At_index (length zs)]) (\<lambda>x. C (JArray (zs @ x # xs)))"
  by (simp add: hole_def points_def json_at_append json_update_append)

lemma hole_key:
  "hole p C \<Longrightarrow> ordered (JObject m) \<Longrightarrow> hole (p @ [At_key k]) (\<lambda>x. C (JObject (omap_assign k x m)))"
  by (simp add: hole_def points_key omap_ok_assign list_all_omap_assign)

lemma hole_followed:
  assumes "hole p C"
  shows "json_at p (C x) = Some x" "json_update p f (C x) = C (f x)"
    "get_checked (map step_token p) (C x) = Inr p"
    "ordered x \<Longrightarrow> get_unchecked (map step_token p) (C x) = Inr (C x, p)"
  using assms get_checked_present[of p "C x" x] get_unchecked_present[of p "C x" x]
  by (simp_all add: hole_def points_def)


subsection \<open>The operations of a diff\<close>

lemma remove_op_members: "remove_op path = JObject [(''op'', JString ''remove''), (''path'', JString path)]"
  by (simp add: remove_op_def json_init_def less_char_def)

lemma value_op_members:
  "value_op op path v = JObject [(''op'', JString op), (''path'', JString path), (''value'', v)]"
  by (simp add: value_op_def json_init_def less_char_def)

definition path_text :: "path \<Rightarrow> string" where
  "path_text p = pointer_to_string (map step_token p)"

lemma escape_digits: "escape_token (dec_nat i) = dec_nat i"
proof -
  have "set s \<subseteq> set ''0123456789'' \<Longrightarrow> concat (map escape_char s) = s" for s
    by (induction s) (auto simp: escape_char_def)
  then show ?thesis using set_dec_nat[of i] by (simp add: escape_token_chars)
qed

lemma path_text_append:
  "path_text [] = []" "index_path (path_text p) i = path_text (p @ [At_index i])"
  "key_path (path_text p) k = path_text (p @ [At_key k])"
  by (simp_all add: path_text_def pointer_to_string_concat index_path_def key_path_def escape_digits)

lemma patch_replace:
  assumes "hole p C"
  shows "patch_loop (value_op ''replace'' (path_text p) v # vs) (C x) = patch_loop vs (C v)"
  using hole_followed[OF assms]
  by (simp add: value_op_members patch_operation_def get_value_def json_is_string_def string_value_def get_op_def
      path_text_def split_pointer_to_string)

lemma operation_add_inside:
  assumes "hole p C" "ordered x"
  shows "operation_add (map step_token (p @ [t])) v (C x) = go_on (add_child (step_token t) v x) (\<lambda>y. Inr (C y))"
proof -
  have "(if [hd (map step_token (p @ [t]))] \<noteq> map step_token (p @ [t]) then get_checked [hd (map step_token (p @ [t]))] (C x)
      else Inr []) \<noteq> Inl e" for e
  proof (cases p)
    case (Cons s q)
    have "json_at (s # q) (C x) = Some x" using hole_followed(1)[OF assms(1)] by (simp add: Cons)
    then have "json_at [s] (C x) \<noteq> None" using json_at_append[of "[s]" q "C x"] by (cases "json_at [s] (C x)") auto
    then obtain z where "json_at [s] (C x) = Some z" by blast
    moreover have "small_step s" using assms(1) by (simp add: hole_def Cons)
    ultimately show ?thesis using get_checked_present[of "[s]" "C x" z] by (simp add: Cons)
  qed simp
  then obtain q where "(if [hd (map step_token (p @ [t]))] \<noteq> map step_token (p @ [t])
      then get_checked [hd (map step_token (p @ [t]))] (C x) else Inr []) = Inr q"
    by (cases "if [hd (map step_token (p @ [t]))] \<noteq> map step_token (p @ [t])
      then get_checked [hd (map step_token (p @ [t]))] (C x) else Inr []") auto
  moreover have "map step_token (p @ [t]) \<noteq> []" by simp
  ultimately show ?thesis
    using hole_followed[OF assms(1)] assms(2)
    by (simp add: operation_add_def top_pointer_def pointer_back_def pop_back_def butlast_append del: map_append)
       (simp add: butlast_append)
qed

lemma patch_add:
  assumes "hole p C" "ordered x" "add_child (step_token t) v x = Inr y"
  shows "patch_loop (value_op ''add'' (path_text (p @ [t])) v # vs) (C x) = patch_loop vs (C y)"
  using operation_add_inside[OF assms(1,2), of t v] assms(3)
  by (simp add: value_op_members patch_operation_def get_value_def json_is_string_def string_value_def get_op_def
      path_text_def split_pointer_to_string del: map_append)

lemma patch_remove:
  assumes "hole p C" "remove_child (step_token t) x = Inr y"
  shows "patch_loop (remove_op (path_text (p @ [t])) # vs) (C x) = patch_loop vs (C y)"
  using hole_followed[OF assms(1)] assms(2)
  by (simp add: remove_op_members patch_operation_def get_value_def json_is_string_def string_value_def get_op_def
      path_text_def split_pointer_to_string operation_remove_def pointer_back_def pop_back_def butlast_append)

lemma add_child_end:
  "int (length xs) \<le> INT_MAX \<Longrightarrow> add_child (dec_nat (length xs)) v (JArray xs) = Inr (JArray (xs @ [v]))"
  by (simp add: add_child_def dec_nat_token array_index_dec_nat size_of_index json_insert_def)

lemma add_child_key: "add_child k v (JObject m) = Inr (JObject (omap_assign k v m))"
  by (simp add: add_child_def subscript_key_def omap_assign_emplace)

lemma remove_child_end:
  "int (length xs) \<le> INT_MAX \<Longrightarrow> remove_child (dec_nat (length xs)) (JArray (xs @ [x])) = Inr (JArray xs)"
  by (simp add: remove_child_def array_index_dec_nat size_of_index erase_index_def)

lemma remove_child_key:
  "map_of m k = Some x \<Longrightarrow> remove_child k (JObject m) = Inr (JObject (omap_erase k m))"
  by (simp add: remove_child_def erase_key_def)

text \<open>
  Below a parent that is neither null nor a container the operations differ: \<open>add\<close> fails the
  assertion of its last case, \<open>remove\<close> changes nothing and reports nothing.
\<close>

lemma add_below_primitive:
  assumes "hole p C" "is_primitive x" "x \<noteq> JNull"
  shows "operation_add (map step_token (p @ [t])) v (C x) = Inl Assertion_fails"
proof -
  have "ordered x" "add_child (step_token t) v x = Inl Assertion_fails"
    using assms(2,3) by (simp_all add: is_primitive_def add_child_def split: json.splits)
  then show ?thesis by (simp add: operation_add_inside[OF assms(1)] del: map_append)
qed

lemma remove_below_primitive:
  assumes "hole p C" "is_primitive x"
  shows "operation_remove (map step_token (p @ [t])) (C x) = Inr (C x)"
proof -
  have "remove_child (step_token t) x = Inr x"
    using assms(2) by (simp add: is_primitive_def remove_child_def split: json.splits)
  then show ?thesis using hole_followed(1,3)[OF assms(1), of x] hole_followed(2)[OF assms(1), of "\<lambda>_. x" x]
    by (simp add: operation_remove_def pointer_back_def pop_back_def butlast_append)
qed

text \<open>An index that is no number is refused by \<open>std::stoi\<close>, whose exception \<open>remove\<close> lets out.\<close>

lemma remove_index_not_a_number: "remove_child ''b'' (JArray xs) = Inl (Throws_stoi Stoi_invalid_argument)"
proof -
  have "array_index ''b'' = Inl (Throws_stoi Stoi_invalid_argument)" by code_simp
  then show ?thesis by (simp add: remove_child_def)
qed

text \<open>A missing index on the way to the new element is created, with nulls up to it.\<close>

lemma add_pads_array:
  "operation_add [''a'', ''2'', ''x''] v (JObject [(''a'', JArray [])])
   = Inr (JObject [(''a'', JArray [JNull, JNull, JObject [(''x'', v)]])])"
proof -
  have "dec_nat 2 = ''2''" by code_simp
  then have i: "caught_index ''2'' = Inr 2" using caught_index_dec_nat[of 2] by (simp add: INT_MAX_def)
  have f: "fill_to 2 [] = Inr [JNull, JNull, JNull]" by (simp add: fill_to_def) (simp add: numeral_3_eq_3)
  have g: "get_unchecked [''a'', ''2''] (JObject [(''a'', JArray [])])
      = Inr (JObject [(''a'', JArray [JNull, JNull, JNull])], [At_key ''a'', At_index 2])"
    by (simp add: i f subscript_key_def subscript_index_def leading_zero_def)
  have c: "get_checked [''a''] (JObject [(''a'', JArray [])]) = Inr [At_key ''a'']" by (simp add: at_key_def)
  show ?thesis
    by (simp add: operation_add_def top_pointer_def pointer_back_def pop_back_def c g add_child_def subscript_key_def
        numeral_2_eq_2 del: get_checked.simps get_unchecked.simps)
qed

text \<open>Integers of the two types are compared by their bits.\<close>

lemma integers_equal_by_bits: "json_eq (JUnsigned 0xFFFFFFFFFFFFFFFF) (JInteger (- 1))"
  by (simp add: scalar_eq_def)

subsection \<open>patch after diff\<close>

text \<open>Arrays whose indices \<open>std::stoi\<close> can read.\<close>

fun short_arrays :: "json \<Rightarrow> bool" where
  "short_arrays (JObject m) = list_all (\<lambda>(k, x). short_arrays x) m"
| "short_arrays (JArray xs) = (int (length xs) \<le> INT_MAX + 1 \<and> list_all short_arrays xs)"
| "short_arrays j = True"

definition patchable :: "json \<Rightarrow> bool" where
  "patchable j \<longleftrightarrow> ordered j \<and> short_arrays j"

lemma patchable_array:
  "patchable (JArray xs) \<longleftrightarrow> int (length xs) \<le> INT_MAX + 1 \<and> list_all patchable xs"
  by (auto simp: patchable_def list_all_iff)

lemma patchable_object:
  "patchable (JObject m) \<longleftrightarrow> omap_ok m \<and> list_all (\<lambda>(k, x). patchable x) m"
  by (auto simp: patchable_def list_all_iff)

text \<open>Running the operations \<open>ops\<close> leads from one value to another.\<close>

definition leads_to :: "json list \<Rightarrow> json \<Rightarrow> json \<Rightarrow> bool" where
  "leads_to ops j k \<longleftrightarrow> (\<forall>vs. patch_loop (ops @ vs) j = patch_loop vs k)"

lemma leads_to_nil: "leads_to [] j j"
  by (simp add: leads_to_def)

lemma leads_to_append: "leads_to a i j \<Longrightarrow> leads_to b j k \<Longrightarrow> leads_to (a @ b) i k"
  by (simp add: leads_to_def)

lemma leads_to_replace: "hole p C \<Longrightarrow> leads_to [value_op ''replace'' (path_text p) v] (C x) (C v)"
  by (simp add: leads_to_def patch_replace del: patch_loop.simps)

lemma leads_to_add:
  "hole p C \<Longrightarrow> ordered x \<Longrightarrow> add_child (step_token t) v x = Inr y \<Longrightarrow>
     leads_to [value_op ''add'' (path_text (p @ [t])) v] (C x) (C y)"
  by (simp add: leads_to_def patch_add del: patch_loop.simps)

lemma leads_to_remove:
  "hole p C \<Longrightarrow> remove_child (step_token t) x = Inr y \<Longrightarrow> leads_to [remove_op (path_text (p @ [t]))] (C x) (C y)"
  by (simp add: leads_to_def patch_remove del: patch_loop.simps)

lemma add_elements:
  assumes "hole p C" "list_all ordered zs" "list_all ordered ys" "int (length zs + length ys) \<le> INT_MAX + 1"
  shows "leads_to (map (\<lambda>(k, y). value_op ''add'' (index_path (path_text p) k) y) (enumerate (length zs) ys))
    (C (JArray zs)) (C (JArray (zs @ ys)))"
  using assms(2-)
proof (induction ys arbitrary: zs)
  case (Cons y ys)
  have "leads_to [value_op ''add'' (path_text (p @ [At_index (length zs)])) y] (C (JArray zs)) (C (JArray (zs @ [y])))"
    using Cons.prems by (intro leads_to_add[OF assms(1)]) (simp_all add: add_child_end)
  from leads_to_append[OF this, of _ "C (JArray ((zs @ [y]) @ ys))"] Cons.IH[of "zs @ [y]"] Cons.prems
  show ?case by (simp add: path_text_append)
qed (simp add: leads_to_nil)

lemma remove_elements:
  assumes "hole p C" "int (length zs + length xs) \<le> INT_MAX + 1"
  shows "leads_to (rev (map (\<lambda>k. remove_op (index_path (path_text p) k)) [length zs..<length zs + length xs]))
    (C (JArray (zs @ xs))) (C (JArray zs))"
  using assms(2)
proof (induction xs rule: rev_induct)
  case (snoc x xs)
  have "leads_to [remove_op (path_text (p @ [At_index (length (zs @ xs))]))] (C (JArray ((zs @ xs) @ [x]))) (C (JArray (zs @ xs)))"
    using snoc.prems remove_child_end[of "zs @ xs" x] by (intro leads_to_remove[OF assms(1)]) simp
  from leads_to_append[OF this] snoc show ?case by (simp add: path_text_append)
qed (simp add: leads_to_nil)

lemma add_members:
  assumes "hole p C" "ordered (JObject M)" "list_all (\<lambda>(k, y). ordered y) n"
  shows "leads_to (map (\<lambda>(k, y). value_op ''add'' (key_path (path_text p) k) y) n)
    (C (JObject M)) (C (JObject (fold (\<lambda>(k, y). omap_assign k y) n M)))"
  using assms(2-)
proof (induction n arbitrary: M)
  case (Cons q n)
  obtain k y where q: "q = (k, y)" by (cases q)
  have "leads_to [value_op ''add'' (path_text (p @ [At_key k])) y] (C (JObject M)) (C (JObject (omap_assign k y M)))"
    using Cons.prems by (intro leads_to_add[OF assms(1)]) (simp_all add: add_child_key)
  from leads_to_append[OF this, of _ "C (JObject (fold (\<lambda>(k, y). omap_assign k y) n (omap_assign k y M)))"]
    Cons.IH[of "omap_assign k y M"] Cons.prems
  show ?case by (simp add: path_text_append q omap_ok_assign list_all_omap_assign)
qed (simp add: leads_to_nil)

lemma fold_assign:
  assumes "omap_ok M" "distinct (map fst n)"
  shows "omap_ok (fold (\<lambda>(k, y). omap_assign k y) n M)"
    "map_of (fold (\<lambda>(k, y). omap_assign k y) n M) = map_of M ++ map_of n"
proof -
  have "omap_ok (fold (\<lambda>(k, y). omap_assign k y) n M) \<and>
    map_of (fold (\<lambda>(k, y). omap_assign k y) n M) = map_of M ++ map_of n"
    using assms
  proof (induction n arbitrary: M)
    case (Cons q n)
    obtain k y where q: "q = (k, y)" by (cases q)
    have k: "k \<notin> dom (map_of n)" "distinct (map fst n)" using Cons.prems(2) by (simp_all add: q dom_map_of_conv_image_fst)
    have m: "map_of (q # n) = (map_of n)(k \<mapsto> y)" by (simp add: q fun_eq_iff)
    have f: "fold (\<lambda>(k, y). omap_assign k y) (q # n) M = fold (\<lambda>(k, y). omap_assign k y) n (omap_assign k y M)"
      by (simp add: q)
    from Cons.IH[OF omap_ok_assign[OF Cons.prems(1)] k(2), of k y] show ?case
      unfolding f m map_of_omap_assign[OF Cons.prems(1)] map_add_upd map_add_upd_left[OF k(1)] .
  qed simp
  then show "omap_ok (fold (\<lambda>(k, y). omap_assign k y) n M)"
    "map_of (fold (\<lambda>(k, y). omap_assign k y) n M) = map_of M ++ map_of n" by simp_all
qed


lemma elements_eq_refl: "\<forall>x \<in> set xs. json_eq x x \<Longrightarrow> elements_eq xs xs"
  by (induction xs) auto

lemma diff_scalar:
  assumes "hole p C" "patchable source" "patchable target" "no_nan target"
    and "diff_ops (path_text p) source target =
      (if json_eq source target then [] else [value_op ''replace'' (path_text p) target])"
  shows "\<exists>r. ordered r \<and> json_eq r target \<and> leads_to (diff_ops (path_text p) source target) (C source) (C r)"
proof (cases "json_eq source target")
  case True
  then show ?thesis using assms by (intro exI[of _ source]) (simp add: patchable_def leads_to_nil)
next
  case False
  then show ?thesis using assms json_eq_refl[of target]
    by (intro exI[of _ target]) (simp add: patchable_def leads_to_replace)
qed

text \<open>Where \<open>M\<close> has the elements of \<open>m\<close> and the result has those of \<open>n\<close>.\<close>

definition agrees :: "string set \<Rightarrow> (string \<times> json) list \<Rightarrow> (string \<times> json) list \<Rightarrow> (string \<times> json) list \<Rightarrow> bool" where
  "agrees K M n r \<longleftrightarrow> ordered (JObject r) \<and>
     (\<forall>k. if k \<in> K then rel_option json_eq (map_of r k) (map_of n k) else map_of r k = map_of M k)"

text \<open>The second pass over an object adds what is missing.\<close>

lemma object_completed:
  assumes "hole p C" "omap_ok m" "omap_ok n" "list_all (\<lambda>(k, y). ordered y) n" "list_all (\<lambda>(k, y). no_nan y) n"
    and "agrees (fst ` set m) m n r"
  shows "\<exists>r1. ordered (JObject r1) \<and> members_eq r1 n
    \<and> leads_to (map (\<lambda>(k, y). value_op ''add'' (key_path (path_text p) k) y) (filter (\<lambda>(k, y). map_of m k = None) n))
        (C (JObject r)) (C (JObject r1))"
proof -
  define new where "new = filter (\<lambda>(k, y). map_of m k = None) n"
  define r1 where "r1 = fold (\<lambda>(k, y). omap_assign k y) new r"
  have new: "distinct (map fst new)" "list_all (\<lambda>(k, y). ordered y) new"
    using assms(3,4) by (auto simp: new_def distinct_map_filter omap_ok_def strict_sorted_iff list_all_iff)
  have or: "ordered (JObject r)" using assms(6) by (simp add: agrees_def)
  have l: "leads_to (map (\<lambda>(k, y). value_op ''add'' (key_path (path_text p) k) y) new) (C (JObject r)) (C (JObject r1))"
    using add_members[OF assms(1) or new(2)] by (simp add: r1_def)
  have map_r1: "omap_ok r1" "map_of r1 = map_of r ++ map_of new"
    using fold_assign[of r new] or new(1) by (simp_all add: r1_def)
  have map_new: "map_of new k = (if map_of m k = None then map_of n k else None)" for k
    unfolding new_def by (induction n) (auto split: if_splits)
  have keys: "map_of m k = None \<longleftrightarrow> k \<notin> fst ` set m" for k by (simp add: map_of_eq_None_iff)
  have rel: "rel_option json_eq (map_of r1 k) (map_of n k)" for k
  proof (cases "map_of m k = None")
    case True
    then have "map_of r k = None" using assms(6) keys[of k] by (auto simp: agrees_def)
    moreover have "list_all (\<lambda>(k, y). json_eq y y) n" using assms(5) json_eq_refl by (auto simp: list_all_iff)
    ultimately show ?thesis using True
      by (cases "map_of n k") (auto simp: map_r1 map_new map_add_def list_all_iff dest: map_of_SomeD)
  next
    case False
    then show ?thesis using assms(6) keys[of k] by (auto simp: agrees_def map_r1 map_new map_add_def)
  qed
  have "dom (map_of r1) = dom (map_of n)"
    using rel by (auto simp: dom_def) (metis option.rel_distinct option.exhaust)+
  moreover have "map_of r1 k = Some x \<Longrightarrow> map_of n k = Some y \<Longrightarrow> json_eq x y" for k x y
    using rel[of k] by simp
  ultimately have "members_eq r1 n" using map_r1(1) assms(3) by (intro members_eq_pointwise)
  moreover have "ordered (JObject r1)"
  proof -
    have "list_all (\<lambda>(k, x). ordered x) r1"
      using or new(2) unfolding r1_def
      by (induction new arbitrary: r) (auto simp: list_all_omap_assign omap_ok_assign)
    then show ?thesis using map_r1(1) by simp
  qed
  ultimately show ?thesis using l by (intro exI[of _ r1]) (simp add: new_def)
qed

text \<open>A member of the source is made that of the target, or removed.\<close>

lemma member_diffed:
  assumes "hole p C" "ordered (JObject M)" "map_of M k = Some x"
    and "\<And>y. map_of n k = Some y \<Longrightarrow> \<exists>r. ordered r \<and> json_eq r y
      \<and> leads_to (diff_ops (key_path (path_text p) k) x y) (C (JObject M)) (C (JObject (omap_assign k r M)))"
  shows "\<exists>M1. ordered (JObject M1) \<and> rel_option json_eq (map_of M1 k) (map_of n k)
    \<and> (\<forall>l. l \<noteq> k \<longrightarrow> map_of M1 l = map_of M l)
    \<and> leads_to (case map_of n k of Some y \<Rightarrow> diff_ops (key_path (path_text p) k) x y
                | None \<Rightarrow> [remove_op (key_path (path_text p) k)])
        (C (JObject M)) (C (JObject M1))"
proof (cases "map_of n k")
  case None
  have "leads_to [remove_op (path_text (p @ [At_key k]))] (C (JObject M)) (C (JObject (omap_erase k M)))"
    using assms(3) by (intro leads_to_remove[OF assms(1)]) (simp add: remove_child_key)
  then show ?thesis using None assms(2)
    by (intro exI[of _ "omap_erase k M"])
      (simp add: path_text_append omap_erase_ok list_all_omap_erase map_of_omap_erase)
next
  case (Some y)
  from assms(4)[OF Some] obtain r where "ordered r" "json_eq r y"
    "leads_to (diff_ops (key_path (path_text p) k) x y) (C (JObject M)) (C (JObject (omap_assign k r M)))" by blast
  then show ?thesis using Some assms(2)
    by (intro exI[of _ "omap_assign k r M"]) (simp add: omap_ok_assign list_all_omap_assign map_of_omap_assign)
qed

lemma diff_runs:
  "path = path_text p \<Longrightarrow> hole p C \<Longrightarrow> patchable source \<Longrightarrow> patchable target \<Longrightarrow> no_nan target \<Longrightarrow>
     \<exists>r. ordered r \<and> json_eq r target \<and> leads_to (diff_ops path source target) (C source) (C r)"
  "path = path_text p \<Longrightarrow> hole p C \<Longrightarrow> list_all patchable xs \<Longrightarrow> list_all patchable ys \<Longrightarrow> list_all no_nan ys \<Longrightarrow>
     list_all ordered zs \<Longrightarrow> i = length zs \<Longrightarrow> int (i + length xs) \<le> INT_MAX + 1 \<Longrightarrow> int (i + length ys) \<le> INT_MAX + 1 \<Longrightarrow>
     \<exists>rs. list_all ordered rs \<and> elements_eq rs ys
       \<and> leads_to (diff_elements path i xs ys) (C (JArray (zs @ xs))) (C (JArray (zs @ rs)))"
  "path = path_text p \<Longrightarrow> hole p C \<Longrightarrow> list_all (\<lambda>(k, x). patchable x) m \<Longrightarrow> list_all (\<lambda>(k, y). patchable y) n \<Longrightarrow>
     list_all (\<lambda>(k, y). no_nan y) n \<Longrightarrow> distinct (map fst m) \<Longrightarrow> ordered (JObject M) \<Longrightarrow>
     \<forall>(k, x) \<in> set m. map_of M k = Some x \<Longrightarrow>
     \<exists>r. agrees (fst ` set m) M n r \<and> leads_to (diff_members path m n) (C (JObject M)) (C (JObject r))"
proof (induction path source target and path i xs ys and path m n
    arbitrary: p C and p C zs and p C M rule: diff_ops_diff_elements_diff_members.induct)
  case (1 path xs target)
  show ?case
  proof (cases "\<exists>ys. target = JArray ys \<and> \<not> json_eq (JArray xs) target")
    case False
    then show ?thesis using diff_scalar[OF 1(3-6)] by (auto simp: 1(2) split: json.splits)
  next
    case True
    then obtain ys where ys: "target = JArray ys" "\<not> json_eq (JArray xs) (JArray ys)" by blast
    have "\<exists>rs. list_all ordered rs \<and> elements_eq rs ys
        \<and> leads_to (diff_elements path 0 xs ys) (C (JArray ([] @ xs))) (C (JArray ([] @ rs)))"
      using ys 1(4-6) by (intro 1(1)[OF _ ys(1) 1(2,3)]) (simp_all add: patchable_array)
    then obtain rs where "list_all ordered rs" "elements_eq rs ys"
      "leads_to (diff_elements path 0 xs ys) (C (JArray xs)) (C (JArray rs))" by auto
    then show ?thesis using ys(2) by (intro exI[of _ "JArray rs"]) (simp add: ys(1))
  qed
next
  case (2 path m target)
  show ?case
  proof (cases "\<exists>n. target = JObject n \<and> \<not> json_eq (JObject m) target")
    case False
    then show ?thesis using diff_scalar[OF 2(3-6)] by (auto simp: 2(2) split: json.splits)
  next
    case True
    then obtain n where n: "target = JObject n" "\<not> json_eq (JObject m) (JObject n)" by blast
    have om: "omap_ok m" "omap_ok n" "ordered (JObject m)" using 2(4,5) by (simp_all add: n(1) patchable_object patchable_def)
    then have dm: "distinct (map fst m)" "distinct (map fst n)" by (simp_all add: omap_ok_def strict_sorted_iff)
    have "\<forall>(k, x) \<in> set m. map_of m k = Some x" using dm(1) by auto
    then have "\<exists>r. agrees (fst ` set m) m n r \<and> leads_to (diff_members path m n) (C (JObject m)) (C (JObject r))"
      using n 2(4-6) om dm by (intro 2(1)[OF _ n(1) 2(2,3)]) (simp_all add: patchable_object)
    then obtain r where r: "agrees (fst ` set m) m n r"
      "leads_to (diff_members path m n) (C (JObject m)) (C (JObject r))" by blast
    have "list_all (\<lambda>(k, y). ordered y) n" "list_all (\<lambda>(k, y). no_nan y) n"
      using 2(5,6) by (simp_all add: n(1) patchable_object list_all_iff patchable_def split_def)
    from object_completed[OF 2(3) om(1,2) this r(1)] obtain r1 where r1: "ordered (JObject r1)" "members_eq r1 n"
      "leads_to (map (\<lambda>(k, y). value_op ''add'' (key_path path k) y) (filter (\<lambda>(k, y). map_of m k = None) n))
        (C (JObject r)) (C (JObject r1))" unfolding 2(2) by blast
    have "leads_to (diff_ops path (JObject m) target) (C (JObject m)) (C (JObject r1))"
      using leads_to_append[OF r(2) r1(3)] n(2) by (simp add: n(1))
    then show ?thesis using r1 by (intro exI[of _ "JObject r1"]) (simp add: n(1))
  qed
next
  case (4 path i ys)
  then show ?case using add_elements[OF 4(2), of zs ys] json_eq_refl
    by (intro exI[of _ ys]) (auto simp: list_all_iff patchable_def intro: elements_eq_refl)
next
  case (5 path i x xs ys)
  show ?case
  proof (cases ys)
    case Nil
    have "leads_to (diff_elements path i (x # xs) ys) (C (JArray (zs @ x # xs))) (C (JArray zs))"
      using remove_elements[OF 5(4), of zs "x # xs"] 5(3,9,10) by (simp add: Nil)
    then show ?thesis by (intro exI[of _ "[]"]) (simp add: Nil)
  next
    case (Cons y ys1)
    have h: "hole (p @ [At_index (length zs)]) (\<lambda>v. C (JArray (zs @ v # xs)))"
      using 5(4,5,8,9,10) by (intro hole_index) (auto simp: list_all_iff patchable_def)
    have pt: "index_path path i = path_text (p @ [At_index (length zs)])" by (simp add: 5(3,9) path_text_append)
    from 5(1)[OF Cons pt h] 5(5-7) obtain r where r: "ordered r" "json_eq r y"
      "leads_to (diff_ops (index_path path i) x y) (C (JArray (zs @ x # xs))) (C (JArray (zs @ r # xs)))"
      by (auto simp: Cons)
    from 5(2)[OF Cons 5(3,4), of "zs @ [r]"] 5(5-) r(1) obtain rs where
      "list_all ordered rs" "elements_eq rs ys1"
      "leads_to (diff_elements path (Suc i) xs ys1) (C (JArray (zs @ r # xs))) (C (JArray (zs @ r # rs)))"
      by (auto simp: Cons)
    then show ?thesis using r leads_to_append[OF r(3)] by (intro exI[of _ "r # rs"]) (simp add: Cons)
  qed
next
  case (6 path n)
  then show ?case by (intro exI[of _ M]) (simp add: agrees_def leads_to_nil)
next
  case (7 path k x m n)
  have kx: "map_of M k = Some x" using 7(10) by simp
  have km: "k \<notin> fst ` set m" using 7(8) by simp
  have k: "key_path (path_text p) k = path_text (p @ [At_key k])" by (simp add: path_text_append)
  have "\<exists>r. ordered r \<and> json_eq r y
      \<and> leads_to (diff_ops (key_path (path_text p) k) x y) (C (JObject M)) (C (JObject (omap_assign k r M)))"
    if y: "map_of n k = Some y" for y
  proof -
    have py: "patchable y" "no_nan y" using 7(6,7) y by (auto simp: list_all_iff dest: map_of_SomeD)
    have h: "hole (p @ [At_key k]) (\<lambda>v. C (JObject (omap_assign k v M)))" using 7(4,9) by (rule hole_key)
    have "omap_assign k x M = M" using kx 7(9) by (simp add: omap_assign_present)
    then show ?thesis using 7(1)[OF y k[folded 7(3)] h _ py] 7(5) by (simp add: 7(3))
  qed
  note member_diffed[OF 7(4,9) kx this]
  then obtain M1 where M1: "ordered (JObject M1)" "rel_option json_eq (map_of M1 k) (map_of n k)"
      "\<And>l. l \<noteq> k \<Longrightarrow> map_of M1 l = map_of M l"
      "leads_to (case map_of n k of Some y \<Rightarrow> diff_ops (key_path path k) x y | None \<Rightarrow> [remove_op (key_path path k)])
          (C (JObject M)) (C (JObject M1))" unfolding 7(3) by blast
  have "\<forall>(l, y) \<in> set m. map_of M1 l = Some y"
  proof clarify
    fix l y assume ly: "(l, y) \<in> set m"
    then have "l \<noteq> k" using km by force
    then show "map_of M1 l = Some y" using ly 7(10) M1(3)[of l] by auto
  qed
  with 7(5-8) M1(1) have "\<exists>r. agrees (fst ` set m) M1 n r
      \<and> leads_to (diff_members path m n) (C (JObject M1)) (C (JObject r))"
    by (intro 7(2)[OF 7(3,4)]) simp_all
  then obtain r where r: "agrees (fst ` set m) M1 n r"
      "leads_to (diff_members path m n) (C (JObject M1)) (C (JObject r))" by blast
  have "agrees (fst ` set ((k, x) # m)) M n r"
    using r(1) M1(2) km by (auto simp: agrees_def M1(3))
  moreover have "leads_to (diff_members path ((k, x) # m) n) (C (JObject M)) (C (JObject r))"
    using leads_to_append[OF M1(4) r(2)] by simp
  ultimately show ?case by blast
qed (hypsubst, rule diff_scalar; simp)+


lemma patch_of_diff_runs:
  assumes "patchable source" "patchable target" "no_nan target"
  shows "\<exists>r. ordered r \<and> patch source (diff source target) = Inr r \<and> json_eq r target"
proof -
  obtain r where "ordered r" "json_eq r target" "leads_to (diff_ops [] source target) source r"
    using diff_runs(1)[OF path_text_append(1)[symmetric] hole_root assms] by blast
  moreover from this(3) have "patch_loop (diff_ops [] source target @ []) source = Inr r"
    by (simp add: leads_to_def del: append_Nil2)
  ultimately show ?thesis by (auto simp: patch_def diff_def)
qed

subsection \<open>Merging\<close>

lemma omap_eqI:
  assumes "omap_ok m" "omap_ok n" "map_of m = map_of n"
  shows "m = n"
proof -
  have pairs: "map (\<lambda>k. (k, the (map_of l k))) (map fst l) = l" if "omap_ok l" for l :: "(string \<times> 'a) list"
    using that by (auto simp: omap_ok_def strict_sorted_iff comp_def intro!: map_idI)
  have "map fst m = map fst n" using assms by (intro omap_keys) simp_all
  then show ?thesis using pairs[OF assms(1)] pairs[OF assms(2)] assms(3) by metis
qed

text \<open>What \<open>merge_patch\<close> makes of the members of an object.\<close>

definition merged :: "(string \<times> json) list \<Rightarrow> (string \<times> json) list \<Rightarrow> string \<Rightarrow> json option" where
  "merged p m k =
     (case map_of p k of
        None \<Rightarrow> map_of m k
      | Some v \<Rightarrow>
          if v = JNull then None
          else Some (merge_patch v (case map_of m k of Some x \<Rightarrow> x | None \<Rightarrow> JNull)))"

lemma merge_members_merged:
  "omap_ok m \<Longrightarrow> distinct (map fst p) \<Longrightarrow>
     omap_ok (merge_members p m) \<and> map_of (merge_members p m) k = merged p m k"
proof (induction p arbitrary: m)
  case (Cons q p)
  obtain l v where q: "q = (l, v)" by (cases q)
  have l: "map_of p l = None" "distinct (map fst p)" using Cons.prems(2) by (simp_all add: q map_of_eq_None_iff)
  let ?m = "if v = JNull then omap_erase l m
    else omap_assign l (merge_patch v (case map_of m l of Some x \<Rightarrow> x | None \<Rightarrow> JNull)) m"
  have "omap_ok ?m" using Cons.prems(1) by (simp add: omap_erase_ok omap_ok_assign)
  moreover have "merge_members (q # p) m = merge_members p ?m" by (simp add: q)
  moreover have "merged (q # p) m k = merged p ?m k"
    using l(1) Cons.prems(1) by (simp add: merged_def q map_of_omap_erase map_of_omap_assign split: option.split)
  ultimately show ?case using Cons.IH[OF _ l(2), of ?m] by (simp only: simp_thms)
qed (simp add: merged_def)

lemma merge_twice: "ordered p \<Longrightarrow> ordered t \<Longrightarrow> merge_patch p (merge_patch p t) = merge_patch p t"
proof (induction p arbitrary: t)
  case (JObject p)
  define m where "m = (case t of JObject m \<Rightarrow> m | _ \<Rightarrow> [])"
  have m: "ordered (JObject m)" using JObject.prems(2) by (auto simp: m_def omap_ok_def split: json.splits)
  have dp: "distinct (map fst p)" using JObject.prems(1) by (simp add: omap_ok_def strict_sorted_iff)
  let ?r = "merge_members p m"
  have ok: "omap_ok m" "omap_ok ?r" using m merge_members_merged[OF _ dp, of m] by simp_all
  have "map_of (merge_members p ?r) k = map_of ?r k" for k
  proof (cases "map_of p k")
    case None
    then show ?thesis using merge_members_merged[OF ok(2) dp] by (simp add: merged_def)
  next
    case (Some v)
    define x where "x = (case map_of m k of Some x \<Rightarrow> x | None \<Rightarrow> JNull)"
    have "ordered x" using m by (auto simp: x_def list_all_iff split: option.splits dest: map_of_SomeD)
    moreover have kv: "(k, v) \<in> set p" using Some by (rule map_of_SomeD)
    moreover have "ordered v" using JObject.prems(1) kv by (auto simp: list_all_iff)
    ultimately have "merge_patch v (merge_patch v x) = merge_patch v x" by (intro JObject.IH) auto
    then show ?thesis using Some by (simp add: merge_members_merged[OF ok(2) dp] merge_members_merged[OF ok(1) dp] merged_def x_def)
  qed
  then have "merge_members p ?r = ?r" using ok(2) merge_members_merged[OF ok(2) dp]
    by (intro omap_eqI) (simp_all add: fun_eq_iff)
  then show ?case by (simp add: m_def)
qed simp_all

lemma merge_ordered:
  "ordered p \<Longrightarrow> ordered t \<Longrightarrow> ordered (merge_patch p t)"
  "list_all (\<lambda>(k, v). ordered v) q \<Longrightarrow> ordered (JObject m) \<Longrightarrow> ordered (JObject (merge_members q m))"
proof (induction p t and q m rule: merge_patch_merge_members.induct)
  case (1 p t)
  have "ordered (JObject (case t of JObject m \<Rightarrow> m | _ \<Rightarrow> []))"
    using "1.prems"(2) by (auto simp: omap_ok_def split: json.splits)
  then show ?case using 1 by simp
next
  case (4 k v p m)
  have "ordered (case map_of m k of Some x \<Rightarrow> x | None \<Rightarrow> JNull)"
    using "4.prems"(2) by (auto simp: list_all_iff split: option.splits dest: map_of_SomeD)
  then show ?case using 4
    by (auto simp: omap_erase_ok omap_ok_assign list_all_omap_assign list_all_omap_erase)
qed simp_all

subsection \<open>Properties\<close>

text \<open>
  C38: The documented invariant of \<open>diff\<close>: applied to the source, the patch it makes runs without an
  exception and gives a value equal to the target, in the sense of \<open>operator==\<close>. The objects of both
  are ordered maps, their arrays short enough for the indices \<open>std::stoi\<close> can read, and the target
  holds no NaN, which equals nothing.
\<close>

theorem patch_of_diff:
  assumes "patchable source" "patchable target" "no_nan target"
  shows "\<exists>result. patch source (diff source target) = Inr result \<and> json_eq result target"
  using patch_of_diff_runs[OF assms] by blast

theorem patch_of_diff_witness:
  "\<exists>result.
     patch (JObject [(''a'', JArray [JUnsigned 1, JUnsigned 2, JNull]), (''b/c'', JBoolean True)])
       (diff (JObject [(''a'', JArray [JUnsigned 1, JUnsigned 2, JNull]), (''b/c'', JBoolean True)])
         (JObject [(''a'', JArray [JUnsigned 1, JString ''x'']), (''d~'', JFloat 0)])) = Inr result
     \<and> json_eq result (JObject [(''a'', JArray [JUnsigned 1, JString ''x'']), (''d~'', JFloat 0)])"
  by (rule patch_of_diff)
     (simp_all add: patchable_def omap_ok_def is_nan_def less_char_def INT_MAX_def)

text \<open>
  C39: \<open>merge_patch\<close> with an object does what RFC 7396 says: the result is an object in which the keys
  the patch sets to null are absent, the keys it gives are merged with what the target had (nothing
  counts as null, a target that is no object has no keys) and all others are as in the target. Merging
  the same patch once more changes nothing.
\<close>

theorem merge_patch_outcome:
  assumes "ordered (JObject p)" "ordered target"
  shows "\<exists>r. merge_patch (JObject p) target = JObject r \<and> ordered (JObject r)
    \<and> (\<forall>k. map_of r k =
         (let old = (case target of JObject m \<Rightarrow> map_of m k | _ \<Rightarrow> None)
          in case map_of p k of
               None \<Rightarrow> old
             | Some JNull \<Rightarrow> None
             | Some v \<Rightarrow> Some (merge_patch v (case old of Some x \<Rightarrow> x | None \<Rightarrow> JNull))))
    \<and> merge_patch (JObject p) (JObject r) = JObject r"
proof -
  define m where "m = (case target of JObject m \<Rightarrow> m | _ \<Rightarrow> [])"
  have m: "omap_ok m" using assms(2) by (auto simp: m_def omap_ok_def split: json.splits)
  have p: "distinct (map fst p)" using assms(1) by (simp add: omap_ok_def strict_sorted_iff)
  have r: "merge_patch (JObject p) target = JObject (merge_members p m)" by (simp add: m_def)
  have "ordered (JObject (merge_members p m))" using merge_ordered(1)[OF assms] unfolding r .
  moreover have "merge_patch (JObject p) (JObject (merge_members p m)) = JObject (merge_members p m)"
    using merge_twice[OF assms] unfolding r .
  ultimately show ?thesis using r merge_members_merged[OF m p]
    by (intro exI[of _ "merge_members p m"])
       (auto simp: merged_def m_def Let_def split: option.splits json.splits)
qed

theorem merge_patch_outcome_witness:
  "\<exists>r. merge_patch (JObject [(''a'', JNull), (''b'', JObject [(''c'', JUnsigned 1), (''d'', JNull)])])
       (JObject [(''a'', JUnsigned 7), (''b'', JArray []), (''e'', JNull)]) = JObject r
    \<and> map_of r ''a'' = None \<and> map_of r ''e'' = Some JNull"
proof -
  have "ordered (JObject [(''a'', JNull), (''b'', JObject [(''c'', JUnsigned 1), (''d'', JNull)])])"
    "ordered (JObject [(''a'', JUnsigned 7), (''b'', JArray []), (''e'', JNull)])"
    by (simp_all add: omap_ok_def less_char_def)
  from merge_patch_outcome[OF this] obtain r where r:
    "merge_patch (JObject [(''a'', JNull), (''b'', JObject [(''c'', JUnsigned 1), (''d'', JNull)])])
       (JObject [(''a'', JUnsigned 7), (''b'', JArray []), (''e'', JNull)]) = JObject r"
    "\<And>k. map_of r k =
         (case map_of [(''a'', JNull), (''b'', JObject [(''c'', JUnsigned 1), (''d'', JNull)])] k of
            None \<Rightarrow> map_of [(''a'', JUnsigned 7), (''b'', JArray []), (''e'', JNull)] k
          | Some JNull \<Rightarrow> None
          | Some v \<Rightarrow> Some (merge_patch v
              (case map_of [(''a'', JUnsigned 7), (''b'', JArray []), (''e'', JNull)] k of
                 Some x \<Rightarrow> x | None \<Rightarrow> JNull)))"
    unfolding Let_def by auto
  show ?thesis using r(1) r(2)[of "''a''"] r(2)[of "''e''"] by auto
qed

end
