(* ===== verification/Json_Flatten.thy ===== *)
theory Json_Flatten
  imports Json_Patch_Laws
begin

section \<open>Flattening JSON values\<close>

text \<open>
  The documented invariant of \<open>flatten\<close> and \<open>unflatten\<close> of \<open>src/external/nlohmann/json.h\<close>: a value
  is put together again from the object that maps the pointers of its primitive values to them. The
  proof follows \<open>unflatten\<close> with the part of the value that the pointers seen so far make up (\<open>seen\<close>).
\<close>

subsection \<open>Paths and their text\<close>

lemma step_tokens_inject:
  "json_at p j = Some x \<Longrightarrow> json_at q j = Some y \<Longrightarrow> map step_token p = map step_token q \<Longrightarrow> p = q"
proof (induction p j arbitrary: q rule: json_at.induct)
  case (2 i p xs)
  then obtain s q1 where q: "q = s # q1" by (cases q) auto
  with 2(3) obtain k where s: "s = At_index k" by (cases s) auto
  with 2 q show ?case by (auto split: if_splits dest: dec_nat_inject[THEN iffD1])
next
  case (3 k p m)
  then obtain s q1 where q: "q = s # q1" by (cases q) auto
  with 3(3) obtain l where s: "s = At_key l" by (cases s) auto
  with 3 q show ?case by (auto simp: Option.bind_eq_Some_conv)
qed auto

lemma path_text_inject:
  assumes "json_at p j = Some x" "json_at q j = Some y" "path_text p = path_text q"
  shows "p = q"
proof -
  have "split_pointer (path_text p) = split_pointer (path_text q)" using assms(3) by simp
  then show ?thesis using step_tokens_inject[OF assms(1,2)] by (simp add: path_text_def split_pointer_to_string)
qed

text \<open>The pointer to the first element of an array comes before those to the others.\<close>

lemma append_less: "(a @ b :: string) < a @ c \<longleftrightarrow> b < c"
  by (induction a) auto

lemma path_text_first:
  assumes "0 < i"
  shows "path_text (q @ At_index 0 # s) < path_text (q @ At_index i # t)"
proof -
  obtain c ds where i: "dec_nat i = c # ds" by (cases "dec_nat i") auto
  then have "c \<in> set ''0123456789''" "c \<noteq> CHR ''0''" using set_dec_nat[of i] hd_dec_nat[OF assms] by auto
  then have "CHR ''0'' < c" by (auto simp: less_char_def)
  moreover have "dec_nat 0 = ''0''" by code_simp
  moreover from this have "escape_token (dec_nat 0) = ''0''" "escape_token (dec_nat i) = c # ds"
    using escape_digits[of i] escape_digits[of 0] by (simp_all only: i)
  ultimately show ?thesis by (simp add: path_text_def pointer_to_string_concat append_less)
qed

subsection \<open>What flatten returns\<close>

text \<open>Values without empty containers, and without the key that \<open>unflatten\<close> takes for an index.\<close>

fun flattenable :: "json \<Rightarrow> bool" where
  "flattenable (JObject m) \<longleftrightarrow> m \<noteq> [] \<and> list_all (\<lambda>(k, x). k \<noteq> ''0'' \<and> flattenable x) m"
| "flattenable (JArray xs) \<longleftrightarrow> xs \<noteq> [] \<and> list_all flattenable xs"
| "flattenable j \<longleftrightarrow> True"

definition leaf :: "json \<Rightarrow> path \<Rightarrow> json \<Rightarrow> bool" where
  "leaf j p v \<longleftrightarrow> json_at p j = Some v \<and> is_primitive v"

lemma leaf_simps [simp]:
  "leaf j [] v \<longleftrightarrow> v = j \<and> is_primitive j"
  "leaf (JArray xs) (At_index i # p) v \<longleftrightarrow> i < length xs \<and> leaf (xs ! i) p v"
  "leaf (JObject m) (At_key k # p) v \<longleftrightarrow> (\<exists>x. map_of m k = Some x \<and> leaf x p v)"
  "\<not> leaf (JArray xs) (At_key k # p) v"
  "\<not> leaf (JObject m) (At_index i # p) v"
  by (auto simp: leaf_def is_primitive_def Option.bind_eq_Some_conv)

lemma leaf_primitive: "is_primitive j \<Longrightarrow> leaf j p v \<longleftrightarrow> p = [] \<and> v = j"
  by (cases p; cases "hd p"; cases j) (auto simp: leaf_def is_primitive_def)

lemma set_assign_subset: "set (omap_assign k v m) \<subseteq> insert (k, v) (set m)"
  by (induction m) (auto split: if_splits)

lemma flatten_entries:
  "(t, w) \<in> set (flatten_into r j m) \<Longrightarrow> r = path_text q \<Longrightarrow> flattenable j \<Longrightarrow> ordered j \<Longrightarrow>
     (t, w) \<in> set m \<or> (\<exists>p. t = path_text (q @ p) \<and> leaf j p w)"
  "(t, w) \<in> set (flatten_elements r i xs m) \<Longrightarrow> r = path_text q \<Longrightarrow> list_all flattenable xs \<Longrightarrow> list_all ordered xs \<Longrightarrow>
     (t, w) \<in> set m \<or> (\<exists>k p. k < length xs \<and> t = path_text (q @ At_index (i + k) # p) \<and> leaf (xs ! k) p w)"
  "(t, w) \<in> set (flatten_members r n m) \<Longrightarrow> r = path_text q \<Longrightarrow> list_all (\<lambda>(k, x). flattenable x) n \<Longrightarrow>
     list_all (\<lambda>(k, x). ordered x) n \<Longrightarrow>
     (t, w) \<in> set m \<or> (\<exists>k x p. (k, x) \<in> set n \<and> t = path_text (q @ At_key k # p) \<and> leaf x p w)"
proof (induction r j m and r i xs m and r n m arbitrary: q and q and q
    rule: flatten_into_flatten_elements_flatten_members.induct)
  case (1 r xs m)
  from 1(1)[of q] 1(2-5) have "(t, w) \<in> set m \<or> (\<exists>k p. k < length xs \<and> t = path_text (q @ At_index k # p) \<and> leaf (xs ! k) p w)"
    by simp
  then show ?case using leaf_simps(2) by blast
next
  case (2 r n m)
  have "list_all (\<lambda>(k, x). flattenable x) n" using 2(4) by (auto simp: list_all_iff)
  with 2(1)[of q] 2(2-5) have "(t, w) \<in> set m \<or> (\<exists>k x p. (k, x) \<in> set n \<and> t = path_text (q @ At_key k # p) \<and> leaf x p w)"
    by simp
  moreover have "(k, x) \<in> set n \<Longrightarrow> map_of n k = Some x" for k x
    using 2(5) by (simp add: omap_ok_def strict_sorted_iff)
  ultimately show ?case using leaf_simps(3) by blast
next
  case (5 r i x xs m)
  have "(t, w) \<in> set (flatten_into (index_path r i) x m) \<or>
      (\<exists>k p. k < length xs \<and> t = path_text (q @ At_index (Suc i + k) # p) \<and> leaf (xs ! k) p w)"
    using 5(2)[of q] 5(3-6) by simp
  then show ?case
  proof
    assume "(t, w) \<in> set (flatten_into (index_path r i) x m)"
    with 5(1)[of "q @ [At_index i]"] 5(4-6) have "(t, w) \<in> set m \<or> (\<exists>p. t = path_text (q @ At_index i # p) \<and> leaf x p w)"
      by (simp add: path_text_append)
    then show ?thesis by (auto intro!: exI[of _ "0::nat"])
  next
    assume "\<exists>k p. k < length xs \<and> t = path_text (q @ At_index (Suc i + k) # p) \<and> leaf (xs ! k) p w"
    then obtain k p where "k < length xs" "t = path_text (q @ At_index (Suc i + k) # p)" "leaf (xs ! k) p w" by blast
    then show ?thesis by (intro disjI2 exI[of _ "Suc k"] exI[of _ p]) simp
  qed
next
  case (7 r k x n m)
  have "(t, w) \<in> set (flatten_into (key_path r k) x m) \<or>
      (\<exists>k x p. (k, x) \<in> set n \<and> t = path_text (q @ At_key k # p) \<and> leaf x p w)"
    using 7(2)[of q] 7(3-6) by simp
  moreover have "(t, w) \<in> set (flatten_into (key_path r k) x m) \<Longrightarrow>
      (t, w) \<in> set m \<or> (\<exists>p. t = path_text (q @ At_key k # p) \<and> leaf x p w)"
    using 7(1)[of "q @ [At_key k]"] 7(4-6) by (simp add: path_text_append)
  ultimately show ?case by auto
qed (use set_assign_subset in \<open>fastforce simp: is_primitive_def intro!: exI[of _ "[]"]\<close>)+

lemma flatten_keys:
  "r = path_text q \<Longrightarrow> fst ` set m \<subseteq> fst ` set (flatten_into r j m)
     \<and> (\<forall>p w. leaf j p w \<longrightarrow> path_text (q @ p) \<in> fst ` set (flatten_into r j m))"
  "r = path_text q \<Longrightarrow> fst ` set m \<subseteq> fst ` set (flatten_elements r i xs m)
     \<and> (\<forall>k p w. k < length xs \<longrightarrow> leaf (xs ! k) p w \<longrightarrow>
          path_text (q @ At_index (i + k) # p) \<in> fst ` set (flatten_elements r i xs m))"
  "r = path_text q \<Longrightarrow> fst ` set m \<subseteq> fst ` set (flatten_members r n m)
     \<and> (\<forall>k x p w. (k, x) \<in> set n \<longrightarrow> leaf x p w \<longrightarrow>
          path_text (q @ At_key k # p) \<in> fst ` set (flatten_members r n m))"
proof (induction r j m and r i xs m and r n m arbitrary: q and q and q
    rule: flatten_into_flatten_elements_flatten_members.induct)
  case (1 r xs m)
  show ?case
  proof (cases "xs = []")
    case True
    have "\<not> leaf (JArray []) p w" for p w by (cases p; cases "hd p") (auto simp: is_primitive_def)
    then show ?thesis by (simp add: True set_omap_assign subset_insertI)
  next
    case False
    have "path_text (q @ p) \<in> fst ` set (flatten_elements r 0 xs m)" if l: "leaf (JArray xs) p w" for p w
    proof -
      obtain i s where "p = At_index i # s" using l by (cases p; cases "hd p") (auto simp: is_primitive_def)
      then show ?thesis using 1(1)[OF False 1(2)] l by (metis add_0 leaf_simps(2))
    qed
    then show ?thesis using 1(1)[OF False 1(2)] False by simp
  qed
next
  case (2 r n m)
  show ?case
  proof (cases "n = []")
    case True
    have "\<not> leaf (JObject []) p w" for p w by (cases p; cases "hd p") (auto simp: is_primitive_def)
    then show ?thesis by (simp add: True set_omap_assign subset_insertI)
  next
    case False
    have "path_text (q @ p) \<in> fst ` set (flatten_members r n m)" if l: "leaf (JObject n) p w" for p w
    proof -
      obtain k s where p: "p = At_key k # s" using l by (cases p; cases "hd p") (auto simp: is_primitive_def)
      then obtain x where "map_of n k = Some x" "leaf x s w" using l by auto
      then show ?thesis using 2(1)[OF False 2(2)] map_of_SomeD p by metis
    qed
    then show ?thesis using 2(1)[OF False 2(2)] False by simp
  qed
next
  case (5 r i x xs m)
  have a: "fst ` set m \<subseteq> fst ` set (flatten_into (index_path r i) x m)"
    "leaf x p w \<Longrightarrow> path_text (q @ At_index i # p) \<in> fst ` set (flatten_into (index_path r i) x m)" for p w
    using 5(1)[of "q @ [At_index i]"] 5(3) by (auto simp: path_text_append)
  have b: "fst ` set (flatten_into (index_path r i) x m) \<subseteq> fst ` set (flatten_elements r i (x # xs) m)"
    "k < length xs \<Longrightarrow> leaf (xs ! k) p w \<Longrightarrow>
      path_text (q @ At_index (Suc i + k) # p) \<in> fst ` set (flatten_elements r i (x # xs) m)" for k p w
    using 5(2)[OF 5(3)] by (simp_all only: flatten_elements.simps)
  have "path_text (q @ At_index (i + k) # p) \<in> fst ` set (flatten_elements r i (x # xs) m)"
    if "k < length (x # xs)" "leaf ((x # xs) ! k) p w" for k p w
  proof (cases k)
    case 0
    then show ?thesis using a(2) b(1) that by auto
  next
    case (Suc l)
    then show ?thesis using b(2)[of l p w] that by simp
  qed
  then show ?case using a(1) b(1) by blast
next
  case (7 r k x n m)
  have a: "fst ` set m \<subseteq> fst ` set (flatten_into (key_path r k) x m)"
    "leaf x p w \<Longrightarrow> path_text (q @ At_key k # p) \<in> fst ` set (flatten_into (key_path r k) x m)" for p w
    using 7(1)[of "q @ [At_key k]"] 7(3) by (auto simp: path_text_append)
  have b: "fst ` set (flatten_into (key_path r k) x m) \<subseteq> fst ` set (flatten_members r ((k, x) # n) m)"
    "(l, y) \<in> set n \<Longrightarrow> leaf y p w \<Longrightarrow>
      path_text (q @ At_key l # p) \<in> fst ` set (flatten_members r ((k, x) # n) m)" for l y p w
    using 7(2)[OF 7(3)] by (simp_all only: flatten_members.simps)
  show ?case
  proof (intro conjI allI impI)
    show "fst ` set m \<subseteq> fst ` set (flatten_members r ((k, x) # n) m)" using a(1) b(1) by (rule subset_trans)
    fix l y p w assume "(l, y) \<in> set ((k, x) # n)" "leaf y p w"
    then show "path_text (q @ At_key l # p) \<in> fst ` set (flatten_members r ((k, x) # n) m)"
      using subsetD[OF b(1) a(2)[of p w]] b(2)[of l y p w] by (auto simp del: flatten_members.simps)
  qed
qed (simp_all add: leaf_primitive is_primitive_def set_omap_assign subset_insertI)

lemma flatten_ok:
  "omap_ok m \<Longrightarrow> omap_ok (flatten_into r j m)"
  "omap_ok m \<Longrightarrow> omap_ok (flatten_elements r i xs m)"
  "omap_ok m \<Longrightarrow> omap_ok (flatten_members r n m)"
  by (induction r j m and r i xs m and r n m rule: flatten_into_flatten_elements_flatten_members.induct)
     (simp_all add: omap_ok_assign)

lemma flatten_leaves:
  assumes "flattenable j" "ordered j"
  shows "(t, w) \<in> set (flatten_into [] j []) \<longleftrightarrow> (\<exists>p. t = path_text p \<and> leaf j p w)"
proof
  assume "(t, w) \<in> set (flatten_into [] j [])"
  then show "\<exists>p. t = path_text p \<and> leaf j p w"
    using flatten_entries(1)[OF _ path_text_append(1)[symmetric] assms, of t w "[]"] by simp
next
  assume "\<exists>p. t = path_text p \<and> leaf j p w"
  then obtain p where p: "t = path_text p" "leaf j p w" by blast
  then have "t \<in> fst ` set (flatten_into [] j [])"
    using flatten_keys(1)[OF path_text_append(1)[symmetric], of "[]" j] by auto
  then obtain v where v: "(t, v) \<in> set (flatten_into [] j [])" by auto
  then obtain q where q: "t = path_text q" "leaf j q v"
    using flatten_entries(1)[OF _ path_text_append(1)[symmetric] assms, of t v "[]"] by auto
  have "p = q" using p q path_text_inject[of p j w q v] by (simp add: leaf_def)
  then have "v = w" using p q by (simp add: leaf_def)
  then show "(t, w) \<in> set (flatten_into [] j [])" using v by simp
qed

subsection \<open>The part of a value that some paths make up\<close>

definition below :: "path_step \<Rightarrow> path list \<Rightarrow> path list" where
  "below s ps = map tl (filter (\<lambda>p. p \<noteq> [] \<and> hd p = s) ps)"

lemma below_simps [simp]:
  "below s [] = []"
  "below s ((t # p) # ps) = (if s = t then p # below s ps else below s ps)"
  "q \<in> set (below s ps) \<longleftrightarrow> s # q \<in> set ps"
proof -
  show "q \<in> set (below s ps) \<longleftrightarrow> s # q \<in> set ps"
    by (force simp: below_def image_iff neq_Nil_conv)
qed (auto simp: below_def)

fun width :: "path list \<Rightarrow> nat" where
  "width [] = 0"
| "width ((At_index i # p) # ps) = max (width ps) (Suc i)"
| "width (p # ps) = width ps"

lemma width_le: "(\<And>i p. At_index i # p \<in> set ps \<Longrightarrow> i < n) \<Longrightarrow> width ps \<le> n"
proof (induction ps rule: width.induct)
  case (2 i p ps)
  have "i < n" by (rule "2.prems"[of i p]) simp
  moreover have "width ps \<le> n"
  proof (rule "2.IH")
    fix k q assume "At_index k # q \<in> set ps"
    then show "k < n" using "2.prems"[of k q] by simp
  qed
  ultimately show ?case by simp
qed auto

lemma width_gt: "At_index i # p \<in> set ps \<Longrightarrow> i < width ps"
  by (induction ps rule: width.induct) auto

lemma below_width: "width ps \<le> i \<Longrightarrow> below (At_index i) ps = []"
proof (rule ccontr)
  assume w: "width ps \<le> i" and "below (At_index i) ps \<noteq> []"
  then obtain p where "p \<in> set (below (At_index i) ps)" by (cases "below (At_index i) ps") auto
  then have "i < width ps" using width_gt by simp
  with w show False by simp
qed

fun seen :: "path list \<Rightarrow> json \<Rightarrow> json"
  and seen_elements :: "path list \<Rightarrow> nat \<Rightarrow> json list \<Rightarrow> json list"
  and seen_members :: "path list \<Rightarrow> (string \<times> json) list \<Rightarrow> (string \<times> json) list" where
  "seen ps (JArray xs) = (if ps = [] then JNull else JArray (take (width ps) (seen_elements ps 0 xs)))"
| "seen ps (JObject m) = (if ps = [] then JNull else JObject (seen_members ps m))"
| "seen ps j = (if ps = [] then JNull else j)"
| "seen_elements ps i [] = []"
| "seen_elements ps i (x # xs) = seen (below (At_index i) ps) x # seen_elements ps (Suc i) xs"
| "seen_members ps [] = []"
| "seen_members ps ((k, x) # m) =
     (if below (At_key k) ps = [] then [] else [(k, seen (below (At_key k) ps) x)]) @ seen_members ps m"

lemma seen_nothing [simp]: "seen [] j = JNull" "seen_members [] m = []"
  by (cases j; simp) (induction m; auto)

lemma length_seen_elements [simp]: "length (seen_elements ps i xs) = length xs"
  by (induction xs arbitrary: i) simp_all

lemma nth_seen_elements: "k < length xs \<Longrightarrow> seen_elements ps i xs ! k = seen (below (At_index (i + k)) ps) (xs ! k)"
  by (induction xs arbitrary: i k) (auto simp: nth_Cons split: nat.splits)

lemma seen_members_keys: "fst ` set (seen_members ps m) \<subseteq> fst ` set m"
proof (induction m)
  case (Cons q m)
  then show ?case by (cases q) auto
qed simp

lemma seen_members_ok:
  "omap_ok m \<Longrightarrow> omap_ok (seen_members ps m)
     \<and> map_of (seen_members ps m) k =
       (if below (At_key k) ps = [] then None else map_option (seen (below (At_key k) ps)) (map_of m k))"
proof (induction m)
  case (Cons q m)
  obtain l x where q: "q = (l, x)" by (cases q)
  have m: "omap_ok m" "\<forall>t \<in> fst ` set m. l < t" using Cons.prems by (auto simp: omap_ok_def q)
  then have "\<forall>t \<in> fst ` set (seen_members ps m). l < t" using seen_members_keys[of ps m] by blast
  then have "omap_ok (seen_members ps (q # m))" using Cons.IH m(1) by (auto simp: omap_ok_def q)
  moreover have "map_of m l = None" using m(2) by (force simp: map_of_eq_None_iff)
  ultimately show ?case using Cons.IH m(1) by (auto simp: q)
qed (simp add: omap_ok_def)

subsection \<open>One step of unflatten\<close>

lemma fill_to_take:
  assumes "n \<le> length E" "i < length E" "int i \<le> INT_MAX" "\<And>k. n \<le> k \<Longrightarrow> k < length E \<Longrightarrow> E ! k = JNull"
  shows "fill_to i (take n E) = Inr (take (max n (Suc i)) E)"
proof (cases "i < n")
  case True
  then have "max n (Suc i) = n" by simp
  then show ?thesis using True assms(1) by (simp only: fill_to_def) simp
next
  case False
  have "take n E @ replicate (Suc i - n) JNull = take (Suc i) E"
    using assms False by (intro nth_equalityI) (auto simp: nth_append)
  moreover have "Suc i - n < 2 ^ 59" "n + (Suc i - n) < 2 ^ 59" using assms(3) False by (auto simp: INT_MAX_def)
  ultimately show ?thesis using assms(1) False
    by (simp add: fill_to_def Let_def max_def Suc_diff_le)
qed

lemma map_of_omap_emplace:
  "omap_ok m \<Longrightarrow> map_of (omap_emplace k v m) = (if map_of m k = None then (map_of m)(k \<mapsto> v) else map_of m)"
proof (induction m)
  case (Cons p m)
  obtain j w where p: "p = (j, w)" by (cases p)
  from Cons.prems have m: "omap_ok m" "\<forall>l \<in> fst ` set m. j < l" by (auto simp: omap_ok_def p)
  have "k < j \<Longrightarrow> map_of m k = None" using m(2) by (force simp: map_of_eq_None_iff)
  then show ?case using Cons.IH[OF m(1)] by (auto simp: p fun_eq_iff)
qed (simp add: fun_eq_iff)

text \<open>
  Where the paths \<open>ps\<close> have been seen and the next one, \<open>p\<close>, does not begin an array elsewhere than
  at its first element, \<open>get_and_create\<close> finds the place of the next primitive value.
\<close>

definition in_order :: "path list \<Rightarrow> path \<Rightarrow> bool" where
  "in_order ps p \<longleftrightarrow> (\<forall>q i s. p = q @ At_index i # s \<longrightarrow> 0 < i \<longrightarrow> (\<exists>t. q @ At_index 0 # t \<in> set ps))"

lemma in_order_below: "in_order ps (s # p) \<Longrightarrow> in_order (below s ps) p"
  unfolding in_order_def by (metis append_Cons below_simps(3))

definition placed :: "path \<Rightarrow> json \<Rightarrow> path list \<Rightarrow> json \<Rightarrow> bool" where
  "placed p v ps j \<longleftrightarrow>
     (\<exists>r. get_and_create (map step_token p) (seen ps j) = Inr (r, p) \<and> json_update p (\<lambda>_. v) r = seen (p # ps) j)"

lemma placed_index:
  assumes i: "i < length xs" "int i \<le> INT_MAX" and first: "ps = [] \<Longrightarrow> i = 0"
    and ps: "\<And>k q. At_index k # q \<in> set ps \<Longrightarrow> k < length xs"
    and IH: "placed p v (below (At_index i) ps) (xs ! i)"
  shows "placed (At_index i # p) v ps (JArray xs)"
proof -
  let ?E = "seen_elements ps 0 xs" and ?b = "below (At_index i) ps"
  let ?es = "take (max (width ps) (Suc i)) ?E"
  obtain r where r: "get_and_create (map step_token p) (seen ?b (xs ! i)) = Inr (r, p)"
    "json_update p (\<lambda>_. v) r = seen (p # ?b) (xs ! i)" using IH by (auto simp: placed_def)
  have w: "width ps \<le> length xs" using ps by (rule width_le)
  have null: "width ps \<le> k \<Longrightarrow> k < length ?E \<Longrightarrow> ?E ! k = JNull" for k
    by (simp add: nth_seen_elements below_width)
  have fill: "fill_to i (take (width ps) ?E) = Inr ?es"
    using w i null by (intro fill_to_take) simp_all
  have li: "i < length ?es" using i(1) by (simp add: less_max_iff_disj)
  have ei: "?es ! i = seen ?b (xs ! i)" using i(1) by (simp add: nth_seen_elements)
  have "get_and_create (map step_token (At_index i # p)) (seen ps (JArray xs)) = Inr (JArray (?es[i := r]), At_index i # p)"
  proof (cases "ps = []")
    case True
    have "dec_nat 0 = ''0''" by code_simp
    then show ?thesis using fill ei r(1) first[OF True] by (simp add: True subscript_index_def)
  next
    case False
    then show ?thesis using fill ei r(1) i(2) by (simp add: subscript_index_def caught_index_dec_nat)
  qed
  moreover have "json_update (At_index i # p) (\<lambda>_. v) (JArray (?es[i := r])) = JArray (?es[i := seen (p # ?b) (xs ! i)])"
    using li r(2) by (simp only: json_update.simps if_True nth_list_update_eq length_list_update list_update_overwrite)
  moreover have "?es[i := seen (p # ?b) (xs ! i)] = take (max (width ps) (Suc i)) (seen_elements ((At_index i # p) # ps) 0 xs)"
    by (rule nth_equalityI) (auto simp: nth_list_update nth_seen_elements)
  moreover have "seen ((At_index i # p) # ps) (JArray xs)
      = JArray (take (max (width ps) (Suc i)) (seen_elements ((At_index i # p) # ps) 0 xs))" by simp
  ultimately show ?thesis unfolding placed_def by metis
qed

lemma placed_key:
  assumes m: "omap_ok m" "map_of m k = Some x" and k: "k \<noteq> ''0''"
    and IH: "placed p v (below (At_key k) ps) x"
  shows "placed (At_key k # p) v ps (JObject m)"
proof -
  let ?b = "below (At_key k) ps" and ?M = "seen_members ps m"
  let ?m = "omap_emplace k JNull ?M"
  obtain r where r: "get_and_create (map step_token p) (seen ?b x) = Inr (r, p)"
    "json_update p (\<lambda>_. v) r = seen (p # ?b) x" using IH by (auto simp: placed_def)
  have M: "omap_ok ?M" "map_of ?M l = (if below (At_key l) ps = [] then None else map_option (seen (below (At_key l) ps)) (map_of m l))"
    for l using seen_members_ok[OF m(1), of ps] by simp_all
  have "map_of ?m k = Some (seen ?b x)" using m(2) by (simp add: map_of_omap_emplace[OF M(1)] M(2))
  then have g: "get_and_create (map step_token (At_key k # p)) (seen ps (JObject m))
      = Inr (JObject (omap_assign k r ?m), At_key k # p)"
    using r(1) k by (cases "ps = []") (simp_all add: subscript_key_def)
  have "omap_assign k (seen (p # ?b) x) ?M = seen_members ((At_key k # p) # ps) m"
    using m M seen_members_ok[OF m(1), of "(At_key k # p) # ps"]
    by (intro omap_eqI omap_ok_assign) (simp_all add: map_of_omap_assign fun_eq_iff)
  then show ?thesis using g r(2) by (simp add: placed_def update_assign omap_assign_emplace)
qed

lemma leaf_placed:
  "leaf j p v \<Longrightarrow> flattenable j \<Longrightarrow> patchable j \<Longrightarrow> in_order ps p \<Longrightarrow> \<forall>q \<in> set ps. \<exists>w. leaf j q w \<Longrightarrow>
     placed p v ps j"
proof (induction p arbitrary: j ps)
  case Nil
  then show ?case by (cases j) (auto simp: placed_def is_primitive_def)
next
  case (Cons s p)
  show ?case
  proof (cases s)
    case (At_index i)
    with Cons.prems(1) obtain xs where j: "j = JArray xs" by (cases j) (auto simp: leaf_def)
    have i: "i < length xs" "leaf (xs ! i) p v" using Cons.prems(1) by (simp_all add: j At_index)
    have "placed p v (below s ps) (xs ! i)"
    proof (rule Cons.IH[OF i(2)])
      show "flattenable (xs ! i)" "patchable (xs ! i)"
        using Cons.prems(2,3) i(1) by (simp_all add: j patchable_array list_all_length)
      show "in_order (below s ps) p" using Cons.prems(4) by (rule in_order_below)
      show "\<forall>q \<in> set (below s ps). \<exists>w. leaf (xs ! i) q w" using Cons.prems(5) by (force simp: j At_index)
    qed
    moreover have "int i \<le> INT_MAX" using Cons.prems(3) i(1) by (simp add: j patchable_array)
    moreover have "ps = [] \<Longrightarrow> i = 0" using Cons.prems(4) by (force simp: in_order_def At_index)
    moreover have "At_index k # q \<in> set ps \<Longrightarrow> k < length xs" for k q using Cons.prems(5) by (force simp: j)
    ultimately show ?thesis using i(1) unfolding At_index j by (intro placed_index) simp_all
  next
    case (At_key k)
    with Cons.prems(1) obtain m where j: "j = JObject m" by (cases j) (auto simp: leaf_def)
    obtain x where x: "map_of m k = Some x" "leaf x p v" using Cons.prems(1) by (auto simp: j At_key)
    then have kx: "(k, x) \<in> set m" by (simp add: map_of_SomeD)
    have "placed p v (below s ps) x"
    proof (rule Cons.IH[OF x(2)])
      show "flattenable x" "patchable x" using Cons.prems(2,3) kx by (auto simp: j patchable_object list_all_iff)
      show "in_order (below s ps) p" using Cons.prems(4) by (rule in_order_below)
      show "\<forall>q \<in> set (below s ps). \<exists>w. leaf x q w" using Cons.prems(5) x(1) by (force simp: j At_key)
    qed
    moreover have "omap_ok m" "k \<noteq> ''0''" using Cons.prems(2,3) kx by (auto simp: j patchable_object list_all_iff)
    ultimately show ?thesis using x(1) unfolding At_key j by (intro placed_key)
  qed
qed

subsection \<open>When all has been seen\<close>

lemma leaf_exists: "flattenable j \<Longrightarrow> ordered j \<Longrightarrow> \<exists>p v. leaf j p v"
proof (induction j)
  case (JObject m)
  then obtain k x n where m: "m = (k, x) # n" by (cases m) auto
  from JObject.IH[of "(k, x)" x] JObject.prems obtain p v where "leaf x p v" by (auto simp: m)
  then have "leaf (JObject m) (At_key k # p) v" by (simp add: m)
  then show ?case by blast
next
  case (JArray xs)
  then obtain x ys where xs: "xs = x # ys" by (cases xs) auto
  from JArray.IH[of x] JArray.prems obtain p v where "leaf x p v" by (auto simp: xs)
  then have "leaf (JArray xs) (At_index 0 # p) v" by (simp add: xs)
  then show ?case by blast
qed (auto simp: is_primitive_def intro!: exI[of _ "[]"])

lemma seen_all:
  "flattenable j \<Longrightarrow> ordered j \<Longrightarrow> \<forall>p. p \<in> set ps \<longleftrightarrow> (\<exists>v. leaf j p v) \<Longrightarrow> seen ps j = j"
proof (induction j arbitrary: ps)
  case (JObject m)
  have ok: "omap_ok m" using JObject.prems(2) by simp
  have b: "seen (below (At_key k) ps) x = x" "below (At_key k) ps \<noteq> []" if k: "map_of m k = Some x" for k x
  proof -
    have kx: "(k, x) \<in> set m" using k by (rule map_of_SomeD)
    have x: "flattenable x" "ordered x" using JObject.prems(1,2) kx by (auto simp: list_all_iff)
    have all: "\<forall>p. p \<in> set (below (At_key k) ps) \<longleftrightarrow> (\<exists>v. leaf x p v)" using JObject.prems(3) k by simp
    show "seen (below (At_key k) ps) x = x" using JObject.IH[OF kx _ x all] by simp
    show "below (At_key k) ps \<noteq> []" using leaf_exists[OF x] all by (metis empty_iff list.set(1))
  qed
  have "ps \<noteq> []" using leaf_exists[OF JObject.prems(1,2)] JObject.prems(3) by (metis empty_iff list.set(1))
  moreover have "map_of (seen_members ps m) k = map_of m k" for k
    using b[of k] by (cases "map_of m k") (simp_all add: seen_members_ok[OF ok])
  then have "seen_members ps m = m" using seen_members_ok[OF ok] ok by (intro omap_eqI) (simp_all add: fun_eq_iff)
  ultimately show ?case by simp
next
  case (JArray xs)
  have b: "seen (below (At_index i) ps) (xs ! i) = xs ! i" "\<exists>p. At_index i # p \<in> set ps" if i: "i < length xs" for i
  proof -
    have x: "flattenable (xs ! i)" "ordered (xs ! i)" using JArray.prems(1,2) i by (simp_all add: list_all_length)
    have all: "\<forall>p. p \<in> set (below (At_index i) ps) \<longleftrightarrow> (\<exists>v. leaf (xs ! i) p v)" using JArray.prems(3) i by simp
    show "seen (below (At_index i) ps) (xs ! i) = xs ! i" using JArray.IH[OF _ x all] i by simp
    show "\<exists>p. At_index i # p \<in> set ps" using leaf_exists[OF x] all by auto
  qed
  have "width ps \<le> length xs" using JArray.prems(3) by (intro width_le) (auto simp del: leaf_simps(1))
  moreover have "length xs \<le> width ps"
  proof (cases xs rule: rev_cases)
    case (snoc ys y)
    then show ?thesis using b(2)[of "length ys"] width_gt[of "length ys" _ ps] by (auto simp: Suc_le_eq)
  qed simp
  moreover have "ps \<noteq> []" using leaf_exists[OF JArray.prems(1,2)] JArray.prems(3) by (metis empty_iff list.set(1))
  moreover have "seen_elements ps 0 xs = xs" by (rule nth_equalityI) (simp_all add: nth_seen_elements b(1))
  ultimately show ?case by simp
next
  case JNull
  then show ?case by (cases ps) simp_all
qed (auto simp: leaf_primitive is_primitive_def)

lemma json_at_flattenable:
  "json_at q j = Some y \<Longrightarrow> flattenable j \<Longrightarrow> ordered j \<Longrightarrow> flattenable y \<and> ordered y"
proof (induction q j rule: json_at.induct)
  case (2 i p xs)
  then show ?case by (simp add: list_all_length split: if_splits)
next
  case (3 k p m)
  then obtain x where x: "map_of m k = Some x" "json_at p x = Some y" by (auto simp: Option.bind_eq_Some_conv)
  then have "(k, x) \<in> set m" by (simp add: map_of_SomeD)
  with 3 x show ?case by (auto simp: list_all_iff)
qed simp_all

lemma leaves_in_order:
  assumes j: "flattenable j" "ordered j" and p: "leaf j p v"
    and before: "\<And>q w. leaf j q w \<Longrightarrow> path_text q < path_text p \<Longrightarrow> q \<in> set ps"
  shows "in_order ps p"
  unfolding in_order_def
proof (intro allI impI)
  fix q i s
  assume s: "p = q @ At_index i # s" and i: "0 < i"
  obtain y where y: "json_at q j = Some y" "json_at (At_index i # s) y = Some v"
    using p by (auto simp: leaf_def s json_at_append Option.bind_eq_Some_conv)
  then obtain xs where xs: "y = JArray xs" "i < length xs" by (cases y) (auto split: if_splits)
  have "flattenable y" "ordered y" using json_at_flattenable[OF y(1) j] by simp_all
  then have "flattenable (xs ! 0)" "ordered (xs ! 0)" using xs i by (auto simp: list_all_length)
  then obtain t w where "leaf (xs ! 0) t w" using leaf_exists by blast
  then have "leaf j (q @ At_index 0 # t) w" using y(1) xs i by (auto simp: leaf_def json_at_append)
  then show "\<exists>t. q @ At_index 0 # t \<in> set ps"
    using before path_text_first[OF i] unfolding s by blast
qed

lemma unflatten_rest:
  assumes j: "flattenable j" "patchable j" and F: "flatten_into [] j [] = pre @ es"
    and ps: "\<And>p. p \<in> set ps \<longleftrightarrow> (\<exists>v. leaf j p v \<and> (path_text p, v) \<in> set pre)"
  shows "unflatten_loop es (seen ps j) = Inr j"
  using F ps
proof (induction es arbitrary: pre ps)
  case Nil
  have "ordered j" using j(2) by (simp add: patchable_def)
  moreover from this have "\<forall>p. p \<in> set ps \<longleftrightarrow> (\<exists>v. leaf j p v)" using Nil flatten_leaves[OF j(1)] by auto
  ultimately show ?case using seen_all[OF j(1)] by simp
next
  case (Cons e es)
  obtain t v where e: "e = (t, v)" by (cases e)
  have oj: "ordered j" using j(2) by (simp add: patchable_def)
  note leaves = flatten_leaves[OF j(1) oj, unfolded Cons.prems(1)]
  have "omap_ok (pre @ e # es)" using flatten_ok(1)[of "[]" "[]" j] by (simp add: Cons.prems(1) omap_ok_def)
  then have less: "(u, w) \<in> set pre" if "(u, w) \<in> set (pre @ e # es)" "u < t" for u w
    using that by (auto simp: omap_ok_def sorted_wrt_append e)
  obtain p where p: "t = path_text p" "leaf j p v" using leaves[of t v] by (auto simp: e)
  have "in_order ps p"
  proof (rule leaves_in_order[OF j(1) oj p(2)])
    fix q w assume "leaf j q w" "path_text q < path_text p"
    then show "q \<in> set ps" using leaves[of "path_text q" w] less p(1) by (auto simp: Cons.prems(2))
  qed
  then have "placed p v ps j" using p(2) j Cons.prems(2) by (intro leaf_placed) auto
  moreover have "unflatten_loop es (seen (p # ps) j) = Inr j"
  proof (rule Cons.IH)
    show "flatten_into [] j [] = (pre @ [e]) @ es" using Cons.prems(1) by simp
    show "q \<in> set (p # ps) \<longleftrightarrow> (\<exists>v. leaf j q v \<and> (path_text q, v) \<in> set (pre @ [e]))" for q
      using p path_text_inject[of q j _ p v] Cons.prems(2)[of q] by (auto simp: e leaf_def)
  qed
  moreover have "split_pointer t = Inr (map step_token p)" by (simp add: p(1) path_text_def split_pointer_to_string)
  moreover have "is_primitive v" using p(2) by (simp add: leaf_def)
  ultimately show ?case by (auto simp: e placed_def)
qed

subsection \<open>Properties\<close>

text \<open>
  C40: \<open>unflatten\<close> puts together what \<open>flatten\<close> took apart, for every value whose containers are not
  empty and which has no object with the key 0: the code takes a token 0 that comes first for the
  start of an array. Objects are ordered maps, arrays short enough for the indices \<open>std::stoi\<close> reads.
\<close>

theorem flatten_round_trip:
  assumes "flattenable j" "patchable j"
  shows "json_unflatten (json_flatten j) = Inr j"
  using unflatten_rest[OF assms, of "[]" "flatten_into [] j []" "[]"]
  by (simp add: json_unflatten_def json_flatten_def)

theorem flatten_round_trip_witness:
  "json_unflatten (json_flatten (JObject [(''a'', JArray [JUnsigned 1, JArray [JNull, JString ''x'']]), (''b/c'', JBoolean True)]))
   = Inr (JObject [(''a'', JArray [JUnsigned 1, JArray [JNull, JString ''x'']]), (''b/c'', JBoolean True)])"
  by (rule flatten_round_trip) (simp_all add: patchable_def omap_ok_def less_char_def INT_MAX_def)

text \<open>The documentation excepts empty containers only, but an object with the key 0 becomes an array.\<close>

lemma zero_key_becomes_array:
  "json_unflatten (json_flatten (JObject [(''0'', JUnsigned 1)])) = Inr (JArray [JUnsigned 1])"
proof -
  have "split_pointer ''/0'' = Inr [''0'']"
    using split_pointer_to_string[of "[''0'']"]
    by (simp add: pointer_to_string_def escape_token_chars escape_char_def)
  then show ?thesis
    by (simp add: json_unflatten_def json_flatten_def key_path_def escape_token_chars escape_char_def
        is_primitive_def subscript_index_def fill_to_def)
qed

end
