(* ===== verification/Spec2Isabelle.thy ===== *)
theory Spec2Isabelle
  imports Prelude Errors Expected Shared_Map Cache Deferred Regex Address Json MsgPack Amqp Registry
    Connection Fetch Replay Owned Listen Serving Callbacks Rpc Pool Broker System Dotenv Json_Text Json_Flatten
begin

text \<open>
  A verification library for capy-amqp-cpp, a C++17 client library for remote calls over AMQP.

  THE PROGRAM. An application binds a \<open>Broker\<close> to an address and an exchange (\<open>amqp_broker.h\<close>) and
  then publishes messages, fetches (sends a request and waits for the one reply) or listens
  (serves requests from a queue). \<open>Broker\<close> forwards to \<open>BrokerImpl\<close> (\<open>broker_impl/broker.h\<close>,
  \<open>broker.cc\<close>), which talks to the AMQP-CPP library through channels on one connection per thread.
  Whatever the application is told arrives through the callbacks of a deferred object
  (\<open>amqp_deferred.h\<close>) that a sharded cache (\<open>amqp_cache.h\<close>) keeps under an id; values and errors
  travel as \<open>Result\<close> (\<open>amqp_expected.h\<close>, \<open>amqp_common.h\<close>), messages as JSON values in MessagePack
  (\<open>nlohmann/json.h\<close>), which the application prints and parses as JSON text with the same header.
  Names of files below are those under \<open>src/include/capy\<close>, \<open>src/src\<close> and \<open>src/external\<close>.

  THE THEORIES, in the order of their imports.
   - \<open>Prelude\<close>: machine types, C strings, decimal rendering, \<open>std::map\<close>, collections of rules.
   - \<open>Errors\<close>: error enumerations, categories, \<open>Error\<close>, \<open>error_string\<close> (\<open>amqp_common\<close>); \<open>outcome\<close>,
     how a C++ call ends: a value, an exception, undefined behaviour, the end of the process.
   - \<open>Expected\<close>: \<open>storage_t\<close>, \<open>expected\<close> and \<open>expected<void>\<close> (\<open>amqp_expected.h\<close>), with the sum
     type as their abstraction.
   - \<open>Shared_Map\<close>, \<open>Cache\<close>: the contract of a map of shared pointers, a locale, and the sharded
     cache that implements it (interpretation \<open>ptr_cache\<close>).
   - \<open>Deferred\<close>: callbacks, the stored error and the flag of a deferred object.
   - \<open>Regex\<close>, \<open>Address\<close>: a backtracking matcher, and \<open>Address::From\<close> over it (\<open>amqp_address\<close>).
   - \<open>Json\<close>, \<open>MsgPack\<close>: JSON values; the MessagePack writer and reader (\<open>nlohmann/json.h\<close>).
   - \<open>Amqp\<close>: the commands given to AMQP-CPP, and steps that record them.
   - \<open>Registry\<close>, \<open>Owned\<close>: caches of deferred objects with use counts; owners outside the cache.
   - \<open>Connection\<close>: \<open>ConnectionCache\<close>, \<open>Connection\<close>, \<open>Channel\<close>, \<open>ConnectionHandler\<close>.
   - \<open>Fetch\<close>: \<open>fetch_message\<close> and its callbacks, one definition each.
   - \<open>Replay\<close>, \<open>Listen\<close>: \<open>ReplayImpl\<close>; \<open>listen_messages\<close>, its callbacks, \<open>commit\<close>, connection
     errors.
   - \<open>Serving\<close>: what holds of a server; \<open>Callbacks\<close>: which of its callbacks can be undefined
     behaviour, and when; \<open>Rpc\<close>: \<open>fetch\<close>, \<open>listen\<close> and \<open>commit\<close> composed.
   - \<open>Pool\<close>: the object pool, as a step relation between threads (\<open>broker_impl/pool.h\<close>).
   - \<open>Broker\<close>: \<open>Bind\<close>, \<open>publish\<close>, and \<open>fetch\<close> and \<open>listen\<close> over the state they share.
   - \<open>System\<close>: everything that can happen to a broker, as an inductive step relation between states
     in which the step returned or threw; what ends in undefined behaviour or ends the process has
     no state after it, and the property of reachable brokers says which callbacks may do so.
   - \<open>Lexer\<close>, \<open>Text_Parser\<close>: \<open>detail::lexer\<close>; \<open>detail::parser\<close>, the consumers of its events,
     \<open>json::parse\<close> and \<open>json::accept\<close>, and the recursive descent they are compared with
     (\<open>nlohmann/json.h\<close>).
   - \<open>Text_Writer\<close>: \<open>detail::serializer\<close> and \<open>json::dump\<close>; \<open>Grisu\<close>: \<open>detail::to_chars\<close>; \<open>Utf8\<close>:
     UTF-8 by the ranges of the scanner; \<open>Decoder\<close>: the decoder of the serializer is that of \<open>Utf8\<close>.
   - \<open>Escaping\<close>, \<open>Number_Text\<close>, \<open>Text_Printing\<close>: what the serializer writes for strings, integers
     and values, as functions from values to text, and when it throws.
   - \<open>Text_Reading\<close>, \<open>Text_Tokens\<close>, \<open>Text_Round_Trip\<close>: what the lexer and the parser make of that
     text.
   - \<open>Grisu_Digits\<close>, \<open>Grisu_Powers\<close>, \<open>Grisu_Scaling\<close>, \<open>Grisu_Generation\<close>, \<open>Float_Text\<close>: the
     arithmetic of Grisu2 from \<open>diyfp\<close> up to the text of a double, with the real numbers it stands
     for.
   - \<open>Json_Text\<close>: the properties of JSON text; the ranges of the scanner are UTF-8 as the Unicode
     Standard defines it (\<open>utf8_ok_unicode\<close>).
   - \<open>Json_Access\<close>, \<open>Json_Pointer\<close>, \<open>Json_Patch\<close>: comparison of JSON values and access to their
     elements; \<open>json_pointer\<close>; \<open>patch\<close>, \<open>diff\<close>, \<open>merge_patch\<close>, \<open>flatten\<close>, \<open>unflatten\<close>;
     \<open>Json_Patch_Laws\<close>, \<open>Json_Flatten\<close>: their properties, the place an operation changes seen as a
     path with the value around it (\<open>hole\<close>), what \<open>unflatten\<close> has built so far as the part of the
     value that the paths already seen make up (\<open>seen\<close>).
   - \<open>Dotenv\<close>: the parser of .env files and \<open>get_dotenv\<close> (\<open>dotenv/dotenv.h\<close>, \<open>amqp.h\<close>).

  HOW CODE IS WRITTEN AS HOL. A class is a \<open>record\<close> of its members, a union a \<open>datatype\<close> whose
  constructors say which member is alive. A method takes the object and returns it changed, with
  what it did (calls of callbacks, commands) and how it ended. A lambda handed to AMQP-CPP is a
  definition of its own; an event is the library running one, and a run is a list of events, in
  any order and number. The library runs a callback after the call that registered it has
  returned; only for the transaction of a reply the other case is a definition of its own
  (\<open>replay_commit_refused\<close>). A \<open>shared_ptr\<close> is a number into a heap with use counts, a raw pointer one
  into a heap without. Operations of the cache, of a deferred object and of the pool hold a lock
  for their whole body (the pool gives it up to wait), so each is one step.

  WHAT THE LEMMAS SHOW. The invariants \<open>connections_ok\<close> (no two threads share a connection),
  \<open>reg_ok\<close> and \<open>reg_solo\<close> (one owner per request), \<open>server_ok\<close> (use counts equal owners),
  \<open>broker_ok\<close>, \<open>system_ok\<close> (no id is shared) and \<open>pool_inv\<close> hold initially and after every step.
  What is promised for later states (a lost connection that nobody hears of, completion handlers
  that never run, threads that wait) is proved over runs of any length, the last one over infinite
  runs under two fairness assumptions: holders of an object give it back, and a thread that again
  and again could take one does so some time.
  Refinements: the cache to a map, \<open>expected\<close> to a sum, registries to maps from ids to pending
  requests, \<open>Address::From\<close> and the .env parser to direct functions on texts, the pool to a queue,
  \<open>json::parse\<close> to a recursive descent, \<open>json::dump\<close> to a printer. Round trips: MessagePack, JSON
  text, JSON pointers, flattened values, addresses, .env files, and a whole remote call. A patch made by \<open>diff\<close> leads
  from its source to its target. Floating point: every entry of the table
  of cached powers is the power of ten rounded to 64 bits (a chain of products from the one exact
  entry, with 40 more bits), no operation of Grisu2 wraps around, both its loops end, its digits
  are 17 at most and denote a real that rounds to the double. Error paths: each callback with an
  error, bytes that do not parse, lost connections, refused transactions. Where the code has a
  defect the property states what happens.

  PARAMETERS AND BOUNDS. Hash functions, the clock, whether opening a channel or running a
  callback throws, the texts of \<open>std::stoi\<close>, \<open>strtod\<close> and the decimal point of the locale, and
  what uninitialised memory holds are arguments of the definitions. Of \<open>strtod\<close> only the round
  trip of text assumes something, that it rounds to nearest. An indentation of \<open>dump\<close> is at most
  512 in the properties: the code doubles its indentation string once per level only, and beyond
  1025 reads past its end (\<open>wide_indentation_overruns\<close>). Machine integers are words; \<open>std::abs\<close> of
  the least 64 bit integer, undefined in C++, wraps around as the hardware does (\<open>dump_abs\<close>); the id
  counter is an \<open>int\<close> with undefined overflow. The model is of a little endian machine with 64 bit
  \<open>size_t\<close>. No fuel is used: every loop terminates, by a measure given with it, but for the wait
  of \<open>publish\<close>, which returns only when the server settles the transaction (\<open>None\<close> otherwise), and
  the wait of the pool, which is a state of a thread.

  NOT MODELLED. AMQP-CPP, libuv and the dispatch queue are not in the repository. Of
  \<open>nlohmann/json.h\<close> values, MessagePack, text, pointers and patches only: no iterators or other
  binary formats, and of \<open>parse\<close> no callback, which no caller here passes. \<open>Node\<close> of \<open>pool.h\<close> is
  used by nothing. Locks below the granularity above, so no data races (the reports of
  \<open>amqp_deferred.h\<close> write under a shared lock; the id counter is not atomic). The destruction of a
  broker after its flush. Copies and moves of values are not told apart.
\<close>

end
